(* ===== verification/Prelude.thy ===== *)
theory Prelude
  imports Complex_Main "HOL-Library.AList" "HOL-Library.Multiset"
begin

text \<open>
  What every component shares: results of calls that may throw, JavaScript's \<open>Map\<close>,
  \<open>Set\<close>, plain objects and arrays, decimal printing, stable sorting with a comparator, and
  the generic facts about reachability that the graph traversals use.

  \<^item> A call that may throw returns \<open>'e + 'a\<close>: \<open>Inl\<close> the error, \<open>Inr\<close> the value.
  \<^item> A \<open>Map\<close> is an association list with distinct keys in insertion order. \<open>set\<close> on a key that is
    present overwrites in place, as \<^term>\<open>AList.update\<close> does; \<open>delete\<close> is \<^term>\<open>AList.delete\<close>.
  \<^item> A \<open>Set\<close> is a list without duplicates in insertion order.
  \<^item> A plain object used as a dictionary is an association list too; its enumeration order is
    \<open>own_keys\<close>, in which the keys that are array indices come first and in numeric order. The
    prototype chain is not modelled: node names such as \<open>constructor\<close> are refused by the program.
  \<^item> \<open>===\<close> on objects is equality of values that carry their identity (see \<open>Workflow_Types\<close>).
\<close>

section \<open>Hint collections\<close>

named_theorems js_simps
named_theorems wf_intros

section \<open>Results of calls that may throw\<close>

fun bind_result :: "'e + 'a \<Rightarrow> ('a \<Rightarrow> 'e + 'b) \<Rightarrow> 'e + 'b" where
  "bind_result (Inl e) f = Inl e"
| "bind_result (Inr a) f = f a"

lemma bind_result_cong [fundef_cong]:
  "r = r' \<Longrightarrow> (\<And>a. r' = Inr a \<Longrightarrow> f a = g a) \<Longrightarrow> bind_result r f = bind_result r' g"
  by (cases r') auto

lemma bind_result_Inr_iff [js_simps]:
  "bind_result r f = Inr b \<longleftrightarrow> (\<exists>a. r = Inr a \<and> f a = Inr b)"
  by (cases r) auto

lemma bind_result_Inl_iff [js_simps]:
  "bind_result r f = Inl e \<longleftrightarrow> r = Inl e \<or> (\<exists>a. r = Inr a \<and> f a = Inl e)"
  by (cases r) auto

text \<open>A \<open>for ... of\<close> loop whose body may throw, over a state.\<close>

fun fold_result :: "('a \<Rightarrow> 's \<Rightarrow> 'e + 's) \<Rightarrow> 'a list \<Rightarrow> 's \<Rightarrow> 'e + 's" where
  "fold_result f [] s = Inr s"
| "fold_result f (x # xs) s = bind_result (f x s) (fold_result f xs)"

lemma fold_result_cong [fundef_cong]:
  "xs = ys \<Longrightarrow> s = t \<Longrightarrow> (\<And>x s. x \<in> set ys \<Longrightarrow> f x s = g x s) \<Longrightarrow>
   fold_result f xs s = fold_result g ys t"
proof (induction ys arbitrary: xs s t)
  case (Cons y ys)
  then show ?case
    by (cases "g y t") auto
qed simp

lemma fold_result_append:
  "fold_result f (xs @ ys) s = bind_result (fold_result f xs s) (fold_result f ys)"
proof (induction xs arbitrary: s)
  case (Cons x xs)
  then show ?case by (cases "f x s") auto
qed simp

lemma fold_result_inv:
  assumes "fold_result f xs s = Inr t" and "P s"
    and "\<And>x s s'. x \<in> set xs \<Longrightarrow> P s \<Longrightarrow> f x s = Inr s' \<Longrightarrow> P s'"
  shows "P t"
  using assms
proof (induction xs arbitrary: s)
  case (Cons x xs)
  then obtain s' where s': "f x s = Inr s'" and rest: "fold_result f xs s' = Inr t"
    by (auto simp: js_simps)
  have "P s'" using Cons.prems(3) [of x s s'] Cons.prems(2) s' by simp
  then show ?case using Cons.IH [OF rest] Cons.prems(3) by auto
qed simp

lemma fold_result_total:
  assumes "P s" and "\<And>x s. x \<in> set xs \<Longrightarrow> P s \<Longrightarrow> \<exists>s'. f x s = Inr s' \<and> P s'"
  shows "\<exists>t. fold_result f xs s = Inr t \<and> P t"
  using assms
proof (induction xs arbitrary: s)
  case (Cons x xs)
  then obtain s' where "f x s = Inr s'" and "P s'" by fastforce
  then show ?case using Cons.IH [of s'] Cons.prems(2) by auto
qed simp

lemma fold_result_pure: "fold_result (\<lambda>x s. Inr (f x s)) xs s = Inr (fold f xs s)"
  by (induction xs arbitrary: s) auto

section \<open>Maps in insertion order\<close>

abbreviation map_set :: "'k \<Rightarrow> 'v \<Rightarrow> ('k \<times> 'v) list \<Rightarrow> ('k \<times> 'v) list" where
  "map_set \<equiv> AList.update"

abbreviation map_delete :: "'k \<Rightarrow> ('k \<times> 'v) list \<Rightarrow> ('k \<times> 'v) list" where
  "map_delete \<equiv> AList.delete"

abbreviation map_keys :: "('k \<times> 'v) list \<Rightarrow> 'k list" where
  "map_keys m \<equiv> map fst m"

abbreviation map_values :: "('k \<times> 'v) list \<Rightarrow> 'v list" where
  "map_values m \<equiv> map snd m"

definition map_has :: "('k \<times> 'v) list \<Rightarrow> 'k \<Rightarrow> bool" where
  "map_has m k \<longleftrightarrow> map_of m k \<noteq> None"

declare AList.update_conv' [simp] AList.delete_conv' [simp]

text \<open>The contract of a keyed store, for the components that keep state in a \<open>Map\<close>.\<close>

locale keyed_store =
  fixes lookup :: "'m \<Rightarrow> 'k \<Rightarrow> 'v option"
    and store :: "'k \<Rightarrow> 'v \<Rightarrow> 'm \<Rightarrow> 'm"
    and remove :: "'k \<Rightarrow> 'm \<Rightarrow> 'm"
    and keys :: "'m \<Rightarrow> 'k list"
  assumes lookup_store: "lookup (store k v m) k' = (if k' = k then Some v else lookup m k')"
    and lookup_remove: "lookup (remove k m) k' = (if k' = k then None else lookup m k')"
    and keys_lookup: "k \<in> set (keys m) \<longleftrightarrow> lookup m k \<noteq> None"
    and distinct_store: "distinct (keys m) \<Longrightarrow> distinct (keys (store k v m))"
    and distinct_remove: "distinct (keys m) \<Longrightarrow> distinct (keys (remove k m))"
begin

lemma store_frame: "k' \<noteq> k \<Longrightarrow> lookup (store k v m) k' = lookup m k'"
  by (simp add: lookup_store)

lemma remove_frame: "k' \<noteq> k \<Longrightarrow> lookup (remove k m) k' = lookup m k'"
  by (simp add: lookup_remove)

lemma keys_store: "set (keys (store k v m)) = insert k (set (keys m))"
  by (auto simp: keys_lookup lookup_store split: if_splits)

lemma keys_remove: "set (keys (remove k m)) = set (keys m) - {k}"
  by (auto simp: keys_lookup lookup_remove split: if_splits)

lemma lookup_fold_store:
  "lookup (fold (\<lambda>(k, v). store k v) kvs m) k =
     (case map_of (rev kvs) k of None \<Rightarrow> lookup m k | Some v \<Rightarrow> Some v)"
  by (induction kvs arbitrary: m)
    (auto simp: lookup_store map_add_def split: option.splits)

lemma lookup_fold_remove:
  "lookup (fold remove ks m) k = (if k \<in> set ks then None else lookup m k)"
  by (induction ks arbitrary: m) (auto simp: lookup_remove)

end

lemma map_of_eq_None_notin: "map_of m k = None \<longleftrightarrow> k \<notin> set (map_keys m)"
  by (simp add: map_of_eq_None_iff)

interpretation js_map: keyed_store map_of map_set map_delete map_keys
proof
  fix k and m :: "('a \<times> 'b) list"
  show "k \<in> set (map_keys m) \<longleftrightarrow> map_of m k \<noteq> None"
    by (simp add: map_of_eq_None_notin)
qed (simp_all add: AList.distinct_update AList.distinct_delete)

lemma map_set_fresh: "k \<notin> set (map_keys m) \<Longrightarrow> map_set k v m = m @ [(k, v)]"
  by (induction m) auto

lemma set_map_set:
  "distinct (map_keys m) \<Longrightarrow> set (map_set k v m) = insert (k, v) {p \<in> set m. fst p \<noteq> k}"
  by (induction m) (auto simp: rev_image_eqI)

lemma set_map_delete: "set (map_delete k m) = {p \<in> set m. fst p \<noteq> k}"
  by (auto simp: AList.delete_eq)

lemma map_of_filter_fst:
  "map_of (filter (\<lambda>p. P (fst p)) m) k = (if P k then map_of m k else None)"
  by (induction m) auto

lemma distinct_map_fst_filter: "distinct (map fst m) \<Longrightarrow> distinct (map fst (filter P m))"
  by (induction m) auto

lemma fold_map_set_rebuild:
  assumes "distinct (map_keys (m @ kvs))"
  shows "fold (\<lambda>(k, v). map_set k v) kvs m = m @ kvs"
  using assms
proof (induction kvs arbitrary: m)
  case (Cons kv kvs)
  then show ?case by (cases kv) (simp add: map_set_fresh)
qed simp

section \<open>Sets in insertion order\<close>

definition set_add :: "'a \<Rightarrow> 'a list \<Rightarrow> 'a list" where
  "set_add x xs = (if x \<in> set xs then xs else xs @ [x])"

definition set_delete :: "'a \<Rightarrow> 'a list \<Rightarrow> 'a list" where
  "set_delete x xs = filter (\<lambda>y. y \<noteq> x) xs"

definition set_from :: "'a list \<Rightarrow> 'a list" where
  "set_from xs = fold set_add xs []"

lemma set_set_add [simp]: "set (set_add x xs) = insert x (set xs)"
  by (auto simp: set_add_def)

lemma distinct_set_add [simp]: "distinct (set_add x xs) = distinct xs"
  by (simp add: set_add_def)

lemma set_set_delete [simp]: "set (set_delete x xs) = set xs - {x}"
  by (auto simp: set_delete_def)

lemma distinct_set_delete [simp]: "distinct xs \<Longrightarrow> distinct (set_delete x xs)"
  by (simp add: set_delete_def)

lemma set_fold_set_add [simp]: "set (fold set_add xs acc) = set xs \<union> set acc"
  by (induction xs arbitrary: acc) auto

lemma distinct_fold_set_add [simp]: "distinct (fold set_add xs acc) = distinct acc"
  by (induction xs arbitrary: acc) auto

lemma set_set_from [simp]: "set (set_from xs) = set xs"
  by (simp add: set_from_def)

lemma distinct_set_from [simp]: "distinct (set_from xs)"
  by (simp add: set_from_def)

lemma fold_set_add_distinct:
  "distinct (acc @ xs) \<Longrightarrow> fold set_add xs acc = acc @ xs"
  by (induction xs arbitrary: acc) (auto simp: set_add_def)

lemma set_from_distinct: "distinct xs \<Longrightarrow> set_from xs = xs"
  by (simp add: set_from_def fold_set_add_distinct)

section \<open>Arrays\<close>

text \<open>\<open>xs.at(i)\<close>: a negative index counts from the end, out of range is \<open>undefined\<close>.\<close>

definition arr_at :: "'a list \<Rightarrow> int \<Rightarrow> 'a option" where
  "arr_at xs i =
     (let j = (if i < 0 then int (length xs) + i else i)
      in if 0 \<le> j \<and> j < int (length xs) then Some (xs ! nat j) else None)"

text \<open>\<open>xs[i]\<close> for an array index.\<close>

definition arr_get :: "'a list \<Rightarrow> nat \<Rightarrow> 'a option" where
  "arr_get xs i = (if i < length xs then Some (xs ! i) else None)"

text \<open>\<open>xs[i] = v\<close> on an array whose holes read as \<open>undefined\<close>.\<close>

definition arr_set :: "nat \<Rightarrow> 'a option \<Rightarrow> 'a option list \<Rightarrow> 'a option list" where
  "arr_set i v xs =
     (if i < length xs then xs[i := v] else xs @ replicate (i - length xs) None @ [v])"

lemma arr_at_nat: "arr_at xs (int i) = arr_get xs i"
  by (simp add: arr_at_def arr_get_def)

lemma arr_at_last: "arr_at xs (- 1) = (if xs = [] then None else Some (last xs))"
proof (cases xs rule: rev_cases)
  case (snoc ys y)
  then show ?thesis by (simp add: arr_at_def nth_append Let_def)
qed (simp add: arr_at_def)

lemma arr_at_mem: "arr_at xs i = Some x \<Longrightarrow> x \<in> set xs"
  by (auto simp: arr_at_def Let_def split: if_splits)

lemma arr_get_mem: "arr_get xs i = Some x \<Longrightarrow> x \<in> set xs"
  by (auto simp: arr_get_def split: if_splits)

lemma length_arr_set: "length (arr_set i v xs) = max (length xs) (Suc i)"
  by (auto simp: arr_set_def)

lemma arr_set_nth:
  "j < length (arr_set i v xs) \<Longrightarrow>
   arr_set i v xs ! j = (if j = i then v else if j < length xs then xs ! j else None)"
  by (auto simp: arr_set_def nth_append nth_Cons')

text \<open>\<open>xs[i]\<close> where a hole and an index out of range both read as \<open>undefined\<close>.\<close>

definition arr_item :: "'a option list \<Rightarrow> nat \<Rightarrow> 'a option" where
  "arr_item xs i = (if i < length xs then xs ! i else None)"

lemma arr_item_arr_set: "arr_item (arr_set i v xs) j = (if j = i then v else arr_item xs j)"
  using arr_set_nth [of j i v xs] by (auto simp: arr_item_def length_arr_set)

text \<open>\<open>xs.findIndex(p)\<close>, with \<open>None\<close> for \<open>-1\<close>, and \<open>xs.splice(i, 1)\<close>.\<close>

fun find_index :: "('a \<Rightarrow> bool) \<Rightarrow> 'a list \<Rightarrow> nat option" where
  "find_index p [] = None"
| "find_index p (x # xs) = (if p x then Some 0 else map_option Suc (find_index p xs))"

definition splice1 :: "nat \<Rightarrow> 'a list \<Rightarrow> 'a list" where
  "splice1 i xs = take i xs @ drop (Suc i) xs"

lemma find_index_Some:
  "find_index p xs = Some i \<Longrightarrow> i < length xs \<and> p (xs ! i) \<and> (\<forall>j<i. \<not> p (xs ! j))"
proof (induction xs arbitrary: i)
  case (Cons x xs)
  then show ?case by (auto simp: less_Suc_eq_0_disj split: if_splits)
qed simp

lemma find_index_None: "find_index p xs = None \<longleftrightarrow> (\<forall>x\<in>set xs. \<not> p x)"
  by (induction xs) auto

lemma find_index_split:
  assumes "find_index p xs = Some i"
  obtains ys x zs where "xs = ys @ x # zs" and "length ys = i" and "p x" and "\<forall>y\<in>set ys. \<not> p y"
    and "xs ! i = x" and "splice1 i xs = ys @ zs"
proof -
  from find_index_Some [OF assms] have i: "i < length xs" "p (xs ! i)" "\<forall>j<i. \<not> p (xs ! j)"
    by auto
  have "xs = take i xs @ xs ! i # drop (Suc i) xs"
    using i(1) by (rule id_take_nth_drop)
  moreover have "\<forall>y\<in>set (take i xs). \<not> p y"
    using i by (auto simp: in_set_conv_nth)
  ultimately show ?thesis
    using that [of "take i xs" "xs ! i" "drop (Suc i) xs"] i by (simp add: splice1_def)
qed

lemma length_splice1: "i < length xs \<Longrightarrow> length (splice1 i xs) = length xs - 1"
  by (simp add: splice1_def)

lemma mset_splice1: "i < length xs \<Longrightarrow> mset xs = add_mset (xs ! i) (mset (splice1 i xs))"
proof -
  assume i: "i < length xs"
  have "mset xs = mset (take i xs @ xs ! i # drop (Suc i) xs)"
    using id_take_nth_drop [OF i] by simp
  then show ?thesis by (simp add: splice1_def)
qed

lemma set_splice1_subset: "set (splice1 i xs) \<subseteq> set xs"
  by (auto simp: splice1_def dest: in_set_takeD in_set_dropD)


section \<open>Decimal numerals and enumeration order of plain objects\<close>

definition digit_char :: "nat \<Rightarrow> char" where
  "digit_char n = char_of (48 + n)"

fun show_nat :: "nat \<Rightarrow> string" where
  "show_nat n = (if n < 10 then [digit_char n] else show_nat (n div 10) @ [digit_char (n mod 10)])"

declare show_nat.simps [simp del]

definition parse_digits :: "string \<Rightarrow> nat" where
  "parse_digits s = foldl (\<lambda>acc c. 10 * acc + (of_char c - 48)) 0 s"

definition is_digit :: "char \<Rightarrow> bool" where
  "is_digit c \<longleftrightarrow> 48 \<le> (of_char c :: nat) \<and> (of_char c :: nat) \<le> 57"

lemma of_digit_char: "n < 10 \<Longrightarrow> of_char (digit_char n) = 48 + n"
  by (simp add: digit_char_def)

lemma is_digit_digit_char: "n < 10 \<Longrightarrow> is_digit (digit_char n)"
  by (simp add: is_digit_def of_digit_char)

lemma parse_show_nat: "parse_digits (show_nat n) = n"
proof (induction n rule: show_nat.induct)
  case (1 n)
  then show ?case
    by (subst show_nat.simps) (auto simp: parse_digits_def of_digit_char)
qed

lemma show_nat_inj: "show_nat m = show_nat n \<longleftrightarrow> m = n"
  by (metis parse_show_nat)

lemma show_nat_digits: "c \<in> set (show_nat n) \<Longrightarrow> is_digit c"
proof (induction n rule: show_nat.induct)
  case (1 n)
  then show ?case
    by (subst (asm) (2) show_nat.simps) (auto simp: is_digit_digit_char split: if_splits)
qed

lemma dash_not_digit: "\<not> is_digit CHR ''-''"
  by (simp add: is_digit_def)

lemma show_nat_no_dash: "CHR ''-'' \<notin> set (show_nat n)"
  using show_nat_digits dash_not_digit by blast

text \<open>An array index is a canonical decimal numeral below \<open>2^32 - 1\<close>.\<close>

definition array_index :: "string \<Rightarrow> nat option" where
  "array_index s =
     (if s \<noteq> [] \<and> list_all is_digit s \<and> (s = ''0'' \<or> hd s \<noteq> CHR ''0'')
         \<and> parse_digits s < 4294967295
      then Some (parse_digits s) else None)"

definition own_keys :: "(string \<times> 'v) list \<Rightarrow> string list" where
  "own_keys m =
     (let ks = map_keys m
      in sort_key (\<lambda>k. the (array_index k)) (filter (\<lambda>k. array_index k \<noteq> None) ks)
         @ filter (\<lambda>k. array_index k = None) ks)"

definition object_entries :: "(string \<times> 'v) list \<Rightarrow> (string \<times> 'v) list" where
  "object_entries m = map (\<lambda>k. (k, the (map_of m k))) (own_keys m)"

definition object_values :: "(string \<times> 'v) list \<Rightarrow> 'v list" where
  "object_values m = map (\<lambda>k. the (map_of m k)) (own_keys m)"

lemma set_own_keys [simp]: "set (own_keys m) = set (map_keys m)"
  by (auto simp: own_keys_def Let_def)

lemma distinct_own_keys: "distinct (map_keys m) \<Longrightarrow> distinct (own_keys m)"
  by (auto simp: own_keys_def Let_def)

lemma set_object_entries:
  "distinct (map_keys m) \<Longrightarrow> set (object_entries m) = set m"
  by (force simp: object_entries_def image_iff)

lemma map_fst_object_entries [simp]: "map fst (object_entries m) = own_keys m"
  by (simp add: object_entries_def comp_def)

lemma set_object_values:
  "distinct (map_keys m) \<Longrightarrow> set (object_values m) = snd ` set m"
  by (force simp: object_values_def image_iff)

section \<open>Stable sorting with a comparator\<close>

text \<open>
  \<open>Array.prototype.sort\<close> is stable: an element is inserted behind every element it does not
  compare below, from left to right.
\<close>

fun insert_by :: "('a \<Rightarrow> 'a \<Rightarrow> int) \<Rightarrow> 'a \<Rightarrow> 'a list \<Rightarrow> 'a list" where
  "insert_by cmp x [] = [x]"
| "insert_by cmp x (y # ys) = (if cmp x y < 0 then x # y # ys else y # insert_by cmp x ys)"

definition sort_by :: "('a \<Rightarrow> 'a \<Rightarrow> int) \<Rightarrow> 'a list \<Rightarrow> 'a list" where
  "sort_by cmp xs = fold (insert_by cmp) xs []"

lemma mset_insert_by: "mset (insert_by cmp x xs) = add_mset x (mset xs)"
  by (induction xs) auto

lemma mset_fold_insert_by: "mset (fold (insert_by cmp) xs acc) = mset xs + mset acc"
  by (induction xs arbitrary: acc) (auto simp: mset_insert_by)

lemma mset_sort_by [simp]: "mset (sort_by cmp xs) = mset xs"
  by (simp add: sort_by_def mset_fold_insert_by)

lemma set_sort_by [simp]: "set (sort_by cmp xs) = set xs"
  using mset_sort_by [of cmp xs] by (metis set_mset_mset)

lemma length_sort_by [simp]: "length (sort_by cmp xs) = length xs"
  using mset_sort_by [of cmp xs] by (metis size_mset)

text \<open>What a comparator promises: a total preorder whose sign it returns.\<close>

locale comparison =
  fixes cmp :: "'a \<Rightarrow> 'a \<Rightarrow> int"
  assumes cmp_anti: "cmp x y < 0 \<longleftrightarrow> 0 < cmp y x"
    and cmp_trans: "cmp x y \<le> 0 \<Longrightarrow> cmp y z \<le> 0 \<Longrightarrow> cmp x z \<le> 0"
begin

lemma not_less_cmp: "\<not> cmp x y < 0 \<Longrightarrow> cmp y x \<le> 0"
  using cmp_anti [of x y] by linarith

lemma sorted_insert_by:
  "sorted_wrt (\<lambda>a b. cmp a b \<le> 0) xs \<Longrightarrow> sorted_wrt (\<lambda>a b. cmp a b \<le> 0) (insert_by cmp x xs)"
proof (induction xs)
  case (Cons y ys)
  have sub: "set (insert_by cmp x ys) = insert x (set ys)"
    using mset_insert_by [of cmp x ys] by (metis set_mset_add_mset_insert set_mset_mset)
  show ?case
    using Cons sub by (auto dest: not_less_cmp intro: cmp_trans less_imp_le)
qed simp

lemma sorted_sort_by: "sorted_wrt (\<lambda>a b. cmp a b \<le> 0) (sort_by cmp xs)"
proof -
  have "sorted_wrt (\<lambda>a b. cmp a b \<le> 0) acc \<Longrightarrow>
        sorted_wrt (\<lambda>a b. cmp a b \<le> 0) (fold (insert_by cmp) xs acc)" for acc
    by (induction xs arbitrary: acc) (auto simp: sorted_insert_by)
  then show ?thesis by (simp add: sort_by_def)
qed

end

section \<open>Splitting at a separator\<close>

lemma split_at_sep:
  "a @ x # r = b @ x # s \<Longrightarrow> x \<notin> set a \<Longrightarrow> x \<notin> set b \<Longrightarrow> a = b \<and> r = s"
proof (induction a arbitrary: b)
  case Nil
  then show ?case by (cases b) auto
next
  case (Cons y a)
  then show ?case by (cases b) auto
qed

section \<open>Reachability over a successor relation\<close>

text \<open>
  A traversal collects a set that holds the start's successors and is closed under successors,
  and everything in it was reached by following edges: that set is the reachable one.
\<close>

lemma closed_trancl:
  assumes "\<And>y. (x, y) \<in> R \<Longrightarrow> y \<in> S" and "\<And>y z. y \<in> S \<Longrightarrow> (y, z) \<in> R \<Longrightarrow> z \<in> S"
    and "(x, y) \<in> R\<^sup>+"
  shows "y \<in> S"
  using assms(3) by (induction rule: trancl_induct) (auto intro: assms(1,2))

lemma closed_rtrancl:
  assumes "x \<in> S" and "\<And>y z. y \<in> S \<Longrightarrow> (y, z) \<in> R \<Longrightarrow> z \<in> S" and "(x, y) \<in> R\<^sup>*"
  shows "y \<in> S"
  using assms(3) by (induction rule: rtrancl_induct) (auto intro: assms(1,2))

lemma card_Diff_insert_less:
  "finite A \<Longrightarrow> x \<in> A \<Longrightarrow> x \<notin> B \<Longrightarrow> card (A - insert x B) < card (A - B)"
  by (rule psubset_card_mono) auto

end
