(* ===== verification/Workflow_Types.thy ===== *)
theory Workflow_Types
  imports Prelude
begin

text \<open>
  The data of \<open>packages/workflow/src/interfaces.ts\<close> that the modelled code reads: nodes,
  connections, run data, pinned data and the execution stack's entries. An object that the code
  compares with \<open>===\<close> carries its identity in \<open>node_ref\<close>, so equality of records is equality of
  references wherever one reference has one content. Optional fields are \<open>option\<close>s; the entries
  of an array that may be \<open>null\<close> or a hole are \<open>option\<close>s too.
\<close>

section \<open>JSON values\<close>

datatype json =
    JNull
  | JBool bool
  | JNum rat
  | JStr string
  | JArr "json list"
  | JObj "(string \<times> json) list"

section \<open>Connection types\<close>

type_synonym node_connection_type = string

definition Main_type :: node_connection_type where
  "Main_type = ''main''"

definition AiTool_type :: node_connection_type where
  "AiTool_type = ''ai_tool''"

definition nodeConnectionTypes :: "node_connection_type list" where
  "nodeConnectionTypes =
     [''ai_agent'', ''ai_chain'', ''ai_document'', ''ai_embedding'', ''ai_languageModel'',
      ''ai_memory'', ''ai_outputParser'', ''ai_retriever'', ''ai_reranker'',
      ''ai_textSplitter'', ''ai_tool'', ''ai_vectorStore'', ''main'']"

lemma nodeConnectionTypes_no_dash: "t \<in> set nodeConnectionTypes \<Longrightarrow> CHR ''-'' \<notin> set t"
  by (auto simp: nodeConnectionTypes_def)

section \<open>Nodes\<close>

record inode =
  node_ref :: nat
  node_id :: string
  node_name :: string
  node_type :: string
  type_version :: rat
  disabled :: "bool option"
  parameters :: "(string \<times> json) list"
  rewire_output_log_to :: "node_connection_type option"
  position :: "rat \<times> rat"
  retryOnFail :: "bool option"
  maxTries :: "nat option"
  alwaysOutputData :: "bool option"
  executeOnce :: "bool option"
  onError :: "string option"
  continueOnFail :: "bool option"
  forceCustomOperation :: "(string \<times> string) option"

text \<open>\<open>node.disabled\<close> where the code tests it for truth.\<close>

definition is_disabled :: "inode \<Rightarrow> bool" where
  "is_disabled n \<longleftrightarrow> disabled n = Some True"

section \<open>Connections by node name\<close>

record iconnection =
  conn_node :: string
  conn_type :: node_connection_type
  conn_index :: nat

type_synonym node_input_connections = "iconnection list option list"
type_synonym inode_connections = "(node_connection_type \<times> node_input_connections) list"
type_synonym iconnections = "(string \<times> inode_connections) list"

section \<open>Run data\<close>

text \<open>What an output came from, and the input item that an output item came from.\<close>

record source_data =
  previous_node :: string
  previous_node_output :: "nat option"
  previous_node_run :: "nat option"

record paired_item_data =
  paired_item :: nat
  paired_input :: "nat option"
  source_overwrite :: "source_data option"

datatype paired =
    PairedOne paired_item_data
  | PairedMany "paired_item_data list"
  | PairedNumber nat

record node_execution_data =
  item_json :: "(string \<times> json) list"
  item_paired :: "paired option"
  item_error :: "json option"

type_synonym node_items = "node_execution_data list"
type_synonym task_data_connections = "(node_connection_type \<times> node_items option list) list"

text \<open>A stored error, \<open>{ ...e, message, stack }\<close>: \<open>name\<close> is kept when it is an own property of the
  error, as it is for the subclasses of \<open>ExecutionBaseError\<close>.\<close>

datatype thrown = Thrown (thrown_name: "string option") (thrown_message: string)

datatype execution_status = StatusSuccess | StatusError | StatusWaiting | StatusRunning | StatusCanceled

record task_data =
  execution_index :: "nat option"
  task_error :: "thrown option"
  task_output :: "task_data_connections option"
  task_status :: "execution_status option"
  task_source :: "source_data option list"
  task_input_override :: "task_data_connections option"

type_synonym run_data = "(string \<times> task_data list) list"
type_synonym pin_data = "(string \<times> node_items) list"
type_synonym task_data_connections_source = "(node_connection_type \<times> source_data option list) list"

record execute_data =
  exec_node :: inode
  exec_data :: task_data_connections
  exec_source :: "task_data_connections_source option"

section \<open>Errors\<close>

text \<open>The assertions that the graph code and the partial-execution code make, and the
  \<open>TypeError\<close> of a property access on \<open>undefined\<close>.\<close>

datatype engine_error =
    SourceNotInGraph string
  | TargetNotInGraph string
  | NodeNotInGraph string
  | UnknownNode string
  | LowLinkMissing
  | TypeErrorUndefined
  | CycleNotConnected
  | DisabledNodeInGraph string
  | NoRunOrPinnedData string string
  | ChildrenEmpty
  | EndlessLoop
  | DestinationNotFound string string
  | NodeIssues string
  | NoStartNode
  | NoTriggerConnected
  | DisabledDestination
  | ToolExecutorMissing
  | RequestedNodeMissing string

end
