(* ===== verification/Directed_Graph.thy ===== *)
theory Directed_Graph
  imports Workflow_Types
begin

text \<open>
  The class \<open>DirectedGraph\<close> of
  \<open>packages/core/src/execution-engine/partial-execution-utils/directed-graph.ts\<close>: its two maps,
  the operations that edit them, and the conversions from and to a workflow's connections. A
  method that mutates \<open>this\<close> returns the new graph; a failed assertion is \<open>Inl\<close>. The searches
  are in \<open>Graph_Search\<close> and \<open>Graph_Components\<close>.
\<close>

section \<open>Connections and their keys\<close>

record graph_connection =
  from_node :: inode
  to_node :: inode
  connection_type :: node_connection_type
  output_index :: nat
  input_index :: nat

text \<open>\<open>fromName-outputType-outputIndex-inputIndex-toName\<close>\<close>

definition makeKey :: "graph_connection \<Rightarrow> string" where
  "makeKey c =
     node_name (from_node c) @ ''-'' @ connection_type c @ ''-'' @ show_nat (output_index c)
     @ ''-'' @ show_nat (input_index c) @ ''-'' @ node_name (to_node c)"

record directed_graph =
  gnodes :: "(string \<times> inode) list"
  gconnections :: "(string \<times> graph_connection) list"

definition empty_graph :: directed_graph where
  "empty_graph = \<lparr>gnodes = [], gconnections = []\<rparr>"

section \<open>Access\<close>

definition hasNode :: "directed_graph \<Rightarrow> string \<Rightarrow> bool" where
  "hasNode g nodeName = map_has (gnodes g) nodeName"

text \<open>\<open>this.nodes.get(node.name) === node\<close>\<close>

definition in_graph :: "directed_graph \<Rightarrow> inode \<Rightarrow> bool" where
  "in_graph g n \<longleftrightarrow> map_of (gnodes g) (node_name n) = Some n"

fun getNodesByNames :: "directed_graph \<Rightarrow> string list \<Rightarrow> inode list" where
  "getNodesByNames g names =
     fold (\<lambda>name nodes. case map_of (gnodes g) name of
             Some node \<Rightarrow> set_add node nodes
           | None \<Rightarrow> nodes) names []"

definition getNodes :: "directed_graph \<Rightarrow> (string \<times> inode) list" where
  "getNodes g = gnodes g"

definition getConnections :: "directed_graph \<Rightarrow> inode option \<Rightarrow> graph_connection list" where
  "getConnections g to_filter =
     filter (\<lambda>c. case to_filter of Some t \<Rightarrow> to_node c = t | None \<Rightarrow> True)
       (map_values (gconnections g))"

definition getDirectChildConnections :: "directed_graph \<Rightarrow> inode \<Rightarrow> engine_error + graph_connection list" where
  "getDirectChildConnections g node =
     (if in_graph g node
      then Inr (filter (\<lambda>c. from_node c = node) (map_values (gconnections g)))
      else Inl (NodeNotInGraph (node_name node)))"

definition getDirectParentConnections :: "directed_graph \<Rightarrow> inode \<Rightarrow> engine_error + graph_connection list" where
  "getDirectParentConnections g node =
     (if in_graph g node
      then Inr (filter (\<lambda>c. to_node c = node) (map_values (gconnections g)))
      else Inl (NodeNotInGraph (node_name node)))"

definition getConnection ::
  "directed_graph \<Rightarrow> inode \<Rightarrow> nat \<Rightarrow> node_connection_type \<Rightarrow> nat \<Rightarrow> inode \<Rightarrow> graph_connection option" where
  "getConnection g from outputIndex ctype inputIndex to =
     map_of (gconnections g)
       (makeKey \<lparr>from_node = from, to_node = to, connection_type = ctype,
                 output_index = outputIndex, input_index = inputIndex\<rparr>)"

section \<open>Editing\<close>

definition addNode :: "inode \<Rightarrow> directed_graph \<Rightarrow> directed_graph" where
  "addNode node g = g\<lparr>gnodes := map_set (node_name node) node (gnodes g)\<rparr>"

definition addNodes :: "inode list \<Rightarrow> directed_graph \<Rightarrow> directed_graph" where
  "addNodes nodes g = fold addNode nodes g"

record connection_input =
  ci_from :: inode
  ci_to :: inode
  ci_type :: "node_connection_type option"
  ci_output :: "nat option"
  ci_input :: "nat option"

definition input_of_connection :: "graph_connection \<Rightarrow> connection_input" where
  "input_of_connection c =
     \<lparr>ci_from = from_node c, ci_to = to_node c, ci_type = Some (connection_type c),
      ci_output = Some (output_index c), ci_input = Some (input_index c)\<rparr>"

definition complete_connection :: "connection_input \<Rightarrow> graph_connection" where
  "complete_connection ci =
     \<lparr>from_node = ci_from ci, to_node = ci_to ci,
      connection_type = (case ci_type ci of Some t \<Rightarrow> t | None \<Rightarrow> Main_type),
      output_index = (case ci_output ci of Some i \<Rightarrow> i | None \<Rightarrow> 0),
      input_index = (case ci_input ci of Some i \<Rightarrow> i | None \<Rightarrow> 0)\<rparr>"

definition addConnection :: "connection_input \<Rightarrow> directed_graph \<Rightarrow> engine_error + directed_graph" where
  "addConnection ci g =
     (if \<not> in_graph g (ci_from ci) then Inl (SourceNotInGraph (node_name (ci_from ci)))
      else if \<not> in_graph g (ci_to ci) then Inl (TargetNotInGraph (node_name (ci_to ci)))
      else let connection = complete_connection ci
           in Inr (g\<lparr>gconnections := map_set (makeKey connection) connection (gconnections g)\<rparr>))"

definition addConnections :: "connection_input list \<Rightarrow> directed_graph \<Rightarrow> engine_error + directed_graph" where
  "addConnections inputs g = fold_result addConnection inputs g"

text \<open>The connections that replace a removed node: every incoming one joined to every outgoing one.\<close>

definition reconnected ::
  "(graph_connection \<Rightarrow> bool) \<Rightarrow> graph_connection list \<Rightarrow> graph_connection list \<Rightarrow> graph_connection list" where
  "reconnected skip incoming outgoing =
     concat (map (\<lambda>i. if skip i then []
        else map (\<lambda>out. i\<lparr>to_node := to_node out, input_index := input_index out\<rparr>)
               (filter (\<lambda>out. \<not> skip out) outgoing)) incoming)"

definition without_connections_of :: "inode \<Rightarrow> (string \<times> graph_connection) list \<Rightarrow> (string \<times> graph_connection) list" where
  "without_connections_of node cs =
     filter (\<lambda>(k, c). \<not> (to_node c = node \<or> from_node c = node)) cs"

text \<open>A missing \<open>skipConnectionFn\<close> is the predicate that skips nothing.\<close>

definition removeNode ::
  "inode \<Rightarrow> bool \<Rightarrow> (graph_connection \<Rightarrow> bool) \<Rightarrow> directed_graph
   \<Rightarrow> engine_error + directed_graph \<times> graph_connection list option" where
  "removeNode node reconnectConnections skip g =
     (if reconnectConnections then
        bind_result (getDirectParentConnections g node) (\<lambda>incomingConnections.
        bind_result (getDirectChildConnections g node) (\<lambda>outgoingConnections.
          let newConnections = reconnected skip incomingConnections outgoingConnections;
              connections = fold (\<lambda>c. map_set (makeKey c) c) newConnections
                              (without_connections_of node (gconnections g))
          in Inr (g\<lparr>gconnections := connections, gnodes := map_delete (node_name node) (gnodes g)\<rparr>,
                  Some newConnections)))
      else Inr (g\<lparr>gconnections := without_connections_of node (gconnections g),
                  gnodes := map_delete (node_name node) (gnodes g)\<rparr>, None))"

definition clone :: "directed_graph \<Rightarrow> engine_error + directed_graph" where
  "clone g =
     addConnections (map input_of_connection (getConnections g None))
       (addNodes (map_values (getNodes g)) empty_graph)"

section \<open>Import and export\<close>

text \<open>
  The loops over a workflow's nested connections, shared by \<open>fromWorkflow\<close> and
  \<open>fromNodesAndConnections\<close>; \<open>lookup\<close> finds a node by its name.
\<close>

definition addIConnections ::
  "(string \<Rightarrow> inode option) \<Rightarrow> iconnections \<Rightarrow> directed_graph \<Rightarrow> engine_error + directed_graph" where
  "addIConnections lookup connections graph =
     fold_result (\<lambda>(fromNodeName, iConnection) g.
       case lookup fromNodeName of
         None \<Rightarrow> Inl (UnknownNode fromNodeName)
       | Some from \<Rightarrow>
           fold_result (\<lambda>(outputType, outputs).
             fold_result (\<lambda>(outputIndex, conns).
               fold_result (\<lambda>conn g.
                 case lookup (conn_node conn) of
                   None \<Rightarrow> Inl (UnknownNode (conn_node conn))
                 | Some to \<Rightarrow>
                     addConnection \<lparr>ci_from = from, ci_to = to, ci_type = Some outputType,
                       ci_output = Some outputIndex, ci_input = Some (conn_index conn)\<rparr> g)
                 (case conns of Some cs \<Rightarrow> cs | None \<Rightarrow> []))
               (enumerate 0 outputs))
             (object_entries iConnection) g)
       (object_entries connections) graph"

definition fromWorkflow :: "(string \<times> inode) list \<Rightarrow> iconnections \<Rightarrow> engine_error + directed_graph" where
  "fromWorkflow workflowNodes connectionsBySourceNode =
     addIConnections (map_of workflowNodes) connectionsBySourceNode
       (addNodes (object_values workflowNodes) empty_graph)"

definition fromNodesAndConnections :: "inode list \<Rightarrow> iconnections \<Rightarrow> engine_error + directed_graph" where
  "fromNodesAndConnections nodes connections =
     addIConnections (map_of (fold (\<lambda>n. map_set (node_name n) n) nodes [])) connections
       (addNodes nodes empty_graph)"

text \<open>One iteration of \<open>toIConnections\<close>: \<open>resultConnection[type]\<close> is \<open>undefined\<close> when the source
  node is known with other types only, and indexing it throws.\<close>

definition toIConnections_step :: "graph_connection \<Rightarrow> iconnections \<Rightarrow> engine_error + iconnections" where
  "toIConnections_step c result =
     (let from = node_name (from_node c);
          ctype = connection_type c;
          resultConnection = (case map_of result from of Some rc \<Rightarrow> rc | None \<Rightarrow> [(ctype, [])])
      in case map_of resultConnection ctype of
           None \<Rightarrow> Inl TypeErrorUndefined
         | Some outputs \<Rightarrow>
             let group = (case arr_get outputs (output_index c) of
                            Some (Some grp) \<Rightarrow> grp | _ \<Rightarrow> []);
                 group' = group @ [\<lparr>conn_node = node_name (to_node c), conn_type = ctype,
                                    conn_index = input_index c\<rparr>]
             in Inr (map_set from
                      (map_set ctype (arr_set (output_index c) (Some group') outputs)
                        resultConnection) result))"

definition toIConnections :: "directed_graph \<Rightarrow> engine_error + iconnections" where
  "toIConnections g = fold_result toIConnections_step (map_values (gconnections g)) []"


section \<open>Well-formedness\<close>

text \<open>
  Every node is stored under its own name, every connection under its own key, and both ends of
  every connection are the graph's nodes of that name.
\<close>

definition wf_nodes :: "(string \<times> inode) list \<Rightarrow> bool" where
  "wf_nodes ns \<longleftrightarrow> distinct (map_keys ns) \<and> (\<forall>(k, n) \<in> set ns. k = node_name n)"

definition wf_connections :: "directed_graph \<Rightarrow> (string \<times> graph_connection) list \<Rightarrow> bool" where
  "wf_connections g cs \<longleftrightarrow> distinct (map_keys cs)
     \<and> (\<forall>(k, c) \<in> set cs. k = makeKey c \<and> in_graph g (from_node c) \<and> in_graph g (to_node c))"

definition wf_graph :: "directed_graph \<Rightarrow> bool" where
  "wf_graph g \<longleftrightarrow> wf_nodes (gnodes g) \<and> wf_connections g (gconnections g)"

abbreviation nodes_of :: "directed_graph \<Rightarrow> inode set" where
  "nodes_of g \<equiv> set (map_values (gnodes g))"

abbreviation connections_of :: "directed_graph \<Rightarrow> graph_connection set" where
  "connections_of g \<equiv> set (map_values (gconnections g))"

definition edges :: "directed_graph \<Rightarrow> inode rel" where
  "edges g = {(from_node c, to_node c) | c. c \<in> connections_of g}"

definition main_edges :: "directed_graph \<Rightarrow> inode rel" where
  "main_edges g =
     {(from_node c, to_node c) | c. c \<in> connections_of g \<and> connection_type c = Main_type}"

lemma wf_graph_nodes [dest]: "wf_graph g \<Longrightarrow> wf_nodes (gnodes g)"
  and wf_graph_connections [dest]: "wf_graph g \<Longrightarrow> wf_connections g (gconnections g)"
  by (simp_all add: wf_graph_def)

lemma in_graph_iff: "wf_nodes (gnodes g) \<Longrightarrow> in_graph g n \<longleftrightarrow> n \<in> nodes_of g"
  by (force simp: in_graph_def wf_nodes_def image_iff)

lemma wf_graph_in_graph_iff: "wf_graph g \<Longrightarrow> in_graph g n \<longleftrightarrow> n \<in> nodes_of g"
  by (auto simp: wf_graph_def in_graph_iff)

lemma connection_ends:
  "wf_graph g \<Longrightarrow> c \<in> connections_of g \<Longrightarrow> in_graph g (from_node c) \<and> in_graph g (to_node c)"
  by (auto simp: wf_graph_def wf_connections_def)

lemma connection_key:
  "wf_graph g \<Longrightarrow> (k, c) \<in> set (gconnections g) \<Longrightarrow> k = makeKey c"
  by (auto simp: wf_graph_def wf_connections_def)

lemma connection_lookup:
  "wf_graph g \<Longrightarrow> c \<in> connections_of g \<longleftrightarrow> map_of (gconnections g) (makeKey c) = Some c"
  by (force simp: wf_graph_def wf_connections_def)

lemma in_graph_name_eq: "in_graph g m \<Longrightarrow> in_graph g n \<Longrightarrow> node_name m = node_name n \<Longrightarrow> m = n"
  by (simp add: in_graph_def)

lemma distinct_values:
  assumes "wf_graph g" shows "distinct (map_values (gnodes g))"
proof -
  have "map_keys (gnodes g) = map node_name (map_values (gnodes g))"
    using assms by (auto simp: wf_graph_def wf_nodes_def)
  moreover have "distinct (map_keys (gnodes g))"
    using assms by (simp add: wf_graph_def wf_nodes_def)
  ultimately have "distinct (map node_name (map_values (gnodes g)))" by argo
  then show ?thesis unfolding distinct_map by blast
qed

lemma in_graph_gconnections [simp]: "in_graph (g\<lparr>gconnections := cs\<rparr>) n = in_graph g n"
  by (simp add: in_graph_def)

lemma wf_connections_gconnections [simp]:
  "wf_connections (g\<lparr>gconnections := cs\<rparr>) ds = wf_connections g ds"
  by (simp add: wf_connections_def)

lemma edges_iff: "(x, y) \<in> edges g \<longleftrightarrow> (\<exists>c \<in> connections_of g. x = from_node c \<and> y = to_node c)"
  by (auto simp: edges_def)

lemma main_edges_iff:
  "(x, y) \<in> main_edges g \<longleftrightarrow>
     (\<exists>c \<in> connections_of g. connection_type c = Main_type \<and> x = from_node c \<and> y = to_node c)"
  by (auto simp: main_edges_def)

lemma edges_in_graph: "wf_graph g \<Longrightarrow> (x, y) \<in> edges g \<Longrightarrow> in_graph g x \<and> in_graph g y"
  by (metis connection_ends edges_iff)

lemma edges_trancl_in_graph: "wf_graph g \<Longrightarrow> (x, y) \<in> (edges g)\<^sup>+ \<Longrightarrow> in_graph g x \<and> in_graph g y"
  by (metis edges_in_graph tranclD tranclD2)

lemma main_edges_subset: "main_edges g \<subseteq> edges g"
  by (auto simp: main_edges_def edges_def)

section \<open>Every operation keeps well-formedness\<close>

lemma wf_empty_graph [wf_intros]: "wf_graph empty_graph"
  by (simp add: wf_graph_def wf_nodes_def wf_connections_def empty_graph_def)

lemma wf_nodes_map_set: "wf_nodes ns \<Longrightarrow> wf_nodes (map_set (node_name n) n ns)"
  by (auto simp: wf_nodes_def AList.distinct_update set_map_set)

lemma in_graph_addNode:
  "in_graph (addNode n g) m \<longleftrightarrow> m = n \<or> (in_graph g m \<and> node_name m \<noteq> node_name n)"
  by (auto simp: in_graph_def addNode_def)

text \<open>Adding a node under the name of another one would leave that node's connections dangling.\<close>

lemma wf_addNode [wf_intros]:
  assumes "wf_graph g" and "map_of (gnodes g) (node_name n) \<in> {None, Some n}"
  shows "wf_graph (addNode n g)"
proof -
  have keep: "in_graph g m \<Longrightarrow> in_graph (addNode n g) m" for m
  proof -
    assume m: "in_graph g m"
    with assms(2) have "m = n \<or> node_name m \<noteq> node_name n" by (auto simp: in_graph_def)
    with m show ?thesis by (auto simp: in_graph_addNode)
  qed
  show ?thesis
    using assms(1) keep
    by (auto simp: wf_graph_def wf_nodes_map_set wf_connections_def addNode_def)
qed

lemma gconnections_addNode [simp]: "gconnections (addNode n g) = gconnections g"
  by (simp add: addNode_def)

lemma gconnections_addNodes [simp]: "gconnections (addNodes ns g) = gconnections g"
  by (induction ns arbitrary: g) (auto simp: addNodes_def)

lemma complete_input_of [simp]: "complete_connection (input_of_connection c) = c"
  by (simp add: complete_connection_def input_of_connection_def)

lemma ends_complete [simp]:
  "from_node (complete_connection ci) = ci_from ci" "to_node (complete_connection ci) = ci_to ci"
  by (simp_all add: complete_connection_def)

lemma ends_input_of [simp]:
  "ci_from (input_of_connection c) = from_node c" "ci_to (input_of_connection c) = to_node c"
  by (simp_all add: input_of_connection_def)

lemma wf_connections_map_set:
  "wf_connections g cs \<Longrightarrow> in_graph g (from_node c) \<Longrightarrow> in_graph g (to_node c) \<Longrightarrow>
   wf_connections g (map_set (makeKey c) c cs)"
  by (auto simp: wf_connections_def AList.distinct_update set_map_set)

lemma addConnection_Inr:
  "addConnection ci g = Inr g' \<longleftrightarrow> in_graph g (ci_from ci) \<and> in_graph g (ci_to ci)
     \<and> g' = g\<lparr>gconnections := map_set (makeKey (complete_connection ci)) (complete_connection ci)
                               (gconnections g)\<rparr>"
  by (auto simp: addConnection_def Let_def)

lemma wf_addConnection [wf_intros]:
  "wf_graph g \<Longrightarrow> addConnection ci g = Inr g' \<Longrightarrow> wf_graph g'"
  by (auto simp: addConnection_Inr wf_graph_def wf_connections_map_set)

lemma values_without_connections_of:
  "snd ` set (without_connections_of n cs) = {c \<in> snd ` set cs. to_node c \<noteq> n \<and> from_node c \<noteq> n}"
  by (force simp: without_connections_of_def)

lemma wf_nodes_map_delete: "wf_nodes ns \<Longrightarrow> wf_nodes (map_delete k ns)"
  by (auto simp: wf_nodes_def AList.distinct_delete set_map_delete)


text \<open>The graph without a node and the connections that touch it.\<close>

definition without_node :: "inode \<Rightarrow> directed_graph \<Rightarrow> directed_graph" where
  "without_node n g =
     g\<lparr>gconnections := without_connections_of n (gconnections g),
       gnodes := map_delete (node_name n) (gnodes g)\<rparr>"

lemma in_graph_without_node [simp]:
  "in_graph (without_node n g) m \<longleftrightarrow> in_graph g m \<and> node_name m \<noteq> node_name n"
  by (auto simp: without_node_def in_graph_def)

lemma connections_of_without_node:
  "connections_of (without_node n g) = {c \<in> connections_of g. to_node c \<noteq> n \<and> from_node c \<noteq> n}"
  using values_without_connections_of [of n "gconnections g"] by (simp add: without_node_def)

lemma nodes_of_without_node:
  assumes "wf_graph g" and "in_graph g n"
  shows "nodes_of (without_node n g) = nodes_of g - {n}"
proof -
  have wf: "wf_nodes (gnodes (without_node n g))"
    using assms(1) by (auto simp: without_node_def intro: wf_nodes_map_delete)
  have "m \<in> nodes_of (without_node n g) \<longleftrightarrow> m \<in> nodes_of g - {n}" for m
    using assms(2) in_graph_name_eq [of g m n]
    unfolding in_graph_iff [OF wf, symmetric] Diff_iff wf_graph_in_graph_iff [OF assms(1), symmetric]
    by auto
  then show ?thesis by (rule set_eqI)
qed

lemma wf_without_node [wf_intros]:
  assumes "wf_graph g" and "in_graph g n"
  shows "wf_graph (without_node n g)"
proof -
  have ends: "in_graph (without_node n g) (from_node c) \<and> in_graph (without_node n g) (to_node c)"
    if "c \<in> connections_of (without_node n g)" for c
  proof -
    from that have "c \<in> connections_of g" and "to_node c \<noteq> n" and "from_node c \<noteq> n"
      by (auto simp: connections_of_without_node simp del: set_map)
    with connection_ends [OF assms(1)] assms(2) show ?thesis
      by (auto dest: in_graph_name_eq simp del: set_map)
  qed
  have "distinct (map_keys (gconnections (without_node n g)))"
    using assms(1)
    by (auto simp: without_node_def without_connections_of_def wf_graph_def wf_connections_def
        distinct_map_fst_filter)
  moreover have "k = makeKey c" if "(k, c) \<in> set (gconnections (without_node n g))" for k c
    using that connection_key [OF assms(1)]
    by (auto simp: without_node_def without_connections_of_def)
  ultimately have "wf_connections (without_node n g) (gconnections (without_node n g))"
    using ends by (force simp: wf_connections_def)
  moreover have "wf_nodes (gnodes (without_node n g))"
    using assms(1) by (auto simp: without_node_def intro: wf_nodes_map_delete)
  ultimately show ?thesis by (simp add: wf_graph_def)
qed

lemma removeNode_plain: "removeNode n False skip g = Inr (without_node n g, None)"
  by (simp add: removeNode_def without_node_def)

lemma removeNode_reconnect:
  assumes "in_graph g n"
  shows "removeNode n True skip g =
    (let new = reconnected skip (filter (\<lambda>c. to_node c = n) (map_values (gconnections g)))
                                (filter (\<lambda>c. from_node c = n) (map_values (gconnections g)));
         g' = without_node n g
     in Inr (g'\<lparr>gconnections := fold (\<lambda>c. map_set (makeKey c) c) new (gconnections g')\<rparr>, Some new))"
  using assms
  by (simp add: removeNode_def without_node_def getDirectParentConnections_def
      getDirectChildConnections_def Let_def)

lemma set_reconnected:
  "set (reconnected skip incoming outgoing) =
     {i\<lparr>to_node := to_node out, input_index := input_index out\<rparr> | i out.
        i \<in> set incoming \<and> \<not> skip i \<and> out \<in> set outgoing \<and> \<not> skip out}"
  by (auto simp: reconnected_def split: if_splits)

lemma wf_connections_fold_map_set:
  "wf_connections g cs \<Longrightarrow> (\<And>c. c \<in> set new \<Longrightarrow> in_graph g (from_node c) \<and> in_graph g (to_node c)) \<Longrightarrow>
   wf_connections g (fold (\<lambda>c. map_set (makeKey c) c) new cs)"
  by (induction new arbitrary: cs) (auto simp: wf_connections_map_set)


section \<open>Keys and names with dashes\<close>

text \<open>A key determines its connection only when the parts before the last one hold no dash.\<close>

definition dash_free :: "directed_graph \<Rightarrow> bool" where
  "dash_free g \<longleftrightarrow> (\<forall>n \<in> nodes_of g. CHR ''-'' \<notin> set (node_name n))
     \<and> (\<forall>c \<in> connections_of g. CHR ''-'' \<notin> set (connection_type c))"

lemma makeKey_names:
  assumes "makeKey c = makeKey d"
    and "CHR ''-'' \<notin> set (node_name (from_node c))" "CHR ''-'' \<notin> set (node_name (from_node d))"
    and "CHR ''-'' \<notin> set (connection_type c)" "CHR ''-'' \<notin> set (connection_type d)"
  shows "node_name (from_node c) = node_name (from_node d) \<and> connection_type c = connection_type d
    \<and> output_index c = output_index d \<and> input_index c = input_index d
    \<and> node_name (to_node c) = node_name (to_node d)"
proof -
  let ?o = "\<lambda>c. show_nat (output_index c)" and ?i = "\<lambda>c. show_nat (input_index c)"
  let ?r3 = "\<lambda>c. ?i c @ CHR ''-'' # node_name (to_node c)"
  let ?r2 = "\<lambda>c. ?o c @ CHR ''-'' # ?r3 c"
  let ?r1 = "\<lambda>c. connection_type c @ CHR ''-'' # ?r2 c"
  have "node_name (from_node c) @ CHR ''-'' # ?r1 c = node_name (from_node d) @ CHR ''-'' # ?r1 d"
    using assms(1) by (simp add: makeKey_def)
  from split_at_sep [OF this assms(2,3)]
  have "node_name (from_node c) = node_name (from_node d)" and r1: "?r1 c = ?r1 d" by auto
  moreover from split_at_sep [OF r1 assms(4,5)]
  have "connection_type c = connection_type d" and r2: "?r2 c = ?r2 d" by auto
  moreover from split_at_sep [OF r2 show_nat_no_dash show_nat_no_dash]
  have "?o c = ?o d" and r3: "?r3 c = ?r3 d" by auto
  moreover from split_at_sep [OF r3 show_nat_no_dash show_nat_no_dash]
  have "?i c = ?i d" and "node_name (to_node c) = node_name (to_node d)" by auto
  ultimately show ?thesis by (simp add: show_nat_inj)
qed

lemma makeKey_eq:
  assumes "makeKey c = makeKey d"
    and "in_graph g (from_node c)" "in_graph g (to_node c)" "in_graph g (from_node d)" "in_graph g (to_node d)"
    and "CHR ''-'' \<notin> set (node_name (from_node c))" "CHR ''-'' \<notin> set (node_name (from_node d))"
    and "CHR ''-'' \<notin> set (connection_type c)" "CHR ''-'' \<notin> set (connection_type d)"
  shows "c = d"
  using makeKey_names [OF assms(1,6-9)] in_graph_name_eq assms(2-5) by (cases c; cases d) auto

lemma values_fold_map_set:
  assumes "wf_connections g cs" and "\<And>c. c \<in> set new \<Longrightarrow> in_graph g (from_node c) \<and> in_graph g (to_node c)"
    and "\<And>c. c \<in> snd ` set cs \<union> set new \<Longrightarrow>
           CHR ''-'' \<notin> set (node_name (from_node c)) \<and> CHR ''-'' \<notin> set (connection_type c)"
  shows "snd ` set (fold (\<lambda>c. map_set (makeKey c) c) new cs) = snd ` set cs \<union> set new"
  using assms
proof (induction new arbitrary: cs)
  case (Cons c new)
  have keep: "d = c" if "(makeKey c, d) \<in> set cs" for d
  proof -
    from that Cons.prems(1) have "makeKey d = makeKey c" "in_graph g (from_node d)" "in_graph g (to_node d)"
      by (auto simp: wf_connections_def)
    moreover have "d \<in> snd ` set cs \<union> set (c # new)" using that by force
    ultimately show ?thesis
      using Cons.prems(2,3) by (intro makeKey_eq [of d c g]) auto
  qed
  have "distinct (map_keys cs)" using Cons.prems(1) by (simp add: wf_connections_def)
  then have upd: "snd ` set (map_set (makeKey c) c cs) = insert c (snd ` set cs)"
    using keep by (force simp: set_map_set)
  have "wf_connections g (map_set (makeKey c) c cs)"
    using Cons.prems(1,2) by (simp add: wf_connections_map_set)
  with Cons.IH [of "map_set (makeKey c) c cs"] Cons.prems upd show ?case by auto
qed simp

section \<open>Cloning\<close>

lemma addConnections_input_of:
  "(\<And>c. c \<in> set cs \<Longrightarrow> in_graph g (from_node c) \<and> in_graph g (to_node c)) \<Longrightarrow>
   addConnections (map input_of_connection cs) g
     = Inr (g\<lparr>gconnections := fold (\<lambda>c. map_set (makeKey c) c) cs (gconnections g)\<rparr>)"
proof (induction cs arbitrary: g)
  case (Cons c cs)
  let ?g = "g\<lparr>gconnections := map_set (makeKey c) c (gconnections g)\<rparr>"
  have "addConnection (input_of_connection c) g = Inr ?g"
    using Cons.prems by (simp add: addConnection_Inr)
  moreover have "in_graph ?g (from_node d) \<and> in_graph ?g (to_node d)" if "d \<in> set cs" for d
    using Cons.prems that by simp
  ultimately show ?case
    using Cons.IH [of ?g] by (simp add: addConnections_def)
qed (simp add: addConnections_def)

lemma gnodes_addNodes:
  "gnodes (addNodes ns g) = fold (\<lambda>n. map_set (node_name n) n) ns (gnodes g)"
  by (induction ns arbitrary: g) (auto simp: addNodes_def addNode_def)

lemma fold_map_set_values:
  assumes "distinct (map_keys kvs)" and "\<And>k v. (k, v) \<in> set kvs \<Longrightarrow> k = f v"
  shows "fold (\<lambda>v. map_set (f v) v) (map_values kvs) [] = kvs"
proof -
  have eq: "f (snd p) = fst p" if "p \<in> set kvs" for p
    using that assms(2) [of "fst p" "snd p"] by simp
  have "fold (\<lambda>v. map_set (f v) v) (map_values kvs) m = fold (\<lambda>(k, v). map_set k v) kvs m" for m
    using eq by (induction kvs arbitrary: m) (simp_all add: case_prod_beta)
  then show ?thesis using fold_map_set_rebuild [of "[]" kvs] assms(1) by simp
qed

lemma clone_eq:
  assumes "wf_graph g"
  shows "clone g = Inr g"
proof -
  let ?g0 = "addNodes (map_values (gnodes g)) empty_graph"
  have nodes: "gnodes ?g0 = gnodes g"
    using assms fold_map_set_values [of "gnodes g" node_name]
    by (auto simp: gnodes_addNodes empty_graph_def wf_graph_def wf_nodes_def)
  have conns: "gconnections ?g0 = []" by (simp add: empty_graph_def)
  have "fold (\<lambda>c. map_set (makeKey c) c) (map_values (gconnections g)) [] = gconnections g"
    using assms by (intro fold_map_set_values) (auto simp: wf_graph_def wf_connections_def)
  moreover have "in_graph ?g0 (from_node c) \<and> in_graph ?g0 (to_node c)" if "c \<in> connections_of g" for c
    using connection_ends [OF assms that] nodes by (simp add: in_graph_def)
  ultimately have "addConnections (map input_of_connection (map_values (gconnections g))) ?g0
      = Inr (?g0\<lparr>gconnections := gconnections g\<rparr>)"
    using conns addConnections_input_of [of "map_values (gconnections g)" ?g0] by simp
  then show ?thesis
    using nodes by (simp add: clone_def getConnections_def getNodes_def)
qed

end
