(* ===== verification/Fixtures.thy ===== *)
theory Fixtures
  imports Directed_Graph
begin

text \<open>
  Small concrete nodes and graphs, on which the witnesses evaluate the model. Nothing here models
  code: \<open>build_graph\<close> only calls the model's own \<open>addNodes\<close> and \<open>addConnections\<close>.
\<close>

definition sample_node :: "nat \<Rightarrow> string \<Rightarrow> inode" where
  "sample_node i nm =
     \<lparr>node_ref = i, node_id = nm, node_name = nm, node_type = ''n8n-nodes-base.set'',
      type_version = 1, disabled = None, parameters = [], rewire_output_log_to = None,
      position = (0, 0), retryOnFail = None, maxTries = None, alwaysOutputData = None,
      executeOnce = None, onError = None, continueOnFail = None, forceCustomOperation = None\<rparr>"

definition disabled_node :: "nat \<Rightarrow> string \<Rightarrow> inode" where
  "disabled_node i nm = (sample_node i nm)\<lparr>disabled := Some True\<rparr>"

definition link :: "inode \<Rightarrow> inode \<Rightarrow> graph_connection" where
  "link a b = \<lparr>from_node = a, to_node = b, connection_type = Main_type, output_index = 0, input_index = 0\<rparr>"

definition ai_link :: "inode \<Rightarrow> inode \<Rightarrow> graph_connection" where
  "ai_link a b = (link a b)\<lparr>connection_type := AiTool_type\<rparr>"

definition build_graph :: "inode list \<Rightarrow> graph_connection list \<Rightarrow> directed_graph" where
  "build_graph ns cs =
     (case addConnections (map input_of_connection cs) (addNodes ns empty_graph) of
        Inr g \<Rightarrow> g | Inl _ \<Rightarrow> empty_graph)"

abbreviation node_T :: inode where "node_T \<equiv> sample_node 0 ''Trigger''"
abbreviation node_A :: inode where "node_A \<equiv> sample_node 1 ''A''"
abbreviation node_B :: inode where "node_B \<equiv> sample_node 2 ''B''"
abbreviation node_C :: inode where "node_C \<equiv> sample_node 3 ''C''"
abbreviation node_X :: inode where "node_X \<equiv> disabled_node 4 ''X''"
abbreviation node_M :: inode where "node_M \<equiv> sample_node 5 ''Model''"

text \<open>\<open>Trigger \<rightarrow> A \<rightarrow> B\<close>, with the sub-node \<open>Model\<close> of \<open>B\<close>.\<close>

definition chain_graph :: directed_graph where
  "chain_graph = build_graph [node_T, node_A, node_B, node_M] [link node_T node_A, link node_A node_B, ai_link node_M node_B]"

text \<open>\<open>A \<rightarrow> B\<close> inside the loop \<open>Trigger \<rightarrow> A \<rightarrow> Trigger\<close>: \<open>A\<close>'s connection to the inner loop comes first.\<close>

definition nested_loop_graph :: directed_graph where
  "nested_loop_graph = build_graph [node_T, node_A, node_B]
     [link node_T node_A, link node_A node_B, link node_A node_T, link node_B node_A]"

text \<open>\<open>Trigger \<rightarrow> X \<rightarrow> B\<close> with \<open>X\<close> disabled.\<close>

definition disabled_graph :: directed_graph where
  "disabled_graph = build_graph [node_T, node_X, node_B] [link node_T node_X, link node_X node_B]"

text \<open>The same with \<open>X\<close> connected to itself.\<close>

definition self_loop_graph :: directed_graph where
  "self_loop_graph = build_graph [node_T, node_X, node_B]
     [link node_T node_X, link node_X node_X, link node_X node_B]"

text \<open>\<open>Trigger \<rightarrow> A \<rightarrow> B\<close>, where the sub-node \<open>Model\<close> belongs to \<open>A\<close>.\<close>

definition agent_graph :: directed_graph where
  "agent_graph = build_graph [node_T, node_A, node_B, node_M]
     [link node_T node_A, link node_A node_B, ai_link node_M node_A]"

text \<open>\<open>B \<rightarrow> C \<rightarrow> B\<close> beside \<open>Trigger \<rightarrow> A\<close>, both leading to \<open>A\<close>: the loop starts nowhere.\<close>

definition orphan_loop_graph :: directed_graph where
  "orphan_loop_graph = build_graph [node_T, node_A, node_B, node_C]
     [link node_T node_A, link node_B node_C, link node_C node_B, link node_B node_A]"

lemma wf_agent_graph: "wf_graph agent_graph"
  by code_simp

lemma wf_orphan_loop_graph: "wf_graph orphan_loop_graph"
  by code_simp

lemma wf_chain_graph: "wf_graph chain_graph"
  by code_simp

lemma wf_nested_loop_graph: "wf_graph nested_loop_graph"
  by code_simp

lemma wf_disabled_graph: "wf_graph disabled_graph"
  by code_simp

lemma wf_self_loop_graph: "wf_graph self_loop_graph"
  by code_simp

section \<open>Run data\<close>

definition sample_item :: "string \<Rightarrow> node_execution_data" where
  "sample_item v = \<lparr>item_json = [(''value'', JStr v)], item_paired = None, item_error = None\<rparr>"

text \<open>A finished run that left one item on its first \<open>main\<close> output, and one that left none.\<close>

definition run_with_item :: "nat \<Rightarrow> string \<Rightarrow> task_data" where
  "run_with_item i v = \<lparr>execution_index = Some i, task_error = None,
     task_output = Some [(Main_type, [Some [sample_item v]])], task_status = Some StatusSuccess,
     task_source = [], task_input_override = None\<rparr>"

definition run_without_item :: "nat \<Rightarrow> task_data" where
  "run_without_item i = \<lparr>execution_index = Some i, task_error = None,
     task_output = Some [(Main_type, [Some []])], task_status = Some StatusSuccess,
     task_source = [], task_input_override = None\<rparr>"

definition trigger_run :: run_data where
  "trigger_run = [(''Trigger'', [run_without_item 0, run_with_item 1 ''a''])]"

definition full_run :: run_data where
  "full_run = trigger_run @ [(''A'', [run_with_item 2 ''b'']), (''Model'', [run_with_item 3 ''m'']),
     (''B'', [run_with_item 4 ''c'']), (''Gone'', [run_with_item 5 ''g''])]"

end
