(* ===== verification/Graph_Search.thy ===== *)
theory Graph_Search
  imports Directed_Graph
begin

text \<open>
  The depth-first traversals of \<open>directed-graph.ts\<close>: \<open>getChildren\<close>, \<open>getParentConnections\<close> and
  \<open>depthFirstSearch\<close>. Each is the recursive method of the class and the loop in its body, as two
  mutually recursive functions; the set the code mutates is an argument that the calls thread
  through. The recursion stops because every call marks an end of one of the finitely many
  connections that was not marked before, and no call unmarks any.
\<close>

section \<open>Children\<close>

function getChildrenRecursive :: "directed_graph \<Rightarrow> inode \<Rightarrow> inode list \<Rightarrow> engine_error + inode list"
  and getChildrenLoop :: "directed_graph \<Rightarrow> graph_connection list \<Rightarrow> inode list \<Rightarrow> engine_error + inode list"
where
  "getChildrenRecursive g node children =
     (case getDirectChildConnections g node of
        Inl e \<Rightarrow> Inl e
      | Inr directChildren \<Rightarrow> getChildrenLoop g directChildren children)"
| "getChildrenLoop g [] children = Inr children"
| "getChildrenLoop g (directChild # rest) children =
     (if to_node directChild \<in> set children then getChildrenLoop g rest children
      else case getChildrenRecursive g (to_node directChild) (set_add (to_node directChild) children) of
             Inl e \<Rightarrow> Inl e
           | Inr children' \<Rightarrow> getChildrenLoop g rest children')"
  by pat_completeness auto

abbreviation to_nodes :: "graph_connection list \<Rightarrow> inode set" where
  "to_nodes cs \<equiv> to_node ` set cs"

lemma getDirectChildConnections_Inr:
  "getDirectChildConnections g n = Inr cs \<longleftrightarrow>
     in_graph g n \<and> cs = filter (\<lambda>c. from_node c = n) (map_values (gconnections g))"
  by (auto simp: getDirectChildConnections_def)

lemma getDirectParentConnections_Inr:
  "getDirectParentConnections g n = Inr cs \<longleftrightarrow>
     in_graph g n \<and> cs = filter (\<lambda>c. to_node c = n) (map_values (gconnections g))"
  by (auto simp: getDirectParentConnections_def)

lemma getChildren_grows:
  shows "getChildrenRecursive_getChildrenLoop_dom (Inl (g, n, ch)) \<Longrightarrow>
           getChildrenRecursive g n ch = Inr ch' \<Longrightarrow> set ch \<subseteq> set ch'"
    and "getChildrenRecursive_getChildrenLoop_dom (Inr (g, cs, ch)) \<Longrightarrow>
           getChildrenLoop g cs ch = Inr ch' \<Longrightarrow> set ch \<subseteq> set ch'"
  by (induction g n ch and g cs ch arbitrary: ch' and ch'
        rule: getChildrenRecursive_getChildrenLoop.pinduct)
    (fastforce simp: getChildrenRecursive.psimps getChildrenLoop.psimps
      split: sum.splits if_splits)+

termination getChildrenRecursive
proof (relation "measures
    [\<lambda>x. case x of Inl (g, n, ch) \<Rightarrow> card (to_nodes (map_values (gconnections g)) - set ch)
       | Inr (g, cs, ch) \<Rightarrow> card ((to_nodes (map_values (gconnections g)) \<union> to_nodes cs) - set ch),
     \<lambda>x. case x of Inl _ \<Rightarrow> 1 | Inr _ \<Rightarrow> 0,
     \<lambda>x. case x of Inl _ \<Rightarrow> 0 | Inr (g, cs, ch) \<Rightarrow> length cs]", goal_cases)
  case 1
  show ?case by simp
next
  case (2 g node children cs)
  then have "to_nodes (map_values (gconnections g)) \<union> to_nodes cs
             = to_nodes (map_values (gconnections g))"
    by (auto simp: getDirectChildConnections_Inr)
  then show ?case by simp
next
  case (3 g c rest children)
  have "card ((to_nodes (map_values (gconnections g)) \<union> to_nodes rest) - set children)
      \<le> card ((to_nodes (map_values (gconnections g)) \<union> to_nodes (c # rest)) - set children)"
    by (rule card_mono) auto
  then show ?case by (auto simp: le_less)
next
  case (4 g c rest children)
  have "card (to_nodes (map_values (gconnections g)) - insert (to_node c) (set children))
      < card ((to_nodes (map_values (gconnections g)) \<union> to_nodes (c # rest)) - set children)"
    using 4 by (intro psubset_card_mono) auto
  then show ?case by simp
next
  case (5 g c rest children ch')
  then have "set children \<subseteq> set ch'"
    using getChildren_grows(1) [of g "to_node c" "set_add (to_node c) children" ch'] by auto
  then have "card ((to_nodes (map_values (gconnections g)) \<union> to_nodes rest) - set ch')
      \<le> card ((to_nodes (map_values (gconnections g)) \<union> to_nodes (c # rest)) - set children)"
    by (intro card_mono) auto
  then show ?case by (auto simp: le_less)
qed

definition getChildren :: "directed_graph \<Rightarrow> inode \<Rightarrow> engine_error + inode list" where
  "getChildren g node = getChildrenRecursive g node []"


lemma direct_children_edges:
  "getDirectChildConnections g n = Inr cs \<Longrightarrow> to_nodes cs = edges g `` {n}"
  by (force simp: getDirectChildConnections_Inr edges_iff)

text \<open>
  What a call leaves behind: it keeps what was marked, marks the successors it was called for, and
  everything newly marked has its successors marked and was reached from where the call started.
\<close>

definition search_post :: "'a rel \<Rightarrow> 'a set \<Rightarrow> 'a set \<Rightarrow> 'a set \<Rightarrow> bool" where
  "search_post R start old new \<longleftrightarrow>
     old \<subseteq> new \<and> start \<subseteq> new \<and> (\<forall>x\<in>new - old. R `` {x} \<subseteq> new) \<and> new \<subseteq> old \<union> R\<^sup>* `` start"

lemma search_post_refl: "start \<subseteq> old \<Longrightarrow> search_post R start old old"
  by (auto simp: search_post_def)

lemma search_post_step:
  assumes "search_post R (R `` {t}) (insert t old) mid" and "search_post R rest mid new"
  shows "search_post R (insert t rest) old new"
proof -
  from assms(1) have mid: "insert t old \<subseteq> mid" "R `` {t} \<subseteq> mid"
    "\<And>x. x \<in> mid \<Longrightarrow> x \<notin> insert t old \<Longrightarrow> R `` {x} \<subseteq> mid"
    "mid \<subseteq> insert t old \<union> R\<^sup>* `` (R `` {t})"
    by (auto simp: search_post_def)
  from assms(2) have new: "mid \<subseteq> new" "rest \<subseteq> new"
    "\<And>x. x \<in> new \<Longrightarrow> x \<notin> mid \<Longrightarrow> R `` {x} \<subseteq> new" "new \<subseteq> mid \<union> R\<^sup>* `` rest"
    by (auto simp: search_post_def)
  have reach: "insert t (R\<^sup>* `` (R `` {t})) \<subseteq> R\<^sup>* `` insert t rest"
    by (auto intro: converse_rtrancl_into_rtrancl)
  have closed: "R `` {x} \<subseteq> new" if "x \<in> new" and "x \<notin> old" for x
  proof (cases "x \<in> mid")
    case True
    then have "R `` {x} \<subseteq> mid" using that(2) mid(2,3) by (cases "x = t") auto
    then show ?thesis using new(1) by (rule order_trans)
  qed (use that new(3) in blast)
  have "new \<subseteq> old \<union> R\<^sup>* `` insert t rest"
  proof
    fix x assume "x \<in> new"
    with new(4) mid(4) have "x \<in> old \<or> x \<in> insert t (R\<^sup>* `` (R `` {t})) \<or> x \<in> R\<^sup>* `` rest"
      by blast
    then show "x \<in> old \<union> R\<^sup>* `` insert t rest" using reach by blast
  qed
  then show ?thesis
    using mid(1) new(1,2) closed by (auto simp: search_post_def)
qed

lemma search_post_skip:
  "search_post R rest old new \<Longrightarrow> t \<in> old \<Longrightarrow> search_post R (insert t rest) old new"
  by (auto simp: search_post_def)

text \<open>From an empty start the marked set is exactly what one or more edges reach.\<close>

lemma search_post_empty:
  assumes "search_post R (R `` {n}) {} new"
  shows "new = R\<^sup>+ `` {n}"
proof
  show "new \<subseteq> R\<^sup>+ `` {n}"
    using assms by (auto simp: search_post_def intro: rtrancl_into_trancl2)
  have "y \<in> new" if "(n, y) \<in> R\<^sup>+" for y
    using _ _ that by (rule closed_trancl) (use assms in \<open>auto simp: search_post_def\<close>)
  then show "R\<^sup>+ `` {n} \<subseteq> new" by auto
qed

lemma getChildren_post:
  shows "getChildrenRecursive g n ch = Inr ch' \<Longrightarrow>
           search_post (edges g) (edges g `` {n}) (set ch) (set ch')"
    and "getChildrenLoop g cs ch = Inr ch' \<Longrightarrow>
           search_post (edges g) (to_nodes cs) (set ch) (set ch')"
proof (induction g n ch and g cs ch arbitrary: ch' and ch'
    rule: getChildrenRecursive_getChildrenLoop.induct)
  case (1 g node children)
  then show ?case
    by (auto simp: direct_children_edges split: sum.splits)
next
  case (2 g children)
  then show ?case by (simp add: search_post_refl)
next
  case (3 g c rest children)
  show ?case
  proof (cases "to_node c \<in> set children")
    case True
    with 3 show ?thesis by (auto intro: search_post_skip)
  next
    case False
    with "3.prems" obtain mid where
      mid: "getChildrenRecursive g (to_node c) (set_add (to_node c) children) = Inr mid"
      and rest: "getChildrenLoop g rest mid = Inr ch'"
      by (auto split: sum.splits)
    from "3.IH"(2) [OF False mid] have
      "search_post (edges g) (edges g `` {to_node c}) (insert (to_node c) (set children)) (set mid)"
      by simp
    from search_post_step [OF this "3.IH"(3) [OF False mid rest]] show ?thesis by simp
  qed
qed

lemma getChildren_distinct:
  shows "getChildrenRecursive g n ch = Inr ch' \<Longrightarrow> distinct ch \<Longrightarrow> distinct ch'"
    and "getChildrenLoop g cs ch = Inr ch' \<Longrightarrow> distinct ch \<Longrightarrow> distinct ch'"
  by (induction g n ch and g cs ch arbitrary: ch' and ch'
        rule: getChildrenRecursive_getChildrenLoop.induct)
    (fastforce split: sum.splits if_splits)+

lemma getChildren_total:
  assumes "wf_graph g"
  shows "in_graph g n \<Longrightarrow> \<exists>ch'. getChildrenRecursive g n ch = Inr ch'"
    and "(\<forall>t \<in> to_nodes cs. in_graph g t) \<Longrightarrow> \<exists>ch'. getChildrenLoop g cs ch = Inr ch'"
  using assms
proof (induction g n ch and g cs ch rule: getChildrenRecursive_getChildrenLoop.induct)
  case (1 g node children)
  then obtain cs where cs: "getDirectChildConnections g node = Inr cs"
    by (simp add: getDirectChildConnections_def)
  have "\<forall>t \<in> to_nodes cs. in_graph g t"
    using direct_children_edges [OF cs] edges_in_graph [OF "1.prems"(2)] by auto
  with "1.IH" [OF cs] "1.prems"(2) cs show ?case by auto
next
  case (3 g c rest children)
  show ?case
  proof (cases "to_node c \<in> set children")
    case True
    with 3 show ?thesis by auto
  next
    case False
    with 3 obtain mid where
      mid: "getChildrenRecursive g (to_node c) (set_add (to_node c) children) = Inr mid"
      by auto
    with "3.IH"(3) [OF False mid] "3.prems" False show ?thesis by auto
  qed
qed simp

lemma getChildren_spec:
  assumes "wf_graph g" and "in_graph g n"
  shows "\<exists>ch. getChildren g n = Inr ch \<and> distinct ch \<and> set ch = (edges g)\<^sup>+ `` {n}"
proof -
  obtain ch where ch: "getChildrenRecursive g n [] = Inr ch"
    using getChildren_total(1) [OF assms] by blast
  from search_post_empty [OF getChildren_post(1) [OF ch, simplified]] getChildren_distinct(1) [OF ch]
  show ?thesis using ch by (auto simp: getChildren_def)
qed

section \<open>Parent connections\<close>

function getParentConnectionsRecursive ::
    "directed_graph \<Rightarrow> inode \<Rightarrow> graph_connection list \<Rightarrow> engine_error + graph_connection list"
  and getParentConnectionsLoop ::
    "directed_graph \<Rightarrow> graph_connection list \<Rightarrow> graph_connection list \<Rightarrow> engine_error + graph_connection list"
where
  "getParentConnectionsRecursive g node connections =
     (case getDirectParentConnections g node of
        Inl e \<Rightarrow> Inl e
      | Inr parentConnections \<Rightarrow> getParentConnectionsLoop g parentConnections connections)"
| "getParentConnectionsLoop g [] connections = Inr connections"
| "getParentConnectionsLoop g (connection # rest) connections =
     (if connection \<in> set connections then getParentConnectionsLoop g rest connections
      else case getParentConnectionsRecursive g (from_node connection) (set_add connection connections) of
             Inl e \<Rightarrow> Inl e
           | Inr connections' \<Rightarrow> getParentConnectionsLoop g rest connections')"
  by pat_completeness auto

lemma getParentConnections_grows:
  shows "getParentConnectionsRecursive_getParentConnectionsLoop_dom (Inl (g, n, acc)) \<Longrightarrow>
           getParentConnectionsRecursive g n acc = Inr acc' \<Longrightarrow> set acc \<subseteq> set acc'"
    and "getParentConnectionsRecursive_getParentConnectionsLoop_dom (Inr (g, cs, acc)) \<Longrightarrow>
           getParentConnectionsLoop g cs acc = Inr acc' \<Longrightarrow> set acc \<subseteq> set acc'"
  by (induction g n acc and g cs acc arbitrary: acc' and acc'
        rule: getParentConnectionsRecursive_getParentConnectionsLoop.pinduct)
    (fastforce simp: getParentConnectionsRecursive.psimps getParentConnectionsLoop.psimps
      split: sum.splits if_splits)+

termination getParentConnectionsRecursive
proof (relation "measures
    [\<lambda>x. case x of Inl (g, n, acc) \<Rightarrow> card (connections_of g - set acc)
       | Inr (g, cs, acc) \<Rightarrow> card ((connections_of g \<union> set cs) - set acc),
     \<lambda>x. case x of Inl _ \<Rightarrow> 1 | Inr _ \<Rightarrow> 0,
     \<lambda>x. case x of Inl _ \<Rightarrow> 0 | Inr (g, cs, acc) \<Rightarrow> length cs]", goal_cases)
  case 1
  show ?case by simp
next
  case (2 g node acc cs)
  then have "connections_of g \<union> set cs = connections_of g"
    by (auto simp: getDirectParentConnections_Inr)
  then show ?case by simp
next
  case (3 g c rest acc)
  have "card ((connections_of g \<union> set rest) - set acc)
      \<le> card ((connections_of g \<union> set (c # rest)) - set acc)"
    by (rule card_mono) auto
  then show ?case by (auto simp: le_less)
next
  case (4 g c rest acc)
  have "card (connections_of g - insert c (set acc))
      < card ((connections_of g \<union> set (c # rest)) - set acc)"
    using 4 by (intro psubset_card_mono) auto
  then show ?case by simp
next
  case (5 g c rest acc acc')
  then have "set acc \<subseteq> set acc'"
    using getParentConnections_grows(1) [of g "from_node c" "set_add c acc" acc'] by auto
  then have "card ((connections_of g \<union> set rest) - set acc')
      \<le> card ((connections_of g \<union> set (c # rest)) - set acc)"
    by (intro card_mono) auto
  then show ?case by (auto simp: le_less)
qed

definition getParentConnections :: "directed_graph \<Rightarrow> inode \<Rightarrow> engine_error + graph_connection list" where
  "getParentConnections g node = getParentConnectionsRecursive g node []"


definition parent_rel :: "directed_graph \<Rightarrow> graph_connection rel" where
  "parent_rel g = {(c, d). d \<in> connections_of g \<and> to_node d = from_node c}"

definition incoming_set :: "directed_graph \<Rightarrow> inode \<Rightarrow> graph_connection set" where
  "incoming_set g n = {d \<in> connections_of g. to_node d = n}"

lemma direct_parents_set:
  "getDirectParentConnections g n = Inr cs \<Longrightarrow> set cs = incoming_set g n"
  by (auto simp: getDirectParentConnections_Inr incoming_set_def)

lemma parent_rel_Image: "parent_rel g `` {c} = incoming_set g (from_node c)"
  by (auto simp: parent_rel_def incoming_set_def)

lemma getParentConnections_post:
  shows "getParentConnectionsRecursive g n acc = Inr acc' \<Longrightarrow>
           search_post (parent_rel g) (incoming_set g n) (set acc) (set acc')"
    and "getParentConnectionsLoop g cs acc = Inr acc' \<Longrightarrow>
           search_post (parent_rel g) (set cs) (set acc) (set acc')"
proof (induction g n acc and g cs acc arbitrary: acc' and acc'
    rule: getParentConnectionsRecursive_getParentConnectionsLoop.induct)
  case (1 g node acc)
  then show ?case by (auto simp: direct_parents_set split: sum.splits)
next
  case (2 g acc)
  then show ?case by (simp add: search_post_refl)
next
  case (3 g c rest acc)
  show ?case
  proof (cases "c \<in> set acc")
    case True
    with 3 show ?thesis by (auto intro: search_post_skip)
  next
    case False
    with "3.prems" obtain mid where
      mid: "getParentConnectionsRecursive g (from_node c) (set_add c acc) = Inr mid"
      and rest: "getParentConnectionsLoop g rest mid = Inr acc'"
      by (auto split: sum.splits)
    from "3.IH"(2) [OF False mid] have
      "search_post (parent_rel g) (parent_rel g `` {c}) (insert c (set acc)) (set mid)"
      by (simp add: parent_rel_Image)
    from search_post_step [OF this "3.IH"(3) [OF False mid rest]] show ?thesis by simp
  qed
qed

lemma getParentConnections_distinct:
  shows "getParentConnectionsRecursive g n acc = Inr acc' \<Longrightarrow> distinct acc \<Longrightarrow> distinct acc'"
    and "getParentConnectionsLoop g cs acc = Inr acc' \<Longrightarrow> distinct acc \<Longrightarrow> distinct acc'"
  by (induction g n acc and g cs acc arbitrary: acc' and acc'
        rule: getParentConnectionsRecursive_getParentConnectionsLoop.induct)
    (fastforce split: sum.splits if_splits)+

lemma getParentConnections_total:
  assumes "wf_graph g"
  shows "in_graph g n \<Longrightarrow> \<exists>acc'. getParentConnectionsRecursive g n acc = Inr acc'"
    and "(\<forall>c \<in> set cs. in_graph g (from_node c)) \<Longrightarrow> \<exists>acc'. getParentConnectionsLoop g cs acc = Inr acc'"
  using assms
proof (induction g n acc and g cs acc
    rule: getParentConnectionsRecursive_getParentConnectionsLoop.induct)
  case (1 g node acc)
  then obtain cs where cs: "getDirectParentConnections g node = Inr cs"
    by (simp add: getDirectParentConnections_def)
  have "\<forall>c \<in> set cs. in_graph g (from_node c)"
    using direct_parents_set [OF cs] connection_ends [OF "1.prems"(2)]
    by (auto simp: incoming_set_def simp del: set_map)
  with "1.IH" [OF cs] "1.prems"(2) cs show ?case by auto
next
  case (3 g c rest acc)
  show ?case
  proof (cases "c \<in> set acc")
    case True
    with 3 show ?thesis by auto
  next
    case False
    with 3 obtain mid where
      mid: "getParentConnectionsRecursive g (from_node c) (set_add c acc) = Inr mid"
      by auto
    with "3.IH"(3) [OF False mid] "3.prems" False show ?thesis by auto
  qed
qed simp

lemma search_post_from_empty:
  assumes "search_post R start {} new"
  shows "new = R\<^sup>* `` start"
proof
  show "new \<subseteq> R\<^sup>* `` start" using assms by (auto simp: search_post_def)
  have "y \<in> new" if "x \<in> start" and "(x, y) \<in> R\<^sup>*" for x y
    using _ _ that(2) by (rule closed_rtrancl) (use assms that(1) in \<open>auto simp: search_post_def\<close>)
  then show "R\<^sup>* `` start \<subseteq> new" by auto
qed

lemma parent_rel_reach:
  "(parent_rel g)\<^sup>* `` incoming_set g n = {d \<in> connections_of g. (to_node d, n) \<in> (edges g)\<^sup>*}"
proof (intro set_eqI iffI)
  fix d assume "d \<in> (parent_rel g)\<^sup>* `` incoming_set g n"
  then obtain c where "(c, d) \<in> (parent_rel g)\<^sup>*" and "c \<in> incoming_set g n" by auto
  then have "d \<in> connections_of g \<and> (to_node d, n) \<in> (edges g)\<^sup>*"
  proof (induction rule: rtrancl_induct)
    case base
    then show ?case by (auto simp: incoming_set_def)
  next
    case (step d e)
    then have "(to_node e, to_node d) \<in> edges g"
      by (auto simp: parent_rel_def edges_iff)
    with step show ?case
      by (auto simp: parent_rel_def intro: converse_rtrancl_into_rtrancl)
  qed
  then show "d \<in> {d \<in> connections_of g. (to_node d, n) \<in> (edges g)\<^sup>*}" by simp
next
  fix d assume "d \<in> {d \<in> connections_of g. (to_node d, n) \<in> (edges g)\<^sup>*}"
  then have d: "d \<in> connections_of g" and reach: "(to_node d, n) \<in> (edges g)\<^sup>*" by auto
  have "\<forall>d \<in> connections_of g. to_node d = x \<longrightarrow> d \<in> (parent_rel g)\<^sup>* `` incoming_set g n"
    if "(x, n) \<in> (edges g)\<^sup>*" for x
    using that
  proof (induction rule: converse_rtrancl_induct)
    case base
    then show ?case by (auto simp: incoming_set_def)
  next
    case (step x y)
    then obtain c where c: "c \<in> connections_of g" "from_node c = x" "to_node c = y"
      by (auto simp: edges_iff)
    with step.IH obtain b where b: "b \<in> incoming_set g n" "(b, c) \<in> (parent_rel g)\<^sup>*" by auto
    show ?case
    proof (intro ballI impI)
      fix d assume "d \<in> connections_of g" and "to_node d = x"
      with c have "(c, d) \<in> parent_rel g" by (simp add: parent_rel_def)
      with b show "d \<in> (parent_rel g)\<^sup>* `` incoming_set g n" by (auto intro: rtrancl_into_rtrancl)
    qed
  qed
  with d reach show "d \<in> (parent_rel g)\<^sup>* `` incoming_set g n" by auto
qed

lemma getParentConnections_spec:
  assumes "wf_graph g" and "in_graph g n"
  shows "\<exists>cs. getParentConnections g n = Inr cs \<and> distinct cs
           \<and> set cs = {c \<in> connections_of g. (to_node c, n) \<in> (edges g)\<^sup>*}"
proof -
  obtain cs where cs: "getParentConnectionsRecursive g n [] = Inr cs"
    using getParentConnections_total(1) [OF assms] by blast
  from search_post_from_empty [OF getParentConnections_post(1) [OF cs, simplified]]
    getParentConnections_distinct(1) [OF cs]
  show ?thesis using cs by (auto simp: getParentConnections_def parent_rel_reach)
qed

section \<open>Depth-first search for a node\<close>

function depthFirstSearchRecursive ::
    "directed_graph \<Rightarrow> (inode \<Rightarrow> bool) \<Rightarrow> inode \<Rightarrow> inode list \<Rightarrow> engine_error + inode option \<times> inode list"
  and depthFirstSearchLoop ::
    "directed_graph \<Rightarrow> (inode \<Rightarrow> bool) \<Rightarrow> graph_connection list \<Rightarrow> inode list
     \<Rightarrow> engine_error + inode option \<times> inode list"
where
  "depthFirstSearchRecursive g fn from seen =
     (if from \<in> set seen then Inr (None, seen)
      else let seen = set_add from seen
           in if fn from then Inr (Some from, seen)
              else case getDirectChildConnections g from of
                     Inl e \<Rightarrow> Inl e
                   | Inr childConnections \<Rightarrow> depthFirstSearchLoop g fn childConnections seen)"
| "depthFirstSearchLoop g fn [] seen = Inr (None, seen)"
| "depthFirstSearchLoop g fn (childConnection # rest) seen =
     (case depthFirstSearchRecursive g fn (to_node childConnection) seen of
        Inl e \<Rightarrow> Inl e
      | Inr (Some found, seen') \<Rightarrow> Inr (Some found, seen')
      | Inr (None, seen') \<Rightarrow> depthFirstSearchLoop g fn rest seen')"
  by pat_completeness auto

lemma depthFirstSearch_grows:
  shows "depthFirstSearchRecursive_depthFirstSearchLoop_dom (Inl (g, fn, n, seen)) \<Longrightarrow>
           depthFirstSearchRecursive g fn n seen = Inr (r, seen') \<Longrightarrow> set seen \<subseteq> set seen'"
    and "depthFirstSearchRecursive_depthFirstSearchLoop_dom (Inr (g, fn, cs, seen)) \<Longrightarrow>
           depthFirstSearchLoop g fn cs seen = Inr (r, seen') \<Longrightarrow> set seen \<subseteq> set seen'"
  by (induction g fn n seen and g fn cs seen arbitrary: r seen' and r seen'
        rule: depthFirstSearchRecursive_depthFirstSearchLoop.pinduct)
    (fastforce simp: depthFirstSearchRecursive.psimps depthFirstSearchLoop.psimps Let_def
      split: sum.splits if_splits option.splits prod.splits)+

termination depthFirstSearchRecursive
proof (relation "measures
    [\<lambda>x. case x of
         Inl (g, fn, n, seen) \<Rightarrow> card (insert n (to_nodes (map_values (gconnections g))) - set seen)
       | Inr (g, fn, cs, seen) \<Rightarrow> card ((to_nodes (map_values (gconnections g)) \<union> to_nodes cs) - set seen),
     \<lambda>x. case x of Inl _ \<Rightarrow> 0 | Inr (g, fn, cs, seen) \<Rightarrow> Suc (length cs)]", goal_cases)
  case 1
  show ?case by simp
next
  case (2 g fn n seen seen' cs)
  then have "to_nodes (map_values (gconnections g)) \<union> to_nodes cs
             = to_nodes (map_values (gconnections g))"
    by (auto simp: getDirectChildConnections_Inr)
  moreover have "card (to_nodes (map_values (gconnections g)) - insert n (set seen))
      < card (insert n (to_nodes (map_values (gconnections g))) - set seen)"
    using 2 by (intro psubset_card_mono) auto
  ultimately show ?case using 2 by simp
next
  case (3 g fn c rest seen)
  have "card (insert (to_node c) (to_nodes (map_values (gconnections g))) - set seen)
      \<le> card ((to_nodes (map_values (gconnections g)) \<union> to_nodes (c # rest)) - set seen)"
    by (rule card_mono) auto
  then show ?case by (auto simp: le_less)
next
  case (4 g fn c rest seen p o' seen')
  then have "set seen \<subseteq> set seen'"
    using depthFirstSearch_grows(1) [of g fn "to_node c" seen None seen'] by auto
  then have "card ((to_nodes (map_values (gconnections g)) \<union> to_nodes rest) - set seen')
      \<le> card ((to_nodes (map_values (gconnections g)) \<union> to_nodes (c # rest)) - set seen)"
    by (intro card_mono) auto
  then show ?case by (auto simp: le_less)
qed

definition depthFirstSearch ::
  "directed_graph \<Rightarrow> inode \<Rightarrow> (inode \<Rightarrow> bool) \<Rightarrow> engine_error + inode option" where
  "depthFirstSearch g from fn =
     bind_result (depthFirstSearchRecursive g fn from []) (\<lambda>(found, seen). Inr found)"


lemma search_post_seq:
  assumes "search_post R A old mid" and "search_post R B mid new"
  shows "search_post R (A \<union> B) old new"
proof -
  from assms(1) have mid: "old \<subseteq> mid" "A \<subseteq> mid"
    "\<And>x. x \<in> mid \<Longrightarrow> x \<notin> old \<Longrightarrow> R `` {x} \<subseteq> mid" "mid \<subseteq> old \<union> R\<^sup>* `` A"
    by (auto simp: search_post_def)
  from assms(2) have new: "mid \<subseteq> new" "B \<subseteq> new"
    "\<And>x. x \<in> new \<Longrightarrow> x \<notin> mid \<Longrightarrow> R `` {x} \<subseteq> new" "new \<subseteq> mid \<union> R\<^sup>* `` B"
    by (auto simp: search_post_def)
  have "R `` {x} \<subseteq> new" if "x \<in> new" and "x \<notin> old" for x
    using that mid(3) new(1,3) by (cases "x \<in> mid") blast+
  moreover have "new \<subseteq> old \<union> R\<^sup>* `` (A \<union> B)"
    using mid(4) new(4) by blast
  ultimately show ?thesis
    using mid(1,2) new(1,2) by (auto simp: search_post_def)
qed

lemma search_post_visit:
  "search_post R (R `` {n}) (insert n old) new \<Longrightarrow> search_post R {n} old new"
  using search_post_step [of R n old new "{}" new] by (simp add: search_post_refl)

lemma depthFirstSearch_post:
  shows "depthFirstSearchRecursive g fn n seen = Inr (r, seen') \<Longrightarrow>
           (case r of
              Some m \<Rightarrow> fn m \<and> (n, m) \<in> (edges g)\<^sup>*
            | None \<Rightarrow> search_post (edges g) {n} (set seen) (set seen')
                \<and> (\<forall>x \<in> set seen' - set seen. \<not> fn x))"
    and "depthFirstSearchLoop g fn cs seen = Inr (r, seen') \<Longrightarrow>
           (case r of
              Some m \<Rightarrow> fn m \<and> m \<in> (edges g)\<^sup>* `` to_nodes cs
            | None \<Rightarrow> search_post (edges g) (to_nodes cs) (set seen) (set seen')
                \<and> (\<forall>x \<in> set seen' - set seen. \<not> fn x))"
proof (induction g fn n seen and g fn cs seen arbitrary: r seen' and r seen'
    rule: depthFirstSearchRecursive_depthFirstSearchLoop.induct)
  case (1 g fn n seen)
  show ?case
  proof (cases "n \<in> set seen \<or> fn n")
    case True
    with "1.prems" show ?thesis
      by (auto simp: search_post_refl Let_def split: if_splits)
  next
    case False
    with "1.prems" obtain cs where
      cs: "getDirectChildConnections g n = Inr cs"
      and loop: "depthFirstSearchLoop g fn cs (set_add n seen) = Inr (r, seen')"
      by (auto simp: Let_def split: sum.splits)
    from False have new: "n \<notin> set seen" and nf: "\<not> fn n" by auto
    note IH = "1.IH" [OF new refl nf cs loop]
    show ?thesis
    proof (cases r)
      case None
      with IH direct_children_edges [OF cs] nf show ?thesis
        by (auto intro: search_post_visit)
    next
      case (Some m)
      with IH direct_children_edges [OF cs] show ?thesis
        by (auto intro: converse_rtrancl_into_rtrancl)
    qed
  qed
next
  case (2 g fn seen)
  then show ?case by (auto simp: search_post_refl)
next
  case (3 g fn c rest seen)
  from "3.prems" obtain r1 seen1 where
    first: "depthFirstSearchRecursive g fn (to_node c) seen = Inr (r1, seen1)"
    by (auto split: sum.splits prod.splits)
  note IH1 = "3.IH"(1) [OF first]
  show ?case
  proof (cases r1)
    case None
    with first "3.prems" have loop: "depthFirstSearchLoop g fn rest seen1 = Inr (r, seen')" by simp
    note IH2 = "3.IH"(2) [OF first refl None loop]
    show ?thesis
    proof (cases r)
      case None
      with IH1 IH2 \<open>r1 = None\<close> have
        "search_post (edges g) ({to_node c} \<union> to_nodes rest) (set seen) (set seen')"
        by (intro search_post_seq [where mid = "set seen1"]) auto
      with IH1 IH2 \<open>r1 = None\<close> None show ?thesis by auto
    qed (use IH2 in auto)
  next
    case (Some m)
    with first "3.prems" IH1 show ?thesis by auto
  qed
qed

lemma depthFirstSearch_total:
  assumes "wf_graph g"
  shows "in_graph g n \<Longrightarrow> \<exists>r. depthFirstSearchRecursive g fn n seen = Inr r"
    and "(\<forall>t \<in> to_nodes cs. in_graph g t) \<Longrightarrow> \<exists>r. depthFirstSearchLoop g fn cs seen = Inr r"
  using assms
proof (induction g fn n seen and g fn cs seen
    rule: depthFirstSearchRecursive_depthFirstSearchLoop.induct)
  case (1 g fn n seen)
  then obtain cs where cs: "getDirectChildConnections g n = Inr cs"
    by (simp add: getDirectChildConnections_def)
  have "\<forall>t \<in> to_nodes cs. in_graph g t"
    using direct_children_edges [OF cs] edges_in_graph [OF "1.prems"(2)] by auto
  with "1.IH" [OF _ refl _ cs] "1.prems"(2) cs show ?case by (auto simp: Let_def)
next
  case (3 g fn c rest seen)
  then obtain r1 seen1 where first: "depthFirstSearchRecursive g fn (to_node c) seen = Inr (r1, seen1)"
    by fastforce
  with "3.IH"(2) [OF first refl] "3.prems" show ?case by (cases r1) auto
qed simp

lemma depthFirstSearch_spec:
  assumes "wf_graph g" and "in_graph g n"
  shows "\<exists>r. depthFirstSearch g n fn = Inr r
           \<and> (case r of
                Some m \<Rightarrow> fn m \<and> (n, m) \<in> (edges g)\<^sup>*
              | None \<Rightarrow> (\<forall>m. (n, m) \<in> (edges g)\<^sup>* \<longrightarrow> \<not> fn m))"
proof -
  obtain r seen where r: "depthFirstSearchRecursive g fn n [] = Inr (r, seen)"
    using depthFirstSearch_total(1) [OF assms, of fn "[]"] by fastforce
  note post = depthFirstSearch_post(1) [OF r]
  have "\<forall>m. (n, m) \<in> (edges g)\<^sup>* \<longrightarrow> \<not> fn m" if "r = None"
    using post that search_post_from_empty [of "edges g" "{n}" "set seen"] by auto
  with post r show ?thesis by (auto simp: depthFirstSearch_def split: option.splits)
qed

end
