(* ===== verification/Graph_Components.thy ===== *)
theory Graph_Components
  imports Graph_Search
begin

text \<open>
  \<open>getStronglyConnectedComponents\<close> of \<open>directed-graph.ts\<close>: the variables the inner function
  \<open>followNode\<close> closes over are a record that every call threads through, and the stack is kept
  with its top first.
\<close>

section \<open>The search\<close>

record component_search =
  next_id :: nat
  visited :: "inode list"
  ids :: "(inode \<times> nat) list"
  low_link_values :: "(inode \<times> nat) list"
  node_stack :: "inode list"
  components :: "inode list list"

definition component_search_init :: component_search where
  "component_search_init =
     \<lparr>next_id = 0, visited = [], ids = [], low_link_values = [], node_stack = [], components = []\<rparr>"

text \<open>The first half of \<open>followNode\<close>: the node gets the next id and goes on the stack.\<close>

definition open_node :: "inode \<Rightarrow> component_search \<Rightarrow> component_search" where
  "open_node node s =
     s\<lparr>visited := set_add node (visited s),
       low_link_values := map_set node (next_id s) (low_link_values s),
       ids := map_set node (next_id s) (ids s),
       next_id := Suc (next_id s),
       node_stack := node # node_stack s\<rparr>"

text \<open>After a child was followed: if it is on the stack, its low link bounds the node's.\<close>

definition lower_link :: "inode \<Rightarrow> inode \<Rightarrow> component_search \<Rightarrow> engine_error + component_search" where
  "lower_link node child s =
     (if child \<in> set (node_stack s) then
        case (map_of (low_link_values s) child, map_of (low_link_values s) node) of
          (Some childLowLinkValue, Some ownLowLinkValue) \<Rightarrow>
            Inr (s\<lparr>low_link_values := map_set node (min childLowLinkValue ownLowLinkValue)
                                        (low_link_values s)\<rparr>)
        | _ \<Rightarrow> Inl LowLinkMissing
      else Inr s)"

text \<open>The loop that pops while the top's low link is the id: the popped nodes and the rest.\<close>

fun pop_component :: "(inode \<times> nat) list \<Rightarrow> nat \<Rightarrow> inode list \<Rightarrow> inode list \<Rightarrow> inode list \<times> inode list" where
  "pop_component low ownId scc [] = (scc, [])"
| "pop_component low ownId scc (t # below) =
     (if map_of low t = Some ownId then pop_component low ownId (set_add t scc) below
      else (scc, t # below))"

definition close_node :: "inode \<Rightarrow> component_search \<Rightarrow> engine_error + component_search" where
  "close_node node s =
     (case (map_of (ids s) node, map_of (low_link_values s) node) of
        (Some ownId, Some ownLowLinkValue) \<Rightarrow>
          if ownId = ownLowLinkValue then
            let (scc, rest) = pop_component (low_link_values s) ownId [] (node_stack s)
            in Inr (s\<lparr>node_stack := rest,
                      components := (if scc \<noteq> [] then components s @ [scc] else components s)\<rparr>)
          else Inr s
      | _ \<Rightarrow> Inl LowLinkMissing)"

function followNode :: "directed_graph \<Rightarrow> inode \<Rightarrow> component_search \<Rightarrow> engine_error + component_search"
  and followChildren :: "directed_graph \<Rightarrow> inode \<Rightarrow> inode list \<Rightarrow> component_search \<Rightarrow> engine_error + component_search"
where
  "followNode g node s =
     (if node \<in> set (visited s) then Inr s
      else case getDirectChildConnections g node of
             Inl e \<Rightarrow> Inl e
           | Inr connections \<Rightarrow>
               bind_result (followChildren g node (map to_node connections) (open_node node s))
                 (close_node node))"
| "followChildren g node [] s = Inr s"
| "followChildren g node (child # rest) s =
     (case followNode g child s of
        Inl e \<Rightarrow> Inl e
      | Inr s' \<Rightarrow>
          (case lower_link node child s' of
             Inl e \<Rightarrow> Inl e
           | Inr s'' \<Rightarrow> followChildren g node rest s''))"
  by pat_completeness auto

lemma visited_open_node [simp]: "set (visited (open_node n s)) = insert n (set (visited s))"
  by (simp add: open_node_def)

lemma visited_lower_link: "lower_link n c s = Inr s' \<Longrightarrow> visited s' = visited s"
  by (auto simp: lower_link_def split: if_splits option.splits)

lemma visited_close_node: "close_node n s = Inr s' \<Longrightarrow> visited s' = visited s"
  by (auto simp: close_node_def Let_def split: if_splits option.splits prod.splits)

lemma follow_grows:
  shows "followNode_followChildren_dom (Inl (g, n, s)) \<Longrightarrow>
           followNode g n s = Inr s' \<Longrightarrow> set (visited s) \<subseteq> set (visited s')"
    and "followNode_followChildren_dom (Inr (g, n, cs, s)) \<Longrightarrow>
           followChildren g n cs s = Inr s' \<Longrightarrow> set (visited s) \<subseteq> set (visited s')"
  by (induction g n s and g n cs s arbitrary: s' and s' rule: followNode_followChildren.pinduct)
    (fastforce simp: followNode.psimps followChildren.psimps bind_result_Inr_iff
      visited_lower_link visited_close_node split: sum.splits if_splits)+

termination followNode
proof (relation "measures
    [\<lambda>x. case x of
         Inl (g, n, s) \<Rightarrow> card (insert n (to_nodes (map_values (gconnections g))) - set (visited s))
       | Inr (g, n, cs, s) \<Rightarrow> card ((to_nodes (map_values (gconnections g)) \<union> set cs) - set (visited s)),
     \<lambda>x. case x of Inl _ \<Rightarrow> 0 | Inr (g, n, cs, s) \<Rightarrow> Suc (length cs)]", goal_cases)
  case 1
  show ?case by simp
next
  case (2 g n s cs)
  then have "to_nodes (map_values (gconnections g)) \<union> to_nodes cs
             = to_nodes (map_values (gconnections g))"
    by (auto simp: getDirectChildConnections_Inr)
  moreover have "card (to_nodes (map_values (gconnections g)) - insert n (set (visited s)))
      < card (insert n (to_nodes (map_values (gconnections g))) - set (visited s))"
    using 2 by (intro psubset_card_mono) auto
  ultimately show ?case by simp
next
  case (3 g n c rest s)
  have "card (insert c (to_nodes (map_values (gconnections g))) - set (visited s))
      \<le> card ((to_nodes (map_values (gconnections g)) \<union> set (c # rest)) - set (visited s))"
    by (rule card_mono) auto
  then show ?case by (auto simp: le_less)
next
  case (4 g n c rest s s' s'')
  then have "set (visited s) \<subseteq> set (visited s'')"
    using follow_grows(1) [of g c s s'] by (auto simp: visited_lower_link)
  then have "card ((to_nodes (map_values (gconnections g)) \<union> set rest) - set (visited s''))
      \<le> card ((to_nodes (map_values (gconnections g)) \<union> set (c # rest)) - set (visited s))"
    by (intro card_mono) auto
  then show ?case by (auto simp: le_less)
qed

definition getStronglyConnectedComponents :: "directed_graph \<Rightarrow> engine_error + inode list list" where
  "getStronglyConnectedComponents g =
     bind_result (fold_result (followNode g) (map_values (gnodes g)) component_search_init)
       (\<lambda>s. Inr (components s))"


section \<open>The invariant of the search\<close>

text \<open>
  The visited nodes are the ones with an id and a low link; ids are pairwise different; a low link
  is at most the node's own id and is the id of a node it reaches; the reported components and the
  stack hold different visited nodes, and every component is strongly connected.
\<close>

definition strongly_connected :: "directed_graph \<Rightarrow> inode list \<Rightarrow> bool" where
  "strongly_connected g c \<longleftrightarrow> set c \<times> set c \<subseteq> (edges g)\<^sup>*"

definition ids_inv :: "component_search \<Rightarrow> bool" where
  "ids_inv s \<longleftrightarrow> dom (map_of (ids s)) = set (visited s)
     \<and> dom (map_of (low_link_values s)) = set (visited s)
     \<and> inj_on (map_of (ids s)) (set (visited s))
     \<and> (\<forall>n i. map_of (ids s) n = Some i \<longrightarrow> i < next_id s)"

definition low_inv :: "directed_graph \<Rightarrow> component_search \<Rightarrow> bool" where
  "low_inv g s \<longleftrightarrow> (\<forall>n k. map_of (low_link_values s) n = Some k \<longrightarrow>
     (\<exists>i r. map_of (ids s) n = Some i \<and> k \<le> i \<and> map_of (ids s) r = Some k \<and> (n, r) \<in> (edges g)\<^sup>*))"

definition stack_inv :: "directed_graph \<Rightarrow> component_search \<Rightarrow> bool" where
  "stack_inv g s \<longleftrightarrow> distinct (concat (components s) @ node_stack s)
     \<and> set (concat (components s)) \<union> set (node_stack s) \<subseteq> set (visited s)
     \<and> (\<forall>c \<in> set (components s). c \<noteq> [] \<and> strongly_connected g c)"

definition search_inv :: "directed_graph \<Rightarrow> component_search \<Rightarrow> bool" where
  "search_inv g s \<longleftrightarrow> ids_inv s \<and> low_inv g s \<and> stack_inv g s"

lemma search_inv_init: "search_inv g component_search_init"
  by (simp add: search_inv_def ids_inv_def low_inv_def stack_inv_def component_search_init_def)

lemma low_invE:
  assumes "low_inv g s" and "map_of (low_link_values s) n = Some k"
  obtains i r where "map_of (ids s) n = Some i" "k \<le> i" "map_of (ids s) r = Some k"
    "(n, r) \<in> (edges g)\<^sup>*"
  using assms unfolding low_inv_def by blast

lemma ids_inv_open:
  assumes "ids_inv s" and "n \<notin> set (visited s)"
  shows "ids_inv (open_node n s)"
proof -
  from assms(1) have fresh: "map_of (ids s) x \<noteq> Some (next_id s)" for x
    by (auto simp: ids_inv_def)
  have "inj_on ((map_of (ids s))(n \<mapsto> next_id s)) (insert n (set (visited s)))"
    using assms fresh fresh [symmetric] by (auto simp: ids_inv_def inj_on_def)
  then show ?thesis
    using assms(1) by (simp add: ids_inv_def open_node_def less_Suc_eq)
qed

lemma low_inv_open:
  assumes "ids_inv s" and "low_inv g s" and "n \<notin> set (visited s)"
  shows "low_inv g (open_node n s)"
proof -
  have "\<exists>i r. map_of (ids (open_node n s)) m = Some i \<and> k \<le> i
      \<and> map_of (ids (open_node n s)) r = Some k \<and> (m, r) \<in> (edges g)\<^sup>*"
    if low: "map_of (low_link_values (open_node n s)) m = Some k" for m k
  proof (cases "m = n")
    case True
    with low have "k = next_id s" by (simp add: open_node_def)
    with True show ?thesis by (intro exI [of _ k] exI [of _ n]) (simp add: open_node_def)
  next
    case False
    with low have "map_of (low_link_values s) m = Some k" by (simp add: open_node_def)
    with assms(2) obtain i r where r: "map_of (ids s) m = Some i" "k \<le> i"
      "map_of (ids s) r = Some k" "(m, r) \<in> (edges g)\<^sup>*"
      by (rule low_invE)
    then have "r \<in> set (visited s)" using assms(1) by (auto simp: ids_inv_def)
    with assms(3) have "r \<noteq> n" by auto
    with r False show ?thesis by (intro exI [of _ i] exI [of _ r]) (simp add: open_node_def)
  qed
  then show ?thesis by (simp add: low_inv_def)
qed

lemma stack_inv_open: "stack_inv g s \<Longrightarrow> n \<notin> set (visited s) \<Longrightarrow> stack_inv g (open_node n s)"
  by (auto simp: stack_inv_def open_node_def)

lemma search_inv_open:
  "search_inv g s \<Longrightarrow> n \<notin> set (visited s) \<Longrightarrow> search_inv g (open_node n s)"
  by (simp add: search_inv_def ids_inv_open low_inv_open stack_inv_open)

lemma lower_link_frame:
  assumes "lower_link n c s = Inr s'"
  shows "ids s' = ids s" "next_id s' = next_id s" "visited s' = visited s"
    "node_stack s' = node_stack s" "components s' = components s"
  using assms by (auto simp: lower_link_def split: if_splits option.splits)

lemma search_inv_lower:
  assumes inv: "search_inv g s" and edge: "(n, c) \<in> (edges g)\<^sup>*" and step: "lower_link n c s = Inr s'"
  shows "search_inv g s'"
proof (cases "c \<in> set (node_stack s)")
  case False
  with step inv show ?thesis by (simp add: lower_link_def)
next
  case True
  with step obtain kc kn where kc: "map_of (low_link_values s) c = Some kc"
    and kn: "map_of (low_link_values s) n = Some kn"
    and s': "s' = s\<lparr>low_link_values := map_set n (min kc kn) (low_link_values s)\<rparr>"
    by (auto simp: lower_link_def split: option.splits)
  from inv have low: "low_inv g s" and ids: "ids_inv s" and stack: "stack_inv g s"
    by (simp_all add: search_inv_def)
  from low kc obtain rc where rc: "map_of (ids s) rc = Some kc" "(c, rc) \<in> (edges g)\<^sup>*"
    by (rule low_invE)
  from low kn obtain i rn where rn: "map_of (ids s) n = Some i" "kn \<le> i"
    "map_of (ids s) rn = Some kn" "(n, rn) \<in> (edges g)\<^sup>*"
    by (rule low_invE)
  have "\<exists>r. map_of (ids s) r = Some (min kc kn) \<and> (n, r) \<in> (edges g)\<^sup>*"
    using rc rn edge by (cases "kc \<le> kn") (auto simp: min_def intro: rtrancl_trans)
  then have "low_inv g s'"
    using low rn(1,2) by (auto simp: low_inv_def s' min.coboundedI2)
  moreover have "ids_inv s'"
    using ids kn by (auto simp: ids_inv_def s')
  moreover have "stack_inv g s'"
    using stack by (simp add: stack_inv_def s')
  ultimately show ?thesis by (simp add: search_inv_def)
qed

text \<open>Popping splits the stack: the popped nodes all have the id as their low link.\<close>

lemma pop_component_split:
  assumes "pop_component low i acc st = (scc, rest)" and "distinct (acc @ st)"
  shows "\<exists>popped. st = popped @ rest \<and> scc = acc @ popped \<and> (\<forall>x \<in> set popped. map_of low x = Some i)"
  using assms
proof (induction low i acc st rule: pop_component.induct)
  case (2 low i scc' t below)
  then show ?case
    by (fastforce simp: set_add_def split: if_splits)
qed simp

lemma search_inv_close:
  assumes inv: "search_inv g s" and step: "close_node n s = Inr s'"
    and reach: "\<And>x i j. map_of (ids s) n = Some i \<Longrightarrow> map_of (ids s) x = Some j \<Longrightarrow> i \<le> j \<Longrightarrow> (n, x) \<in> (edges g)\<^sup>*"
  shows "search_inv g s'"
proof -
  from step obtain i k where i: "map_of (ids s) n = Some i" and k: "map_of (low_link_values s) n = Some k"
    by (auto simp: close_node_def split: option.splits)
  show ?thesis
  proof (cases "i = k")
    case False
    with step i k inv show ?thesis by (auto simp: close_node_def)
  next
    case True
    obtain scc rest where pop: "pop_component (low_link_values s) i [] (node_stack s) = (scc, rest)"
      by fastforce
    from step i k True pop have s': "s' = s\<lparr>node_stack := rest,
        components := (if scc \<noteq> [] then components s @ [scc] else components s)\<rparr>"
      by (simp add: close_node_def)
    from inv have low: "low_inv g s" and ids: "ids_inv s" and stack: "stack_inv g s"
      by (simp_all add: search_inv_def)
    from stack have dist: "distinct (node_stack s)" by (simp add: stack_inv_def)
    with pop_component_split [OF pop] have split: "node_stack s = scc @ rest"
      and all: "\<And>x. x \<in> set scc \<Longrightarrow> map_of (low_link_values s) x = Some i"
      by auto
    have both: "(x, n) \<in> (edges g)\<^sup>* \<and> (n, x) \<in> (edges g)\<^sup>*" if "x \<in> set scc" for x
    proof -
      from low all [OF that] obtain j r where r: "map_of (ids s) x = Some j" "i \<le> j"
        "map_of (ids s) r = Some i" "(x, r) \<in> (edges g)\<^sup>*"
        by (rule low_invE)
      with ids i have "r = n"
        by (metis domI ids_inv_def inj_onD)
      with r reach [OF i r(1,2)] show ?thesis by simp
    qed
    then have "strongly_connected g scc"
      by (auto simp: strongly_connected_def intro: rtrancl_trans)
    with stack split have "stack_inv g s'"
      by (auto simp: stack_inv_def s')
    moreover have "ids_inv s'" "low_inv g s'"
      using ids low by (simp_all add: ids_inv_def low_inv_def s')
    ultimately show ?thesis by (simp add: search_inv_def)
  qed
qed


section \<open>What a call leaves behind\<close>

definition follow_post :: "directed_graph \<Rightarrow> inode \<Rightarrow> component_search \<Rightarrow> component_search \<Rightarrow> bool" where
  "follow_post g n s s' \<longleftrightarrow> search_inv g s' \<and> set (visited s) \<subseteq> set (visited s')
     \<and> (\<forall>x \<in> set (visited s). map_of (ids s') x = map_of (ids s) x) \<and> next_id s \<le> next_id s'
     \<and> (\<forall>x \<in> set (visited s') - set (visited s).
          (n, x) \<in> (edges g)\<^sup>* \<and> (\<exists>i. map_of (ids s') x = Some i \<and> next_id s \<le> i))"

lemma follow_post_refl: "search_inv g s \<Longrightarrow> follow_post g n s s"
  by (simp add: follow_post_def)

lemma follow_post_trans:
  assumes "follow_post g n s1 s2" and "follow_post g n s2 s3"
  shows "follow_post g n s1 s3"
proof -
  from assms have mono: "set (visited s1) \<subseteq> set (visited s2)" "set (visited s2) \<subseteq> set (visited s3)"
    "next_id s1 \<le> next_id s2"
    by (auto simp: follow_post_def)
  have "(n, x) \<in> (edges g)\<^sup>* \<and> (\<exists>i. map_of (ids s3) x = Some i \<and> next_id s1 \<le> i)"
    if "x \<in> set (visited s3) - set (visited s1)" for x
  proof (cases "x \<in> set (visited s2)")
    case True
    then have "map_of (ids s3) x = map_of (ids s2) x" using assms(2) by (simp add: follow_post_def)
    with assms(1) True that show ?thesis by (simp add: follow_post_def)
  next
    case False
    with assms(2) that show ?thesis
      using mono(3) by (fastforce simp: follow_post_def)
  qed
  moreover have "map_of (ids s3) x = map_of (ids s1) x" if "x \<in> set (visited s1)" for x
    using assms mono(1) that by (auto simp: follow_post_def)
  ultimately show ?thesis
    using assms mono by (simp add: follow_post_def)
qed

lemma follow_post_from:
  "follow_post g c s s' \<Longrightarrow> (n, c) \<in> (edges g)\<^sup>* \<Longrightarrow> follow_post g n s s'"
  unfolding follow_post_def by (auto intro: rtrancl_trans)

lemma follow_post_lower:
  assumes "search_inv g s" and "(n, c) \<in> (edges g)\<^sup>*" and "lower_link n c s = Inr s'"
  shows "follow_post g n s s'"
  using search_inv_lower [OF assms] lower_link_frame [OF assms(3)]
  by (simp add: follow_post_def)

lemma search_inv_lookup:
  assumes "search_inv g s" and "x \<in> set (visited s)"
  obtains i k where "map_of (ids s) x = Some i" "map_of (low_link_values s) x = Some k"
  using assms by (metis domD ids_inv_def search_inv_def)

lemma lower_link_total:
  assumes "search_inv g s" and "n \<in> set (visited s)"
  shows "\<exists>s'. lower_link n c s = Inr s'"
proof (cases "c \<in> set (node_stack s)")
  case True
  with assms(1) have "c \<in> set (visited s)" by (auto simp: search_inv_def stack_inv_def)
  with assms(1) obtain kc where "map_of (low_link_values s) c = Some kc"
    by (auto elim: search_inv_lookup)
  moreover from assms obtain kn where "map_of (low_link_values s) n = Some kn"
    by (auto elim: search_inv_lookup)
  ultimately show ?thesis by (auto simp: lower_link_def)
qed (simp add: lower_link_def)

lemma close_node_total:
  assumes "search_inv g s" and "n \<in> set (visited s)"
  shows "\<exists>s'. close_node n s = Inr s'"
proof -
  from assms obtain i k where "map_of (ids s) n = Some i" "map_of (low_link_values s) n = Some k"
    by (rule search_inv_lookup)
  then show ?thesis by (auto simp: close_node_def split: prod.splits)
qed

lemma close_node_frame:
  assumes "close_node n s = Inr s'"
  shows "ids s' = ids s" "next_id s' = next_id s" "visited s' = visited s"
    "low_link_values s' = low_link_values s"
  using assms by (auto simp: close_node_def Let_def split: if_splits option.splits prod.splits)

lemma follow_post_close:
  assumes inv: "search_inv g s" and new: "n \<notin> set (visited s)"
    and post: "follow_post g n (open_node n s) s1" and close: "close_node n s1 = Inr s2"
  shows "follow_post g n s s2"
proof -
  let ?s0 = "open_node n s"
  have s0: "ids ?s0 = map_set n (next_id s) (ids s)" "next_id ?s0 = Suc (next_id s)"
    by (simp_all add: open_node_def)
  have id_n: "map_of (ids s1) n = Some (next_id s)"
    using post by (simp add: follow_post_def s0)
  have old: "map_of (ids s1) x = map_of (ids s) x" if "x \<in> set (visited s)" for x
    using post that new by (auto simp: follow_post_def s0)
  have new_ids: "(n, x) \<in> (edges g)\<^sup>* \<and> (\<exists>i. map_of (ids s1) x = Some i \<and> next_id s \<le> i)"
    if "x \<in> set (visited s1)" and "x \<notin> set (visited s)" for x
    using post that id_n by (cases "x = n") (force simp: follow_post_def s0)+
  have inv1: "search_inv g s1" using post by (simp add: follow_post_def)
  have "search_inv g s2"
  proof (rule search_inv_close [OF inv1 close])
    fix x i j
    assume i: "map_of (ids s1) n = Some i" and j: "map_of (ids s1) x = Some j" and le: "i \<le> j"
    have "x \<in> set (visited s1)"
      using inv1 j by (auto simp: search_inv_def ids_inv_def)
    moreover have "x \<notin> set (visited s)"
    proof
      assume x: "x \<in> set (visited s)"
      then have "map_of (ids s) x = Some j" using old j by simp
      then have "j < next_id s" using inv by (auto simp: search_inv_def ids_inv_def)
      with i id_n le show False by simp
    qed
    ultimately show "(n, x) \<in> (edges g)\<^sup>*" using new_ids by blast
  qed
  then show ?thesis
    using post old new_ids close_node_frame [OF close]
    by (auto simp: follow_post_def s0)
qed

lemma follow_spec:
  assumes "wf_graph g"
  shows "in_graph g n \<Longrightarrow> search_inv g s \<Longrightarrow>
           \<exists>s'. followNode g n s = Inr s' \<and> follow_post g n s s' \<and> n \<in> set (visited s')"
    and "n \<in> set (visited s) \<Longrightarrow> \<forall>c \<in> set cs. (n, c) \<in> edges g \<Longrightarrow> search_inv g s \<Longrightarrow>
           \<exists>s'. followChildren g n cs s = Inr s' \<and> follow_post g n s s'"
  using assms
proof (induction g n s and g n cs s rule: followNode_followChildren.induct)
  case (1 g n s)
  show ?case
  proof (cases "n \<in> set (visited s)")
    case True
    with "1.prems" show ?thesis by (auto intro: follow_post_refl)
  next
    case False
    from "1.prems"(1) obtain cs where cs: "getDirectChildConnections g n = Inr cs"
      by (simp add: getDirectChildConnections_def)
    have "\<forall>c \<in> set (map to_node cs). (n, c) \<in> edges g"
      using direct_children_edges [OF cs] by auto
    with "1.IH" [OF False cs] search_inv_open [OF "1.prems"(2) False] "1.prems"(3)
    obtain s1 where s1: "followChildren g n (map to_node cs) (open_node n s) = Inr s1"
      and post1: "follow_post g n (open_node n s) s1" by auto
    have inv1: "search_inv g s1" and vis1: "n \<in> set (visited s1)"
      using post1 by (auto simp: follow_post_def)
    from close_node_total [OF inv1 vis1] obtain s2 where s2: "close_node n s1 = Inr s2" by blast
    from follow_post_close [OF "1.prems"(2) False post1 s2] False cs s1 s2 vis1
    show ?thesis by (auto simp: close_node_frame(3))
  qed
next
  case (2 g n s)
  then show ?case by (auto intro: follow_post_refl)
next
  case (3 g n c rest s)
  then have edge: "(n, c) \<in> edges g" and "in_graph g c" by (auto dest: edges_in_graph)
  with "3.IH"(1) "3.prems" obtain s1 where s1: "followNode g c s = Inr s1"
    and p1: "follow_post g c s s1" by blast
  from p1 edge have p1': "follow_post g n s s1" by (auto intro: follow_post_from)
  have inv1: "search_inv g s1" and vis1: "n \<in> set (visited s1)"
    using p1 "3.prems"(1) by (auto simp: follow_post_def)
  from lower_link_total [OF inv1 vis1] obtain s2 where s2: "lower_link n c s1 = Inr s2" by blast
  from edge have p2: "follow_post g n s1 s2" by (intro follow_post_lower [OF inv1 _ s2]) auto
  then have "search_inv g s2" and "n \<in> set (visited s2)"
    using vis1 by (auto simp: follow_post_def)
  with "3.IH"(2) [OF s1 s2] "3.prems" obtain s3 where s3: "followChildren g n rest s2 = Inr s3"
    and p3: "follow_post g n s2 s3" by auto
  show ?case
    using s1 s2 s3 follow_post_trans [OF follow_post_trans [OF p1' p2] p3] by auto
qed


section \<open>The reported components\<close>

lemma rtrancl_in_graph: "wf_graph g \<Longrightarrow> in_graph g n \<Longrightarrow> (n, x) \<in> (edges g)\<^sup>* \<Longrightarrow> in_graph g x"
  by (metis edges_trancl_in_graph rtranclD)

lemma follow_all:
  assumes wf: "wf_graph g"
  shows "\<exists>s. fold_result (followNode g) (map_values (gnodes g)) component_search_init = Inr s
           \<and> search_inv g s \<and> set (visited s) \<subseteq> nodes_of g"
proof (rule fold_result_total [where P = "\<lambda>s. search_inv g s \<and> set (visited s) \<subseteq> nodes_of g",
        unfolded conj_assoc])
  show "search_inv g component_search_init \<and> set (visited component_search_init) \<subseteq> nodes_of g"
    using search_inv_init by (simp add: component_search_init_def)
next
  fix n s
  assume n: "n \<in> nodes_of g" and s: "search_inv g s \<and> set (visited s) \<subseteq> nodes_of g"
  have in_n: "in_graph g n" using n wf_graph_in_graph_iff [OF wf] by blast
  with follow_spec(1) [OF wf, of n s] s obtain s' where s': "followNode g n s = Inr s'"
    and post: "follow_post g n s s'" by blast
  have "x \<in> nodes_of g" if "x \<in> set (visited s')" for x
  proof (cases "x \<in> set (visited s)")
    case False
    with post that have "(n, x) \<in> (edges g)\<^sup>*" by (simp add: follow_post_def)
    then have "in_graph g x" by (rule rtrancl_in_graph [OF wf in_n])
    then show ?thesis using wf_graph_in_graph_iff [OF wf] by blast
  qed (use s in blast)
  with s' post show "\<exists>s'. followNode g n s = Inr s' \<and> search_inv g s' \<and> set (visited s') \<subseteq> nodes_of g"
    by (auto simp: follow_post_def)
qed

lemma components_spec:
  assumes "wf_graph g"
  shows "\<exists>cs. getStronglyConnectedComponents g = Inr cs \<and> distinct (concat cs)
           \<and> set (concat cs) \<subseteq> nodes_of g
           \<and> list_all (\<lambda>c. c \<noteq> [] \<and> strongly_connected g c) cs"
proof -
  from follow_all [OF assms] obtain s where
    s: "fold_result (followNode g) (map_values (gnodes g)) component_search_init = Inr s"
    and inv: "search_inv g s" and vis: "set (visited s) \<subseteq> nodes_of g" by blast
  from inv vis have "distinct (concat (components s))" "set (concat (components s)) \<subseteq> nodes_of g"
    "list_all (\<lambda>c. c \<noteq> [] \<and> strongly_connected g c) (components s)"
    by (auto simp: search_inv_def stack_inv_def list_all_iff)
  with s show ?thesis by (simp add: getStronglyConnectedComponents_def)
qed

section \<open>Graphs without cycles\<close>

definition acyclic_inv :: "component_search \<Rightarrow> bool" where
  "acyclic_inv s \<longleftrightarrow> map_of (low_link_values s) = map_of (ids s)
     \<and> set (visited s) = set (node_stack s) \<union> set (concat (components s))
     \<and> list_all (\<lambda>c. length c = 1) (components s)"

lemma acyclic_inv_open:
  "acyclic_inv s \<Longrightarrow> acyclic_inv (open_node n s)"
  by (auto simp: acyclic_inv_def open_node_def)

lemma acyclic_close:
  assumes inv: "search_inv g s" and acyc: "acyclic_inv s" and st: "node_stack s = n # below"
    and close: "close_node n s = Inr s'"
  shows "acyclic_inv s' \<and> node_stack s' = below"
proof -
  from acyc have low: "map_of (low_link_values s) = map_of (ids s)" by (simp add: acyclic_inv_def)
  have vis: "x \<in> set (visited s)" if "x \<in> set (n # below)" for x
    using inv st that by (auto simp: search_inv_def stack_inv_def)
  obtain i where i: "map_of (ids s) n = Some i"
    using inv vis [of n] by (auto elim: search_inv_lookup)
  have other: "map_of (ids s) x \<noteq> Some i" if "x \<in> set below" for x
  proof
    assume "map_of (ids s) x = Some i"
    then have "x = n"
      using inv i vis [of n] vis [of x] that by (auto simp: search_inv_def ids_inv_def inj_on_def)
    with inv st that show False by (auto simp: search_inv_def stack_inv_def)
  qed
  have "pop_component (low_link_values s) i [] (node_stack s) = ([n], below)"
    using st i low other by (cases below) (auto simp: set_add_def)
  with close i low have "s' = s\<lparr>node_stack := below, components := components s @ [[n]]\<rparr>"
    by (simp add: close_node_def)
  with acyc st show ?thesis by (auto simp: acyclic_inv_def)
qed

lemma follow_acyclic:
  assumes "wf_graph g" and "acyclic (edges g)"
  shows "followNode g n s = Inr s' \<Longrightarrow> in_graph g n \<Longrightarrow> search_inv g s \<Longrightarrow> acyclic_inv s \<Longrightarrow>
           set (node_stack s) \<times> {n} \<subseteq> (edges g)\<^sup>+ \<Longrightarrow> acyclic_inv s' \<and> node_stack s' = node_stack s"
    and "followChildren g n cs s = Inr s' \<Longrightarrow> n \<in> set (visited s) \<Longrightarrow> \<forall>c \<in> set cs. (n, c) \<in> edges g \<Longrightarrow>
           search_inv g s \<Longrightarrow> acyclic_inv s \<Longrightarrow> set (node_stack s) \<times> {n} \<subseteq> (edges g)\<^sup>* \<Longrightarrow>
           acyclic_inv s' \<and> node_stack s' = node_stack s"
  using assms
proof (induction g n s and g n cs s arbitrary: s' and s' rule: followNode_followChildren.induct)
  case (1 g n s)
  show ?case
  proof (cases "n \<in> set (visited s)")
    case True
    with "1.prems" show ?thesis by simp
  next
    case False
    with "1.prems"(1) obtain cs s1 where cs: "getDirectChildConnections g n = Inr cs"
      and s1: "followChildren g n (map to_node cs) (open_node n s) = Inr s1"
      and s': "close_node n s1 = Inr s'"
      by (auto simp: bind_result_Inr_iff split: sum.splits)
    have edges: "\<forall>c \<in> set (map to_node cs). (n, c) \<in> edges g"
      using direct_children_edges [OF cs] by auto
    note inv0 = search_inv_open [OF "1.prems"(3) False]
    have "set (node_stack (open_node n s)) \<times> {n} \<subseteq> (edges g)\<^sup>*"
      using "1.prems"(5) by (auto simp: open_node_def dest: trancl_into_rtrancl)
    with "1.IH" [OF False cs s1 _ edges inv0 acyclic_inv_open [OF "1.prems"(4)]] "1.prems"(6,7)
    have s1': "acyclic_inv s1" "node_stack s1 = n # node_stack s"
      by (auto simp: open_node_def)
    have "search_inv g s1"
      using follow_spec(2) [OF "1.prems"(6) _ edges inv0] s1 by (auto simp: follow_post_def)
    with acyclic_close [OF _ s1' s'] show ?thesis by simp
  qed
next
  case (2 g n s)
  then show ?case by simp
next
  case (3 g n c rest s)
  from "3.prems"(1) obtain s1 s2 where s1: "followNode g c s = Inr s1"
    and s2: "lower_link n c s1 = Inr s2" and s3: "followChildren g n rest s2 = Inr s'"
    by (auto split: sum.splits)
  have edge: "(n, c) \<in> edges g" and in_c: "in_graph g c"
    using "3.prems"(3,7) by (auto dest: edges_in_graph)
  have "set (node_stack s) \<times> {c} \<subseteq> (edges g)\<^sup>+"
    using "3.prems"(6) edge by (auto intro: rtrancl_into_trancl1)
  with "3.IH"(1) [OF s1 in_c] "3.prems" have acyc1: "acyclic_inv s1" "node_stack s1 = node_stack s"
    by auto
  have post1: "follow_post g c s s1"
    using follow_spec(1) [OF "3.prems"(7) in_c "3.prems"(4)] s1 by auto
  have "c \<notin> set (node_stack s)"
  proof
    assume "c \<in> set (node_stack s)"
    with "3.prems"(6) have "(c, n) \<in> (edges g)\<^sup>*" by auto
    with edge have "(n, n) \<in> (edges g)\<^sup>+" by (auto intro: rtrancl_into_trancl2)
    with "3.prems"(8) show False by (auto simp: acyclic_def)
  qed
  with s2 acyc1(2) have "s2 = s1" by (simp add: lower_link_def)
  with "3.IH"(2) [OF s1 s2 s3] "3.prems" acyc1 post1 show ?case
    by (auto simp: follow_post_def)
qed

lemma components_acyclic:
  assumes wf: "wf_graph g" and acyc: "acyclic (edges g)"
  shows "\<exists>cs. getStronglyConnectedComponents g = Inr cs \<and> set (concat cs) = nodes_of g
           \<and> list_all (\<lambda>c. length c = 1) cs"
proof -
  let ?P = "\<lambda>done s. search_inv g s \<and> acyclic_inv s \<and> node_stack s = [] \<and> done \<subseteq> set (visited s)"
  have step: "\<exists>s'. fold_result (followNode g) ns s = Inr s' \<and> ?P (done \<union> set ns) s'"
    if "set ns \<subseteq> nodes_of g" and "?P done s" for ns "done" s
    using that
  proof (induction ns arbitrary: s "done")
    case (Cons n ns)
    then have "n \<in> nodes_of g" by simp
    then have in_n: "in_graph g n" using wf_graph_in_graph_iff [OF wf] by blast
    from follow_spec(1) [OF wf in_n, of s] Cons.prems obtain s1 where
      s1: "followNode g n s = Inr s1" "follow_post g n s s1" "n \<in> set (visited s1)" by blast
    with follow_acyclic(1) [OF wf acyc s1(1) in_n] Cons.prems have
      "?P (insert n done) s1" by (auto simp: follow_post_def)
    with Cons.IH [of s1 "insert n done"] Cons.prems s1(1) show ?case by auto
  qed simp
  have "?P {} component_search_init"
    using search_inv_init by (simp add: acyclic_inv_def component_search_init_def)
  with step [of "map_values (gnodes g)" component_search_init "{}"] obtain s where
    s: "fold_result (followNode g) (map_values (gnodes g)) component_search_init = Inr s"
    and P: "?P (nodes_of g) s" by auto
  with components_spec [OF wf] have "set (concat (components s)) \<subseteq> nodes_of g"
    by (simp add: getStronglyConnectedComponents_def)
  moreover have "nodes_of g \<subseteq> set (concat (components s))"
    using P by (auto simp: acyclic_inv_def)
  ultimately show ?thesis
    using s P by (auto simp: getStronglyConnectedComponents_def acyclic_inv_def)
qed

end
