(* ===== verification/Disabled_Nodes.thy ===== *)
theory Disabled_Nodes
  imports Fixtures Graph_Search
begin

text \<open>
  \<open>filterDisabledNodes\<close> of \<open>partial-execution-utils/filter-disabled-nodes.ts\<close>: every disabled node
  is removed and its parents are joined to its children along \<open>Main\<close> connections.
\<close>

section \<open>The code\<close>

definition skip_non_main :: "graph_connection \<Rightarrow> bool" where
  "skip_non_main c \<longleftrightarrow> connection_type c \<noteq> Main_type"

definition filter_step :: "inode \<Rightarrow> directed_graph \<Rightarrow> engine_error + directed_graph" where
  "filter_step node g =
     (if is_disabled node
      then bind_result (removeNode node True skip_non_main g) (\<lambda>(g', _). Inr g')
      else Inr g)"

definition filterDisabledNodes :: "directed_graph \<Rightarrow> engine_error + directed_graph" where
  "filterDisabledNodes graph =
     bind_result (clone graph) (\<lambda>filteredGraph.
       fold_result filter_step (map_values (getNodes filteredGraph)) filteredGraph)"

section \<open>Removing one node from a relation\<close>

text \<open>Bypassing an element keeps the paths between the others.\<close>

definition bypass :: "'a \<Rightarrow> 'a rel \<Rightarrow> 'a rel" where
  "bypass n R = {(a, b). a \<noteq> n \<and> b \<noteq> n \<and> ((a, b) \<in> R \<or> ((a, n) \<in> R \<and> (n, b) \<in> R))}"

lemma bypass_subset: "bypass n R \<subseteq> R\<^sup>+"
  by (auto simp: bypass_def intro: trancl_into_trancl)

lemma bypass_trancl_ends: "(a, b) \<in> (bypass n R)\<^sup>+ \<Longrightarrow> a \<noteq> n \<and> b \<noteq> n"
  by (induction rule: trancl_induct) (auto simp: bypass_def)

lemma bypass_trancl_subset: "(bypass n R)\<^sup>+ \<subseteq> R\<^sup>+"
  using trancl_mono [OF _ bypass_subset [of n R]] by (metis subrelI trancl_id trans_trancl)

lemma trancl_bypass:
  assumes "(n, n) \<notin> R" and "a \<noteq> n" and "(a, b) \<in> R\<^sup>+"
  shows "if b = n then \<exists>c. (a, c) \<in> (bypass n R)\<^sup>* \<and> c \<noteq> n \<and> (c, n) \<in> R
         else (a, b) \<in> (bypass n R)\<^sup>+"
  using assms(3)
proof (induction rule: trancl_induct)
  case (base b)
  with assms(2) show ?case by (auto simp: bypass_def)
next
  case (step b c)
  show ?case
  proof (cases "b = n")
    case True
    with step assms(1) obtain d where "(a, d) \<in> (bypass n R)\<^sup>*" "d \<noteq> n" "(d, n) \<in> R" "c \<noteq> n"
      by auto
    with True step(2) have "(d, c) \<in> bypass n R" by (simp add: bypass_def)
    with \<open>(a, d) \<in> _\<close> \<open>c \<noteq> n\<close> show ?thesis by (auto intro: rtrancl_into_trancl1)
  next
    case False
    with step have ab: "(a, b) \<in> (bypass n R)\<^sup>+" by simp
    show ?thesis
    proof (cases "c = n")
      case True
      with ab False step(2) show ?thesis by (auto dest: trancl_into_rtrancl)
    next
      case c: False
      with False step(2) have "(b, c) \<in> bypass n R" by (simp add: bypass_def)
      with ab c show ?thesis by (auto intro: trancl_into_trancl)
    qed
  qed
qed

lemma bypass_trancl_iff:
  "(n, n) \<notin> R \<Longrightarrow> a \<noteq> n \<Longrightarrow> b \<noteq> n \<Longrightarrow> (a, b) \<in> (bypass n R)\<^sup>+ \<longleftrightarrow> (a, b) \<in> R\<^sup>+"
  using trancl_bypass [of n R a b] bypass_trancl_subset [of n R] by auto

section \<open>Removing one disabled node\<close>

lemma removeNode_bypass:
  assumes wf: "wf_graph g" and dash: "dash_free g" and n: "in_graph g n" and loop: "(n, n) \<notin> main_edges g"
  shows "\<exists>g'. removeNode n True skip_non_main g = Inr (g', Some (reconnected skip_non_main
            (filter (\<lambda>c. to_node c = n) (map_values (gconnections g)))
            (filter (\<lambda>c. from_node c = n) (map_values (gconnections g)))))
     \<and> wf_graph g' \<and> dash_free g' \<and> nodes_of g' = nodes_of g - {n}
     \<and> set (reconnected skip_non_main
            (filter (\<lambda>c. to_node c = n) (map_values (gconnections g)))
            (filter (\<lambda>c. from_node c = n) (map_values (gconnections g)))) \<subseteq> connections_of g'
     \<and> main_edges g' = bypass n (main_edges g)"
proof -
  let ?inc = "filter (\<lambda>c. to_node c = n) (map_values (gconnections g))"
  let ?out = "filter (\<lambda>c. from_node c = n) (map_values (gconnections g))"
  let ?new = "reconnected skip_non_main ?inc ?out"
  let ?w = "without_node n g"
  let ?g' = "?w\<lparr>gconnections := fold (\<lambda>c. map_set (makeKey c) c) ?new (gconnections ?w)\<rparr>"
  have new: "c \<in> set ?new \<longleftrightarrow> (\<exists>i out. c = i\<lparr>to_node := to_node out, input_index := input_index out\<rparr>
      \<and> i \<in> connections_of g \<and> to_node i = n \<and> connection_type i = Main_type
      \<and> out \<in> connections_of g \<and> from_node out = n \<and> connection_type out = Main_type)" for c
    by (auto simp: set_reconnected skip_non_main_def simp del: set_map)
  have ends: "in_graph ?w (from_node c) \<and> in_graph ?w (to_node c) \<and> from_node c \<in> nodes_of g
      \<and> connection_type c = Main_type" if "c \<in> set ?new" for c
  proof -
    from that new obtain i out where c: "c = i\<lparr>to_node := to_node out, input_index := input_index out\<rparr>"
      and i: "i \<in> connections_of g" "to_node i = n" "connection_type i = Main_type"
      and out: "out \<in> connections_of g" "from_node out = n" "connection_type out = Main_type"
      by blast
    from i out loop have "from_node i \<noteq> n" and "to_node out \<noteq> n"
      by (auto simp: main_edges_iff simp del: set_map)
    then show ?thesis
      using c i out connection_ends [OF wf i(1)] connection_ends [OF wf out(1)] n
        wf_graph_in_graph_iff [OF wf]
      by (auto dest: in_graph_name_eq simp del: set_map)
  qed
  have wfw: "wf_graph ?w" using wf n by (rule wf_without_node)
  have main_dash: "CHR ''-'' \<notin> set Main_type" by (simp add: Main_type_def)
  have conns: "connections_of ?g' = connections_of ?w \<union> set ?new"
  proof -
    have "snd ` set (fold (\<lambda>c. map_set (makeKey c) c) ?new (gconnections ?w))
        = snd ` set (gconnections ?w) \<union> set ?new"
    proof (rule values_fold_map_set)
      show "wf_connections ?w (gconnections ?w)" using wfw by auto
      show "in_graph ?w (from_node c) \<and> in_graph ?w (to_node c)" if "c \<in> set ?new" for c
        using ends [OF that] by blast
      show "CHR ''-'' \<notin> set (node_name (from_node c)) \<and> CHR ''-'' \<notin> set (connection_type c)"
        if "c \<in> snd ` set (gconnections ?w) \<union> set ?new" for c
      proof (cases "c \<in> set ?new")
        case True
        with ends [OF True] dash main_dash show ?thesis
          by (simp add: dash_free_def del: set_map)
      next
        case False
        with that have c: "c \<in> connections_of g"
          using connections_of_without_node [of n g] by auto
        then have "from_node c \<in> nodes_of g"
          using connection_ends [OF wf c] wf_graph_in_graph_iff [OF wf] by blast
        with c dash show ?thesis by (auto simp: dash_free_def simp del: set_map)
      qed
    qed
    then show ?thesis by simp
  qed
  have nodes: "nodes_of ?g' = nodes_of g - {n}"
    using nodes_of_without_node [OF wf n] by simp
  have "wf_connections ?w (gconnections ?g')"
    using ends wfw by (auto intro!: wf_connections_fold_map_set)
  then have "wf_graph ?g'"
    using wfw by (simp add: wf_graph_def)
  moreover have "dash_free ?g'"
  proof -
    have "CHR ''-'' \<notin> set (connection_type c)" if "c \<in> connections_of ?g'" for c
      using that dash ends [of c] main_dash conns connections_of_without_node [of n g]
      by (auto simp: dash_free_def simp del: set_map)
    then show ?thesis using dash nodes by (simp add: dash_free_def del: set_map)
  qed
  moreover have "main_edges ?g' = bypass n (main_edges g)"
  proof (intro set_eqI iffI; clarify)
    fix a b assume "(a, b) \<in> main_edges ?g'"
    then obtain c where c: "c \<in> connections_of ?w \<union> set ?new" "connection_type c = Main_type"
      "a = from_node c" "b = to_node c"
      unfolding main_edges_iff conns by blast
    then show "(a, b) \<in> bypass n (main_edges g)"
    proof (elim UnE)
      assume "c \<in> connections_of ?w"
      with c show ?thesis
        unfolding connections_of_without_node bypass_def main_edges_iff by auto
    next
      assume "c \<in> set ?new"
      with c ends [OF this] show ?thesis
        unfolding new bypass_def main_edges_iff by fastforce
    qed
  next
    fix a b assume ab: "(a, b) \<in> bypass n (main_edges g)"
    show "(a, b) \<in> main_edges ?g'"
    proof (cases "(a, b) \<in> main_edges g")
      case True
      then obtain c where c: "c \<in> connections_of g" "connection_type c = Main_type"
        "a = from_node c" "b = to_node c"
        unfolding main_edges_iff by blast
      with ab have "c \<in> connections_of ?w"
        by (simp add: connections_of_without_node bypass_def del: set_map)
      with c show ?thesis unfolding main_edges_iff conns by blast
    next
      case False
      with ab obtain i out where i: "i \<in> connections_of g" "connection_type i = Main_type"
        "a = from_node i" "to_node i = n"
        and out: "out \<in> connections_of g" "connection_type out = Main_type" "from_node out = n"
        "b = to_node out"
        by (auto simp: bypass_def main_edges_iff simp del: set_map)
      then have "i\<lparr>to_node := to_node out, input_index := input_index out\<rparr> \<in> set ?new"
        unfolding new by blast
      with i out show ?thesis
        unfolding main_edges_iff conns by (intro bexI [OF _ UnI2]) auto
    qed
  qed
  moreover have "set ?new \<subseteq> connections_of ?g'" unfolding conns by blast
  ultimately show ?thesis
    unfolding removeNode_reconnect [OF n, of skip_non_main] Let_def using nodes by blast
qed

section \<open>The whole filter\<close>

lemma removeNode_bypass_step:
  assumes wf: "wf_graph g" and dash: "dash_free g" and n: "n \<in> nodes_of g" and dis: "is_disabled n"
    and acyclic: "acyclic (main_edges g \<inter> D \<times> D)" and D: "n \<in> D"
  shows "\<exists>g'. filter_step n g = Inr g' \<and> wf_graph g' \<and> dash_free g'
     \<and> nodes_of g' = nodes_of g - {n} \<and> acyclic (main_edges g' \<inter> (D - {n}) \<times> (D - {n}))
     \<and> (main_edges g')\<^sup>+ = {(a, b) \<in> (main_edges g)\<^sup>+. a \<noteq> n \<and> b \<noteq> n}"
proof -
  have loop: "(n, n) \<notin> main_edges g"
    using acyclic D by (auto simp: acyclic_def)
  have "in_graph g n" using wf n by (simp add: wf_graph_in_graph_iff)
  from removeNode_bypass [OF wf dash this loop] obtain g'
    where g': "filter_step n g = Inr g'" "wf_graph g'" "dash_free g'"
      "nodes_of g' = nodes_of g - {n}" "main_edges g' = bypass n (main_edges g)"
    using dis by (auto simp: filter_step_def)
  have "bypass n (main_edges g) \<inter> (D - {n}) \<times> (D - {n}) \<subseteq> (main_edges g \<inter> D \<times> D)\<^sup>+"
    using D by (auto simp: bypass_def intro: trancl_into_trancl)
  then have "acyclic (main_edges g' \<inter> (D - {n}) \<times> (D - {n}))"
    using acyclic acyclic_subset [of "(main_edges g \<inter> D \<times> D)\<^sup>+"] g'(5) by (simp add: acyclic_def)
  moreover have "(main_edges g')\<^sup>+ = {(a, b) \<in> (main_edges g)\<^sup>+. a \<noteq> n \<and> b \<noteq> n}"
  proof (intro set_eqI iffI; clarify)
    fix a b assume ab: "(a, b) \<in> (main_edges g')\<^sup>+"
    then have "a \<noteq> n" "b \<noteq> n"
      using bypass_trancl_ends unfolding g'(5) by fast+
    with ab loop show "(a, b) \<in> (main_edges g)\<^sup>+ \<and> a \<noteq> n \<and> b \<noteq> n"
      unfolding g'(5) by (simp add: bypass_trancl_iff)
  next
    fix a b assume "(a, b) \<in> (main_edges g)\<^sup>+" "a \<noteq> n" "b \<noteq> n"
    with loop show "(a, b) \<in> (main_edges g')\<^sup>+"
      unfolding g'(5) by (simp add: bypass_trancl_iff)
  qed
  ultimately show ?thesis using g'(1-4) by blast
qed

lemma filter_steps:
  assumes "wf_graph g" and "dash_free g" and "distinct ns" and "set ns \<subseteq> nodes_of g"
    and "acyclic (main_edges g \<inter> {n \<in> set ns. is_disabled n} \<times> {n \<in> set ns. is_disabled n})"
  shows "\<exists>g'. fold_result filter_step ns g = Inr g' \<and> wf_graph g'
     \<and> nodes_of g' = nodes_of g - {n \<in> set ns. is_disabled n}
     \<and> (main_edges g')\<^sup>+ = {(a, b) \<in> (main_edges g)\<^sup>+.
          \<not> (a \<in> set ns \<and> is_disabled a) \<and> \<not> (b \<in> set ns \<and> is_disabled b)}"
  using assms
proof (induction ns arbitrary: g)
  case Nil
  then show ?case by simp
next
  case (Cons n ns)
  let ?D = "\<lambda>ns. {n \<in> set ns. is_disabled n}"
  show ?case
  proof (cases "is_disabled n")
    case False
    then have D: "?D (n # ns) = ?D ns" by auto
    have "filter_step n g = Inr g" using False by (simp add: filter_step_def)
    moreover have "b \<in> set ns \<and> is_disabled b \<longleftrightarrow> b \<in> set (n # ns) \<and> is_disabled b" for b
      using False by auto
    ultimately show ?thesis
      using Cons.IH [of g] Cons.prems unfolding D by (simp del: set_map)
  next
    case True
    have D: "?D (n # ns) - {n} = ?D ns" using Cons.prems(3) by auto
    from removeNode_bypass_step [of g n "?D (n # ns)"] Cons.prems True obtain g1
      where g1: "filter_step n g = Inr g1" "wf_graph g1" "dash_free g1"
        "nodes_of g1 = nodes_of g - {n}" "acyclic (main_edges g1 \<inter> ?D ns \<times> ?D ns)"
        "(main_edges g1)\<^sup>+ = {(a, b) \<in> (main_edges g)\<^sup>+. a \<noteq> n \<and> b \<noteq> n}"
      unfolding D by auto
    have "distinct ns" and "set ns \<subseteq> nodes_of g1"
      using Cons.prems(3,4) g1(4) by auto
    from Cons.IH [OF g1(2,3) this g1(5)] obtain g'
      where g': "fold_result filter_step ns g1 = Inr g'" "wf_graph g'"
        "nodes_of g' = nodes_of g1 - ?D ns"
        "(main_edges g')\<^sup>+ = {(a, b) \<in> (main_edges g1)\<^sup>+.
          \<not> (a \<in> set ns \<and> is_disabled a) \<and> \<not> (b \<in> set ns \<and> is_disabled b)}"
      by blast
    have "fold_result filter_step (n # ns) g = Inr g'" using g1(1) g'(1) by simp
    moreover have "nodes_of g' = nodes_of g - ?D (n # ns)"
      unfolding g'(3) g1(4) using True by auto
    moreover have "(main_edges g')\<^sup>+ = {(a, b) \<in> (main_edges g)\<^sup>+.
          \<not> (a \<in> set (n # ns) \<and> is_disabled a) \<and> \<not> (b \<in> set (n # ns) \<and> is_disabled b)}"
      unfolding g'(4) g1(6) using True by auto
    ultimately show ?thesis using g'(2) by blast
  qed
qed

lemma filterDisabledNodes_result:
  assumes "wf_graph g" and "dash_free g"
    and "acyclic (main_edges g \<inter> {n. is_disabled n} \<times> {n. is_disabled n})"
  shows "\<exists>g'. filterDisabledNodes g = Inr g' \<and> wf_graph g'
     \<and> nodes_of g' = {n \<in> nodes_of g. \<not> is_disabled n}
     \<and> (main_edges g')\<^sup>+ = {(a, b) \<in> (main_edges g)\<^sup>+. \<not> is_disabled a \<and> \<not> is_disabled b}"
proof -
  let ?ns = "map_values (gnodes g)"
  have "distinct ?ns" using assms(1) by (rule distinct_values)
  moreover have "acyclic (main_edges g \<inter> {n \<in> set ?ns. is_disabled n} \<times> {n \<in> set ?ns. is_disabled n})"
    using assms(3) by (rule acyclic_subset) auto
  ultimately obtain g' where g': "fold_result filter_step ?ns g = Inr g'" "wf_graph g'"
    "nodes_of g' = nodes_of g - {n \<in> nodes_of g. is_disabled n}"
    "(main_edges g')\<^sup>+ = {(a, b) \<in> (main_edges g)\<^sup>+.
       \<not> (a \<in> nodes_of g \<and> is_disabled a) \<and> \<not> (b \<in> nodes_of g \<and> is_disabled b)}"
    using filter_steps [OF assms(1,2), of ?ns] by auto
  have in_g: "a \<in> nodes_of g \<and> b \<in> nodes_of g" if "(a, b) \<in> (main_edges g)\<^sup>+" for a b
  proof -
    have "(a, b) \<in> (edges g)\<^sup>+" using that main_edges_subset trancl_mono by blast
    then show ?thesis
      using edges_trancl_in_graph [OF assms(1)] wf_graph_in_graph_iff [OF assms(1)] by blast
  qed
  have "nodes_of g' = {n \<in> nodes_of g. \<not> is_disabled n}" using g'(3) by auto
  moreover have "(main_edges g')\<^sup>+ = {(a, b) \<in> (main_edges g)\<^sup>+. \<not> is_disabled a \<and> \<not> is_disabled b}"
    using in_g unfolding g'(4) by blast
  ultimately show ?thesis
    using g'(1,2) by (simp add: filterDisabledNodes_def clone_eq [OF assms(1)] getNodes_def)
qed

end
