(* ===== verification/Graph_Properties.thy ===== *)
theory Graph_Properties
  imports Fixtures Graph_Components Disabled_Nodes
begin

text \<open>The properties of \<open>DirectedGraph\<close> and of \<open>filterDisabledNodes\<close>, each with a witness.\<close>

section \<open>Editing a graph\<close>

text \<open>The connection that \<open>getConnection\<close> finds for the parts of a given one.\<close>

definition stored_as :: "directed_graph \<Rightarrow> graph_connection \<Rightarrow> graph_connection option" where
  "stored_as g c =
     getConnection g (from_node c) (output_index c) (connection_type c) (input_index c) (to_node c)"

lemma stored_as_key: "stored_as g c = map_of (gconnections g) (makeKey c)"
  by (cases c) (simp add: stored_as_def getConnection_def)

text \<open>On a well-formed graph \<open>addConnection\<close> succeeds exactly when both ends are the graph's own
  nodes; the result is well-formed, the connection is found under its parts afterwards, and every
  connection with another key is found as before.\<close>

lemma addConnection_correct:
  assumes "wf_graph g"
  shows "case addConnection ci g of
     Inl _ \<Rightarrow> \<not> (in_graph g (ci_from ci) \<and> in_graph g (ci_to ci))
   | Inr g' \<Rightarrow> in_graph g (ci_from ci) \<and> in_graph g (ci_to ci) \<and> wf_graph g'
       \<and> stored_as g' (complete_connection ci) = Some (complete_connection ci)
       \<and> (\<forall>d. makeKey d \<noteq> makeKey (complete_connection ci) \<longrightarrow> stored_as g' d = stored_as g d)"
proof (cases "addConnection ci g")
  case (Inl e)
  then show ?thesis by (auto simp: addConnection_def Let_def split: if_splits)
next
  case (Inr g')
  then have "in_graph g (ci_from ci) \<and> in_graph g (ci_to ci)"
    and "gconnections g' = map_set (makeKey (complete_connection ci)) (complete_connection ci) (gconnections g)"
    by (auto simp: addConnection_Inr)
  with wf_addConnection [OF assms Inr] show ?thesis unfolding Inr by (simp add: stored_as_key)
qed

lemma addConnection_correct_example:
  "case addConnection (input_of_connection (link node_B node_T)) chain_graph of
     Inl _ \<Rightarrow> False | Inr g' \<Rightarrow> wf_graph g' \<and> stored_as g' (link node_B node_T) = Some (link node_B node_T)"
proof -
  have "in_graph chain_graph node_B" "in_graph chain_graph node_T" by code_simp+
  with addConnection_correct [OF wf_chain_graph, of "input_of_connection (link node_B node_T)"]
  show ?thesis by (auto simp: link_def split: sum.splits)
qed

text \<open>Connections of one graph whose names and types hold no dash have different keys, so
  the map of connections loses none of them.\<close>

lemma makeKey_injective:
  assumes "wf_graph g" and "dash_free g"
    and "in_graph g (from_node c)" "in_graph g (to_node c)" "CHR ''-'' \<notin> set (connection_type c)"
    and "in_graph g (from_node d)" "in_graph g (to_node d)" "CHR ''-'' \<notin> set (connection_type d)"
  shows "makeKey c = makeKey d \<longleftrightarrow> c = d"
  using makeKey_eq [of c d g] assms
  by (auto simp: dash_free_def wf_graph_in_graph_iff simp del: set_map)

lemma makeKey_injective_example:
  "makeKey (link node_T node_A) \<noteq> makeKey (link node_A node_B)"
proof -
  have "dash_free chain_graph" "in_graph chain_graph node_T" "in_graph chain_graph node_A"
    "in_graph chain_graph node_B" by code_simp+
  with makeKey_injective [OF wf_chain_graph, of "link node_T node_A" "link node_A node_B"]
  show ?thesis by (simp add: link_def Main_type_def sample_node_def)
qed

text \<open>Names with dashes collide: adding the second connection drops the first one.\<close>

definition dashed_1 :: graph_connection where
  "dashed_1 = link (sample_node 1 ''A-main-0-0-B'') (sample_node 2 ''C'')"

definition dashed_2 :: graph_connection where
  "dashed_2 = link (sample_node 3 ''A'') (sample_node 4 ''B-main-0-0-C'')"

lemma makeKey_collision:
  "makeKey dashed_1 = makeKey dashed_2 \<and> dashed_1 \<noteq> dashed_2
   \<and> connections_of (build_graph [from_node dashed_1, to_node dashed_1, from_node dashed_2, to_node dashed_2]
        [dashed_1, dashed_2]) = {dashed_2}"
  by code_simp

text \<open>Cloning a well-formed graph succeeds and gives an equal graph.\<close>

lemma clone_identity: "wf_graph g \<Longrightarrow> clone g = Inr g"
  by (rule clone_eq)

lemma clone_identity_example: "clone chain_graph = Inr chain_graph"
  using clone_identity [OF wf_chain_graph] .

text \<open>Removing a node with reconnection, where the node has no connection to itself, leaves a
  well-formed graph without the node in which every other pair of nodes is joined exactly if it
  was joined before or the removed node joined it, counting the connections not skipped.\<close>

lemma removeNode_reconnects:
  assumes "wf_graph g" and "dash_free g" and "in_graph g n" and "(n, n) \<notin> main_edges g"
  shows "\<exists>g' new. removeNode n True skip_non_main g = Inr (g', Some new) \<and> wf_graph g'
     \<and> nodes_of g' = nodes_of g - {n} \<and> set new \<subseteq> connections_of g'
     \<and> main_edges g' = {(a, b). a \<noteq> n \<and> b \<noteq> n
          \<and> ((a, b) \<in> main_edges g \<or> ((a, n) \<in> main_edges g \<and> (n, b) \<in> main_edges g))}"
  using removeNode_bypass [OF assms] unfolding bypass_def by blast

lemma removeNode_reconnects_example:
  "\<exists>g' new. removeNode node_X True skip_non_main disabled_graph = Inr (g', Some new)
     \<and> (node_T, node_B) \<in> main_edges g' \<and> node_X \<notin> nodes_of g'"
proof -
  have "dash_free disabled_graph" "in_graph disabled_graph node_X" by code_simp+
  moreover have "(node_X, node_X) \<notin> main_edges disabled_graph"
    unfolding main_edges_iff by code_simp
  moreover have "(node_T, node_X) \<in> main_edges disabled_graph" "(node_X, node_B) \<in> main_edges disabled_graph"
    unfolding main_edges_iff by code_simp+
  moreover have "node_T \<noteq> node_X" "node_B \<noteq> node_X" by code_simp+
  ultimately show ?thesis using removeNode_reconnects [OF wf_disabled_graph] by fast
qed

section \<open>Searching a graph\<close>

text \<open>\<open>getChildren\<close> terminates with exactly the nodes that one or more connections lead to
  from the given node, each of them once.\<close>

lemma getChildren_correct:
  assumes "wf_graph g" and "in_graph g n"
  shows "\<exists>ch. getChildren g n = Inr ch \<and> distinct ch \<and> set ch = (edges g)\<^sup>+ `` {n}"
  using assms by (rule getChildren_spec)

lemma getChildren_correct_example:
  "\<exists>ch. getChildren nested_loop_graph node_B = Inr ch
     \<and> set ch = (edges nested_loop_graph)\<^sup>+ `` {node_B}"
proof -
  have "in_graph nested_loop_graph node_B" by code_simp
  with getChildren_correct [OF wf_nested_loop_graph] show ?thesis by blast
qed

text \<open>C12: \<open>getParentConnections\<close> terminates with exactly the connections that lie upstream of a
  node, over every connection type: those whose target is the node or reaches it.\<close>

lemma getParentConnections_correct:
  assumes "wf_graph g" and "in_graph g n"
  shows "\<exists>cs. getParentConnections g n = Inr cs \<and> distinct cs
           \<and> set cs = {c \<in> connections_of g. (to_node c, n) \<in> (edges g)\<^sup>*}"
  using assms by (rule getParentConnections_spec)

lemma getParentConnections_correct_example:
  "\<exists>cs. getParentConnections chain_graph node_B = Inr cs \<and> ai_link node_M node_B \<in> set cs"
proof -
  have "in_graph chain_graph node_B" by code_simp
  moreover have "ai_link node_M node_B \<in> connections_of chain_graph" by code_simp
  moreover have "to_node (ai_link node_M node_B) = node_B" by (simp add: ai_link_def link_def)
  ultimately show ?thesis using getParentConnections_correct [OF wf_chain_graph] by fastforce
qed

text \<open>The depth-first search finds a node that satisfies the predicate and is reachable from
  the start, and gives \<open>undefined\<close> only if no reachable node satisfies it.\<close>

lemma depthFirstSearch_correct:
  assumes "wf_graph g" and "in_graph g n"
  shows "\<exists>r. depthFirstSearch g n fn = Inr r
           \<and> (case r of
                Some m \<Rightarrow> fn m \<and> (n, m) \<in> (edges g)\<^sup>*
              | None \<Rightarrow> (\<forall>m. (n, m) \<in> (edges g)\<^sup>* \<longrightarrow> \<not> fn m))"
  using assms by (rule depthFirstSearch_spec)

lemma depthFirstSearch_correct_example:
  "\<exists>m. depthFirstSearch chain_graph node_T (\<lambda>n. n = node_B) = Inr (Some m) \<and> m = node_B"
proof -
  have "in_graph chain_graph node_T" by code_simp
  moreover have "depthFirstSearch chain_graph node_T (\<lambda>n. n = node_B) = Inr (Some node_B)" by code_simp
  ultimately show ?thesis
    using depthFirstSearch_correct [OF wf_chain_graph, of node_T "\<lambda>n. n = node_B"] by simp
qed

text \<open>The search for strongly connected components terminates without a failed assertion; the
  components it reports are not empty, hold no node twice, hold only nodes of the graph, and within
  each of them every node reaches every other one.\<close>

lemma components_sound:
  assumes "wf_graph g"
  shows "\<exists>cs. getStronglyConnectedComponents g = Inr cs \<and> distinct (concat cs)
           \<and> set (concat cs) \<subseteq> nodes_of g
           \<and> list_all (\<lambda>c. c \<noteq> [] \<and> set c \<times> set c \<subseteq> (edges g)\<^sup>*) cs"
  using components_spec [OF assms] by (simp add: strongly_connected_def)

lemma components_sound_example:
  "\<exists>cs. getStronglyConnectedComponents disabled_graph = Inr cs \<and> distinct (concat cs)
     \<and> list_all (\<lambda>c. set c \<times> set c \<subseteq> (edges disabled_graph)\<^sup>*) cs"
  using components_sound [OF wf_disabled_graph] by (auto simp: list_all_iff)

text \<open>In a graph without cycles every node is reported, in a component of its own.\<close>

lemma components_of_acyclic:
  assumes "wf_graph g" and "acyclic (edges g)"
  shows "\<exists>cs. getStronglyConnectedComponents g = Inr cs \<and> set (concat cs) = nodes_of g
           \<and> list_all (\<lambda>c. length c = 1) cs"
  using assms by (rule components_acyclic)

text \<open>A graph whose edges go up in a numbering has no cycle.\<close>

lemma acyclic_numbered:
  assumes "\<And>a b. (a, b) \<in> R \<Longrightarrow> f a < (f b :: nat)" shows "acyclic R"
proof (rule acyclicI, intro allI notI)
  fix x assume "(x, x) \<in> R\<^sup>+"
  moreover have "f a < f b" if "(a, b) \<in> R\<^sup>+" for a b
    using that by (induction rule: trancl_induct) (auto dest: assms intro: less_trans)
  ultimately show False by blast
qed

lemma acyclic_disabled_graph: "acyclic (edges disabled_graph)"
proof (rule acyclic_numbered [where f = "\<lambda>n. if node_ref n = 0 then 0 else if node_ref n = 4 then 1 else 2"])
  fix a b assume "(a, b) \<in> edges disabled_graph"
  moreover have "list_all (\<lambda>c. (if node_ref (from_node c) = 0 then 0 else if node_ref (from_node c) = 4 then 1 else 2)
      < (if node_ref (to_node c) = 0 then 0 else if node_ref (to_node c) = 4 then 1 else 2 :: nat))
    (map_values (gconnections disabled_graph))" by code_simp
  ultimately show "(if node_ref a = 0 then 0 else if node_ref a = 4 then 1 else 2)
      < (if node_ref b = 0 then 0 else if node_ref b = 4 then 1 else 2 :: nat)"
    unfolding edges_iff list_all_iff by blast
qed

lemma components_of_acyclic_example:
  "\<exists>cs. getStronglyConnectedComponents disabled_graph = Inr cs
     \<and> set (concat cs) = nodes_of disabled_graph"
  using components_of_acyclic [OF wf_disabled_graph acyclic_disabled_graph] by blast

text \<open>
  With cycles the search can lose components. Here all three nodes reach each other, and none is
  reported: when the root of the component is closed, the stack's top carries a low link that is
  not the root's id, so nothing is popped.
\<close>

lemma components_lost:
  "getStronglyConnectedComponents nested_loop_graph = Inr []
   \<and> list_all (\<lambda>a. list_all (\<lambda>b. \<exists>ch. getChildren nested_loop_graph a = Inr ch \<and> b \<in> set ch)
       [node_T, node_A, node_B]) [node_T, node_A, node_B]"
proof
  show "getStronglyConnectedComponents nested_loop_graph = Inr []" by code_simp
  have "getChildren nested_loop_graph node_T = Inr [node_A, node_B, node_T]"
    "getChildren nested_loop_graph node_A = Inr [node_B, node_A, node_T]"
    "getChildren nested_loop_graph node_B = Inr [node_A, node_B, node_T]" by code_simp+
  then show "list_all (\<lambda>a. list_all (\<lambda>b. \<exists>ch. getChildren nested_loop_graph a = Inr ch \<and> b \<in> set ch)
       [node_T, node_A, node_B]) [node_T, node_A, node_B]" by simp
qed

section \<open>Disabled nodes\<close>

text \<open>C10: in a well-formed graph whose names hold no dash and in which no loop runs through disabled
  nodes only, filtering the disabled nodes succeeds: the enabled nodes remain in a well-formed graph, and
  one enabled node leads to another along \<open>Main\<close> connections exactly if it did before. Both conditions are
  needed: see \<open>makeKey_collision\<close> and \<open>filterDisabledNodes_self_loop\<close>.\<close>

theorem filterDisabledNodes_correct:
  assumes "wf_graph g" and "dash_free g"
    and "acyclic (main_edges g \<inter> {n. is_disabled n} \<times> {n. is_disabled n})"
  shows "\<exists>g'. filterDisabledNodes g = Inr g' \<and> wf_graph g'
     \<and> nodes_of g' = {n \<in> nodes_of g. \<not> is_disabled n}
     \<and> (main_edges g')\<^sup>+ = {(a, b) \<in> (main_edges g)\<^sup>+. \<not> is_disabled a \<and> \<not> is_disabled b}"
  using assms by (rule filterDisabledNodes_result)

theorem filterDisabledNodes_correct_witness:
  "\<exists>g'. filterDisabledNodes disabled_graph = Inr g' \<and> (node_T, node_B) \<in> (main_edges g')\<^sup>+"
proof -
  have "dash_free disabled_graph" by code_simp
  moreover have "acyclic (main_edges disabled_graph \<inter> {n. is_disabled n} \<times> {n. is_disabled n})"
    using acyclic_disabled_graph by (rule acyclic_subset) (use main_edges_subset in blast)
  moreover have "(node_T, node_X) \<in> main_edges disabled_graph" "(node_X, node_B) \<in> main_edges disabled_graph"
    unfolding main_edges_iff by code_simp+
  then have "(node_T, node_B) \<in> (main_edges disabled_graph)\<^sup>+" by (blast intro: trancl_into_trancl)
  moreover have "\<not> is_disabled node_T" "\<not> is_disabled node_B" by code_simp+
  ultimately show ?thesis using filterDisabledNodes_correct [OF wf_disabled_graph] by fast
qed

text \<open>
  A disabled node with a connection to itself leaves connections that end at the removed node: the
  result is not well-formed, and cloning it fails.
\<close>

lemma filterDisabledNodes_self_loop:
  "case filterDisabledNodes self_loop_graph of
     Inr g' \<Rightarrow> \<not> wf_graph g' \<and> clone g' = Inl (TargetNotInGraph ''X'')
   | Inl _ \<Rightarrow> False"
  by code_simp

section \<open>Export\<close>

text \<open>Exporting a graph fails if one node has outgoing connections of two types.\<close>

lemma toIConnections_two_types:
  "toIConnections (build_graph [node_T, node_A, node_B] [link node_T node_A, ai_link node_T node_B])
     = Inl TypeErrorUndefined"
  by code_simp

end
