(* ===== verification/Subgraph.thy ===== *)
theory Subgraph
  imports Graph_Search
begin

text \<open>
  \<open>find-subgraph.ts\<close>: the part of a graph that leads from the trigger to the destination, found by
  walking backwards from the destination, and the sub-nodes it needs.
\<close>

section \<open>The code\<close>

text \<open>\<open>newGraph.addNodes(connection.from, connection.to); newGraph.addConnection(connection)\<close>\<close>

definition keepConnection :: "graph_connection \<Rightarrow> directed_graph \<Rightarrow> engine_error + directed_graph" where
  "keepConnection c g = addConnection (input_of_connection c) (addNodes [from_node c, to_node c] g)"

function findSubgraphRecursive ::
  "directed_graph \<Rightarrow> inode \<Rightarrow> inode \<Rightarrow> inode \<Rightarrow> directed_graph \<Rightarrow> graph_connection list
   \<Rightarrow> engine_error + directed_graph" where
  "findSubgraphRecursive graph destinationNode current trigger newGraph currentBranch =
     (if current = trigger then fold_result keepConnection currentBranch (addNode trigger newGraph)
      else bind_result (getDirectParentConnections graph current) (\<lambda>parentConnections.
        if length parentConnections = 0 then Inr newGraph
        else if current = destinationNode \<and> list_ex (\<lambda>c. to_node c = destinationNode) currentBranch
        then Inr newGraph
        else if list_ex (\<lambda>c. to_node c = current) currentBranch
        then fold_result keepConnection currentBranch newGraph
        else fold_result (\<lambda>parentConnection newGraph.
               if connection_type parentConnection \<noteq> Main_type then Inr newGraph
               else findSubgraphRecursive graph destinationNode (from_node parentConnection) trigger
                      newGraph (currentBranch @ [parentConnection]))
             parentConnections newGraph))"
  by pat_completeness auto

abbreviation from_nodes :: "graph_connection list \<Rightarrow> inode set" where
  "from_nodes cs \<equiv> from_node ` set cs"

termination findSubgraphRecursive
proof (relation "measure (\<lambda>(g, d, n, t, ng, br).
    card (insert n (from_nodes (map_values (gconnections g))) - to_nodes br))", goal_cases)
  case 1
  show ?case by simp
next
  case (2 g d n t ng br ps p ng')
  then have p: "from_node p \<in> from_nodes (map_values (gconnections g))" "to_node p = n"
    by (auto simp: getDirectParentConnections_Inr)
  moreover have "n \<notin> to_nodes br" using 2 by (auto simp: list_ex_iff)
  ultimately have "insert (from_node p) (from_nodes (map_values (gconnections g))) - to_nodes (br @ [p])
      \<subset> insert n (from_nodes (map_values (gconnections g))) - to_nodes br"
    by auto
  then show ?case by (simp add: psubset_card_mono)
qed

declare findSubgraphRecursive.simps [simp del]

definition findSubgraph :: "directed_graph \<Rightarrow> inode \<Rightarrow> inode \<Rightarrow> engine_error + directed_graph" where
  "findSubgraph graph destination trigger =
     bind_result (findSubgraphRecursive graph destination destination trigger empty_graph [])
       (\<lambda>subgraph.
          fold_result (\<lambda>node subgraph.
            bind_result (getParentConnections graph node) (\<lambda>parentConnections.
              fold_result (\<lambda>connection subgraph.
                if connection_type connection = Main_type then Inr subgraph
                else keepConnection connection subgraph)
              parentConnections subgraph))
          (map_values (getNodes subgraph)) subgraph)"

section \<open>Subgraphs\<close>

definition subgraph_of :: "directed_graph \<Rightarrow> directed_graph \<Rightarrow> bool" where
  "subgraph_of s g \<longleftrightarrow> wf_graph s \<and> nodes_of s \<subseteq> nodes_of g \<and> connections_of s \<subseteq> connections_of g"

abbreviation ends :: "graph_connection set \<Rightarrow> inode set" where
  "ends cs \<equiv> from_node ` cs \<union> to_node ` cs"

lemma subgraph_of_empty: "subgraph_of empty_graph g"
  using wf_empty_graph by (simp add: subgraph_of_def empty_graph_def)

lemma connection_of_key:
  "wf_graph g \<Longrightarrow> c \<in> connections_of g \<Longrightarrow> d \<in> connections_of g \<Longrightarrow> makeKey c = makeKey d \<Longrightarrow> c = d"
  using connection_lookup by (metis option.inject)

lemma node_of_name:
  "wf_graph g \<Longrightarrow> m \<in> nodes_of g \<Longrightarrow> n \<in> nodes_of g \<Longrightarrow> node_name m = node_name n \<Longrightarrow> m = n"
  using in_graph_name_eq wf_graph_in_graph_iff by blast

lemma nodes_of_addNode:
  assumes "wf_graph g" "subgraph_of s g" "n \<in> nodes_of g"
  shows "nodes_of (addNode n s) = insert n (nodes_of s)" "subgraph_of (addNode n s) g"
proof -
  have wf: "wf_graph s" using assms(2) by (simp add: subgraph_of_def)
  have same: "m = n" if "map_of (gnodes s) (node_name n) = Some m" for m
  proof -
    from that have "(node_name n, m) \<in> set (gnodes s)" by (rule map_of_SomeD)
    then have "m \<in> nodes_of s" "node_name m = node_name n"
      using wf by (force simp: wf_graph_def wf_nodes_def)+
    with assms node_of_name [OF assms(1)] show ?thesis by (auto simp: subgraph_of_def simp del: set_map)
  qed
  then have "wf_graph (addNode n s)"
    using wf by (intro wf_addNode) (metis insert_iff not_None_eq)+
  moreover from this have "m \<in> nodes_of (addNode n s) \<longleftrightarrow> m \<in> insert n (nodes_of s)" for m
    using wf same unfolding wf_graph_in_graph_iff [symmetric, OF wf]
      wf_graph_in_graph_iff [symmetric, OF \<open>wf_graph (addNode n s)\<close>] insert_iff
    by (auto simp: in_graph_addNode) (simp add: in_graph_def)
  then show "nodes_of (addNode n s) = insert n (nodes_of s)" by blast
  ultimately show "subgraph_of (addNode n s) g"
    using assms(2,3) unfolding subgraph_of_def by simp
qed

lemma keepConnection_spec:
  assumes g: "wf_graph g" and s: "subgraph_of s g" and c: "c \<in> connections_of g"
  shows "\<exists>s'. keepConnection c s = Inr s' \<and> subgraph_of s' g
     \<and> connections_of s' = insert c (connections_of s) \<and> nodes_of s' = nodes_of s \<union> ends {c}"
proof -
  have in_g: "from_node c \<in> nodes_of g" "to_node c \<in> nodes_of g"
    using connection_ends [OF g c] wf_graph_in_graph_iff [OF g] by blast+
  let ?s1 = "addNode (from_node c) s"
  let ?s2 = "addNode (to_node c) ?s1"
  note s1 = nodes_of_addNode [OF g s in_g(1)]
  note s2 = nodes_of_addNode [OF g s1(2) in_g(2)]
  have wf2: "wf_graph ?s2" using s2(2) by (simp add: subgraph_of_def)
  let ?s3 = "?s2\<lparr>gconnections := map_set (makeKey c) c (gconnections s)\<rparr>"
  have "in_graph ?s2 (from_node c)" "in_graph ?s2 (to_node c)"
    unfolding wf_graph_in_graph_iff [OF wf2] s2(1) s1(1) by blast+
  then have s3: "keepConnection c s = Inr ?s3" "wf_graph ?s3"
    using wf2 wf_addConnection [of ?s2 "input_of_connection c" ?s3]
    by (simp_all add: keepConnection_def addConnection_Inr addNodes_def)
  have conns: "connections_of s \<subseteq> connections_of g" and wf: "wf_graph s"
    using s by (simp_all add: subgraph_of_def)
  have "d = c" if "(makeKey c, d) \<in> set (gconnections s)" for d
  proof -
    have "d \<in> connections_of s" using that by force
    moreover have "makeKey d = makeKey c" using connection_key [OF wf that] by simp
    ultimately show ?thesis using connection_of_key [OF g] conns c by blast
  qed
  moreover have "distinct (map_keys (gconnections s))" using wf by (simp add: wf_graph_def wf_connections_def)
  ultimately have "connections_of ?s3 = insert c (connections_of s)"
    by (force simp: set_map_set)
  moreover have "nodes_of ?s3 = nodes_of s \<union> ends {c}" using s2(1) s1(1) by simp
  ultimately show ?thesis
    using s3 in_g c s unfolding subgraph_of_def by (intro exI [of _ ?s3]) (simp del: set_map)
qed

lemma keepConnections_spec:
  assumes "wf_graph g" and "subgraph_of s g" and "set cs \<subseteq> connections_of g"
  shows "\<exists>s'. fold_result keepConnection cs s = Inr s' \<and> subgraph_of s' g
     \<and> connections_of s' = connections_of s \<union> set cs \<and> nodes_of s' = nodes_of s \<union> ends (set cs)"
  using assms(2,3)
proof (induction cs arbitrary: s)
  case Nil
  then show ?case by simp
next
  case (Cons c cs)
  from keepConnection_spec [OF assms(1) Cons.prems(1), of c] Cons.prems(2) obtain s1 where
    s1: "keepConnection c s = Inr s1" "subgraph_of s1 g"
    "connections_of s1 = insert c (connections_of s)" "nodes_of s1 = nodes_of s \<union> ends {c}"
    by auto
  from Cons.IH [OF s1(2)] Cons.prems(2) obtain s2 where
    "fold_result keepConnection cs s1 = Inr s2" "subgraph_of s2 g"
    "connections_of s2 = connections_of s1 \<union> set cs" "nodes_of s2 = nodes_of s1 \<union> ends (set cs)"
    by auto
  with s1 show ?case by (simp add: Un_ac del: set_map)
qed

section \<open>The branches that are kept\<close>

text \<open>
  \<open>kept g d t n br br'\<close>: the search that stands at \<open>n\<close> with the branch \<open>br\<close> extends it to \<open>br'\<close>
  and keeps that.
\<close>

inductive kept ::
  "directed_graph \<Rightarrow> inode \<Rightarrow> inode \<Rightarrow> inode \<Rightarrow> graph_connection list \<Rightarrow> graph_connection list \<Rightarrow> bool"
  for g d t where
  at_trigger: "kept g d t t br br"
| closes: "n \<noteq> t \<Longrightarrow> n \<noteq> d \<Longrightarrow> n \<in> to_nodes br \<Longrightarrow> kept g d t n br br"
| extends: "n \<noteq> t \<Longrightarrow> n \<notin> to_nodes br \<Longrightarrow> p \<in> connections_of g \<Longrightarrow> to_node p = n \<Longrightarrow>
    connection_type p = Main_type \<Longrightarrow> kept g d t (from_node p) (br @ [p]) br' \<Longrightarrow> kept g d t n br br'"

inductive_cases kept_elim: "kept g d t n br br'"
inductive_simps kept_simp: "kept g d t n br br'"

definition kept_from ::
  "directed_graph \<Rightarrow> inode \<Rightarrow> inode \<Rightarrow> inode \<Rightarrow> graph_connection list \<Rightarrow> graph_connection set" where
  "kept_from g d t n br = \<Union>{set br' | br'. kept g d t n br br'}"

lemma mem_kept_from: "c \<in> kept_from g d t n br \<longleftrightarrow> (\<exists>br'. kept g d t n br br' \<and> c \<in> set br')"
  by (auto simp: kept_from_def)

lemma kept_prefix: "kept g d t n br br' \<Longrightarrow> set br \<subseteq> set br'"
  by (induction rule: kept.induct) auto

lemma kept_connections:
  "kept g d t n br br' \<Longrightarrow> set br \<subseteq> connections_of g \<Longrightarrow> set br' \<subseteq> connections_of g"
  by (induction rule: kept.induct) auto

lemma kept_sound:
  "kept g d t n br br' \<Longrightarrow> c \<in> set br' - set br \<Longrightarrow>
   connection_type c = Main_type \<and> (to_node c, n) \<in> (main_edges g)\<^sup>*"
proof (induction rule: kept.induct)
  case (extends n br p br')
  show ?case
  proof (cases "c = p")
    case True
    with extends(4,5) show ?thesis by simp
  next
    case False
    with extends have "connection_type c = Main_type" "(to_node c, from_node p) \<in> (main_edges g)\<^sup>*"
      by auto
    moreover have "(from_node p, n) \<in> main_edges g"
      using extends(3-5) unfolding main_edges_iff by blast
    ultimately show ?thesis by (auto intro: rtrancl_into_rtrancl)
  qed
qed simp_all

lemma kept_from_trigger: "kept_from g d t t br = set br"
  by (auto simp: mem_kept_from kept_simp [of g d t t br])

lemma kept_from_closed:
  "n \<noteq> t \<Longrightarrow> n \<in> to_nodes br \<Longrightarrow> kept_from g d t n br = (if n = d then {} else set br)"
proof -
  assume nt: "n \<noteq> t" and seen: "n \<in> to_nodes br"
  have "kept g d t n br br' \<longleftrightarrow> n \<noteq> d \<and> br' = br" for br'
  proof
    assume "kept g d t n br br'"
    then show "n \<noteq> d \<and> br' = br"
    proof (cases rule: kept.cases)
      case at_trigger
      with nt show ?thesis by simp
    next
      case closes
      then show ?thesis by (intro conjI)
    next
      case (extends p)
      with seen show ?thesis by simp
    qed
  next
    assume "n \<noteq> d \<and> br' = br"
    then show "kept g d t n br br'" using kept.closes [OF nt _ seen] by blast
  qed
  note only = this
  show ?thesis by (rule set_eqI) (simp only: mem_kept_from only, simp)
qed

lemma kept_from_open:
  "n \<noteq> t \<Longrightarrow> n \<notin> to_nodes br \<Longrightarrow> kept_from g d t n br =
     (\<Union>p \<in> {p \<in> connections_of g. to_node p = n \<and> connection_type p = Main_type}.
        kept_from g d t (from_node p) (br @ [p]))"
proof -
  assume nt: "n \<noteq> t" and op: "n \<notin> to_nodes br"
  have "kept g d t n br br' \<longleftrightarrow> (\<exists>p \<in> connections_of g. to_node p = n
      \<and> connection_type p = Main_type \<and> kept g d t (from_node p) (br @ [p]) br')" for br'
  proof
    assume "kept g d t n br br'"
    then show "\<exists>p \<in> connections_of g. to_node p = n
      \<and> connection_type p = Main_type \<and> kept g d t (from_node p) (br @ [p]) br'"
    proof (cases rule: kept.cases)
      case (extends p)
      then show ?thesis by (intro bexI [of _ p] conjI)
    qed (use nt op in simp_all)
  qed (use nt op in \<open>auto intro: kept.extends simp del: set_map\<close>)
  then show ?thesis by (intro set_eqI) (unfold mem_kept_from UN_iff, blast)
qed

lemma fold_result_subgraph:
  assumes "subgraph_of s g"
    and "\<And>x s. x \<in> set xs \<Longrightarrow> subgraph_of s g \<Longrightarrow> \<exists>s'. f x s = Inr s' \<and> subgraph_of s' g
       \<and> connections_of s' = connections_of s \<union> C x \<and> nodes_of s' = nodes_of s \<union> N x"
  shows "\<exists>s'. fold_result f xs s = Inr s' \<and> subgraph_of s' g
     \<and> connections_of s' = connections_of s \<union> \<Union>(C ` set xs) \<and> nodes_of s' = nodes_of s \<union> \<Union>(N ` set xs)"
  using assms
proof (induction xs arbitrary: s)
  case Nil
  then show ?case by simp
next
  case (Cons x xs)
  from Cons.prems(2) [of x s] Cons.prems(1) obtain s1 where s1: "f x s = Inr s1" "subgraph_of s1 g"
    "connections_of s1 = connections_of s \<union> C x" "nodes_of s1 = nodes_of s \<union> N x"
    by auto
  from Cons.IH [OF s1(2)] Cons.prems(2) obtain s2 where "fold_result f xs s1 = Inr s2" "subgraph_of s2 g"
    "connections_of s2 = connections_of s1 \<union> \<Union>(C ` set xs)"
    "nodes_of s2 = nodes_of s1 \<union> \<Union>(N ` set xs)"
    by (metis list.set_intros(2))
  with s1 show ?case by (simp add: Un_assoc del: set_map)
qed

lemma findSubgraphRecursive_spec:
  assumes "wf_graph g" and "in_graph g n" and "in_graph g t" and "subgraph_of s g"
    and "set br \<subseteq> connections_of g"
  shows "\<exists>s'. findSubgraphRecursive g d n t s br = Inr s' \<and> subgraph_of s' g
     \<and> connections_of s' = connections_of s \<union> kept_from g d t n br
     \<and> nodes_of s' = nodes_of s \<union> ends (kept_from g d t n br) \<union> (if n = t then {t} else {})"
  using assms
proof (induction g d n t s br rule: findSubgraphRecursive.induct)
  case (1 g d n t s br)
  note unfold = findSubgraphRecursive.simps [of g d n t s br]
  note prems = 1(2-6)
  show ?case
  proof (cases "n = t")
    case True
    have "t \<in> nodes_of g" using prems(1,3) wf_graph_in_graph_iff by blast
    note t = nodes_of_addNode [OF prems(1,4) this]
    from keepConnections_spec [OF prems(1) t(2) prems(5)] True t(1) show ?thesis
      by (auto simp: findSubgraphRecursive.simps [of g d t t s br] kept_from_trigger simp del: set_map)
  next
    case nt: False
    obtain ps where ps: "getDirectParentConnections g n = Inr ps"
      using prems(2) by (simp add: getDirectParentConnections_def)
    then have set_ps: "set ps = {p \<in> connections_of g. to_node p = n}"
      by (auto simp: getDirectParentConnections_Inr)
    show ?thesis
    proof (cases "n \<in> to_nodes br")
      case True
      then have "ps \<noteq> []" using prems(5) set_ps by fastforce
      moreover have "list_ex (\<lambda>c. to_node c = n) br" using True by (auto simp: list_ex_iff)
      ultimately show ?thesis
        using keepConnections_spec [OF prems(1,4,5)] prems(4) nt ps True
        by (cases "n = d") (simp_all add: unfold findSubgraphRecursive.simps [of g d d t s br] kept_from_closed del: set_map)
    next
      case False
      then have no_cycle: "\<not> list_ex (\<lambda>c. to_node c = n) br" by (auto simp: list_ex_iff)
      let ?f = "\<lambda>p s. if connection_type p \<noteq> Main_type then Inr s
         else findSubgraphRecursive g d (from_node p) t s (br @ [p])"
      let ?C = "\<lambda>p. if connection_type p = Main_type then kept_from g d t (from_node p) (br @ [p]) else {}"
      let ?N = "\<lambda>p. ends (?C p)"
      have step: "\<exists>s'. ?f p s = Inr s' \<and> subgraph_of s' g
          \<and> connections_of s' = connections_of s \<union> ?C p \<and> nodes_of s' = nodes_of s \<union> ?N p"
        if p: "p \<in> set ps" and s: "subgraph_of s g" for p s
      proof (cases "connection_type p = Main_type")
        case True
        have pg: "p \<in> connections_of g" using p set_ps by blast
        have ne: "length ps \<noteq> 0" using p by auto
        have "\<not> (n = d \<and> list_ex (\<lambda>c. to_node c = d) br)" using no_cycle by blast
        from 1(1) [OF nt ps ne this no_cycle p _ prems(1) _ prems(3) s, of]
          connection_ends [OF prems(1) pg] True prems(5) pg
        obtain s' where s': "findSubgraphRecursive g d (from_node p) t s (br @ [p]) = Inr s'"
          "subgraph_of s' g" "connections_of s' = connections_of s \<union> kept_from g d t (from_node p) (br @ [p])"
          "nodes_of s' = nodes_of s \<union> ends (kept_from g d t (from_node p) (br @ [p]))
             \<union> (if from_node p = t then {t} else {})"
          by auto
        have "from_node p = t \<Longrightarrow> t \<in> ends (kept_from g d t (from_node p) (br @ [p]))"
          unfolding kept_from_trigger [of g d t "br @ [p]"] by (simp add: kept_from_trigger)
        with s' True show ?thesis by (auto simp del: set_map)
      next
        case False
        with s show ?thesis by simp
      qed
      have C: "\<Union>(?C ` set ps) = kept_from g d t n br"
        unfolding kept_from_open [OF nt False] set_ps by (auto split: if_splits simp del: set_map)
      then have N: "\<Union>(?N ` set ps) = ends (kept_from g d t n br)" by blast
      have "\<exists>s'. fold_result ?f ps s = Inr s' \<and> subgraph_of s' g
          \<and> connections_of s' = connections_of s \<union> \<Union>(?C ` set ps)
          \<and> nodes_of s' = nodes_of s \<union> \<Union>(?N ` set ps)"
        using prems(4) step by (rule fold_result_subgraph)
      then obtain s' where
        "fold_result ?f ps s = Inr s'" "subgraph_of s' g"
        "connections_of s' = connections_of s \<union> kept_from g d t n br"
        "nodes_of s' = nodes_of s \<union> ends (kept_from g d t n br)"
        unfolding C N by blast
      moreover have "findSubgraphRecursive g d n t s br = fold_result ?f ps s"
      proof -
        have "\<not> (n = d \<and> list_ex (\<lambda>c. to_node c = d) br)" using no_cycle by blast
        then show ?thesis using nt no_cycle by (cases "ps = []") (auto simp: unfold ps)
      qed
      ultimately show ?thesis using nt by (intro exI [of _ s']) (simp del: set_map)
    qed
  qed
qed

section \<open>The whole search\<close>

text \<open>The connections to the sub-nodes of a set of nodes: upstream of them, and not \<open>Main\<close>.\<close>

definition utility_connections :: "directed_graph \<Rightarrow> inode set \<Rightarrow> graph_connection set" where
  "utility_connections g ns = {c \<in> connections_of g. connection_type c \<noteq> Main_type
     \<and> (\<exists>n \<in> ns. (to_node c, n) \<in> (edges g)\<^sup>*)}"

lemma keepUtilities_spec:
  assumes g: "wf_graph g" and n: "in_graph g n" and s: "subgraph_of s g"
  shows "\<exists>s'. bind_result (getParentConnections g n) (\<lambda>cs. fold_result (\<lambda>c s.
       if connection_type c = Main_type then Inr s else keepConnection c s) cs s) = Inr s'
     \<and> subgraph_of s' g \<and> connections_of s' = connections_of s \<union> utility_connections g {n}
     \<and> nodes_of s' = nodes_of s \<union> ends (utility_connections g {n})"
proof -
  from getParentConnections_spec [OF g n] obtain cs where cs: "getParentConnections g n = Inr cs"
    "set cs = {c \<in> connections_of g. (to_node c, n) \<in> (edges g)\<^sup>*}" by blast
  let ?C = "\<lambda>c. if connection_type c = Main_type then {} else {c}"
  have U: "\<Union>(?C ` set cs) = utility_connections g {n}"
    unfolding cs(2) utility_connections_def by (auto split: if_splits simp del: set_map)
  then have N: "\<Union>((\<lambda>c. ends (?C c)) ` set cs) = ends (utility_connections g {n})" by blast
  have "\<exists>s'. fold_result (\<lambda>c s. if connection_type c = Main_type then Inr s else keepConnection c s) cs s
      = Inr s' \<and> subgraph_of s' g \<and> connections_of s' = connections_of s \<union> \<Union>(?C ` set cs)
      \<and> nodes_of s' = nodes_of s \<union> \<Union>((\<lambda>c. ends (?C c)) ` set cs)"
    using s
  proof (rule fold_result_subgraph)
    fix c s assume c: "c \<in> set cs" and s: "subgraph_of s g"
    then have "c \<in> connections_of g" using cs(2) by blast
    from keepConnection_spec [OF g s this] s
    show "\<exists>s'. (if connection_type c = Main_type then Inr s else keepConnection c s) = Inr s'
      \<and> subgraph_of s' g \<and> connections_of s' = connections_of s \<union> ?C c
      \<and> nodes_of s' = nodes_of s \<union> ends (?C c)"
      by (cases "connection_type c = Main_type") simp_all
  qed
  with cs(1) show ?thesis unfolding U N by simp
qed

lemma utility_connections_UN: "(\<Union>n \<in> ns. utility_connections g {n}) = utility_connections g ns"
  by (auto simp: utility_connections_def)

lemma findSubgraph_result:
  assumes g: "wf_graph g" and d: "in_graph g d" and t: "in_graph g t"
  defines "K \<equiv> kept_from g d t d []"
  defines "N \<equiv> ends K \<union> (if d = t then {t} else {})"
  shows "\<exists>s. findSubgraph g d t = Inr s \<and> subgraph_of s g
     \<and> connections_of s = K \<union> utility_connections g N
     \<and> nodes_of s = N \<union> ends (utility_connections g N)"
proof -
  from findSubgraphRecursive_spec [OF g d t subgraph_of_empty, of "[]" d] obtain s0 where
    s0: "findSubgraphRecursive g d d t empty_graph [] = Inr s0" "subgraph_of s0 g"
    "connections_of s0 = K" "nodes_of s0 = N"
    by (auto simp: K_def N_def empty_graph_def)
  let ?step = "\<lambda>n s. bind_result (getParentConnections g n) (\<lambda>cs. fold_result (\<lambda>c s.
       if connection_type c = Main_type then Inr s else keepConnection c s) cs s)"
  have "\<exists>s'. fold_result ?step (map_values (gnodes s0)) s0 = Inr s' \<and> subgraph_of s' g
    \<and> connections_of s' = connections_of s0 \<union> (\<Union>n \<in> nodes_of s0. utility_connections g {n})
    \<and> nodes_of s' = nodes_of s0 \<union> (\<Union>n \<in> nodes_of s0. ends (utility_connections g {n}))"
    using s0(2)
  proof (rule fold_result_subgraph)
    fix n s assume "n \<in> nodes_of s0" and s: "subgraph_of s g"
    then have "in_graph g n"
      using s0(2) wf_graph_in_graph_iff [OF g] unfolding subgraph_of_def by blast
    then show "\<exists>s'. ?step n s = Inr s' \<and> subgraph_of s' g
      \<and> connections_of s' = connections_of s \<union> utility_connections g {n}
      \<and> nodes_of s' = nodes_of s \<union> ends (utility_connections g {n})"
      using s by (rule keepUtilities_spec [OF g])
  qed
  moreover have "(\<Union>n \<in> N. ends (utility_connections g {n})) = ends (utility_connections g N)"
    using utility_connections_UN [of g N] by blast
  ultimately show ?thesis
    using s0(1) unfolding s0(3,4) utility_connections_UN
    by (simp add: findSubgraph_def getNodes_def del: set_map)
qed

section \<open>What the search finds\<close>

text \<open>The search reaches every node that leads to the destination without entering the trigger.\<close>

lemma rtrancl_enter:
  assumes "(m, x) \<in> R\<^sup>*" and "m \<noteq> x"
  shows "\<exists>y. (y, x) \<in> R \<and> (m, y) \<in> (R - UNIV \<times> {x})\<^sup>*"
  using assms
proof (induction rule: converse_rtrancl_induct)
  case (step m n)
  show ?case
  proof (cases "n = x")
    case True
    with step(1) show ?thesis by blast
  next
    case False
    with step obtain y where y: "(y, x) \<in> R" "(n, y) \<in> (R - UNIV \<times> {x})\<^sup>*" by blast
    have "(m, n) \<in> R - UNIV \<times> {x}" using step(1) False by simp
    then have "(m, y) \<in> (R - UNIV \<times> {x})\<^sup>*" using y(2) by (rule converse_rtrancl_into_rtrancl)
    with y(1) show ?thesis by blast
  qed
qed simp

lemma kept_reaches:
  assumes "(m, n) \<in> (main_edges g - UNIV \<times> (insert t (to_nodes br)))\<^sup>*"
  shows "\<exists>ext. (\<forall>br'. kept g d t m (br @ ext) br' \<longrightarrow> kept g d t n br br')
     \<and> (if ext = [] then m = n else from_node (last ext) = m)"
  using assms
proof (induction "card (from_nodes (map_values (gconnections g)) \<union> to_nodes (map_values (gconnections g)) - to_nodes br)"
    arbitrary: n br rule: less_induct)
  case less
  show ?case
  proof (cases "m = n")
    case True
    then show ?thesis by (intro exI [of _ "[]"]) simp
  next
    case False
    let ?R = "main_edges g - UNIV \<times> insert t (to_nodes br)"
    from rtrancl_enter [OF less.prems False] obtain y where
      y: "(y, n) \<in> ?R" "(m, y) \<in> (?R - UNIV \<times> {n})\<^sup>*" by blast
    from y(1) obtain p where p: "p \<in> connections_of g" "connection_type p = Main_type"
      "from_node p = y" "to_node p = n" and n: "n \<noteq> t" "n \<notin> to_nodes br"
      by (auto simp: main_edges_iff simp del: set_map)
    have "?R - UNIV \<times> {n} = main_edges g - UNIV \<times> insert t (to_nodes (br @ [p]))"
      using p(4) by auto
    with y(2) have path: "(m, y) \<in> (main_edges g - UNIV \<times> insert t (to_nodes (br @ [p])))\<^sup>*" by simp
    have "n \<in> to_nodes (map_values (gconnections g))" using p(1,4) by blast
    then have "card (from_nodes (map_values (gconnections g)) \<union> to_nodes (map_values (gconnections g)) - to_nodes (br @ [p]))
      < card (from_nodes (map_values (gconnections g)) \<union> to_nodes (map_values (gconnections g)) - to_nodes br)"
    proof -
      have br: "to_nodes (br @ [p]) = insert n (to_nodes br)" using p(4) by auto
      show ?thesis unfolding br using \<open>n \<in> _\<close> n(2) by (intro card_Diff_insert_less) auto
    qed
    from less.hyps [OF this path] obtain ext where
      ext: "\<And>br'. kept g d t m ((br @ [p]) @ ext) br' \<Longrightarrow> kept g d t y (br @ [p]) br'"
      "if ext = [] then m = y else from_node (last ext) = m" by blast
    have "kept g d t n br br'" if "kept g d t m (br @ p # ext) br'" for br'
      using kept.extends [OF n p(1,4,2), of d br'] ext(1) [of br'] that p(3) by simp
    moreover have "from_node (last (p # ext)) = m"
      using ext(2) p(3) by (auto split: if_splits)
    ultimately show ?thesis by (intro exI [of _ "p # ext"]) simp
  qed
qed

text \<open>From a node that the trigger reaches without leaving the destination, every branch is kept.\<close>

lemma kept_closes:
  assumes "(t, n) \<in> (main_edges g - {d} \<times> UNIV)\<^sup>*" and "n = d \<Longrightarrow> n \<notin> to_nodes br"
  shows "\<exists>br'. kept g d t n br br'"
  using assms
proof (induction arbitrary: br rule: rtrancl_induct)
  case base
  then show ?case using kept.at_trigger by blast
next
  case (step m n)
  from step(2) obtain p where p: "p \<in> connections_of g" "connection_type p = Main_type"
    "from_node p = m" "to_node p = n" and "m \<noteq> d"
    by (auto simp: main_edges_iff simp del: set_map)
  consider "n = t" | "n \<noteq> t" "n \<in> to_nodes br" | "n \<noteq> t" "n \<notin> to_nodes br" by blast
  then show ?case
  proof cases
    case 1
    then show ?thesis using kept.at_trigger by blast
  next
    case 2
    with step.prems have "n \<noteq> d" by blast
    with 2 show ?thesis using kept.closes by blast
  next
    case 3
    from step.IH [of "br @ [p]"] \<open>m \<noteq> d\<close> obtain br' where "kept g d t m (br @ [p]) br'" by blast
    with kept.extends [OF 3 p(1,4,2), of d br'] p(3) show ?thesis by blast
  qed
qed

lemma kept_complete:
  assumes "(t, n) \<in> (main_edges g - {d} \<times> UNIV)\<^sup>*" and "(n, d) \<in> (main_edges g - UNIV \<times> {t})\<^sup>*"
  shows "n \<in> ends (kept_from g d t d []) \<union> (if d = t then {t} else {})"
proof -
  from assms(2) have "(n, d) \<in> (main_edges g - UNIV \<times> insert t (to_nodes []))\<^sup>*" by simp
  from kept_reaches [OF this, of d] obtain ext where
    ext: "\<And>br'. kept g d t n ext br' \<Longrightarrow> kept g d t d [] br'"
    "if ext = [] then n = d else from_node (last ext) = n" by auto
  show ?thesis
  proof (cases "n = d")
    case True
    from assms(1) True obtain br' where br': "kept g d t d [] br'"
      using kept_closes [of t d g d "[]"] by auto
    then show ?thesis
    proof (cases rule: kept.cases)
      case (extends p)
      then have "p \<in> set br'" using kept_prefix [OF extends(6)] by simp
      with br' have "p \<in> kept_from g d t d []" by (auto simp: mem_kept_from)
      with True extends(4) show ?thesis by blast
    qed (use True in simp_all)
  next
    case False
    with ext(2) have e: "ext \<noteq> []" "from_node (last ext) = n" by (auto split: if_splits)
    from kept_closes [OF assms(1), of ext] False obtain br' where br': "kept g d t n ext br'" by blast
    with kept_prefix [OF this] e(1) have "last ext \<in> set br'" by auto
    with ext(1) [OF br'] have "last ext \<in> kept_from g d t d []" by (auto simp: mem_kept_from)
    with e(2) show ?thesis by blast
  qed
qed

lemma kept_from_sound:
  assumes "c \<in> kept_from g d t d []"
  shows "c \<in> connections_of g \<and> connection_type c = Main_type \<and> (to_node c, d) \<in> (main_edges g)\<^sup>*"
  using assms kept_sound [of g d t d "[]" _ c] kept_connections [of g d t d "[]"]
  by (auto simp: mem_kept_from simp del: set_map)

end
