(* ===== verification/Run_Data.thy ===== *)
theory Run_Data
  imports Graph_Search
begin

text \<open>
  The readers and the cleaner of run data under \<open>partial-execution-utils/\<close>:
  \<open>get-incoming-data.ts\<close>, \<open>run-data-utils.ts\<close> and \<open>clean-run-data.ts\<close>.
\<close>

section \<open>Reading a node's output\<close>

definition getIncomingData ::
  "run_data \<Rightarrow> string \<Rightarrow> int \<Rightarrow> node_connection_type \<Rightarrow> int \<Rightarrow> node_items option" where
  "getIncomingData runData nodeName runIndex connectionType outputIndex =
     Option.bind (map_of runData nodeName) (\<lambda>runs.
     Option.bind (arr_at runs runIndex) (\<lambda>task.
     Option.bind (task_output task) (\<lambda>output.
     Option.bind (map_of output connectionType) (\<lambda>outputs.
     Option.bind (arr_at outputs outputIndex) (\<lambda>items. items)))))"

definition getRunIndexLength :: "run_data \<Rightarrow> string \<Rightarrow> nat" where
  "getRunIndexLength runData nodeName =
     (case map_of runData nodeName of Some runs \<Rightarrow> length runs | None \<Rightarrow> 0)"

fun firstRunWithData ::
  "run_data \<Rightarrow> string \<Rightarrow> node_connection_type \<Rightarrow> nat \<Rightarrow> nat list \<Rightarrow> (node_items \<times> nat) option" where
  "firstRunWithData runData nodeName connectionType outputIndex [] = None"
| "firstRunWithData runData nodeName connectionType outputIndex (runIndex # rest) =
     (case getIncomingData runData nodeName (int runIndex) connectionType (int outputIndex) of
        Some data \<Rightarrow>
          if length data > 0 then Some (data, runIndex)
          else firstRunWithData runData nodeName connectionType outputIndex rest
      | None \<Rightarrow> firstRunWithData runData nodeName connectionType outputIndex rest)"

definition getIncomingDataFromAnyRun ::
  "run_data \<Rightarrow> string \<Rightarrow> node_connection_type \<Rightarrow> nat \<Rightarrow> (node_items \<times> nat) option" where
  "getIncomingDataFromAnyRun runData nodeName connectionType outputIndex =
     firstRunWithData runData nodeName connectionType outputIndex
       [0..<getRunIndexLength runData nodeName]"

text \<open>The items a run left on an output; no items where the run or the output is missing.\<close>

definition items_of_run :: "run_data \<Rightarrow> string \<Rightarrow> node_connection_type \<Rightarrow> nat \<Rightarrow> nat \<Rightarrow> node_items" where
  "items_of_run runData nodeName connectionType outputIndex runIndex =
     (case getIncomingData runData nodeName (int runIndex) connectionType (int outputIndex) of
        Some items \<Rightarrow> items | None \<Rightarrow> [])"

lemma firstRunWithData_Some:
  "firstRunWithData rd n t i js = Some (items, j) \<Longrightarrow>
     \<exists>ys zs. js = ys @ j # zs \<and> items_of_run rd n t i j = items \<and> items \<noteq> []
       \<and> (\<forall>k \<in> set ys. items_of_run rd n t i k = [])"
proof (induction js)
  case (Cons k js)
  show ?case
  proof (cases "items_of_run rd n t i k = []")
    case True
    with Cons.prems have "firstRunWithData rd n t i js = Some (items, j)"
      by (simp add: items_of_run_def split: option.splits)
    with Cons.IH obtain ys zs where "js = ys @ j # zs" "items_of_run rd n t i j = items" "items \<noteq> []"
      "\<forall>k \<in> set ys. items_of_run rd n t i k = []" by blast
    with True show ?thesis by (intro exI [of _ "k # ys"] exI [of _ zs]) auto
  next
    case False
    with Cons.prems show ?thesis
      by (intro exI [of _ "[]"] exI [of _ js]) (auto simp: items_of_run_def split: option.splits)
  qed
qed simp

lemma firstRunWithData_None:
  "firstRunWithData rd n t i js = None \<longleftrightarrow> (\<forall>j \<in> set js. items_of_run rd n t i j = [])"
  by (induction js) (auto simp: items_of_run_def split: option.splits)

lemma split_upt:
  assumes "[0..<n] = ys @ j # zs" shows "j < n \<and> set ys = {0..<j}"
proof -
  have "length ys < n" using arg_cong [OF assms, of length] by simp
  have "j = [0..<n] ! length ys" unfolding assms by simp
  also have "\<dots> = length ys" using \<open>length ys < n\<close> by simp
  finally have j: "j = length ys" .
  have "ys = take (length ys) [0..<n]" unfolding assms by simp
  also have "\<dots> = [0..<length ys]" using \<open>length ys < n\<close> by simp
  finally have "set ys = {0..<length ys}" by (metis set_upt)
  with j \<open>length ys < n\<close> show ?thesis by simp
qed

text \<open>Beyond the last run there are no items.\<close>

lemma items_of_run_outside:
  "getRunIndexLength rd n \<le> j \<Longrightarrow> items_of_run rd n t i j = []"
  by (auto simp: items_of_run_def getIncomingData_def getRunIndexLength_def arr_at_nat arr_get_def
      split: option.splits)

lemma getIncomingDataFromAnyRun_cases:
  "case getIncomingDataFromAnyRun rd n t i of
     Some (items, j) \<Rightarrow> items_of_run rd n t i j = items \<and> items \<noteq> [] \<and> j < getRunIndexLength rd n
       \<and> (\<forall>k<j. items_of_run rd n t i k = [])
   | None \<Rightarrow> (\<forall>k. items_of_run rd n t i k = [])"
proof (cases "getIncomingDataFromAnyRun rd n t i")
  case None
  then have "items_of_run rd n t i k = []" for k
    using items_of_run_outside [of rd n k t i]
    by (cases "k < getRunIndexLength rd n")
      (auto simp: getIncomingDataFromAnyRun_def firstRunWithData_None)
  with None show ?thesis by simp
next
  case (Some p)
  obtain items j where p: "p = (items, j)" by (cases p)
  with Some obtain ys zs where "[0..<getRunIndexLength rd n] = ys @ j # zs"
    "items_of_run rd n t i j = items" "items \<noteq> []" "\<forall>k \<in> set ys. items_of_run rd n t i k = []"
    using firstRunWithData_Some [of rd n t i] by (fastforce simp: getIncomingDataFromAnyRun_def)
  with split_upt [OF this(1)] Some p show ?thesis by simp
qed

section \<open>The next execution index\<close>

definition getNextExecutionIndex :: "run_data \<Rightarrow> nat" where
  "getNextExecutionIndex runData =
     (if runData = [] then 0
      else let previousIndices =
                 List.map_filter execution_index (concat (object_values runData))
           in if previousIndices = [] then 0 else Max (set previousIndices) + 1)"

lemma set_map_filter: "set (List.map_filter f xs) = {y. \<exists>x \<in> set xs. f x = Some y}"
  by (induction xs) (auto simp: List.map_filter_simps split: option.splits)

lemma previous_indices:
  assumes "distinct (map_keys rd)"
  shows "set (List.map_filter execution_index (concat (object_values rd))) =
           {i. \<exists>(name, runs) \<in> set rd. \<exists>task \<in> set runs. execution_index task = Some i}"
  using assms by (force simp: set_map_filter set_object_values)

section \<open>Cleaning\<close>

text \<open>The run data a node and its sub-nodes lose.\<close>

definition cleanNode :: "directed_graph \<Rightarrow> inode \<Rightarrow> run_data \<Rightarrow> engine_error + run_data" where
  "cleanNode graph node newRunData =
     bind_result (getParentConnections graph node) (\<lambda>subNodeConnections.
       Inr (fold (\<lambda>c rd. if connection_type c = Main_type then rd
                        else map_delete (node_name (from_node c)) rd)
              subNodeConnections (map_delete (node_name node) newRunData)))"

definition cleanRunData :: "run_data \<Rightarrow> directed_graph \<Rightarrow> inode list \<Rightarrow> engine_error + run_data" where
  "cleanRunData runData graph nodesToClean =
     bind_result
       (fold_result (\<lambda>nodeToClean newRunData.
          let newRunData = map_delete (node_name nodeToClean) newRunData
          in bind_result (getChildren graph nodeToClean) (\<lambda>children.
               fold_result (cleanNode graph) (nodeToClean # children) newRunData))
          nodesToClean runData)
       (\<lambda>newRunData.
          Inr (fold (\<lambda>nodeName rd. if hasNode graph nodeName then rd else map_delete nodeName rd)
                 (own_keys newRunData) newRunData))"

text \<open>The nodes whose run data a cleaning of one node removes.\<close>

definition sub_node_names :: "directed_graph \<Rightarrow> inode \<Rightarrow> string set" where
  "sub_node_names g n = {node_name (from_node c) | c.
     c \<in> connections_of g \<and> connection_type c \<noteq> Main_type \<and> (to_node c, n) \<in> (edges g)\<^sup>*}"

definition cleaned_names :: "directed_graph \<Rightarrow> inode \<Rightarrow> string set" where
  "cleaned_names g s = (\<Union>n \<in> (edges g)\<^sup>* `` {s}. insert (node_name n) (sub_node_names g n))"

text \<open>A map without some keys.\<close>

abbreviation without :: "('k \<times> 'v) list \<Rightarrow> 'k set \<Rightarrow> 'k \<Rightarrow> 'v option" where
  "without m ks \<equiv> map_of m |` (- ks)"

lemma fold_delete_if:
  "map_of (fold (\<lambda>x m. if p x then m else map_delete (f x) m) xs m)
     = without m (f ` {x \<in> set xs. \<not> p x})"
  by (induction xs arbitrary: m) (auto simp: restrict_map_def fun_eq_iff)

lemma without_without: "map_of m' = without m a \<Longrightarrow> without m' b = without m (a \<union> b)"
  by (auto simp: restrict_map_def fun_eq_iff)

lemma cleanNode_spec:
  assumes "wf_graph g" and "in_graph g n"
  shows "\<exists>rd'. cleanNode g n rd = Inr rd'
           \<and> map_of rd' = without rd (insert (node_name n) (sub_node_names g n))"
proof -
  from getParentConnections_spec [OF assms] obtain cs where cs: "getParentConnections g n = Inr cs"
    and set_cs: "set cs = {c \<in> connections_of g. (to_node c, n) \<in> (edges g)\<^sup>*}" by blast
  have "(\<lambda>c. node_name (from_node c)) ` {c \<in> set cs. connection_type c \<noteq> Main_type} = sub_node_names g n"
    unfolding set_cs sub_node_names_def by auto
  then show ?thesis
    using cs by (auto simp: cleanNode_def fold_delete_if restrict_map_def fun_eq_iff)
qed

lemma fold_result_without:
  assumes "\<And>x m. x \<in> set xs \<Longrightarrow> \<exists>m'. f x m = Inr m' \<and> map_of m' = without m (K x)"
  shows "\<exists>m'. fold_result f xs m = Inr m' \<and> map_of m' = without m (\<Union>x \<in> set xs. K x)"
  using assms
proof (induction xs arbitrary: m)
  case Nil
  then show ?case by (simp add: restrict_map_def)
next
  case (Cons x xs)
  from Cons.prems obtain m1 where m1: "f x m = Inr m1" "map_of m1 = without m (K x)" by force
  from Cons.IH [of m1] Cons.prems obtain m' where "fold_result f xs m1 = Inr m'"
    "map_of m' = without m1 (\<Union>x \<in> set xs. K x)" by force
  with m1 without_without [OF m1(2)] show ?case by simp
qed

lemma cleanRunData_result:
  assumes wf: "wf_graph g" and nodes: "\<And>s. s \<in> set ns \<Longrightarrow> in_graph g s"
  shows "\<exists>rd'. cleanRunData rd g ns = Inr rd' \<and>
           map_of rd' = without rd ((\<Union>s \<in> set ns. cleaned_names g s) \<union> {k. \<not> hasNode g k})"
proof -
  let ?f = "\<lambda>s rd. let rd = map_delete (node_name s) rd
          in bind_result (getChildren g s) (\<lambda>children. fold_result (cleanNode g) (s # children) rd)"
  have step: "\<exists>m'. ?f s m = Inr m' \<and> map_of m' = without m (cleaned_names g s)"
    if "s \<in> set ns" for s m
  proof -
    have s: "in_graph g s" using that nodes by blast
    from getChildren_spec [OF wf s] obtain ch where ch: "getChildren g s = Inr ch"
      "set ch = (edges g)\<^sup>+ `` {s}" by blast
    then have reach: "set (s # ch) = (edges g)\<^sup>* `` {s}"
      by (auto dest: rtranclD)
    have "in_graph g n" if "n \<in> set (s # ch)" for n
      using that s ch(2) edges_trancl_in_graph [OF wf] by auto
    then have "\<exists>m'. fold_result (cleanNode g) (s # ch) (map_delete (node_name s) m) = Inr m'
      \<and> map_of m' = without (map_delete (node_name s) m)
         (\<Union>n \<in> set (s # ch). insert (node_name n) (sub_node_names g n))"
      using cleanNode_spec [OF wf] by (intro fold_result_without) simp
    then obtain m' where m': "fold_result (cleanNode g) (s # ch) (map_delete (node_name s) m) = Inr m'"
      "map_of m' = without (map_delete (node_name s) m)
         (\<Union>n \<in> set (s # ch). insert (node_name n) (sub_node_names g n))" by blast
    have "map_of m' = without m (cleaned_names g s)"
      unfolding m'(2) reach cleaned_names_def
      by (rule ext) (simp add: restrict_map_def)
    with ch(1) m'(1) show ?thesis by simp
  qed
  then obtain m where m: "fold_result ?f ns rd = Inr m"
    "map_of m = without rd (\<Union>s \<in> set ns. cleaned_names g s)"
    using fold_result_without [of ns ?f "cleaned_names g" rd] by blast
  have "map_of (fold (\<lambda>k rd. if hasNode g k then rd else map_delete k rd) (own_keys m) m)
      = without m {k. \<not> hasNode g k}"
    unfolding fold_delete_if [where f = "\<lambda>k. k"]
    by (auto simp: restrict_map_def fun_eq_iff map_of_eq_None_iff)
  also have "\<dots> = without rd ((\<Union>s \<in> set ns. cleaned_names g s) \<union> {k. \<not> hasNode g k})"
    using m(2) by (rule without_without)
  finally show ?thesis using m(1) by (simp add: cleanRunData_def)
qed

end
