(* ===== verification/Start_Nodes.thy ===== *)
theory Start_Nodes
  imports Run_Data Graph_Components
begin

text \<open>
  Where a partial execution starts: \<open>find-start-nodes.ts\<close> and \<open>handle-cycles.ts\<close> of
  \<open>partial-execution-utils/\<close>.
\<close>

section \<open>Dirty nodes\<close>

definition isDirty :: "inode \<Rightarrow> run_data \<Rightarrow> pin_data \<Rightarrow> bool" where
  "isDirty node runData pinData =
     (let hasAnError = (case map_of runData (node_name node) of
              Some tasks \<Rightarrow> list_ex (\<lambda>task. task_error task \<noteq> None) tasks
            | None \<Rightarrow> False)
      in if hasAnError then True
         else if map_of pinData (node_name node) \<noteq> None then False
         else if map_of runData (node_name node) \<noteq> None then False
         else True)"

definition isALoop :: "directed_graph \<Rightarrow> inode \<Rightarrow> engine_error + bool" where
  "isALoop graph node =
     bind_result (getChildren graph node) (\<lambda>children. Inr (node \<in> set children))"

text \<open>A loop node whose \<open>done\<close> output holds no data on the last run.\<close>

definition loopNotDone :: "directed_graph \<Rightarrow> run_data \<Rightarrow> inode \<Rightarrow> engine_error + bool" where
  "loopNotDone graph runData current =
     (if node_type current = ''n8n-nodes-base.splitInBatches'' then
        bind_result (isALoop graph current) (\<lambda>loop.
          Inr (case getIncomingData runData (node_name current) (- 1) Main_type
                      (if loop then 0 else 1) of
                 None \<Rightarrow> True
               | Some items \<Rightarrow> length items = 0))
      else Inr False)"

text \<open>The outputs that are followed: those with run data, and all outputs of a pinned node.\<close>

definition carriesData :: "run_data \<Rightarrow> pin_data \<Rightarrow> graph_connection \<Rightarrow> bool" where
  "carriesData runData pinData c =
     (let nodeRunData = getIncomingDataFromAnyRun runData (node_name (from_node c))
                          (connection_type c) (output_index c);
          hasNoRunData = (case nodeRunData of None \<Rightarrow> True | Some (items, _) \<Rightarrow> length items = 0);
          hasNoPinnedData = map_of pinData (node_name (from_node c)) = None
      in \<not> (hasNoRunData \<and> hasNoPinnedData))"

section \<open>The search\<close>

function findStartNodesRecursive ::
  "directed_graph \<Rightarrow> inode \<Rightarrow> inode \<Rightarrow> run_data \<Rightarrow> pin_data \<Rightarrow> inode list \<Rightarrow> inode list
   \<Rightarrow> engine_error + inode list" where
  "findStartNodesRecursive graph current destination runData pinData startNodes seen =
     (if isDirty current runData pinData then Inr (set_add current startNodes)
      else if current = destination then Inr (set_add current startNodes)
      else bind_result (loopNotDone graph runData current) (\<lambda>notDone.
        if notDone then Inr (set_add current startNodes)
        else if current \<in> set seen then Inr startNodes
        else bind_result (getDirectChildConnections graph current) (\<lambda>outGoingConnections.
          fold_result (\<lambda>c startNodes.
            if \<not> carriesData runData pinData c then Inr startNodes
            else findStartNodesRecursive graph (to_node c) destination runData pinData startNodes
                   (set_add current seen))
            outGoingConnections startNodes)))"
  by pat_completeness auto

termination findStartNodesRecursive
proof (relation "measure (\<lambda>(g, n, d, rd, pd, sn, seen).
    card (insert n (to_nodes (map_values (gconnections g))) - set seen))", goal_cases)
  case 1
  show ?case by simp
next
  case (2 g n d rd pd sn seen nd cs c sn')
  then have "to_node c \<in> to_nodes (map_values (gconnections g))"
    by (auto simp: getDirectChildConnections_Inr)
  then have "insert (to_node c) (to_nodes (map_values (gconnections g))) - set (set_add n seen)
      \<subset> insert n (to_nodes (map_values (gconnections g))) - set seen"
    using 2 by auto
  then show ?case by (simp add: psubset_card_mono)
qed

declare findStartNodesRecursive.simps [simp del]

definition findStartNodes ::
  "directed_graph \<Rightarrow> inode \<Rightarrow> inode \<Rightarrow> pin_data \<Rightarrow> run_data \<Rightarrow> engine_error + inode list" where
  "findStartNodes graph trigger destination pinData runData =
     findStartNodesRecursive graph trigger destination runData pinData [] []"

section \<open>Which nodes it finds\<close>

text \<open>A node whose last result cannot be used: a run failed, or there is no result at all.\<close>

definition is_stale :: "inode \<Rightarrow> run_data \<Rightarrow> pin_data \<Rightarrow> bool" where
  "is_stale n rd pd \<longleftrightarrow>
     (\<exists>tasks. map_of rd (node_name n) = Some tasks \<and> (\<exists>task \<in> set tasks. task_error task \<noteq> None))
     \<or> (map_of pd (node_name n) = None \<and> map_of rd (node_name n) = None)"

lemma isDirty_iff: "isDirty n rd pd \<longleftrightarrow> is_stale n rd pd"
  by (auto simp: isDirty_def is_stale_def list_ex_iff split: option.splits)

text \<open>A node where the search of a branch ends with a start node.\<close>

definition loop_not_done :: "directed_graph \<Rightarrow> run_data \<Rightarrow> inode \<Rightarrow> bool" where
  "loop_not_done g rd n \<longleftrightarrow> node_type n = ''n8n-nodes-base.splitInBatches''
     \<and> (case getIncomingData rd (node_name n) (- 1) Main_type
                (if (n, n) \<in> (edges g)\<^sup>+ then 0 else 1) of
          None \<Rightarrow> True | Some items \<Rightarrow> items = [])"

definition starts_here ::
  "directed_graph \<Rightarrow> inode \<Rightarrow> run_data \<Rightarrow> pin_data \<Rightarrow> inode \<Rightarrow> bool" where
  "starts_here g d rd pd n \<longleftrightarrow> is_stale n rd pd \<or> n = d \<or> loop_not_done g rd n"

text \<open>Outputs with data, and the clean nodes' outputs with data.\<close>

definition has_data :: "run_data \<Rightarrow> pin_data \<Rightarrow> graph_connection \<Rightarrow> bool" where
  "has_data rd pd c \<longleftrightarrow> map_of pd (node_name (from_node c)) \<noteq> None
     \<or> (\<exists>j. items_of_run rd (node_name (from_node c)) (connection_type c) (output_index c) j \<noteq> [])"

definition clean_edges :: "directed_graph \<Rightarrow> inode \<Rightarrow> run_data \<Rightarrow> pin_data \<Rightarrow> inode rel" where
  "clean_edges g d rd pd = {(from_node c, to_node c) | c.
     c \<in> connections_of g \<and> has_data rd pd c \<and> \<not> starts_here g d rd pd (from_node c)}"

lemma carriesData_iff: "carriesData rd pd c \<longleftrightarrow> has_data rd pd c"
  using getIncomingDataFromAnyRun_cases
    [of rd "node_name (from_node c)" "connection_type c" "output_index c"]
  by (auto simp: carriesData_def has_data_def Let_def split: option.splits prod.splits)

lemma loopNotDone_eq:
  assumes "wf_graph g" and "in_graph g n"
  shows "loopNotDone g rd n = Inr (loop_not_done g rd n)"
proof -
  from getChildren_spec [OF assms] obtain ch where "getChildren g n = Inr ch"
    "set ch = (edges g)\<^sup>+ `` {n}" by blast
  then show ?thesis by (auto simp: loopNotDone_def loop_not_done_def isALoop_def split: option.splits)
qed

lemma clean_edges_subset: "clean_edges g d rd pd \<subseteq> edges g"
  by (auto simp: clean_edges_def edges_def)

text \<open>A walk that ends elsewhere leaves its first node for the last time once.\<close>

lemma rtrancl_leave:
  assumes "(x, n) \<in> R\<^sup>*" and "x \<noteq> n"
  shows "\<exists>y. (x, y) \<in> R \<and> (y, n) \<in> (R - {x} \<times> UNIV)\<^sup>*"
  using assms
proof (induction rule: rtrancl_induct)
  case (step m n)
  show ?case
  proof (cases "m = x")
    case False
    with step obtain y where y: "(x, y) \<in> R" "(y, m) \<in> (R - {x} \<times> UNIV)\<^sup>*" by blast
    have "(m, n) \<in> R - {x} \<times> UNIV" using step(2) False by simp
    with y(2) have "(y, n) \<in> (R - {x} \<times> UNIV)\<^sup>*" by (rule rtrancl_into_rtrancl)
    with y(1) show ?thesis by blast
  next
    case True
    with step(2) show ?thesis by blast
  qed
qed simp

text \<open>The start nodes that a branch adds when some nodes of it were passed.\<close>

definition starts_from ::
  "directed_graph \<Rightarrow> inode \<Rightarrow> run_data \<Rightarrow> pin_data \<Rightarrow> inode set \<Rightarrow> inode \<Rightarrow> inode set" where
  "starts_from g d rd pd seen n =
     {m. starts_here g d rd pd m \<and> (n, m) \<in> (clean_edges g d rd pd - seen \<times> UNIV)\<^sup>*}"

lemma starts_from_stop:
  assumes "starts_here g d rd pd n" shows "starts_from g d rd pd seen n = {n}"
proof -
  have "m = n" if "(n, m) \<in> (clean_edges g d rd pd - seen \<times> UNIV)\<^sup>*" for m
    using that assms by (auto elim: converse_rtranclE simp: clean_edges_def)
  then show ?thesis using assms by (auto simp: starts_from_def)
qed

lemma starts_from_seen:
  assumes "\<not> starts_here g d rd pd n" and "n \<in> seen" shows "starts_from g d rd pd seen n = {}"
proof -
  have "m = n" if "(n, m) \<in> (clean_edges g d rd pd - seen \<times> UNIV)\<^sup>*" for m
    using that assms(2) by (auto elim: converse_rtranclE)
  then show ?thesis using assms by (auto simp: starts_from_def)
qed

lemma starts_from_step:
  assumes "\<not> starts_here g d rd pd n" and "n \<notin> seen"
  shows "starts_from g d rd pd seen n
    = (\<Union>y \<in> clean_edges g d rd pd `` {n}. starts_from g d rd pd (insert n seen) y)"
proof -
  let ?R = "clean_edges g d rd pd"
  have sub: "?R - insert n seen \<times> UNIV \<subseteq> ?R - seen \<times> UNIV"
    and eq: "?R - seen \<times> UNIV - {n} \<times> UNIV = ?R - insert n seen \<times> UNIV" by auto
  show ?thesis
  proof (intro set_eqI iffI)
    fix m assume "m \<in> starts_from g d rd pd seen n"
    then have m: "starts_here g d rd pd m" "(n, m) \<in> (?R - seen \<times> UNIV)\<^sup>*"
      by (auto simp: starts_from_def)
    with assms(1) have "n \<noteq> m" by auto
    from rtrancl_leave [OF m(2) this] m(1)
    show "m \<in> (\<Union>y \<in> ?R `` {n}. starts_from g d rd pd (insert n seen) y)"
      unfolding eq by (auto simp: starts_from_def)
  next
    fix m assume "m \<in> (\<Union>y \<in> ?R `` {n}. starts_from g d rd pd (insert n seen) y)"
    then obtain y where "(n, y) \<in> ?R" "starts_here g d rd pd m"
      "(y, m) \<in> (?R - insert n seen \<times> UNIV)\<^sup>*"
      by (auto simp: starts_from_def)
    with assms(2) rtrancl_mono [OF sub] show "m \<in> starts_from g d rd pd seen n"
      by (auto simp: starts_from_def intro: converse_rtrancl_into_rtrancl)
  qed
qed

lemma fold_result_union:
  assumes "\<And>x s. x \<in> set xs \<Longrightarrow> \<exists>s'. f x s = Inr s' \<and> set s' = set s \<union> K x \<and> (distinct s \<longrightarrow> distinct s')"
  shows "\<exists>s'. fold_result f xs s = Inr s' \<and> set s' = set s \<union> (\<Union>x \<in> set xs. K x)
     \<and> (distinct s \<longrightarrow> distinct s')"
  using assms
proof (induction xs arbitrary: s)
  case (Cons x xs)
  from Cons.prems obtain s1 where s1: "f x s = Inr s1" "set s1 = set s \<union> K x"
    "distinct s \<longrightarrow> distinct s1" by (meson list.set_intros(1))
  from Cons.IH [of s1] Cons.prems obtain s' where "fold_result f xs s1 = Inr s'"
    "set s' = set s1 \<union> (\<Union>x \<in> set xs. K x)" "distinct s1 \<longrightarrow> distinct s'" by force
  with s1 show ?case by auto
qed simp

lemma findStartNodesRecursive_spec:
  assumes "wf_graph g" and "in_graph g n"
  shows "\<exists>r. findStartNodesRecursive g n d rd pd sn seen = Inr r
     \<and> set r = set sn \<union> starts_from g d rd pd (set seen) n \<and> (distinct sn \<longrightarrow> distinct r)"
  using assms
proof (induction g n d rd pd sn seen rule: findStartNodesRecursive.induct)
  case (1 g n d rd pd sn seen)
  note unfold = findStartNodesRecursive.simps [of g n d rd pd sn seen]
  have loop: "loopNotDone g rd n = Inr (loop_not_done g rd n)"
    using 1(2,3) by (rule loopNotDone_eq)
  show ?case
  proof (cases "starts_here g d rd pd n")
    case True
    then show ?thesis
      by (auto simp: unfold loop isDirty_iff starts_from_stop starts_here_def)
  next
    case False
    then have nstop: "\<not> isDirty n rd pd" "n \<noteq> d" "\<not> loop_not_done g rd n"
      by (auto simp: starts_here_def isDirty_iff)
    show ?thesis
    proof (cases "n \<in> set seen")
      case True
      with nstop False show ?thesis by (auto simp: unfold loop starts_from_seen)
    next
      case fresh: False
      obtain cs where cs: "getDirectChildConnections g n = Inr cs"
        using 1(3) by (simp add: getDirectChildConnections_def)
      then have set_cs: "set cs = {c \<in> connections_of g. from_node c = n}"
        by (auto simp: getDirectChildConnections_Inr)
      let ?f = "\<lambda>c sn. if \<not> carriesData rd pd c then Inr sn
         else findStartNodesRecursive g (to_node c) d rd pd sn (set_add n seen)"
      let ?K = "\<lambda>c. if carriesData rd pd c
         then starts_from g d rd pd (insert n (set seen)) (to_node c) else {}"
      have "\<exists>s'. ?f c s = Inr s' \<and> set s' = set s \<union> ?K c \<and> (distinct s \<longrightarrow> distinct s')"
        if c: "c \<in> set cs" for c s
      proof (cases "carriesData rd pd c")
        case True
        have "in_graph g (to_node c)"
          using c connection_ends [OF 1(2)] unfolding set_cs by blast
        from 1(1) [OF nstop(1,2) loop nstop(3) fresh cs c _ 1(2) this] True
        show ?thesis by simp
      qed simp
      from fold_result_union [of cs ?f ?K sn, OF this] obtain r
        where r: "fold_result ?f cs sn = Inr r" "set r = set sn \<union> (\<Union>c \<in> set cs. ?K c)"
          "distinct sn \<longrightarrow> distinct r" by blast
      have "(\<Union>c \<in> set cs. ?K c)
          = (\<Union>y \<in> clean_edges g d rd pd `` {n}. starts_from g d rd pd (insert n (set seen)) y)"
      proof -
        have "clean_edges g d rd pd `` {n} = to_node ` {c \<in> set cs. carriesData rd pd c}"
          using False unfolding set_cs clean_edges_def carriesData_iff by blast
        then show ?thesis by auto
      qed
      with r starts_from_step [OF False fresh] show ?thesis
        by (simp add: unfold nstop loop fresh cs)
    qed
  qed
qed

lemma findStartNodes_result:
  assumes "wf_graph g" and "in_graph g trigger"
  shows "\<exists>r. findStartNodes g trigger d pd rd = Inr r \<and> distinct r
     \<and> set r = {n. starts_here g d rd pd n \<and> (trigger, n) \<in> (clean_edges g d rd pd)\<^sup>*}"
  using findStartNodesRecursive_spec [OF assms, of d rd pd "[]" "[]"]
  by (auto simp: findStartNodes_def starts_from_def)

section \<open>Cycles\<close>

text \<open>The inner loop: one start node against all components.\<close>

definition replace_start ::
  "directed_graph \<Rightarrow> inode \<Rightarrow> inode list list \<Rightarrow> inode \<Rightarrow> inode list \<Rightarrow> engine_error + inode list" where
  "replace_start graph trigger cycles startNode =
     fold_result (\<lambda>cycle newStartNodes.
       if startNode \<in> set cycle then
         bind_result (depthFirstSearch graph trigger (\<lambda>node. node \<in> set cycle))
           (\<lambda>firstNode. case firstNode of
              None \<Rightarrow> Inl CycleNotConnected
            | Some n \<Rightarrow> Inr (set_add n (set_delete startNode newStartNodes)))
       else Inr newStartNodes) cycles"

definition handleCycles ::
  "directed_graph \<Rightarrow> inode list \<Rightarrow> inode \<Rightarrow> engine_error + inode list" where
  "handleCycles graph startNodes trigger =
     bind_result (getStronglyConnectedComponents graph) (\<lambda>components.
       let cycles = filter (\<lambda>cycle. 1 \<le> length cycle) components
       in if length cycles = 0 then Inr startNodes
          else fold_result (replace_start graph trigger cycles) startNodes startNodes)"

lemma replace_start_outside:
  "s \<notin> set (concat cs) \<Longrightarrow> replace_start g t cs s cur = Inr cur"
  by (induction cs) (auto simp: replace_start_def)

lemma replace_start_none: "fold_result (replace_start g t []) ss cur = Inr cur"
  by (induction ss) (simp_all add: replace_start_def)

lemma replace_start_inside:
  assumes "distinct (concat cs)" and "c \<in> set cs" and "s \<in> set c"
    and "depthFirstSearch g t (\<lambda>n. n \<in> set c) = Inr (Some f)"
  shows "replace_start g t cs s cur = Inr (set_add f (set_delete s cur))"
proof -
  from assms(2) obtain ys zs where cs: "cs = ys @ c # zs" by (meson split_list)
  with assms(1,3) have "s \<notin> set (concat ys)" "s \<notin> set (concat zs)" by auto
  then have "replace_start g t ys s cur' = Inr cur'" "replace_start g t zs s cur' = Inr cur'" for cur'
    by (simp_all add: replace_start_outside)
  with assms(3,4) show ?thesis
    unfolding cs replace_start_def by (simp add: fold_result_append)
qed

lemma disjoint_components:
  "distinct (concat cs) \<Longrightarrow> c \<in> set cs \<Longrightarrow> d \<in> set cs \<Longrightarrow> x \<in> set c \<Longrightarrow> x \<in> set d \<Longrightarrow> c = d"
  by (induction cs) auto

text \<open>\<open>F\<close> is the node of a component that the trigger reaches first.\<close>

lemma replace_starts:
  assumes cs: "distinct (concat cs)"
    and F: "\<And>c. c \<in> set cs \<Longrightarrow> set c \<inter> set ss \<noteq> {} \<Longrightarrow>
              depthFirstSearch g t (\<lambda>n. n \<in> set c) = Inr (Some (F c)) \<and> F c \<in> set c"
  shows "\<exists>r. fold_result (replace_start g t cs) ss cur = Inr r
     \<and> set r = (set cur - set ss \<inter> set (concat cs)) \<union> F ` {c \<in> set cs. set c \<inter> set ss \<noteq> {}}
     \<and> (distinct cur \<longrightarrow> distinct r)"
  using F
proof (induction ss rule: rev_induct)
  case Nil
  then show ?case by simp
next
  case (snoc s ss)
  have "depthFirstSearch g t (\<lambda>n. n \<in> set c) = Inr (Some (F c)) \<and> F c \<in> set c"
    if "c \<in> set cs" "set c \<inter> set ss \<noteq> {}" for c
    using that snoc.prems [of c] by auto
  from snoc.IH [OF this] obtain r where r: "fold_result (replace_start g t cs) ss cur = Inr r"
    "set r = (set cur - set ss \<inter> set (concat cs)) \<union> F ` {c \<in> set cs. set c \<inter> set ss \<noteq> {}}"
    "distinct cur \<longrightarrow> distinct r"
    by blast
  show ?case
  proof (cases "s \<in> set (concat cs)")
    case False
    then have eq: "set (ss @ [s]) \<inter> set (concat cs) = set ss \<inter> set (concat cs)"
      "{c \<in> set cs. set c \<inter> set (ss @ [s]) \<noteq> {}} = {c \<in> set cs. set c \<inter> set ss \<noteq> {}}"
      by auto
    show ?thesis
      using r replace_start_outside [OF False] unfolding eq by (simp add: fold_result_append)
  next
    case True
    then obtain c where c: "c \<in> set cs" "s \<in> set c" by auto
    with snoc.prems [of c] have Fc: "depthFirstSearch g t (\<lambda>n. n \<in> set c) = Inr (Some (F c))"
      "F c \<in> set c" by auto
    have only: "d = c" if "d \<in> set cs" "F d = s" "set d \<inter> set ss \<noteq> {}" for d
    proof -
      from that snoc.prems [of d] have "F d \<in> set d" by auto
      with that c disjoint_components [OF cs] show ?thesis by metis
    qed
    have hit: "{d \<in> set cs. set d \<inter> set (ss @ [s]) \<noteq> {}}
        = insert c {d \<in> set cs. set d \<inter> set ss \<noteq> {}}"
    proof -
      have "d \<in> set cs \<Longrightarrow> s \<in> set d \<longleftrightarrow> d = c" for d
        using c disjoint_components [OF cs c(1) _ c(2), of d] by blast
      moreover have "set d \<inter> set (ss @ [s]) \<noteq> {} \<longleftrightarrow> set d \<inter> set ss \<noteq> {} \<or> s \<in> set d" for d
        by auto
      ultimately show ?thesis using c(1) by blast
    qed
    define D where "D = {d \<in> set cs. set d \<inter> set ss \<noteq> {}}"
    have FD: "insert (F c) (F ` D - {s}) = insert (F c) (F ` D)"
      using only unfolding D_def by blast
    let ?r = "set_add (F c) (set_delete s r)"
    have "set ?r = (set cur - set (ss @ [s]) \<inter> set (concat cs))
        \<union> F ` {d \<in> set cs. set d \<inter> set (ss @ [s]) \<noteq> {}}"
    proof -
      have "insert f (A - S \<inter> U \<union> B - {s}) = A - insert s S \<inter> U \<union> insert f B"
        if "s \<in> U" and "insert f (B - {s}) = insert f B" for A S U B and f :: inode
        using that by blast
      from this [OF True FD] show ?thesis
        unfolding hit set_set_add set_set_delete r(2) D_def [symmetric] image_insert by simp
    qed
    with r(1,3) replace_start_inside [OF cs c Fc(1)] show ?thesis
      by (simp add: fold_result_append)
  qed
qed

lemma handleCycles_result:
  assumes wf: "wf_graph g" and t: "in_graph g trigger" and "distinct starts"
    and reach: "set starts \<subseteq> (edges g)\<^sup>* `` {trigger}"
  shows "\<exists>cs r F. getStronglyConnectedComponents g = Inr cs
     \<and> handleCycles g starts trigger = Inr r \<and> distinct r
     \<and> (\<forall>c \<in> set cs. set c \<inter> set starts \<noteq> {} \<longrightarrow> F c \<in> set c
          \<and> depthFirstSearch g trigger (\<lambda>n. n \<in> set c) = Inr (Some (F c)))
     \<and> set r = (set starts - set (concat cs)) \<union> F ` {c \<in> set cs. set c \<inter> set starts \<noteq> {}}"
proof -
  from components_spec [OF wf] obtain cs where cs: "getStronglyConnectedComponents g = Inr cs"
    "distinct (concat cs)" "\<And>c. c \<in> set cs \<Longrightarrow> c \<noteq> []" by (auto simp: list_all_iff)
  have "\<exists>f. depthFirstSearch g trigger (\<lambda>n. n \<in> set c) = Inr (Some f) \<and> f \<in> set c"
    if "set c \<inter> set starts \<noteq> {}" for c
  proof -
    from that reach obtain s where "s \<in> set c" "(trigger, s) \<in> (edges g)\<^sup>*" by auto
    with depthFirstSearch_spec [OF wf t, of "\<lambda>n. n \<in> set c"] show ?thesis
      by (fastforce split: option.splits)
  qed
  then obtain F where F: "\<And>c. set c \<inter> set starts \<noteq> {} \<Longrightarrow>
      depthFirstSearch g trigger (\<lambda>n. n \<in> set c) = Inr (Some (F c)) \<and> F c \<in> set c" by metis
  have "filter (\<lambda>cycle. 1 \<le> length cycle) cs = cs"
    using cs(3) by (auto simp: filter_id_conv Suc_le_eq)
  then have "handleCycles g starts trigger = fold_result (replace_start g trigger cs) starts starts"
    using cs(1) replace_start_none [of g trigger starts starts] by (simp add: handleCycles_def)
  moreover obtain r where "fold_result (replace_start g trigger cs) starts starts = Inr r"
    "set r = (set starts - set starts \<inter> set (concat cs)) \<union> F ` {c \<in> set cs. set c \<inter> set starts \<noteq> {}}"
    "distinct starts \<longrightarrow> distinct r"
    using replace_starts [OF cs(2), of starts g trigger F starts] F by blast
  ultimately show ?thesis
    using cs(1) F assms(3) by (intro exI [of _ cs] exI [of _ r] exI [of _ F]) auto
qed

end
