(* ===== verification/Source_Groups.thy ===== *)
theory Source_Groups
  imports Run_Data
begin

text \<open>
  \<open>get-source-data-groups.ts\<close>: the incoming connections of a start node, grouped so that every
  group can feed one run of the node. \<open>localeCompare\<close> depends on the host's collation and is the
  argument \<open>localeCompare\<close>; what is used of it is that it is a comparator.
\<close>

section \<open>The order of the connections\<close>

definition sortByInputIndexThenByName ::
  "(string \<Rightarrow> string \<Rightarrow> int) \<Rightarrow> graph_connection \<Rightarrow> graph_connection \<Rightarrow> int" where
  "sortByInputIndexThenByName localeCompare connection1 connection2 =
     (if input_index connection1 = input_index connection2
      then localeCompare (node_name (from_node connection1)) (node_name (from_node connection2))
      else int (input_index connection1) - int (input_index connection2))"

text \<open>A comparison of names gives a comparison of connections.\<close>

locale name_collation = comparison localeCompare
  for localeCompare :: "string \<Rightarrow> string \<Rightarrow> int"
begin

lemma connections_anti:
  "sortByInputIndexThenByName localeCompare c d < 0
     \<longleftrightarrow> 0 < sortByInputIndexThenByName localeCompare d c"
  using cmp_anti by (auto simp: sortByInputIndexThenByName_def)

lemma connections_trans:
  "sortByInputIndexThenByName localeCompare c d \<le> 0 \<Longrightarrow>
   sortByInputIndexThenByName localeCompare d e \<le> 0 \<Longrightarrow>
   sortByInputIndexThenByName localeCompare c e \<le> 0"
  using cmp_trans by (auto simp: sortByInputIndexThenByName_def split: if_splits)

end

sublocale name_collation \<subseteq> connection_order: comparison "sortByInputIndexThenByName localeCompare"
  using connections_anti connections_trans by unfold_locales

text \<open>The comparison of code units, a collation a host may use.\<close>

fun code_unit_compare :: "string \<Rightarrow> string \<Rightarrow> int" where
  "code_unit_compare [] [] = 0"
| "code_unit_compare [] (d # ds) = - 1"
| "code_unit_compare (c # cs) [] = 1"
| "code_unit_compare (c # cs) (d # ds) =
     (if c = d then code_unit_compare cs ds
      else if (of_char c :: nat) < of_char d then - 1 else 1)"

lemma code_unit_anti: "code_unit_compare a b < 0 \<longleftrightarrow> 0 < code_unit_compare b a"
  by (induction a b rule: code_unit_compare.induct) auto

lemma code_unit_trans:
  "code_unit_compare a b \<le> 0 \<Longrightarrow> code_unit_compare b c \<le> 0 \<Longrightarrow> code_unit_compare a c \<le> 0"
proof (induction a b arbitrary: c rule: code_unit_compare.induct)
  case (1 c)
  then show ?case by simp
next
  case (2 d ds)
  then show ?case by (cases c) auto
next
  case (3 d ds)
  then show ?case by simp
next
  case (4 x xs y ys)
  then show ?case by (cases c) (auto split: if_splits)
qed

interpretation code_units: name_collation code_unit_compare
  by unfold_locales (fact code_unit_anti, fact code_unit_trans)

section \<open>The groups\<close>

record source_group =
  group_complete :: bool
  group_connections :: "graph_connection list"

definition newGroup :: source_group where
  "newGroup = \<lparr>group_complete = True, group_connections = []\<rparr>"

definition lowestInput :: "graph_connection list \<Rightarrow> graph_connection list \<Rightarrow> int" where
  "lowestInput withData withoutData =
     Min (set (map (\<lambda>c. int (input_index c)) withData @ map (\<lambda>c. int (input_index c)) withoutData))"

function sourceGroupsLoop ::
  "graph_connection list \<Rightarrow> graph_connection list \<Rightarrow> source_group \<Rightarrow> int \<Rightarrow> source_group list
   \<Rightarrow> source_group list" where
  "sourceGroupsLoop withData withoutData currentGroup currentInputIndex groups =
     (if withData = [] \<and> withoutData = [] then groups @ [currentGroup]
      else let currentInputIndex = currentInputIndex + 1 in
        case find_index (\<lambda>c. int (input_index c) = currentInputIndex) withData of
          Some i \<Rightarrow>
            sourceGroupsLoop (splice1 i withData) withoutData
              (currentGroup\<lparr>group_connections := group_connections currentGroup @ [withData ! i]\<rparr>)
              currentInputIndex groups
        | None \<Rightarrow>
            (case find_index (\<lambda>c. int (input_index c) = currentInputIndex) withoutData of
               Some i \<Rightarrow>
                 sourceGroupsLoop withData (splice1 i withoutData)
                   (currentGroup\<lparr>group_connections := group_connections currentGroup @ [withoutData ! i],
                                 group_complete := False\<rparr>)
                   currentInputIndex groups
             | None \<Rightarrow>
                 sourceGroupsLoop withData withoutData newGroup
                   (lowestInput withData withoutData - 1) (groups @ [currentGroup])))"
  by pat_completeness auto

lemma lowestInput_attained:
  assumes "withData \<noteq> [] \<or> withoutData \<noteq> []"
  shows "\<exists>c \<in> set withData \<union> set withoutData. int (input_index c) = lowestInput withData withoutData"
proof -
  let ?S = "set (map (\<lambda>c. int (input_index c)) withData @ map (\<lambda>c. int (input_index c)) withoutData)"
  have "?S \<noteq> {}" using assms by auto
  then have "Min ?S \<in> ?S" by (intro Min_in) auto
  then show ?thesis by (auto simp: lowestInput_def)
qed

termination sourceGroupsLoop
proof (relation "measure (\<lambda>(a, b, cur, i, gs). 2 * (length a + length b)
    + (if \<exists>c \<in> set a \<union> set b. int (input_index c) = i + 1 then 0 else 1))", goal_cases)
  case 1
  show ?case by simp
next
  case (2 a b cur i gs j)
  then have "\<exists>c \<in> set a \<union> set b. int (input_index c) = lowestInput a b"
    by (intro lowestInput_attained) auto
  moreover have "\<not> (\<exists>c \<in> set a \<union> set b. int (input_index c) = i + 1)"
    using 2 by (auto simp: find_index_None)
  ultimately show ?case by auto
next
  case (3 a b cur i gs j k)
  then have "k < length b" using find_index_Some by fastforce
  then show ?case by (auto simp: length_splice1 less_diff_conv2 Suc_leI)
next
  case (4 a b cur i gs j k)
  then have "k < length a" using find_index_Some by fastforce
  then show ?case by (auto simp: length_splice1 less_diff_conv2 Suc_leI)
qed

declare sourceGroupsLoop.simps [simp del]

definition hasSourceData :: "run_data \<Rightarrow> pin_data \<Rightarrow> graph_connection \<Rightarrow> bool" where
  "hasSourceData runData pinnedData connection \<longleftrightarrow>
     map_of runData (node_name (from_node connection)) \<noteq> None
     \<or> map_of pinnedData (node_name (from_node connection)) \<noteq> None"

definition getSourceDataGroups ::
  "(string \<Rightarrow> string \<Rightarrow> int) \<Rightarrow> directed_graph \<Rightarrow> inode \<Rightarrow> run_data \<Rightarrow> pin_data \<Rightarrow> source_group list" where
  "getSourceDataGroups localeCompare graph node runData pinnedData =
     (let connections = getConnections graph (Some node);
          withData = filter (hasSourceData runData pinnedData) connections;
          withoutData = filter (\<lambda>c. \<not> hasSourceData runData pinnedData c
                                    \<and> connection_type c = Main_type) connections
      in if withData = [] \<and> withoutData = [] then []
         else let withData = sort_by (sortByInputIndexThenByName localeCompare) withData;
                  withoutData = sort_by (sortByInputIndexThenByName localeCompare) withoutData
              in sourceGroupsLoop withData withoutData newGroup
                   (lowestInput withData withoutData - 1) [])"

section \<open>What the groups are\<close>

text \<open>A group takes one connection of each of some consecutive inputs.\<close>

definition consecutive_inputs :: "graph_connection list \<Rightarrow> bool" where
  "consecutive_inputs cs \<longleftrightarrow>
     cs \<noteq> [] \<and> map input_index cs = [input_index (hd cs)..<input_index (hd cs) + length cs]"

definition good_group :: "(graph_connection \<Rightarrow> bool) \<Rightarrow> source_group \<Rightarrow> bool" where
  "good_group P grp \<longleftrightarrow> consecutive_inputs (group_connections grp)
     \<and> (group_complete grp \<longleftrightarrow> (\<forall>c \<in> set (group_connections grp). P c))"

text \<open>The group under construction: it ends at the current input.\<close>

definition open_group :: "(graph_connection \<Rightarrow> bool) \<Rightarrow> source_group \<Rightarrow> int \<Rightarrow> bool" where
  "open_group P grp i \<longleftrightarrow>
     (group_complete grp \<longleftrightarrow> (\<forall>c \<in> set (group_connections grp). P c))
     \<and> (group_connections grp \<noteq> [] \<longrightarrow> consecutive_inputs (group_connections grp)
          \<and> int (input_index (hd (group_connections grp)) + length (group_connections grp)) = i + 1)"

lemma open_group_extend:
  assumes "open_group P grp i" and "int (input_index c) = i + 1"
  shows "open_group P (grp\<lparr>group_connections := group_connections grp @ [c],
           group_complete := group_complete grp \<and> P c\<rparr>) (i + 1)"
proof (cases "group_connections grp = []")
  case True
  with assms show ?thesis by (auto simp: open_group_def consecutive_inputs_def)
next
  case False
  with assms have "map input_index (group_connections grp @ [c])
      = [input_index (hd (group_connections grp))..<
         input_index (hd (group_connections grp)) + length (group_connections grp @ [c])]"
    by (auto simp: open_group_def consecutive_inputs_def)
  with False assms show ?thesis by (auto simp: open_group_def consecutive_inputs_def)
qed

lemma sourceGroupsLoop_spec:
  assumes "open_group P cur i" and "list_all (good_group P) gs"
    and "list_all P a" and "list_all (\<lambda>c. \<not> P c) b"
    and "group_connections cur = [] \<Longrightarrow> \<exists>c \<in> set a \<union> set b. int (input_index c) = i + 1"
  shows "list_all (good_group P) (sourceGroupsLoop a b cur i gs)
     \<and> mset (concat (map group_connections (sourceGroupsLoop a b cur i gs)))
       = mset (concat (map group_connections gs)) + mset (group_connections cur) + mset a + mset b"
  using assms
proof (induction a b cur i gs rule: sourceGroupsLoop.induct)
  case (1 a b cur i gs)
  note unfold = sourceGroupsLoop.simps [of a b cur i gs]
  let ?here = "\<lambda>c. int (input_index c) = i + 1"
  show ?case
  proof (cases "a = [] \<and> b = []")
    case True
    with 1(4-8) have "good_group P cur" by (auto simp: open_group_def good_group_def)
    with True 1(5) show ?thesis by (simp add: sourceGroupsLoop.simps [of "[]" "[]" cur i gs])
  next
    case more: False
    show ?thesis
    proof (cases "find_index ?here a")
      case (Some k)
      from find_index_Some [OF Some] have k: "k < length a" "?here (a ! k)" by auto
      then have "P (a ! k)" using 1(6) by (simp add: list_all_length)
      with open_group_extend [OF 1(4) k(2)]
      have "open_group P (cur\<lparr>group_connections := group_connections cur @ [a ! k]\<rparr>) (i + 1)"
        by (cases cur) simp
      moreover have "list_all P (splice1 k a)"
        using 1(6) set_splice1_subset [of k a] by (auto simp: list_all_iff)
      ultimately show ?thesis
        using 1(3) [OF more refl Some] 1(5,7) more Some mset_splice1 [OF k(1)]
        by (simp add: unfold)
    next
      case a: None
      show ?thesis
      proof (cases "find_index ?here b")
        case (Some k)
        from find_index_Some [OF Some] have k: "k < length b" "?here (b ! k)" by auto
        then have "\<not> P (b ! k)" using 1(7) by (simp add: list_all_length)
        with open_group_extend [OF 1(4) k(2)]
        have "open_group P (cur\<lparr>group_connections := group_connections cur @ [b ! k],
            group_complete := False\<rparr>) (i + 1)" by simp
        moreover have "list_all (\<lambda>c. \<not> P c) (splice1 k b)"
          using 1(7) set_splice1_subset [of k b] by (auto simp: list_all_iff)
        ultimately show ?thesis
          using 1(2) [OF more refl a Some] 1(5,6) more a Some mset_splice1 [OF k(1)]
          by (simp add: unfold)
      next
        case b: None
        with a 1(4,8) have "good_group P cur"
          by (auto simp: find_index_None open_group_def good_group_def)
        moreover have "open_group P newGroup (lowestInput a b - 1)"
          by (simp add: open_group_def newGroup_def)
        moreover have "\<exists>c \<in> set a \<union> set b. int (input_index c) = lowestInput a b"
          using more by (intro lowestInput_attained) auto
        ultimately show ?thesis
          using 1(1) [OF more refl a b] 1(5-7) more a b by (simp add: unfold newGroup_def)
      qed
    qed
  qed
qed

lemma mset_filter_two:
  "mset (filter p xs) + mset (filter (\<lambda>x. \<not> p x \<and> q x) xs) = mset (filter (\<lambda>x. p x \<or> q x) xs)"
  by (induction xs) auto

lemma getSourceDataGroups_result:
  shows "list_all (good_group (hasSourceData rd pd)) (getSourceDataGroups lc g n rd pd)"
    and "mset (concat (map group_connections (getSourceDataGroups lc g n rd pd)))
      = mset (filter (\<lambda>c. to_node c = n \<and> (hasSourceData rd pd c \<or> connection_type c = Main_type))
                (map_values (gconnections g)))"
proof -
  let ?P = "hasSourceData rd pd"
  let ?cs = "getConnections g (Some n)"
  let ?a = "filter ?P ?cs" and ?b = "filter (\<lambda>c. \<not> ?P c \<and> connection_type c = Main_type) ?cs"
  let ?sa = "sort_by (sortByInputIndexThenByName lc) ?a"
  let ?sb = "sort_by (sortByInputIndexThenByName lc) ?b"
  have split: "mset ?a + mset ?b
      = mset (filter (\<lambda>c. to_node c = n \<and> (?P c \<or> connection_type c = Main_type))
                (map_values (gconnections g)))"
    using mset_filter_two [of ?P ?cs "\<lambda>c. connection_type c = Main_type"]
    by (simp add: getConnections_def filter_filter_mset conj_commute)
  have "list_all (good_group ?P) (getSourceDataGroups lc g n rd pd)
    \<and> mset (concat (map group_connections (getSourceDataGroups lc g n rd pd))) = mset ?a + mset ?b"
  proof (cases "?a = [] \<and> ?b = []")
    case True
    then show ?thesis by (simp add: getSourceDataGroups_def Let_def)
  next
    case False
    then have ne: "?sa \<noteq> [] \<or> ?sb \<noteq> []"
      by (metis length_0_conv length_sort_by)
    have "open_group ?P newGroup (lowestInput ?sa ?sb - 1)"
      by (simp add: open_group_def newGroup_def)
    moreover have "list_all ?P ?sa" "list_all (\<lambda>c. \<not> ?P c) ?sb"
      by (auto simp: list_all_iff)
    moreover have "\<exists>c \<in> set ?sa \<union> set ?sb. int (input_index c) = lowestInput ?sa ?sb - 1 + 1"
      using lowestInput_attained [OF ne] by simp
    ultimately have "list_all (good_group ?P) (sourceGroupsLoop ?sa ?sb newGroup (lowestInput ?sa ?sb - 1) [])
      \<and> mset (concat (map group_connections
            (sourceGroupsLoop ?sa ?sb newGroup (lowestInput ?sa ?sb - 1) [])))
          = mset (concat (map group_connections ([] :: source_group list))) + mset (group_connections newGroup) + mset ?sa + mset ?sb"
      by (intro sourceGroupsLoop_spec) simp_all
    moreover have "getSourceDataGroups lc g n rd pd
        = sourceGroupsLoop ?sa ?sb newGroup (lowestInput ?sa ?sb - 1) []"
      using False unfolding getSourceDataGroups_def Let_def by (rule if_not_P)
    ultimately show ?thesis by (simp add: newGroup_def)
  qed
  then show "list_all (good_group ?P) (getSourceDataGroups lc g n rd pd)"
    and "mset (concat (map group_connections (getSourceDataGroups lc g n rd pd)))
      = mset (filter (\<lambda>c. to_node c = n \<and> (?P c \<or> connection_type c = Main_type))
                (map_values (gconnections g)))"
    using split by simp_all
qed

end
