(* ===== verification/Execution_Stack.thy ===== *)
theory Execution_Stack
  imports Source_Groups
begin

text \<open>
  \<open>recreate-node-execution-stack.ts\<close>: the execution stack, the waiting executions and their sources,
  rebuilt from a graph, its start nodes and the data at hand.
\<close>

section \<open>Waiting executions\<close>

type_synonym 'd waiting = "(string \<times> (nat \<times> (node_connection_type \<times> 'd option list) list) list) list"

text \<open>\<open>x ?? dflt\<close> on a map's entry.\<close>

abbreviation entry_or :: "('k \<times> 'v) list \<Rightarrow> 'k \<Rightarrow> 'v \<Rightarrow> 'v" where
  "entry_or m k dflt \<equiv> (case map_of m k of Some v \<Rightarrow> v | None \<Rightarrow> dflt)"

definition addWaitingExecution ::
  "node_items waiting \<Rightarrow> string \<Rightarrow> nat \<Rightarrow> node_connection_type \<Rightarrow> nat \<Rightarrow> node_items option
   \<Rightarrow> node_items waiting" where
  "addWaitingExecution waitingExecution nodeName runIndex inputType inputIndex executionData =
     (let waitingExecutionObject = entry_or waitingExecution nodeName [];
          taskDataConnections = entry_or waitingExecutionObject runIndex [];
          executionDataList = entry_or taskDataConnections inputType [];
          executionDataList = arr_set inputIndex executionData executionDataList
      in map_set nodeName
           (map_set runIndex (map_set inputType executionDataList taskDataConnections)
              waitingExecutionObject)
           waitingExecution)"

definition addWaitingExecutionSource ::
  "source_data waiting \<Rightarrow> string \<Rightarrow> nat \<Rightarrow> node_connection_type \<Rightarrow> nat \<Rightarrow> source_data option
   \<Rightarrow> source_data waiting" where
  "addWaitingExecutionSource waitingExecutionSource nodeName runIndex inputType inputIndex sourceData =
     (let waitingExecutionSourceObject = entry_or waitingExecutionSource nodeName [];
          taskDataConnectionsSource = entry_or waitingExecutionSourceObject runIndex [];
          sourceDataList = entry_or taskDataConnectionsSource inputType [];
          sourceDataList = arr_set inputIndex sourceData sourceDataList
      in map_set nodeName
           (map_set runIndex (map_set inputType sourceDataList taskDataConnectionsSource)
              waitingExecutionSourceObject)
           waitingExecutionSource)"

section \<open>The stack\<close>

record stack_state =
  node_execution_stack :: "execute_data list"
  waiting_execution :: "node_items waiting"
  waiting_execution_source :: "source_data waiting"

text \<open>One connection of a complete group: what it adds to the data and to the source.\<close>

definition addIncoming ::
  "run_data \<Rightarrow> pin_data \<Rightarrow> inode \<Rightarrow> graph_connection
   \<Rightarrow> node_items option list \<times> source_data option list
   \<Rightarrow> engine_error + node_items option list \<times> source_data option list" where
  "addIncoming runData pinData startNode incomingConnection = (\<lambda>(incomingData, mainSources).
     let sourceName = node_name (from_node incomingConnection);
         source = (\<lambda>runIndex. mainSources @
           [Some \<lparr>previous_node = sourceName,
                  previous_node_output = Some (output_index incomingConnection),
                  previous_node_run = Some runIndex\<rparr>])
     in case map_of pinData sourceName of
          Some items \<Rightarrow> Inr (incomingData @ [Some items], source 0)
        | None \<Rightarrow>
            (case map_of runData sourceName of
               None \<Rightarrow> Inl (NoRunOrPinnedData sourceName (node_name startNode))
             | Some _ \<Rightarrow>
                 (case getIncomingDataFromAnyRun runData sourceName
                         (connection_type incomingConnection) (output_index incomingConnection) of
                    Some (items, runIndex) \<Rightarrow> Inr (incomingData @ [Some items], source runIndex)
                  | None \<Rightarrow> Inr (incomingData, source 0))))"

text \<open>One connection of an incomplete group.\<close>

definition addWaiting ::
  "run_data \<Rightarrow> string \<Rightarrow> nat \<Rightarrow> graph_connection \<Rightarrow> stack_state \<Rightarrow> stack_state" where
  "addWaiting runData nodeName nextRunIndex incomingConnection s =
     (case getIncomingDataFromAnyRun runData (node_name (from_node incomingConnection))
             (connection_type incomingConnection) (output_index incomingConnection) of
        None \<Rightarrow> s
      | Some (items, _) \<Rightarrow>
          s\<lparr>waiting_execution := addWaitingExecution (waiting_execution s) nodeName nextRunIndex
              (connection_type incomingConnection) (input_index incomingConnection) (Some items),
            waiting_execution_source := addWaitingExecutionSource (waiting_execution_source s)
              nodeName nextRunIndex
              (connection_type incomingConnection) (input_index incomingConnection)
              (Some \<lparr>previous_node = node_name (from_node incomingConnection),
                     previous_node_output = Some (output_index incomingConnection),
                     previous_node_run = Some nextRunIndex\<rparr>)\<rparr>)"

definition addSourceGroup ::
  "run_data \<Rightarrow> pin_data \<Rightarrow> inode \<Rightarrow> source_group \<Rightarrow> stack_state \<Rightarrow> engine_error + stack_state" where
  "addSourceGroup runData pinData startNode sourceData s =
     (if group_complete sourceData then
        bind_result
          (fold_result (addIncoming runData pinData startNode) (group_connections sourceData) ([], []))
          (\<lambda>(incomingData, mainSources).
             Inr (s\<lparr>node_execution_stack := node_execution_stack s @
                [\<lparr>exec_node = startNode, exec_data = [(Main_type, incomingData)],
                  exec_source = Some [(Main_type, mainSources)]\<rparr>]\<rparr>))
      else
        let nodeName = node_name startNode;
            nextRunIndex = (case map_of (waiting_execution s) nodeName of
                Some runs \<Rightarrow> length runs | None \<Rightarrow> 0)
        in Inr (fold (addWaiting runData nodeName nextRunIndex) (group_connections sourceData) s))"

text \<open>\<open>{ json: {} }\<close>.\<close>

definition empty_item :: node_execution_data where
  "empty_item = \<lparr>item_json = [], item_paired = None, item_error = None\<rparr>"

definition initialExecuteData :: "inode \<Rightarrow> execute_data" where
  "initialExecuteData startNode =
     \<lparr>exec_node = startNode, exec_data = [(Main_type, [Some [empty_item]])], exec_source = None\<rparr>"

definition addStartNode ::
  "(string \<Rightarrow> string \<Rightarrow> int) \<Rightarrow> directed_graph \<Rightarrow> run_data \<Rightarrow> pin_data \<Rightarrow> inode \<Rightarrow> stack_state
   \<Rightarrow> engine_error + stack_state" where
  "addStartNode localeCompare graph runData pinData startNode s =
     bind_result (getDirectParentConnections graph startNode) (\<lambda>parents.
       if filter (\<lambda>c. connection_type c = Main_type) parents = [] then
         Inr (s\<lparr>node_execution_stack := node_execution_stack s @ [initialExecuteData startNode]\<rparr>)
       else fold_result (addSourceGroup runData pinData startNode)
              (getSourceDataGroups localeCompare graph startNode runData pinData) s)"

definition recreateNodeExecutionStack ::
  "(string \<Rightarrow> string \<Rightarrow> int) \<Rightarrow> directed_graph \<Rightarrow> inode list \<Rightarrow> run_data \<Rightarrow> pin_data
   \<Rightarrow> engine_error + stack_state" where
  "recreateNodeExecutionStack localeCompare graph startNodes runData pinData =
     (case find is_disabled (map_values (getNodes graph)) of
        Some node \<Rightarrow> Inl (DisabledNodeInGraph (node_name node))
      | None \<Rightarrow>
          fold_result (addStartNode localeCompare graph runData pinData) startNodes
            \<lparr>node_execution_stack = [], waiting_execution = [], waiting_execution_source = []\<rparr>)"

section \<open>What lands on the stack\<close>

text \<open>The items and the run that a connection of a complete group brings along.\<close>

definition incoming_items :: "run_data \<Rightarrow> pin_data \<Rightarrow> graph_connection \<Rightarrow> (node_items \<times> nat) option" where
  "incoming_items rd pd c =
     (case map_of pd (node_name (from_node c)) of
        Some items \<Rightarrow> Some (items, 0)
      | None \<Rightarrow> getIncomingDataFromAnyRun rd (node_name (from_node c)) (connection_type c) (output_index c))"

definition source_of :: "run_data \<Rightarrow> pin_data \<Rightarrow> graph_connection \<Rightarrow> source_data" where
  "source_of rd pd c =
     \<lparr>previous_node = node_name (from_node c), previous_node_output = Some (output_index c),
      previous_node_run = Some (case incoming_items rd pd c of Some (_, r) \<Rightarrow> r | None \<Rightarrow> 0)\<rparr>"

definition entry_of_group :: "run_data \<Rightarrow> pin_data \<Rightarrow> inode \<Rightarrow> graph_connection list \<Rightarrow> execute_data" where
  "entry_of_group rd pd n cs =
     \<lparr>exec_node = n,
      exec_data = [(Main_type, map (Some \<circ> fst) (List.map_filter (incoming_items rd pd) cs))],
      exec_source = Some [(Main_type, map (Some \<circ> source_of rd pd) cs)]\<rparr>"

definition entries_of_start ::
  "(string \<Rightarrow> string \<Rightarrow> int) \<Rightarrow> directed_graph \<Rightarrow> run_data \<Rightarrow> pin_data \<Rightarrow> inode \<Rightarrow> execute_data list" where
  "entries_of_start lc g rd pd n =
     (if \<forall>c \<in> connections_of g. to_node c = n \<longrightarrow> connection_type c \<noteq> Main_type
      then [initialExecuteData n]
      else map (entry_of_group rd pd n \<circ> group_connections)
             (filter group_complete (getSourceDataGroups lc g n rd pd)))"

lemma addIncoming_eq:
  assumes "hasSourceData rd pd c"
  shows "addIncoming rd pd n c (ds, ss) = Inr
    (ds @ (case incoming_items rd pd c of Some (items, _) \<Rightarrow> [Some items] | None \<Rightarrow> []),
     ss @ [Some (source_of rd pd c)])"
  using assms
  by (auto simp: addIncoming_def incoming_items_def source_of_def hasSourceData_def
      split: option.splits)

lemma addIncoming_fold:
  assumes "list_all (hasSourceData rd pd) cs"
  shows "fold_result (addIncoming rd pd n) cs (ds, ss) = Inr
    (ds @ map (Some \<circ> fst) (List.map_filter (incoming_items rd pd) cs),
     ss @ map (Some \<circ> source_of rd pd) cs)"
  using assms
  by (induction cs arbitrary: ds ss)
    (auto simp: addIncoming_eq List.map_filter_simps split: option.splits)

lemma addWaiting_stack [simp]:
  "node_execution_stack (fold (addWaiting rd nm i) cs s) = node_execution_stack s"
  by (induction cs arbitrary: s) (auto simp: addWaiting_def split: option.splits)

lemma addSourceGroup_stack:
  assumes "good_group (hasSourceData rd pd) grp"
  shows "\<exists>s'. addSourceGroup rd pd n grp s = Inr s' \<and> node_execution_stack s' =
    node_execution_stack s @ (if group_complete grp then [entry_of_group rd pd n (group_connections grp)] else [])"
  using assms addIncoming_fold [of rd pd "group_connections grp" n "[]" "[]"]
  by (auto simp: addSourceGroup_def good_group_def entry_of_group_def list_all_iff Let_def)

lemma addSourceGroups_stack:
  assumes "list_all (good_group (hasSourceData rd pd)) grps"
  shows "\<exists>s'. fold_result (addSourceGroup rd pd n) grps s = Inr s' \<and> node_execution_stack s' =
    node_execution_stack s @ map (entry_of_group rd pd n \<circ> group_connections) (filter group_complete grps)"
  using assms
proof (induction grps arbitrary: s)
  case (Cons grp grps)
  from Cons.prems addSourceGroup_stack [of rd pd grp n s] obtain s1 where
    "addSourceGroup rd pd n grp s = Inr s1" "node_execution_stack s1 =
      node_execution_stack s @ (if group_complete grp then [entry_of_group rd pd n (group_connections grp)] else [])"
    by auto
  with Cons.IH [of s1] Cons.prems show ?case by auto
qed simp

lemma addStartNode_stack:
  assumes "in_graph g n"
  shows "\<exists>s'. addStartNode lc g rd pd n s = Inr s'
    \<and> node_execution_stack s' = node_execution_stack s @ entries_of_start lc g rd pd n"
proof -
  have "filter (\<lambda>c. connection_type c = Main_type)
          (filter (\<lambda>c. to_node c = n) (map_values (gconnections g))) = []
      \<longleftrightarrow> (\<forall>c \<in> connections_of g. to_node c = n \<longrightarrow> connection_type c \<noteq> Main_type)"
    by (auto simp: filter_empty_conv simp del: set_map)
  then show ?thesis
    using assms addSourceGroups_stack [OF getSourceDataGroups_result(1), of rd pd n lc g n s]
    by (auto simp: addStartNode_def getDirectParentConnections_def entries_of_start_def)
qed

lemma recreateNodeExecutionStack_result:
  assumes "\<And>n. n \<in> nodes_of g \<Longrightarrow> \<not> is_disabled n" and "\<And>n. n \<in> set starts \<Longrightarrow> in_graph g n"
  shows "\<exists>s. recreateNodeExecutionStack lc g starts rd pd = Inr s
    \<and> node_execution_stack s = concat (map (entries_of_start lc g rd pd) starts)"
proof -
  have "\<exists>s'. fold_result (addStartNode lc g rd pd) starts s = Inr s'
    \<and> node_execution_stack s' = node_execution_stack s @ concat (map (entries_of_start lc g rd pd) starts)" for s
    using assms(2)
  proof (induction starts arbitrary: s)
    case (Cons n ns)
    from addStartNode_stack [of g n lc rd pd s] Cons.prems obtain s1 where
      "addStartNode lc g rd pd n s = Inr s1"
      "node_execution_stack s1 = node_execution_stack s @ entries_of_start lc g rd pd n" by auto
    with Cons.IH [of s1] Cons.prems show ?case by auto
  qed simp
  moreover have "find is_disabled (map_values (getNodes g)) = None"
    using assms(1) by (auto simp: find_None_iff getNodes_def)
  ultimately show ?thesis
    by (metis (no_types, lifting) append_Nil option.case(1) recreateNodeExecutionStack_def stack_state.select_convs(1))
qed

section \<open>What waits\<close>

text \<open>The entry of a node, run, type and input in a waiting map.\<close>

definition waiting_at :: "'d waiting \<Rightarrow> string \<Rightarrow> nat \<Rightarrow> node_connection_type \<Rightarrow> nat \<Rightarrow> 'd option" where
  "waiting_at w nm r t i = arr_item (entry_or (entry_or (entry_or w nm []) r []) t []) i"

lemma waiting_at_addWaitingExecution:
  "waiting_at (addWaitingExecution w nm r t i d) nm' r' t' i'
     = (if nm' = nm \<and> r' = r \<and> t' = t \<and> i' = i then d else waiting_at w nm' r' t' i')"
  by (simp add: waiting_at_def addWaitingExecution_def Let_def arr_item_arr_set)

lemma waiting_at_addWaitingExecutionSource:
  "waiting_at (addWaitingExecutionSource w nm r t i d) nm' r' t' i'
     = (if nm' = nm \<and> r' = r \<and> t' = t \<and> i' = i then d else waiting_at w nm' r' t' i')"
  by (simp add: waiting_at_def addWaitingExecutionSource_def Let_def arr_item_arr_set)

text \<open>The inputs of one group differ, so no connection overwrites what another one stored.\<close>

definition waits_for :: "run_data \<Rightarrow> graph_connection \<Rightarrow> node_items option" where
  "waits_for rd c = map_option fst
     (getIncomingDataFromAnyRun rd (node_name (from_node c)) (connection_type c) (output_index c))"

definition waiting_source :: "nat \<Rightarrow> graph_connection \<Rightarrow> source_data" where
  "waiting_source r c =
     \<lparr>previous_node = node_name (from_node c), previous_node_output = Some (output_index c),
      previous_node_run = Some r\<rparr>"

lemma addWaiting_waiting:
  "waiting_at (waiting_execution (addWaiting rd nm r c s)) nm' r' t i
     = (if nm' = nm \<and> r' = r \<and> t = connection_type c \<and> i = input_index c \<and> waits_for rd c \<noteq> None
        then waits_for rd c else waiting_at (waiting_execution s) nm' r' t i)"
  "waiting_at (waiting_execution_source (addWaiting rd nm r c s)) nm' r' t i
     = (if nm' = nm \<and> r' = r \<and> t = connection_type c \<and> i = input_index c \<and> waits_for rd c \<noteq> None
        then Some (waiting_source r c) else waiting_at (waiting_execution_source s) nm' r' t i)"
  by (auto simp: addWaiting_def waits_for_def waiting_source_def waiting_at_addWaitingExecution
      waiting_at_addWaitingExecutionSource split: option.splits)

lemma fold_addWaiting_frame:
  assumes "nm' \<noteq> nm \<or> r' \<noteq> r \<or> i \<notin> input_index ` set cs"
  shows "waiting_at (waiting_execution (fold (addWaiting rd nm r) cs s)) nm' r' t i
      = waiting_at (waiting_execution s) nm' r' t i"
    and "waiting_at (waiting_execution_source (fold (addWaiting rd nm r) cs s)) nm' r' t i
      = waiting_at (waiting_execution_source s) nm' r' t i"
  using assms by (induction cs arbitrary: s) (auto simp: addWaiting_waiting)

lemma fold_addWaiting_stored:
  assumes "distinct (map input_index cs)" and "c \<in> set cs" and "waits_for rd c = Some items"
  shows "waiting_at (waiting_execution (fold (addWaiting rd nm r) cs s)) nm r
           (connection_type c) (input_index c) = Some items"
    and "waiting_at (waiting_execution_source (fold (addWaiting rd nm r) cs s)) nm r
           (connection_type c) (input_index c) = Some (waiting_source r c)"
proof -
  from assms(2) obtain ys zs where cs: "cs = ys @ c # zs" by (meson split_list)
  with assms(1) have "input_index c \<notin> input_index ` set zs" by auto
  then show "waiting_at (waiting_execution (fold (addWaiting rd nm r) cs s)) nm r
           (connection_type c) (input_index c) = Some items"
    and "waiting_at (waiting_execution_source (fold (addWaiting rd nm r) cs s)) nm r
           (connection_type c) (input_index c) = Some (waiting_source r c)"
    using assms(3) by (simp_all add: cs fold_addWaiting_frame addWaiting_waiting)
qed

lemma addSourceGroup_waiting:
  assumes "good_group P grp" and "\<not> group_complete grp"
    and "r = (case map_of (waiting_execution s) (node_name n) of Some runs \<Rightarrow> length runs | None \<Rightarrow> 0)"
  shows "\<exists>s'. addSourceGroup rd pd n grp s = Inr s'
     \<and> (\<forall>c \<in> set (group_connections grp). \<forall>items. waits_for rd c = Some items \<longrightarrow>
          waiting_at (waiting_execution s') (node_name n) r (connection_type c) (input_index c) = Some items
          \<and> waiting_at (waiting_execution_source s') (node_name n) r (connection_type c) (input_index c)
              = Some (waiting_source r c))
     \<and> (\<forall>nm r' t i. nm \<noteq> node_name n \<or> r' \<noteq> r \<longrightarrow>
          waiting_at (waiting_execution s') nm r' t i = waiting_at (waiting_execution s) nm r' t i)"
proof -
  have "distinct (map input_index (group_connections grp))"
    using assms(1) unfolding good_group_def consecutive_inputs_def by (metis distinct_upt)
  note stored = fold_addWaiting_stored [OF this, of _ rd _ "node_name n" r s]
  have "waiting_at (waiting_execution (fold (addWaiting rd (node_name n) r) (group_connections grp) s)) nm r' t i
      = waiting_at (waiting_execution s) nm r' t i" if "nm \<noteq> node_name n \<or> r' \<noteq> r" for nm r' t i
    using that by (intro fold_addWaiting_frame) blast
  moreover have "addSourceGroup rd pd n grp s
      = Inr (fold (addWaiting rd (node_name n) r) (group_connections grp) s)"
    using assms(2) unfolding assms(3) by (simp add: addSourceGroup_def Let_def)
  ultimately show ?thesis using stored by blast
qed

end
