(* ===== verification/Partial_Execution_Properties.thy ===== *)
theory Partial_Execution_Properties
  imports Fixtures Subgraph Start_Nodes Execution_Stack
begin

text \<open>The properties of the steps of a partial execution, each with a witness.\<close>

section \<open>The subgraph\<close>

text \<open>C9: \<open>findSubgraph\<close> terminates with a well-formed part of the graph. Every \<open>Main\<close> connection in
  it leads to the destination. It holds every node that the trigger leads to without leaving the
  destination and that leads to the destination without entering the trigger; and with a node it
  holds the sub-nodes that are connected to it.\<close>

theorem findSubgraph_correct:
  assumes "wf_graph g" and "in_graph g d" and "in_graph g t"
  shows "\<exists>s. findSubgraph g d t = Inr s
     \<and> wf_graph s \<and> nodes_of s \<subseteq> nodes_of g \<and> connections_of s \<subseteq> connections_of g
     \<and> (\<forall>c \<in> connections_of s. connection_type c = Main_type \<longrightarrow> (to_node c, d) \<in> (main_edges g)\<^sup>*)
     \<and> (\<forall>n. (t, n) \<in> (main_edges g - {d} \<times> UNIV)\<^sup>* \<and> (n, d) \<in> (main_edges g - UNIV \<times> {t})\<^sup>*
          \<longrightarrow> n \<in> nodes_of s)
     \<and> (\<forall>c \<in> connections_of g. connection_type c \<noteq> Main_type \<and> to_node c \<in> nodes_of s
          \<longrightarrow> c \<in> connections_of s)"
proof -
  let ?K = "kept_from g d t d []"
  let ?N = "ends ?K \<union> (if d = t then {t} else {})"
  let ?U = "utility_connections g ?N"
  from findSubgraph_result [OF assms] obtain s where s: "findSubgraph g d t = Inr s" "subgraph_of s g"
    "connections_of s = ?K \<union> ?U" "nodes_of s = ?N \<union> ends ?U" by blast
  have "(to_node c, d) \<in> (main_edges g)\<^sup>*"
    if "c \<in> connections_of s" "connection_type c = Main_type" for c
    using that kept_from_sound [of c g d t] unfolding s(3) utility_connections_def by blast
  moreover have "n \<in> nodes_of s"
    if "(t, n) \<in> (main_edges g - {d} \<times> UNIV)\<^sup>*" "(n, d) \<in> (main_edges g - UNIV \<times> {t})\<^sup>*" for n
    using kept_complete [OF that] unfolding s(4) by blast
  moreover have "c \<in> connections_of s"
    if c: "c \<in> connections_of g" "connection_type c \<noteq> Main_type" and n: "to_node c \<in> nodes_of s" for c
  proof -
    from n obtain m where m: "m \<in> ?N" "(to_node c, m) \<in> (edges g)\<^sup>*"
    proof (cases "to_node c \<in> ?N")
      case False
      with n obtain u where "u \<in> ?U" "to_node c = from_node u \<or> to_node c = to_node u"
        unfolding s(4) by blast
      moreover from this(1) obtain m where "m \<in> ?N" "(to_node u, m) \<in> (edges g)\<^sup>*"
        "(from_node u, to_node u) \<in> edges g"
        unfolding utility_connections_def edges_iff by blast
      ultimately show ?thesis
        by (metis converse_rtrancl_into_rtrancl that)
    qed (rule that, assumption, simp)
    with c show ?thesis unfolding s(3) utility_connections_def by blast
  qed
  ultimately show ?thesis using s(1,2) unfolding subgraph_of_def by blast
qed

theorem findSubgraph_correct_witness:
  "\<exists>s. findSubgraph chain_graph node_B node_T = Inr s
     \<and> {node_T, node_A, node_B} \<subseteq> nodes_of s \<and> ai_link node_M node_B \<in> connections_of s"
proof -
  have ends: "in_graph chain_graph node_B" "in_graph chain_graph node_T" by code_simp+
  have diff: "node_T \<noteq> node_A" "node_T \<noteq> node_B" "node_A \<noteq> node_B" by code_simp+
  have TA: "(node_T, node_A) \<in> main_edges chain_graph" and AB: "(node_A, node_B) \<in> main_edges chain_graph"
    unfolding main_edges_iff by code_simp+
  have ai: "ai_link node_M node_B \<in> connections_of chain_graph"
    "connection_type (ai_link node_M node_B) \<noteq> Main_type" "to_node (ai_link node_M node_B) = node_B"
    by code_simp+
  let ?F = "main_edges chain_graph - {node_B} \<times> UNIV" and ?B = "main_edges chain_graph - UNIV \<times> {node_T}"
  have F: "(node_T, node_A) \<in> ?F" "(node_A, node_B) \<in> ?F" and B: "(node_A, node_B) \<in> ?B"
    and TB: "(node_T, node_A) \<in> ?B" using TA AB diff by simp_all
  have "(node_T, n) \<in> ?F\<^sup>* \<and> (n, node_B) \<in> ?B\<^sup>*" if "n \<in> {node_T, node_A, node_B}" for n
    using that F B TB by (blast intro: rtrancl_into_rtrancl r_into_rtrancl)
  with findSubgraph_correct [OF wf_chain_graph ends] ai show ?thesis by fastforce
qed

text \<open>The search also keeps loops that the trigger does not lead to.\<close>

lemma findSubgraph_orphan_loop:
  "case findSubgraph orphan_loop_graph node_A node_T of
     Inr s \<Rightarrow> node_C \<in> nodes_of s \<and> node_B \<in> nodes_of s | Inl _ \<Rightarrow> False"
  "getChildren orphan_loop_graph node_T = Inr [node_A]"
  by code_simp+

section \<open>Start nodes\<close>

text \<open>C11: \<open>findStartNodes\<close> terminates with exactly the nodes that are dirty, the destination or an
  unfinished loop, and that the trigger leads to through nodes that are none of these, along outputs
  that carry data; each once.\<close>

theorem findStartNodes_correct:
  assumes "wf_graph g" and "in_graph g trigger"
  shows "\<exists>r. findStartNodes g trigger d pd rd = Inr r \<and> distinct r
     \<and> set r = {n. starts_here g d rd pd n \<and> (trigger, n) \<in> (clean_edges g d rd pd)\<^sup>*}"
  using assms by (rule findStartNodes_result)

theorem findStartNodes_correct_witness:
  "findStartNodes chain_graph node_T node_B [] trigger_run = Inr [node_A]
   \<and> (node_T, node_A) \<in> (clean_edges chain_graph node_B trigger_run [])\<^sup>*"
proof -
  have "in_graph chain_graph node_T"
    "findStartNodes chain_graph node_T node_B [] trigger_run = Inr [node_A]" by code_simp+
  with findStartNodes_correct [OF wf_chain_graph, of node_T node_B "[]" trigger_run]
  show ?thesis by auto
qed

text \<open>C13: \<open>handleCycles\<close> keeps the start nodes that lie in no reported component and replaces those
  of a component by the node of it that the depth-first search from the trigger finds first, one
  node for each such component.\<close>

theorem handleCycles_correct:
  assumes "wf_graph g" and "in_graph g trigger" and "distinct starts"
    and "set starts \<subseteq> (edges g)\<^sup>* `` {trigger}"
  shows "\<exists>cs r F. getStronglyConnectedComponents g = Inr cs
     \<and> handleCycles g starts trigger = Inr r \<and> distinct r
     \<and> (\<forall>c \<in> set cs. set c \<inter> set starts \<noteq> {} \<longrightarrow> F c \<in> set c
          \<and> depthFirstSearch g trigger (\<lambda>n. n \<in> set c) = Inr (Some (F c)))
     \<and> set r = (set starts - set (concat cs)) \<union> F ` {c \<in> set cs. set c \<inter> set starts \<noteq> {}}"
  using assms by (rule handleCycles_result)

definition loop_graph :: directed_graph where
  "loop_graph = build_graph [node_T, node_A, node_B] [link node_T node_A, link node_A node_B, link node_B node_A]"

theorem handleCycles_correct_witness:
  "handleCycles loop_graph [node_B] node_T = Inr [node_A]
   \<and> (\<exists>r. handleCycles loop_graph [node_B] node_T = Inr r \<and> distinct r)"
proof -
  have "wf_graph loop_graph" "in_graph loop_graph node_T" by code_simp+
  moreover have "(node_T, node_A) \<in> edges loop_graph" "(node_A, node_B) \<in> edges loop_graph"
    unfolding edges_iff by code_simp+
  then have "set [node_B] \<subseteq> (edges loop_graph)\<^sup>* `` {node_T}"
    by (auto intro: rtrancl_into_rtrancl)
  moreover have "handleCycles loop_graph [node_B] node_T = Inr [node_A]" by code_simp
  ultimately show ?thesis using handleCycles_correct [of loop_graph node_T "[node_B]"] by simp
qed

section \<open>Run data\<close>

text \<open>The items read from any run are those of the first run that left items on the output;
  there is no result only if no run left any.\<close>

lemma getIncomingDataFromAnyRun_correct:
  "case getIncomingDataFromAnyRun rd n t i of
     Some (items, j) \<Rightarrow> items_of_run rd n t i j = items \<and> items \<noteq> [] \<and> j < getRunIndexLength rd n
       \<and> (\<forall>k<j. items_of_run rd n t i k = [])
   | None \<Rightarrow> (\<forall>k. items_of_run rd n t i k = [])"
  by (rule getIncomingDataFromAnyRun_cases)

lemma getIncomingDataFromAnyRun_correct_example:
  "getIncomingDataFromAnyRun trigger_run ''Trigger'' Main_type 0 = Some ([sample_item ''a''], 1)
   \<and> items_of_run trigger_run ''Trigger'' Main_type 0 0 = []"
proof -
  have "getIncomingDataFromAnyRun trigger_run ''Trigger'' Main_type 0 = Some ([sample_item ''a''], 1)"
    by code_simp
  with getIncomingDataFromAnyRun_correct [of trigger_run "''Trigger''" Main_type 0] show ?thesis by simp
qed

text \<open>The next execution index is above every index in the run data, and one above one of
  them, if there is any.\<close>

lemma getNextExecutionIndex_correct:
  assumes "distinct (map_keys rd)"
  defines "indices \<equiv> {i. \<exists>(name, runs) \<in> set rd. \<exists>task \<in> set runs. execution_index task = Some i}"
  shows "(\<forall>i \<in> indices. i < getNextExecutionIndex rd)
     \<and> (if indices = {} then getNextExecutionIndex rd = 0 else getNextExecutionIndex rd - 1 \<in> indices)"
proof -
  let ?is = "List.map_filter execution_index (concat (object_values rd))"
  have set_is: "set ?is = indices" using previous_indices [OF assms(1)] by (simp add: indices_def)
  have "?is = [] \<longleftrightarrow> indices = {}" using set_is by (metis set_empty)
  moreover have "rd = [] \<Longrightarrow> indices = {}" by (simp add: indices_def)
  moreover have "finite indices" using set_is by (metis List.finite_set)
  ultimately show ?thesis
    using set_is Max_in [of indices] Max_ge [of indices]
    by (auto simp: getNextExecutionIndex_def Let_def less_Suc_eq_le)
qed

lemma getNextExecutionIndex_correct_example:
  "getNextExecutionIndex full_run = 6 \<and> (5 :: nat) < getNextExecutionIndex full_run"
proof -
  have "distinct (map_keys full_run)" by code_simp
  moreover have "(''Gone'', [run_with_item 5 ''g'']) \<in> set full_run" by (simp add: full_run_def)
  then have "5 \<in> {i. \<exists>(name, runs) \<in> set full_run. \<exists>task \<in> set runs. execution_index task = Some i}"
    by (force simp: run_with_item_def)
  moreover have "getNextExecutionIndex full_run = 6" by code_simp
  ultimately show ?thesis using getNextExecutionIndex_correct [of full_run] by blast
qed

text \<open>C16: \<open>cleanRunData\<close> removes exactly the entries of the nodes to clean, of the nodes they lead to,
  of the sub-nodes anywhere upstream of these, and of names the graph does not know; every other
  entry is unchanged.\<close>

theorem cleanRunData_correct:
  assumes "wf_graph g" and "\<And>s. s \<in> set ns \<Longrightarrow> in_graph g s"
  shows "\<exists>rd'. cleanRunData rd g ns = Inr rd' \<and>
     (\<forall>k. map_of rd' k =
        (if hasNode g k
            \<and> \<not> (\<exists>s \<in> set ns. \<exists>n. (s, n) \<in> (edges g)\<^sup>* \<and> (k = node_name n \<or> k \<in> sub_node_names g n))
         then map_of rd k else None))"
proof -
  have "\<exists>rd'. cleanRunData rd g ns = Inr rd' \<and>
      map_of rd' = without rd ((\<Union>s \<in> set ns. cleaned_names g s) \<union> {k. \<not> hasNode g k})"
    using assms by (rule cleanRunData_result)
  then obtain rd' where rd': "cleanRunData rd g ns = Inr rd'"
    "map_of rd' = without rd ((\<Union>s \<in> set ns. cleaned_names g s) \<union> {k. \<not> hasNode g k})" by blast
  have mem: "k \<in> - ((\<Union>s \<in> set ns. cleaned_names g s) \<union> {k. \<not> hasNode g k}) \<longleftrightarrow> hasNode g k
      \<and> \<not> (\<exists>s \<in> set ns. \<exists>n. (s, n) \<in> (edges g)\<^sup>* \<and> (k = node_name n \<or> k \<in> sub_node_names g n))" for k
    unfolding cleaned_names_def by blast
  show ?thesis
    by (intro exI [of _ rd'] conjI allI) (fact rd'(1), simp only: rd'(2) restrict_map_def mem)
qed

theorem cleanRunData_correct_witness:
  "\<exists>rd'. cleanRunData full_run chain_graph [node_B] = Inr rd' \<and> map_of rd' ''Gone'' = None
     \<and> map_of rd' ''B'' = None"
proof -
  have "in_graph chain_graph node_B" "\<not> hasNode chain_graph ''Gone''" "node_name node_B = ''B''" by code_simp+
  with cleanRunData_correct [OF wf_chain_graph, of "[node_B]" full_run] show ?thesis by fastforce
qed

text \<open>Cleaning a node also removes the run data of the sub-nodes of the nodes before it: \<open>Model\<close>
  belongs to \<open>A\<close>, which is kept.\<close>

lemma cleanRunData_upstream_sub_node:
  "case cleanRunData full_run agent_graph [node_B] of
     Inr rd \<Rightarrow> map_keys rd = [''Trigger'', ''A''] | Inl _ \<Rightarrow> False"
  by code_simp

section \<open>The execution stack\<close>

text \<open>C17: the source groups of a node hold every incoming connection that has data or is of type
  \<open>Main\<close>, once each; a group takes one connection per input, of consecutive inputs, and is complete
  exactly if all its sources have data.\<close>

theorem getSourceDataGroups_correct:
  "mset (concat (map group_connections (getSourceDataGroups lc g n rd pd)))
     = mset (filter (\<lambda>c. to_node c = n \<and> (hasSourceData rd pd c \<or> connection_type c = Main_type))
               (map_values (gconnections g)))
   \<and> list_all (\<lambda>grp. consecutive_inputs (group_connections grp)
        \<and> group_complete grp = list_all (hasSourceData rd pd) (group_connections grp))
      (getSourceDataGroups lc g n rd pd)"
  using getSourceDataGroups_result(1) [of rd pd lc g n] getSourceDataGroups_result(2) [of lc g n rd pd]
  by (simp add: list_all_iff good_group_def)

theorem getSourceDataGroups_correct_witness:
  "map group_complete (getSourceDataGroups code_unit_compare chain_graph node_B trigger_run []) = [False]
   \<and> mset (concat (map group_connections (getSourceDataGroups code_unit_compare chain_graph node_B trigger_run [])))
     = {#link node_A node_B#}"
proof -
  have "map group_complete (getSourceDataGroups code_unit_compare chain_graph node_B trigger_run []) = [False]"
    "filter (\<lambda>c. to_node c = node_B \<and> (hasSourceData trigger_run [] c \<or> connection_type c = Main_type))
      (map_values (gconnections chain_graph)) = [link node_A node_B]" by code_simp+
  with getSourceDataGroups_correct [of code_unit_compare chain_graph node_B trigger_run "[]"]
  show ?thesis by simp
qed

text \<open>Two inputs that are not consecutive end up in two groups, although one run could take both.\<close>

definition gap_graph :: directed_graph where
  "gap_graph = build_graph [node_T, node_A, node_B] [link node_T node_B, (link node_A node_B)\<lparr>input_index := 2\<rparr>]"

lemma getSourceDataGroups_gap:
  "map (map (node_name \<circ> from_node) \<circ> group_connections)
     (getSourceDataGroups code_unit_compare gap_graph node_B full_run []) = [[''Trigger''], [''A'']]"
  by code_simp

text \<open>C12: on a graph without disabled nodes no assertion fails, and the stack holds, start node by
  start node, the initial item for one without incoming \<open>Main\<close> connections and otherwise one entry
  per complete group of sources, with the items and the sources of that group.\<close>

theorem recreateNodeExecutionStack_correct:
  assumes "\<And>n. n \<in> nodes_of g \<Longrightarrow> \<not> is_disabled n" and "\<And>n. n \<in> set starts \<Longrightarrow> in_graph g n"
  shows "\<exists>s. recreateNodeExecutionStack lc g starts rd pd = Inr s
    \<and> node_execution_stack s = concat (map (\<lambda>n.
        if \<forall>c \<in> connections_of g. to_node c = n \<longrightarrow> connection_type c \<noteq> Main_type
        then [initialExecuteData n]
        else map (entry_of_group rd pd n \<circ> group_connections)
               (filter group_complete (getSourceDataGroups lc g n rd pd))) starts)"
  using recreateNodeExecutionStack_result [of g starts lc rd pd] assms
  unfolding entries_of_start_def [abs_def] by blast

theorem recreateNodeExecutionStack_correct_witness:
  "\<exists>s. recreateNodeExecutionStack code_unit_compare chain_graph [node_A] trigger_run [] = Inr s
     \<and> map exec_node (node_execution_stack s) = [node_A]"
proof -
  let ?g = chain_graph
  have "list_all (\<lambda>n. \<not> is_disabled n) (map_values (gnodes ?g))" and A: "in_graph ?g node_A" by code_simp+
  then have enabled: "n \<in> nodes_of ?g \<Longrightarrow> \<not> is_disabled n" for n unfolding list_all_iff by blast
  have "\<exists>c \<in> connections_of ?g. to_node c = node_A \<and> connection_type c = Main_type"
    "map exec_node (map (entry_of_group trigger_run [] node_A \<circ> group_connections)
      (filter group_complete (getSourceDataGroups code_unit_compare ?g node_A trigger_run []))) = [node_A]"
    by code_simp+
  moreover from recreateNodeExecutionStack_correct [of ?g "[node_A]" code_unit_compare trigger_run "[]", OF enabled] A
  obtain s where "recreateNodeExecutionStack code_unit_compare ?g [node_A] trigger_run [] = Inr s"
    "node_execution_stack s = (if \<forall>c \<in> connections_of ?g. to_node c = node_A \<longrightarrow> connection_type c \<noteq> Main_type
        then [initialExecuteData node_A]
        else map (entry_of_group trigger_run [] node_A \<circ> group_connections)
               (filter group_complete (getSourceDataGroups code_unit_compare ?g node_A trigger_run [])))"
    by (auto simp del: set_map One_nat_def)
  ultimately show ?thesis by (metis (no_types, lifting))
qed

text \<open>
  If a source ran but left no items on the connected output, its data is left out and its source is
  not: the second input's data takes the first place.
\<close>

definition two_input_graph :: directed_graph where
  "two_input_graph = build_graph [node_T, node_A, node_B] [link node_T node_B, (link node_A node_B)\<lparr>input_index := 1\<rparr>]"

lemma recreateNodeExecutionStack_misaligned:
  "case recreateNodeExecutionStack code_unit_compare two_input_graph [node_B]
          [(''Trigger'', [run_without_item 0]), (''A'', [run_with_item 1 ''a''])] [] of
     Inr s \<Rightarrow> map exec_data (node_execution_stack s) = [[(Main_type, [Some [sample_item ''a'']])]]
       \<and> map (map_option (map (map (map_option previous_node) \<circ> snd)) \<circ> exec_source) (node_execution_stack s)
           = [Some [[Some ''Trigger'', Some ''A'']]]
   | Inl _ \<Rightarrow> False"
  by code_simp

text \<open>An incomplete group puts the items of each of its sources that has any, and where they
  come from, under the start node's name, a run that the node does not wait for yet, and the
  connection's type and input; what waits for other nodes and runs is unchanged.\<close>

lemma addSourceGroup_waits:
  assumes "consecutive_inputs (group_connections grp)" and "\<not> group_complete grp"
    and "r = (case map_of (waiting_execution s) (node_name n) of Some runs \<Rightarrow> length runs | None \<Rightarrow> 0)"
  shows "\<exists>s'. addSourceGroup rd pd n grp s = Inr s' \<and> node_execution_stack s' = node_execution_stack s
     \<and> (\<forall>c \<in> set (group_connections grp). \<forall>items. waits_for rd c = Some items \<longrightarrow>
          waiting_at (waiting_execution s') (node_name n) r (connection_type c) (input_index c) = Some items
          \<and> waiting_at (waiting_execution_source s') (node_name n) r (connection_type c) (input_index c)
              = Some (waiting_source r c))
     \<and> (\<forall>nm r' t i. nm \<noteq> node_name n \<or> r' \<noteq> r \<longrightarrow>
          waiting_at (waiting_execution s') nm r' t i = waiting_at (waiting_execution s) nm r' t i)"
proof -
  have "good_group (\<lambda>_. False) grp"
    using assms(1,2) by (auto simp: good_group_def consecutive_inputs_def)
  from addSourceGroup_waiting [OF this assms(2,3), of rd pd] show ?thesis
    using assms(2) by (auto simp: addSourceGroup_def Let_def)
qed

lemma addSourceGroup_waits_example:
  "\<exists>s'. addSourceGroup trigger_run [] node_B
      \<lparr>group_complete = False, group_connections = [link node_T node_B]\<rparr>
      \<lparr>node_execution_stack = [], waiting_execution = [], waiting_execution_source = []\<rparr> = Inr s'
     \<and> waiting_at (waiting_execution s') ''B'' 0 Main_type 0 = Some [sample_item ''a'']"
proof -
  have "consecutive_inputs [link node_T node_B]" "waits_for trigger_run (link node_T node_B) = Some [sample_item ''a'']"
    "node_name node_B = ''B''" "connection_type (link node_T node_B) = Main_type"
    "input_index (link node_T node_B) = 0" by code_simp+
  with addSourceGroup_waits [of "\<lparr>group_complete = False, group_connections = [link node_T node_B]\<rparr>" 0
      "\<lparr>node_execution_stack = [], waiting_execution = [], waiting_execution_source = []\<rparr>" node_B trigger_run "[]"]
  show ?thesis by fastforce
qed

end
