(* ===== verification/Connected_Nodes.thy ===== *)
theory Connected_Nodes
  imports Workflow_Types "HOL-Library.Extended_Nat"
begin

text \<open>
  \<open>packages/workflow/src/common/get-connected-nodes.ts\<close> with \<open>get-child-nodes.ts\<close> and
  \<open>get-parent-nodes.ts\<close>: the nodes connected to a node by the nested connections of a workflow.

  A call always comes with a node that is not on the current path, so \<open>currentPath.delete\<close> restores
  the caller's path, which is why the path is an argument here and not part of the result. A memo
  key \<open>depth:nodeName\<close> is the pair of its parts.
\<close>

section \<open>The code\<close>

datatype connection_filter = OneType node_connection_type | AllTypes | AllNonMain

text \<open>The three nested \<open>forEach\<close> loops over a node's connections, in the order they visit them.\<close>

definition connection_types_of :: "connection_filter \<Rightarrow> inode_connections \<Rightarrow> node_connection_type list" where
  "connection_types_of connectionType byType =
     (case connectionType of
        AllTypes \<Rightarrow> own_keys byType
      | AllNonMain \<Rightarrow> filter (\<lambda>t. t \<noteq> Main_type) (own_keys byType)
      | OneType t \<Rightarrow> [t])"

definition connections_in :: "node_input_connections \<Rightarrow> iconnection list" where
  "connections_in outputs = concat (map (\<lambda>cs. case cs of Some cs \<Rightarrow> cs | None \<Rightarrow> []) outputs)"

definition connected_targets :: "connection_filter \<Rightarrow> inode_connections \<Rightarrow> string list" where
  "connected_targets connectionType byType =
     concat (map (\<lambda>t. case map_of byType t of
                        None \<Rightarrow> []
                      | Some outputs \<Rightarrow> map conn_node (connections_in outputs))
               (connection_types_of connectionType byType))"

text \<open>\<open>indexOf\<close>, \<open>splice\<close> and \<open>unshift\<close>: an element moves to the front or is put there.\<close>

definition move_to_front :: "string \<Rightarrow> string list \<Rightarrow> string list" where
  "move_to_front x xs = x # remove1 x xs"

type_synonym connected_memo = "((int \<times> string) \<times> string list) list"

function collectConnectedNodes ::
  "iconnections \<Rightarrow> string \<Rightarrow> connection_filter \<Rightarrow> int \<Rightarrow> string list \<Rightarrow> connected_memo
   \<Rightarrow> string list \<times> connected_memo"
  and collectLoop ::
  "iconnections \<Rightarrow> string list \<Rightarrow> connection_filter \<Rightarrow> int \<Rightarrow> string list \<Rightarrow> connected_memo
   \<Rightarrow> string list \<Rightarrow> string list \<times> connected_memo"
where
  "collectConnectedNodes connections nodeName connectionType depth currentPath memo =
     (if depth = 0 then ([], memo)
      else case map_of connections nodeName of
        None \<Rightarrow> ([], memo)
      | Some byType \<Rightarrow>
          (case map_of memo (depth, nodeName) of
             Some cached \<Rightarrow> (cached, memo)
           | None \<Rightarrow>
               (case collectLoop connections (connected_targets connectionType byType) connectionType
                       (if depth = - 1 then depth else depth - 1) (nodeName # currentPath) memo [] of
                  (returnNodes, memo') \<Rightarrow>
                    (returnNodes, map_set (depth, nodeName) returnNodes memo'))))"
| "collectLoop connections [] connectionType newDepth currentPath memo returnNodes = (returnNodes, memo)"
| "collectLoop connections (target # rest) connectionType newDepth currentPath memo returnNodes =
     (if target \<in> set currentPath
      then collectLoop connections rest connectionType newDepth currentPath memo returnNodes
      else case collectConnectedNodes connections target connectionType newDepth currentPath memo of
             (addNodes, memo') \<Rightarrow>
               collectLoop connections rest connectionType newDepth currentPath memo'
                 (fold move_to_front (rev addNodes) (move_to_front target returnNodes)))"
  by pat_completeness auto

termination collectConnectedNodes
proof (relation "measures
    [\<lambda>x. case x of
         Inl (cs, n, ct, d, path, m) \<Rightarrow>
           2 * card (set (map_keys cs) - set path) + (if n \<in> set path then 1 else 0)
       | Inr (cs, ts, ct, d, path, m, acc) \<Rightarrow> 2 * card (set (map_keys cs) - set path),
     \<lambda>x. case x of Inl _ \<Rightarrow> 0 | Inr (cs, ts, ct, d, path, m, acc) \<Rightarrow> Suc (length ts)]", goal_cases)
  case 1
  show ?case by simp
next
  case (2 cs n ct d path m byType)
  then have "n \<in> set (map_keys cs)" by (metis map_of_eq_None_notin option.simps(3))
  then show ?case
    using card_Diff_insert_less [of "set (map_keys cs)" n "set path"]
    by (cases "n \<in> set path") (auto simp: insert_absorb)
qed simp_all

declare collectConnectedNodes.simps [simp del]

definition getConnectedNodes :: "iconnections \<Rightarrow> string \<Rightarrow> connection_filter \<Rightarrow> int \<Rightarrow> string list" where
  "getConnectedNodes connections nodeName connectionType depth =
     fst (collectConnectedNodes connections nodeName connectionType depth [] [])"

definition getChildNodes :: "iconnections \<Rightarrow> string \<Rightarrow> connection_filter \<Rightarrow> int \<Rightarrow> string list" where
  "getChildNodes connectionsBySourceNode nodeName type depth =
     getConnectedNodes connectionsBySourceNode nodeName type depth"

definition getParentNodes :: "iconnections \<Rightarrow> string \<Rightarrow> connection_filter \<Rightarrow> int \<Rightarrow> string list" where
  "getParentNodes connectionsByDestinationNode nodeName type depth =
     getConnectedNodes connectionsByDestinationNode nodeName type depth"

section \<open>Hops\<close>

definition hop :: "connection_filter \<Rightarrow> iconnections \<Rightarrow> string rel" where
  "hop ct cs = {(n, m). \<exists>byType. map_of cs n = Some byType \<and> m \<in> set (connected_targets ct byType)}"

text \<open>How many hops a depth allows: a negative one does not limit them.\<close>

definition hops_allowed :: "int \<Rightarrow> enat" where
  "hops_allowed d = (if d < 0 then \<infinity> else enat (nat d))"

abbreviation next_depth :: "int \<Rightarrow> int" where
  "next_depth d \<equiv> (if d = - 1 then d else d - 1)"

lemma hops_next: "d \<noteq> 0 \<Longrightarrow> hops_allowed d = eSuc (hops_allowed (next_depth d))"
  by (auto simp: hops_allowed_def eSuc_def)

lemma hops_zero [simp]: "hops_allowed 0 = 0"
  by (simp add: hops_allowed_def zero_enat_def)

lemma hops_zero_iff: "hops_allowed d = 0 \<longleftrightarrow> d = 0"
  by (auto simp: hops_allowed_def zero_enat_def)

definition reached :: "string rel \<Rightarrow> enat \<Rightarrow> string \<Rightarrow> string set" where
  "reached R h n = {m. \<exists>k. 0 < k \<and> enat k \<le> h \<and> (n, m) \<in> R ^^ k}"

lemma reached_step:
  assumes "(n, t) \<in> R" and "h = eSuc h'" and "x = t \<or> x \<in> reached R h' t"
  shows "x \<in> reached R h n"
proof -
  from assms(3) obtain k where k: "enat k \<le> h'" "(t, x) \<in> R ^^ k"
  proof (elim disjE)
    assume "x = t" then show ?thesis using that [of 0] by (simp add: zero_enat_def [symmetric])
  next
    assume "x \<in> reached R h' t" then show ?thesis using that by (auto simp: reached_def)
  qed
  have "enat (Suc k) \<le> h" using k(1) assms(2) by (simp add: eSuc_enat [symmetric])
  moreover have "(n, x) \<in> R ^^ Suc k" using assms(1) k(2) by (rule relpow_Suc_I2)
  ultimately show ?thesis unfolding reached_def by blast
qed

lemma reached_infinity: "reached R \<infinity> n = R\<^sup>+ `` {n}"
  by (auto simp: reached_def trancl_power)

section \<open>The lists\<close>

lemma set_move_to_front [simp]: "set (move_to_front x xs) = insert x (set xs)"
  by (auto simp: move_to_front_def dest: notin_set_remove1) (metis in_set_remove1)

lemma distinct_move_to_front [simp]: "distinct xs \<Longrightarrow> distinct (move_to_front x xs)"
  by (simp add: move_to_front_def)

lemma set_fold_move [simp]: "set (fold move_to_front ys xs) = set ys \<union> set xs"
  by (induction ys arbitrary: xs) auto

lemma distinct_fold_move [simp]: "distinct xs \<Longrightarrow> distinct (fold move_to_front ys xs)"
  by (induction ys arbitrary: xs) auto

section \<open>Only nodes within reach\<close>

definition memo_sound :: "string rel \<Rightarrow> string \<Rightarrow> connected_memo \<Rightarrow> bool" where
  "memo_sound R src m \<longleftrightarrow> (\<forall>d n xs. map_of m (d, n) = Some xs \<longrightarrow>
     distinct xs \<and> src \<notin> set xs \<and> set xs \<subseteq> reached R (hops_allowed d) n)"

lemma collect_sound:
  shows "collectConnectedNodes cs n ct d path m = (r, m') \<Longrightarrow> src \<in> set (n # path) \<Longrightarrow>
      memo_sound (hop ct cs) src m \<Longrightarrow>
      memo_sound (hop ct cs) src m' \<and> distinct r \<and> src \<notin> set r
        \<and> set r \<subseteq> reached (hop ct cs) (hops_allowed d) n"
    and "collectLoop cs ts ct d path m acc = (r, m') \<Longrightarrow> src \<in> set path \<Longrightarrow>
      memo_sound (hop ct cs) src m \<Longrightarrow> distinct acc \<Longrightarrow> src \<notin> set acc \<Longrightarrow>
      memo_sound (hop ct cs) src m' \<and> distinct r \<and> src \<notin> set r
        \<and> set r \<subseteq> set acc \<union> set ts \<union> (\<Union>t \<in> set ts. reached (hop ct cs) (hops_allowed d) t)"
proof (induction cs n ct d path m and cs ts ct d path m acc arbitrary: r m' and r m'
    rule: collectConnectedNodes_collectLoop.induct)
  case (1 cs n ct d path m)
  note unfold = collectConnectedNodes.simps [of cs n ct d path m]
  show ?case
  proof (cases "d = 0 \<or> map_of cs n = None")
    case True
    with "1.prems" show ?thesis by (auto simp: unfold split: option.splits)
  next
    case False
    then obtain byType where d: "d \<noteq> 0" and bt: "map_of cs n = Some byType" by auto
    show ?thesis
    proof (cases "map_of m (d, n)")
      case (Some cached)
      with d bt "1.prems" show ?thesis by (auto simp: unfold memo_sound_def)
    next
      case None
      obtain r1 m1 where loop: "collectLoop cs (connected_targets ct byType) ct (next_depth d)
          (n # path) m [] = (r1, m1)" by fastforce
      have r: "r = r1" "m' = map_set (d, n) r1 m1"
        using "1.prems"(1) d bt None loop by (auto simp: unfold)
      from "1.IH" [OF d bt None loop "1.prems"(2,3)]
      have IH: "memo_sound (hop ct cs) src m1" "distinct r1" "src \<notin> set r1"
        "set r1 \<subseteq> set (connected_targets ct byType)
           \<union> (\<Union>t \<in> set (connected_targets ct byType). reached (hop ct cs) (hops_allowed (next_depth d)) t)"
        by auto
      have "set r1 \<subseteq> reached (hop ct cs) (hops_allowed d) n"
      proof
        fix x assume "x \<in> set r1"
        with IH(4) obtain t where "t \<in> set (connected_targets ct byType)"
          "x = t \<or> x \<in> reached (hop ct cs) (hops_allowed (next_depth d)) t" by auto
        with bt show "x \<in> reached (hop ct cs) (hops_allowed d) n"
          by (intro reached_step [OF _ hops_next [OF d]]) (auto simp: hop_def)
      qed
      with IH r show ?thesis by (auto simp: memo_sound_def)
    qed
  qed
next
  case (2 cs ct d path m acc)
  then show ?case by auto
next
  case (3 cs t ts ct d path m acc)
  show ?case
  proof (cases "t \<in> set path")
    case True
    with 3 show ?thesis by auto
  next
    case False
    obtain add m1 where call: "collectConnectedNodes cs t ct d path m = (add, m1)" by fastforce
    with "3.IH"(2) [OF False call] "3.prems"
    have IH: "memo_sound (hop ct cs) src m1" "src \<notin> set add" "set add \<subseteq> reached (hop ct cs) (hops_allowed d) t"
      by auto
    have "t \<noteq> src" using False "3.prems"(2) by auto
    let ?acc = "fold move_to_front (rev add) (move_to_front t acc)"
    have rest: "collectLoop cs ts ct d path m1 ?acc = (r, m')"
      using "3.prems"(1) False call by simp
    have "distinct ?acc" "src \<notin> set ?acc" "set ?acc = set add \<union> insert t (set acc)"
      using "3.prems"(4,5) IH(2) \<open>t \<noteq> src\<close> by auto
    with "3.IH"(3) [OF False call [symmetric] rest "3.prems"(2) IH(1)] IH(3)
    show ?thesis by auto
  qed
qed

section \<open>All nodes within reach\<close>

text \<open>
  What a call expands anew: no deeper than its own depth; the targets of an expanded node are on the
  path or collected, and were expanded to the depth that is left, unless nothing is left to expand.
\<close>

definition expanded :: "connected_memo \<Rightarrow> int \<Rightarrow> string \<Rightarrow> bool" where
  "expanded m d n \<longleftrightarrow> (d, n) \<in> dom (map_of m)"

definition covered :: "iconnections \<Rightarrow> connected_memo \<Rightarrow> int \<Rightarrow> string \<Rightarrow> bool" where
  "covered cs m d y \<longleftrightarrow> d = 0 \<or> map_of cs y = None
     \<or> (\<exists>e. hops_allowed d \<le> hops_allowed e \<and> expanded m e y)"

definition collect_post ::
  "connection_filter \<Rightarrow> iconnections \<Rightarrow> int \<Rightarrow> string set \<Rightarrow> string set \<Rightarrow> connected_memo \<Rightarrow> connected_memo \<Rightarrow> bool" where
  "collect_post ct cs d path found m m' \<longleftrightarrow>
     (\<forall>e y. expanded m e y \<longrightarrow> expanded m' e y)
     \<and> (\<forall>e x. expanded m' e x \<longrightarrow> \<not> expanded m e x \<longrightarrow>
          x \<in> found \<and> e \<noteq> 0 \<and> hops_allowed e \<le> hops_allowed d
          \<and> (\<forall>y. (x, y) \<in> hop ct cs \<longrightarrow> y \<in> path \<or> (y \<in> found \<and> covered cs m' (next_depth e) y)))"

lemma expanded_map_set: "expanded (map_set (d, n) r m) e x \<longleftrightarrow> (e = d \<and> x = n) \<or> expanded m e x"
  by (auto simp: expanded_def dom_def)

lemma covered_mono:
  "covered cs m d y \<Longrightarrow> (\<And>e x. expanded m e x \<Longrightarrow> expanded m' e x) \<Longrightarrow> covered cs m' d y"
  by (auto simp: covered_def)

lemma collect_post_refl: "collect_post ct cs d path found m m"
  by (simp add: collect_post_def)

lemma collect_post_trans:
  assumes 1: "collect_post ct cs d path found1 m m1" and 2: "collect_post ct cs d path found m1 m2"
    and sub: "found1 \<subseteq> found"
  shows "collect_post ct cs d path found m m2"
proof -
  have keep: "expanded m e x \<Longrightarrow> expanded m1 e x" "expanded m1 e x \<Longrightarrow> expanded m2 e x" for e x
    using 1 2 by (auto simp: collect_post_def)
  have "x \<in> found \<and> e \<noteq> 0 \<and> hops_allowed e \<le> hops_allowed d
      \<and> (\<forall>y. (x, y) \<in> hop ct cs \<longrightarrow> y \<in> path \<or> (y \<in> found \<and> covered cs m2 (next_depth e) y))"
    if new: "expanded m2 e x" "\<not> expanded m e x" for e x
  proof (cases "expanded m1 e x")
    case True
    then have x: "x \<in> found1" "e \<noteq> 0" "hops_allowed e \<le> hops_allowed d"
      and y: "\<And>y. (x, y) \<in> hop ct cs \<Longrightarrow> y \<in> path \<or> (y \<in> found1 \<and> covered cs m1 (next_depth e) y)"
      using 1 new(2) by (auto simp: collect_post_def)
    have "y \<in> path \<or> (y \<in> found \<and> covered cs m2 (next_depth e) y)" if "(x, y) \<in> hop ct cs" for y
      using y [OF that] sub covered_mono [of cs m1 "next_depth e" y m2] keep(2) by auto
    with x sub show ?thesis by auto
  next
    case False
    with new(1) 2 show ?thesis by (auto simp: collect_post_def)
  qed
  with keep show ?thesis by (auto simp: collect_post_def)
qed

lemma next_depth_le: "d \<noteq> 0 \<Longrightarrow> hops_allowed (next_depth d) \<le> hops_allowed d"
  using hops_next [of d] by (metis ile_eSuc)

lemma collect_complete:
  shows "collectConnectedNodes cs n ct d path m = (r, m') \<Longrightarrow> n \<notin> set path \<Longrightarrow>
      collect_post ct cs d (set path) (insert n (set r)) m m' \<and> covered cs m' d n"
    and "collectLoop cs ts ct d path m acc = (r, m') \<Longrightarrow>
      collect_post ct cs d (set path) (set r) m m' \<and> set acc \<subseteq> set r
        \<and> (\<forall>t \<in> set ts. t \<in> set path \<or> (t \<in> set r \<and> covered cs m' d t))"
proof (induction cs n ct d path m and cs ts ct d path m acc arbitrary: r m' and r m'
    rule: collectConnectedNodes_collectLoop.induct)
  case (1 cs n ct d path m)
  note unfold = collectConnectedNodes.simps [of cs n ct d path m]
  show ?case
  proof (cases "d = 0 \<or> map_of cs n = None")
    case True
    with "1.prems" show ?thesis
      by (auto simp: unfold collect_post_refl covered_def split: option.splits)
  next
    case False
    then obtain byType where d: "d \<noteq> 0" and bt: "map_of cs n = Some byType" by auto
    show ?thesis
    proof (cases "map_of m (d, n)")
      case (Some cached)
      with d bt "1.prems" show ?thesis
        by (auto simp: unfold collect_post_refl covered_def expanded_def)
    next
      case None
      obtain r1 m1 where loop: "collectLoop cs (connected_targets ct byType) ct (next_depth d)
          (n # path) m [] = (r1, m1)" by fastforce
      have r: "r = r1" "m' = map_set (d, n) r1 m1"
        using "1.prems"(1) d bt None loop by (auto simp: unfold)
      from "1.IH" [OF d bt None loop]
      have post: "collect_post ct cs (next_depth d) (set (n # path)) (set r1) m m1"
        and targets: "\<And>t. t \<in> set (connected_targets ct byType) \<Longrightarrow>
          t \<in> set (n # path) \<or> (t \<in> set r1 \<and> covered cs m1 (next_depth d) t)"
        by auto
      have keep: "expanded m e x \<Longrightarrow> expanded m1 e x" for e x
        using post by (auto simp: collect_post_def)
      have grown: "covered cs m1 e y \<Longrightarrow> covered cs m' e y" for e y
        by (rule covered_mono, assumption) (simp add: r(2) expanded_map_set)
      have here: "covered cs m' e n" if "hops_allowed e \<le> hops_allowed d" for e
        using that unfolding covered_def r(2) expanded_map_set by blast
      have "x \<in> insert n (set r) \<and> e \<noteq> 0 \<and> hops_allowed e \<le> hops_allowed d \<and> (\<forall>y. (x, y) \<in> hop ct cs \<longrightarrow>
          y \<in> set path \<or> (y \<in> insert n (set r) \<and> covered cs m' (next_depth e) y))"
        if new: "expanded m' e x" "\<not> expanded m e x" for e x
      proof (cases "e = d \<and> x = n")
        case True
        have "y \<in> set path \<or> (y \<in> insert n (set r) \<and> covered cs m' (next_depth e) y)"
          if "(x, y) \<in> hop ct cs" for y
        proof -
          have "y \<in> set (connected_targets ct byType)" using that True bt by (auto simp: hop_def)
          from targets [OF this] True r(1) grown [of "next_depth d" y] here [of "next_depth d"]
            next_depth_le [OF d] show ?thesis by auto
        qed
        with True d show ?thesis by simp
      next
        case False
        with new r(2) have "expanded m1 e x" by (auto simp: expanded_map_set)
        with post new(2) have x: "x \<in> set r1" "hops_allowed e \<le> hops_allowed (next_depth d)" "e \<noteq> 0"
          and y: "\<And>y. (x, y) \<in> hop ct cs \<Longrightarrow>
            y \<in> set (n # path) \<or> (y \<in> set r1 \<and> covered cs m1 (next_depth e) y)"
          by (auto simp: collect_post_def)
        have e: "hops_allowed e \<le> hops_allowed d" using x(2) next_depth_le [OF d] by (rule order_trans)
        have ne: "hops_allowed (next_depth e) \<le> hops_allowed d"
          using next_depth_le [OF x(3)] e by (rule order_trans)
        have "y \<in> set path \<or> (y \<in> insert n (set r) \<and> covered cs m' (next_depth e) y)"
          if "(x, y) \<in> hop ct cs" for y
          using y [OF that] r(1) grown [of "next_depth e" y] here [OF ne] by auto
        with x(1,3) e r(1) show ?thesis by simp
      qed
      moreover have "expanded m e x \<Longrightarrow> expanded m' e x" for e x
        using keep r(2) by (simp add: expanded_map_set)
      ultimately show ?thesis using here [of d] unfolding collect_post_def by blast
    qed
  qed
next
  case (2 cs ct d path m acc)
  then show ?case by (auto simp: collect_post_refl)
next
  case (3 cs t ts ct d path m acc)
  show ?case
  proof (cases "t \<in> set path")
    case True
    with 3 show ?thesis by auto
  next
    case False
    obtain add m1 where call: "collectConnectedNodes cs t ct d path m = (add, m1)" by fastforce
    from "3.IH"(2) [OF False call False]
    have first: "collect_post ct cs d (set path) (insert t (set add)) m m1" "covered cs m1 d t" by auto
    let ?acc = "fold move_to_front (rev add) (move_to_front t acc)"
    have "collectLoop cs ts ct d path m1 ?acc = (r, m')" using "3.prems" False call by simp
    from "3.IH"(3) [OF False call [symmetric] this]
    have rest: "collect_post ct cs d (set path) (set r) m1 m'" "set ?acc \<subseteq> set r"
      "\<forall>x \<in> set ts. x \<in> set path \<or> (x \<in> set r \<and> covered cs m' d x)" by auto
    have sub: "insert t (set add) \<subseteq> set r" "set acc \<subseteq> set r" using rest(2) by auto
    have "covered cs m' d t"
      using first(2) rest(1) by (auto elim: covered_mono simp: collect_post_def)
    with collect_post_trans [OF first(1) rest(1) sub(1)] sub rest(3) show ?thesis by auto
  qed
qed

lemma enat_Suc_le: "enat (Suc k) \<le> h \<Longrightarrow> enat k \<le> h"
  by (meson enat_ord_simps(1) le_SucI order_refl order_trans)

lemma hops_previous: "\<exists>e. e \<noteq> 0 \<and> hops_allowed e = eSuc (hops_allowed h)"
proof (cases "h < 0")
  case True
  then show ?thesis by (intro exI [of _ "- 1"]) (simp add: hops_allowed_def)
next
  case False
  then show ?thesis by (intro exI [of _ "h + 1"]) (simp add: hops_allowed_def eSuc_enat nat_add_distrib)
qed

lemma covered_antimono:
  "covered cs m d y \<Longrightarrow> hops_allowed e \<le> hops_allowed d \<Longrightarrow> covered cs m e y"
  unfolding covered_def by (metis hops_zero hops_zero_iff le_zero_eq order_trans)

text \<open>From an empty memo every node within reach is collected, and no other.\<close>

lemma getConnectedNodes_spec:
  "distinct (getConnectedNodes cs n ct d)
   \<and> set (getConnectedNodes cs n ct d) = reached (hop ct cs) (hops_allowed d) n - {n}"
proof -
  obtain r m where call: "collectConnectedNodes cs n ct d [] [] = (r, m)" by fastforce
  have "memo_sound (hop ct cs) n []" by (simp add: memo_sound_def)
  from collect_sound(1) [OF call _ this] have sound: "distinct r" "n \<notin> set r"
    "set r \<subseteq> reached (hop ct cs) (hops_allowed d) n" by auto
  from collect_complete(1) [OF call] have post: "collect_post ct cs d {} (insert n (set r)) [] m"
    and start: "covered cs m d n" by auto
  have new: "\<not> expanded [] e x" for e x by (simp add: expanded_def)
  have walk: "x \<in> insert n (set r)
      \<and> (\<forall>h. enat k + hops_allowed h \<le> hops_allowed d \<longrightarrow> covered cs m h x)"
    if "(n, x) \<in> hop ct cs ^^ k" "enat k \<le> hops_allowed d" for k x
    using that
  proof (induction k arbitrary: x)
    case 0
    then show ?case using covered_antimono [OF start] by (auto simp: zero_enat_def [symmetric])
  next
    case (Suc k)
    from Suc.prems(1) obtain y where y: "(n, y) \<in> hop ct cs ^^ k" "(y, x) \<in> hop ct cs" by auto
    have conns: "map_of cs y \<noteq> None" using y(2) by (auto simp: hop_def)
    have "x \<in> insert n (set r) \<and> covered cs m h x"
      if h: "enat (Suc k) + hops_allowed h \<le> hops_allowed d" for h
    proof -
      obtain e0 where e0: "e0 \<noteq> 0" "hops_allowed e0 = eSuc (hops_allowed h)"
        using hops_previous by blast
      with h have "enat k + hops_allowed e0 \<le> hops_allowed d"
        by (simp add: eSuc_enat [symmetric] iadd_Suc iadd_Suc_right)
      with Suc.IH [OF y(1) enat_Suc_le [OF Suc.prems(2)]] have "covered cs m e0 y" by blast
      then obtain e where e: "hops_allowed e0 \<le> hops_allowed e" "expanded m e y"
        using e0(1) conns by (auto simp: covered_def)
      with post new have "e \<noteq> 0" and x: "x \<in> insert n (set r)" "covered cs m (next_depth e) x"
        using y(2) unfolding collect_post_def by blast+
      have "hops_allowed h \<le> hops_allowed (next_depth e)"
        using e(1) e0(2) hops_next [OF \<open>e \<noteq> 0\<close>] by simp
      with x show ?thesis by (blast intro: covered_antimono)
    qed
    moreover have "enat (Suc k) + hops_allowed 0 \<le> hops_allowed d" using Suc.prems(2) by simp
    ultimately show ?case by blast
  qed
  have "reached (hop ct cs) (hops_allowed d) n \<subseteq> insert n (set r)"
    using walk by (auto simp: reached_def)
  with sound call show ?thesis by (auto simp: getConnectedNodes_def)
qed

end
