(* ===== verification/Connection_Maps.thy ===== *)
theory Connection_Maps
  imports Connected_Nodes
begin

text \<open>
  The nested connections of a workflow as a whole: \<open>common/map-connections-by-destination.ts\<close> and
  \<open>connections-diff.ts\<close> of \<open>packages/workflow/src\<close>.
\<close>

section \<open>Loops over nested connections\<close>

text \<open>One connection with the place it is stored at: source node, type, output index.\<close>

type_synonym stored_connection = "string \<times> node_connection_type \<times> nat \<times> iconnection"

definition stored_outputs ::
  "string \<Rightarrow> node_connection_type \<Rightarrow> node_input_connections \<Rightarrow> stored_connection list" where
  "stored_outputs source type outputs =
     concat (map (\<lambda>(i, cs). map (\<lambda>c. (source, type, i, c)) (case cs of Some cs \<Rightarrow> cs | None \<Rightarrow> []))
               (List.enumerate 0 outputs))"

definition stored_connections :: "iconnections \<Rightarrow> stored_connection list" where
  "stored_connections connections =
     concat (map (\<lambda>(source, byType).
       concat (map (\<lambda>(type, outputs). stored_outputs source type outputs) (object_entries byType)))
     (object_entries connections))"

text \<open>What an array of lists holds at an index.\<close>

definition items_at :: "node_input_connections \<Rightarrow> nat \<Rightarrow> iconnection list" where
  "items_at outputs i = (case arr_item outputs i of Some cs \<Rightarrow> cs | None \<Rightarrow> [])"

text \<open>\<open>connections[node]?.[type]?.[index]\<close>, no connections where one of them is missing.\<close>

definition conns_at :: "iconnections \<Rightarrow> string \<Rightarrow> node_connection_type \<Rightarrow> nat \<Rightarrow> iconnection list" where
  "conns_at connections node type i =
     (case map_of connections node of
        None \<Rightarrow> []
      | Some byType \<Rightarrow>
          (case map_of byType type of
             None \<Rightarrow> []
           | Some outputs \<Rightarrow> items_at outputs i))"

definition wf_iconnections :: "iconnections \<Rightarrow> bool" where
  "wf_iconnections cs \<longleftrightarrow> distinct (map_keys cs) \<and> (\<forall>(n, bt) \<in> set cs. distinct (map_keys bt))"

lemma set_stored_outputs:
  "(s, t, i, c) \<in> set (stored_outputs source type outputs) \<longleftrightarrow> s = source \<and> t = type
     \<and> c \<in> set (items_at outputs i)"
  by (force simp: stored_outputs_def items_at_def arr_item_def in_set_enumerate_eq split: option.splits)

lemma map_of_set: "distinct (map_keys m) \<Longrightarrow> (k, v) \<in> set m \<longleftrightarrow> map_of m k = Some v"
  by (metis map_of_SomeD map_of_is_SomeI)

lemma set_stored_connections:
  assumes "wf_iconnections cs"
  shows "(s, t, i, c) \<in> set (stored_connections cs) \<longleftrightarrow> c \<in> set (conns_at cs s t i)"
proof -
  have d: "distinct (map_keys cs)" using assms by (simp add: wf_iconnections_def)
  have dt: "distinct (map_keys bt)" if "(n, bt) \<in> set cs" for n bt
    using assms that by (auto simp: wf_iconnections_def)
  have "(s, t, i, c) \<in> set (stored_connections cs) \<longleftrightarrow> (\<exists>bt. (s, bt) \<in> set cs \<and>
      (\<exists>outs. (t, outs) \<in> set (object_entries bt) \<and> c \<in> set (items_at outs i)))"
    by (auto simp: stored_connections_def set_object_entries [OF d] set_stored_outputs) blast
  also have "\<dots> \<longleftrightarrow> (\<exists>bt. (s, bt) \<in> set cs \<and> (\<exists>outs. (t, outs) \<in> set bt \<and> c \<in> set (items_at outs i)))"
    using dt set_object_entries by blast
  also have "\<dots> \<longleftrightarrow> c \<in> set (conns_at cs s t i)"
  proof (cases "map_of cs s")
    case None
    then show ?thesis by (auto simp: conns_at_def map_of_set [OF d])
  next
    case (Some bt)
    then have dbt: "distinct (map_keys bt)" using dt by (meson map_of_SomeD)
    have "(s, bt') \<in> set cs \<longleftrightarrow> bt' = bt" for bt' using Some by (auto simp: map_of_set [OF d])
    moreover have "(t, outs) \<in> set bt \<longleftrightarrow> map_of bt t = Some outs" for outs
      by (rule map_of_set [OF dbt])
    ultimately show ?thesis using Some
      by (cases "map_of bt t") (simp_all add: conns_at_def)
  qed
  finally show ?thesis .
qed

section \<open>Connections by destination\<close>

text \<open>Padding with empty lists up to an index, then a push there.\<close>

definition pad_to :: "nat \<Rightarrow> node_input_connections \<Rightarrow> node_input_connections" where
  "pad_to i xs = xs @ replicate (Suc i - length xs) (Some [])"

definition addByDestination :: "stored_connection \<Rightarrow> iconnections \<Rightarrow> iconnections" where
  "addByDestination = (\<lambda>(sourceNode, type, inputIndex, connectionInfo) returnConnection.
     let dest = conn_node connectionInfo;
         byType = (case map_of returnConnection dest of Some bt \<Rightarrow> bt | None \<Rightarrow> []);
         inputs = pad_to (conn_index connectionInfo)
                    (case map_of byType (conn_type connectionInfo) of Some ins \<Rightarrow> ins | None \<Rightarrow> []);
         pushed = (case inputs ! conn_index connectionInfo of
                     None \<Rightarrow> inputs
                   | Some cs \<Rightarrow> inputs[conn_index connectionInfo :=
                       Some (cs @ [\<lparr>conn_node = sourceNode, conn_type = type, conn_index = inputIndex\<rparr>])])
     in map_set dest (map_set (conn_type connectionInfo) pushed byType) returnConnection)"

definition mapConnectionsByDestination :: "iconnections \<Rightarrow> iconnections" where
  "mapConnectionsByDestination connections = fold addByDestination (stored_connections connections) []"

text \<open>The result holds lists only, no \<open>null\<close>.\<close>

definition no_null :: "iconnections \<Rightarrow> bool" where
  "no_null cs \<longleftrightarrow> (\<forall>(n, bt) \<in> set cs. \<forall>(t, outs) \<in> set bt. None \<notin> set outs)"

lemma pad_to_nth: "length (pad_to i xs) = max (length xs) (Suc i)"
  "j < length (pad_to i xs) \<Longrightarrow> pad_to i xs ! j = (if j < length xs then xs ! j else Some [])"
  by (auto simp: pad_to_def nth_append)

definition push_at :: "nat \<Rightarrow> iconnection \<Rightarrow> node_input_connections \<Rightarrow> node_input_connections" where
  "push_at i c ins = (let inputs = pad_to i ins in
     case inputs ! i of None \<Rightarrow> inputs | Some cs \<Rightarrow> inputs[i := Some (cs @ [c])])"

lemma push_at_spec:
  assumes "None \<notin> set ins"
  shows "None \<notin> set (push_at i c ins)"
    and "items_at (push_at i c ins) j = items_at ins j @ (if j = i then [c] else [])"
proof -
  have pad: "None \<notin> set (pad_to i ins)" using assms by (auto simp: pad_to_def)
  have len: "i < length (pad_to i ins)" by (simp add: pad_to_nth)
  obtain cs where cs: "pad_to i ins ! i = Some cs"
    using pad nth_mem [OF len] by (metis not_None_eq)
  then have push: "push_at i c ins = (pad_to i ins)[i := Some (cs @ [c])]" by (simp add: push_at_def)
  show "None \<notin> set (push_at i c ins)"
    using pad unfolding push by (auto dest!: set_update_subset_insert [THEN subsetD])
  have "cs = items_at ins i" using cs pad_to_nth(2) [OF len] by (auto simp: items_at_def arr_item_def)
  then show "items_at (push_at i c ins) j = items_at ins j @ (if j = i then [c] else [])"
    unfolding push by (auto simp: items_at_def arr_item_def nth_list_update pad_to_nth)
qed

lemma no_null_lookup:
  "no_null m \<Longrightarrow> map_of m n = Some bt \<Longrightarrow> map_of bt t = Some outs \<Longrightarrow> None \<notin> set outs"
  by (auto simp: no_null_def dest!: map_of_SomeD)

lemma conns_at_addByDestination:
  fixes s t i c m
  assumes "no_null m" and "wf_iconnections m"
  shows "no_null (addByDestination (s, t, i, c) m) \<and> wf_iconnections (addByDestination (s, t, i, c) m)
    \<and> conns_at (addByDestination (s, t, i, c) m) n u j = conns_at m n u j @
        (if conn_node c = n \<and> conn_type c = u \<and> conn_index c = j
         then [\<lparr>conn_node = s, conn_type = t, conn_index = i\<rparr>] else [])"
proof -
  let ?e = "\<lparr>conn_node = s, conn_type = t, conn_index = i\<rparr>"
  define bt where "bt = (case map_of m (conn_node c) of Some bt \<Rightarrow> bt | None \<Rightarrow> [])"
  define ins where "ins = (case map_of bt (conn_type c) of Some ins \<Rightarrow> ins | None \<Rightarrow> [])"
  have add: "addByDestination (s, t, i, c) m =
      map_set (conn_node c) (map_set (conn_type c) (push_at (conn_index c) ?e ins) bt) m"
    by (simp add: addByDestination_def push_at_def Let_def bt_def ins_def)
  have ins: "None \<notin> set ins"
    using no_null_lookup [OF assms(1), of "conn_node c"]
    by (auto simp: ins_def bt_def split: option.splits)
  have dbt: "distinct (map_keys bt)"
    using assms(2) by (auto simp: bt_def wf_iconnections_def split: option.splits dest!: map_of_SomeD)
  have nbt: "None \<notin> set outs" if "(u, outs) \<in> set bt" for u outs
  proof (cases "map_of m (conn_node c)")
    case (Some bt')
    with that have "(conn_node c, bt') \<in> set m" "(u, outs) \<in> set bt'"
      by (auto simp: bt_def dest: map_of_SomeD)
    with assms(1) show ?thesis by (fastforce simp: no_null_def)
  qed (use that in \<open>simp add: bt_def\<close>)
  have dm: "distinct (map_keys m)" using assms(2) by (simp add: wf_iconnections_def)
  have "no_null (addByDestination (s, t, i, c) m)"
    using assms(1) nbt push_at_spec(1) [OF ins]
    by (auto simp: add no_null_def set_map_set [OF dm] set_map_set [OF dbt])
  moreover have "wf_iconnections (addByDestination (s, t, i, c) m)"
    using assms(2) dbt
    by (auto simp: add wf_iconnections_def set_map_set [OF dm] AList.distinct_update)
  moreover have "conns_at (addByDestination (s, t, i, c) m) n u j = conns_at m n u j @
        (if conn_node c = n \<and> conn_type c = u \<and> conn_index c = j then [?e] else [])"
  proof (cases "conn_node c = n \<and> conn_type c = u")
    case True
    then have "conns_at (addByDestination (s, t, i, c) m) n u j = items_at (push_at (conn_index c) ?e ins) j"
      unfolding add by (simp add: conns_at_def)
    also have "\<dots> = items_at ins j @ (if j = conn_index c then [?e] else [])"
      by (rule push_at_spec(2) [OF ins])
    also have "items_at ins j = conns_at m n u j"
      using True by (auto simp: conns_at_def ins_def bt_def items_at_def arr_item_def split: option.splits)
    finally show ?thesis using True by auto
  next
    case False
    then show ?thesis by (auto simp: add conns_at_def bt_def split: option.splits)
  qed
  ultimately show ?thesis by blast
qed

lemma mapConnectionsByDestination_spec:
  "wf_iconnections (mapConnectionsByDestination cs) \<and>
   conns_at (mapConnectionsByDestination cs) n u j =
     map (\<lambda>(s, t, i, c). \<lparr>conn_node = s, conn_type = t, conn_index = i\<rparr>)
       (filter (\<lambda>(s, t, i, c). conn_node c = n \<and> conn_type c = u \<and> conn_index c = j)
          (stored_connections cs))"
proof -
  let ?e = "\<lambda>(s, t, i, c :: iconnection). \<lparr>conn_node = s, conn_type = t, conn_index = i\<rparr>"
  let ?here = "\<lambda>n u j (s, t, i, c). conn_node c = n \<and> conn_type c = u \<and> conn_index c = j"
  have "no_null (fold addByDestination xs m) \<and> wf_iconnections (fold addByDestination xs m)
      \<and> conns_at (fold addByDestination xs m) n u j
          = conns_at m n u j @ map ?e (filter (?here n u j) xs)"
    if "no_null m" "wf_iconnections m" for xs m
    using that
  proof (induction xs arbitrary: m)
    case (Cons x xs)
    obtain s t i c where x: "x = (s, t, i, c)" by (cases x)
    from conns_at_addByDestination [OF Cons.prems, of s t i c n u j]
      Cons.IH [of "addByDestination x m"] show ?case by (auto simp: x)
  qed simp
  from this [of "[]" "stored_connections cs"] show ?thesis
    by (simp add: mapConnectionsByDestination_def no_null_def wf_iconnections_def conns_at_def)
qed

text \<open>Every connection is found from its other end, and mapping twice gives it back.\<close>

lemma mapConnectionsByDestination_mem:
  assumes "wf_iconnections cs"
  shows "e \<in> set (conns_at (mapConnectionsByDestination cs) n u j)
     \<longleftrightarrow> \<lparr>conn_node = n, conn_type = u, conn_index = j\<rparr> \<in> set (conns_at cs (conn_node e) (conn_type e) (conn_index e))"
proof -
  obtain s t i where e: "e = \<lparr>conn_node = s, conn_type = t, conn_index = i\<rparr>" by (cases e) auto
  have "e \<in> set (conns_at (mapConnectionsByDestination cs) n u j) \<longleftrightarrow> (\<exists>c. (s, t, i, c) \<in> set (stored_connections cs)
      \<and> conn_node c = n \<and> conn_type c = u \<and> conn_index c = j)"
    unfolding conjunct2 [OF mapConnectionsByDestination_spec] by (force simp: e)
  also have "\<dots> \<longleftrightarrow> (s, t, i, \<lparr>conn_node = n, conn_type = u, conn_index = j\<rparr>) \<in> set (stored_connections cs)"
    by (metis iconnection.select_convs(1-3) iconnection.surjective old.unit.exhaust)
  finally show ?thesis unfolding set_stored_connections [OF assms] e by simp
qed

lemma mapConnectionsByDestination_twice:
  assumes "wf_iconnections cs"
  shows "set (conns_at (mapConnectionsByDestination (mapConnectionsByDestination cs)) s t i)
     = set (conns_at cs s t i)"
proof -
  have wf: "wf_iconnections (mapConnectionsByDestination cs)" using mapConnectionsByDestination_spec by blast
  show ?thesis
  proof (rule set_eqI)
    fix c
    show "c \<in> set (conns_at (mapConnectionsByDestination (mapConnectionsByDestination cs)) s t i)
        \<longleftrightarrow> c \<in> set (conns_at cs s t i)"
      by (cases c) (simp add: mapConnectionsByDestination_mem [OF wf] mapConnectionsByDestination_mem [OF assms])
  qed
qed

section \<open>The difference of two workflows' connections\<close>

record connection_entry =
  entry_source_index :: nat
  entry_index :: nat
  entry_connection :: iconnection

type_synonym connections_by_node = "(string \<times> (node_connection_type \<times> connection_entry list) list) list"

record connections_diff =
  diff_added :: connections_by_node
  diff_removed :: connections_by_node

definition push_entry ::
  "string \<Rightarrow> node_connection_type \<Rightarrow> connection_entry \<Rightarrow> connections_by_node \<Rightarrow> connections_by_node" where
  "push_entry nodeName inputName e d =
     (let byInput = (case map_of d nodeName of Some bi \<Rightarrow> bi | None \<Rightarrow> []);
          es = (case map_of byInput inputName of Some es \<Rightarrow> es | None \<Rightarrow> [])
      in map_set nodeName (map_set inputName (es @ [e]) byInput) d)"

text \<open>\<open>new Map(connections.map((conn, idx) => [JSON.stringify(conn), ...]))\<close>: a later duplicate
  replaces the index and keeps the place.\<close>

definition connection_map :: "iconnection list \<Rightarrow> (iconnection \<times> nat) list" where
  "connection_map conns = fold (\<lambda>(idx, c). map_set c idx) (List.enumerate 0 conns) []"

definition pushMissing ::
  "string \<Rightarrow> node_connection_type \<Rightarrow> nat \<Rightarrow> (iconnection \<times> nat) list \<Rightarrow> (iconnection \<times> nat) list
   \<Rightarrow> connections_by_node \<Rightarrow> connections_by_node" where
  "pushMissing nodeName inputName sourceIndex here there d =
     fold (\<lambda>(c, idx) d. if map_has there c then d
             else push_entry nodeName inputName
               \<lparr>entry_source_index = sourceIndex, entry_index = idx, entry_connection = c\<rparr> d) here d"

definition compareAt ::
  "string \<Rightarrow> node_connection_type \<Rightarrow> node_input_connections \<Rightarrow> node_input_connections \<Rightarrow> nat
   \<Rightarrow> connections_diff \<Rightarrow> connections_diff" where
  "compareAt nodeName inputName prevInputs nextInputs sourceIndex d =
     (let prevMap = connection_map (items_at prevInputs sourceIndex);
          nextMap = connection_map (items_at nextInputs sourceIndex)
      in d\<lparr>diff_added := pushMissing nodeName inputName sourceIndex nextMap prevMap (diff_added d),
           diff_removed := pushMissing nodeName inputName sourceIndex prevMap nextMap (diff_removed d)\<rparr>)"

definition compareInput ::
  "string \<Rightarrow> inode_connections \<Rightarrow> inode_connections \<Rightarrow> node_connection_type
   \<Rightarrow> connections_diff \<Rightarrow> connections_diff" where
  "compareInput nodeName prevNode nextNode inputName d =
     (let prevInputs = (case map_of prevNode inputName of Some i \<Rightarrow> i | None \<Rightarrow> []);
          nextInputs = (case map_of nextNode inputName of Some i \<Rightarrow> i | None \<Rightarrow> [])
      in fold (compareAt nodeName inputName prevInputs nextInputs)
           [0..<max (length prevInputs) (length nextInputs)] d)"

definition compareNode :: "iconnections \<Rightarrow> iconnections \<Rightarrow> string \<Rightarrow> connections_diff \<Rightarrow> connections_diff" where
  "compareNode prev nxt nodeName d =
     (let prevNode = (case map_of prev nodeName of Some bt \<Rightarrow> bt | None \<Rightarrow> []);
          nextNode = (case map_of nxt nodeName of Some bt \<Rightarrow> bt | None \<Rightarrow> [])
      in fold (compareInput nodeName prevNode nextNode)
           (set_from (own_keys prevNode @ own_keys nextNode)) d)"

definition compareConnections :: "iconnections \<Rightarrow> iconnections \<Rightarrow> connections_diff" where
  "compareConnections prev nxt =
     fold (compareNode prev nxt) (set_from (own_keys prev @ own_keys nxt))
       \<lparr>diff_added = [], diff_removed = []\<rparr>"

section \<open>What the difference holds\<close>

definition entries_at :: "connections_by_node \<Rightarrow> string \<Rightarrow> node_connection_type \<Rightarrow> connection_entry list" where
  "entries_at d n t =
     (case map_of d n of None \<Rightarrow> [] | Some bi \<Rightarrow> (case map_of bi t of None \<Rightarrow> [] | Some es \<Rightarrow> es))"

lemma entries_at_push:
  "entries_at (push_entry n t e d) n' t' = entries_at d n' t' @ (if n' = n \<and> t' = t then [e] else [])"
  by (auto simp: entries_at_def push_entry_def Let_def split: option.splits)

text \<open>The entries that one position contributes.\<close>

definition missing_entries :: "nat \<Rightarrow> iconnection list \<Rightarrow> iconnection list \<Rightarrow> connection_entry list" where
  "missing_entries i here there =
     map (\<lambda>(c, idx). \<lparr>entry_source_index = i, entry_index = idx, entry_connection = c\<rparr>)
       (filter (\<lambda>(c, idx). c \<notin> set there) (connection_map here))"

lemma set_keys_connection_map: "set (map_keys (connection_map cs)) = set cs"
proof -
  have "set (map_keys (fold (\<lambda>(idx, c). map_set c idx) xs m)) = snd ` set xs \<union> set (map_keys m)"
    for xs :: "(nat \<times> iconnection) list" and m
    by (induction xs arbitrary: m) (simp_all add: dom_update split_beta)
  moreover have "snd ` set (List.enumerate 0 cs) = set cs"
    unfolding set_map [symmetric] by simp
  ultimately show ?thesis by (simp add: connection_map_def)
qed

lemma map_has_connection_map [simp]: "map_has (connection_map cs) c \<longleftrightarrow> c \<in> set cs"
  using set_keys_connection_map [of cs] by (auto simp: map_has_def map_of_eq_None_iff)

lemma entries_at_pushMissing:
  "entries_at (pushMissing n t i (connection_map here) (connection_map there) d) n' t'
     = entries_at d n' t' @ (if n' = n \<and> t' = t then missing_entries i here there else [])"
proof -
  have "entries_at (pushMissing n t i xs (connection_map there) d) n' t' = entries_at d n' t' @
      (if n' = n \<and> t' = t then map (\<lambda>(c, idx). \<lparr>entry_source_index = i, entry_index = idx, entry_connection = c\<rparr>)
         (filter (\<lambda>(c, idx). c \<notin> set there) xs) else [])" for xs
    unfolding pushMissing_def by (induction xs arbitrary: d) (auto simp: entries_at_push)
  then show ?thesis by (simp add: missing_entries_def)
qed

text \<open>A fold whose steps append to what is read appends them all.\<close>

lemma fold_appends:
  "(\<And>x s. x \<in> set xs \<Longrightarrow> rd (f x s) = rd s @ add x) \<Longrightarrow> rd (fold f xs s) = rd s @ concat (map add xs)"
  by (induction xs arbitrary: s) auto

lemma concat_if_eq:
  "distinct xs \<Longrightarrow> concat (map (\<lambda>x. if n = x then f x else []) xs) = (if n \<in> set xs then f n else [])"
  by (induction xs) auto

definition inputs_at :: "iconnections \<Rightarrow> string \<Rightarrow> node_connection_type \<Rightarrow> node_input_connections" where
  "inputs_at cs n t =
     (case map_of cs n of None \<Rightarrow> [] | Some bt \<Rightarrow> (case map_of bt t of None \<Rightarrow> [] | Some outs \<Rightarrow> outs))"

definition all_missing ::
  "node_input_connections \<Rightarrow> node_input_connections \<Rightarrow> connection_entry list" where
  "all_missing here there =
     concat (map (\<lambda>i. missing_entries i (items_at here i) (items_at there i))
       [0..<max (length here) (length there)])"

lemma entries_at_compareAt:
  "entries_at (diff_added (compareAt n t ps ns i d)) n' t' = entries_at (diff_added d) n' t' @
     (if n' = n \<and> t' = t then missing_entries i (items_at ns i) (items_at ps i) else [])"
  "entries_at (diff_removed (compareAt n t ps ns i d)) n' t' = entries_at (diff_removed d) n' t' @
     (if n' = n \<and> t' = t then missing_entries i (items_at ps i) (items_at ns i) else [])"
  by (simp_all add: compareAt_def Let_def entries_at_pushMissing)

lemma entries_at_compareInput:
  "entries_at (diff_added (compareInput n pn nn t d)) n' t' = entries_at (diff_added d) n' t' @
     (if n' = n \<and> t' = t then all_missing (case map_of nn t of Some i \<Rightarrow> i | None \<Rightarrow> [])
        (case map_of pn t of Some i \<Rightarrow> i | None \<Rightarrow> []) else [])"
  "entries_at (diff_removed (compareInput n pn nn t d)) n' t' = entries_at (diff_removed d) n' t' @
     (if n' = n \<and> t' = t then all_missing (case map_of pn t of Some i \<Rightarrow> i | None \<Rightarrow> [])
        (case map_of nn t of Some i \<Rightarrow> i | None \<Rightarrow> []) else [])"
proof -
  define ps where "ps = (case map_of pn t of Some i \<Rightarrow> i | None \<Rightarrow> [])"
  define ns where "ns = (case map_of nn t of Some i \<Rightarrow> i | None \<Rightarrow> [])"
  have def: "compareInput n pn nn t d = fold (compareAt n t ps ns) [0..<max (length ps) (length ns)] d"
    by (simp add: compareInput_def ps_def ns_def Let_def)
  have added: "entries_at (diff_added (fold (compareAt n t ps ns) xs d)) n' t' = entries_at (diff_added d) n' t' @
      concat (map (\<lambda>i. if n' = n \<and> t' = t then missing_entries i (items_at ns i) (items_at ps i) else []) xs)"
    for xs
    by (rule fold_appends [where rd = "\<lambda>d. entries_at (diff_added d) n' t'"]) (rule entries_at_compareAt)
  have removed: "entries_at (diff_removed (fold (compareAt n t ps ns) xs d)) n' t' = entries_at (diff_removed d) n' t' @
      concat (map (\<lambda>i. if n' = n \<and> t' = t then missing_entries i (items_at ps i) (items_at ns i) else []) xs)"
    for xs
    by (rule fold_appends [where rd = "\<lambda>d. entries_at (diff_removed d) n' t'"]) (rule entries_at_compareAt)
  show "entries_at (diff_added (compareInput n pn nn t d)) n' t' = entries_at (diff_added d) n' t' @
     (if n' = n \<and> t' = t then all_missing (case map_of nn t of Some i \<Rightarrow> i | None \<Rightarrow> [])
        (case map_of pn t of Some i \<Rightarrow> i | None \<Rightarrow> []) else [])"
    unfolding def added ps_def [symmetric] ns_def [symmetric] all_missing_def by (simp add: max.commute)
  show "entries_at (diff_removed (compareInput n pn nn t d)) n' t' = entries_at (diff_removed d) n' t' @
     (if n' = n \<and> t' = t then all_missing (case map_of pn t of Some i \<Rightarrow> i | None \<Rightarrow> [])
        (case map_of nn t of Some i \<Rightarrow> i | None \<Rightarrow> []) else [])"
    unfolding def removed ps_def [symmetric] ns_def [symmetric] all_missing_def by simp
qed

lemma all_missing_Nil [simp]: "all_missing [] x = []"
proof -
  have "missing_entries i (items_at [] i) ys = []" for i ys
    by (simp add: missing_entries_def items_at_def arr_item_def connection_map_def)
  then show ?thesis by (simp add: all_missing_def)
qed

lemma entries_at_compareNode:
  "entries_at (diff_added (compareNode p x n d)) n' t = entries_at (diff_added d) n' t @
     (if n' = n then all_missing (inputs_at x n t) (inputs_at p n t) else [])"
  "entries_at (diff_removed (compareNode p x n d)) n' t = entries_at (diff_removed d) n' t @
     (if n' = n then all_missing (inputs_at p n t) (inputs_at x n t) else [])"
proof -
  define pn where "pn = (case map_of p n of Some bt \<Rightarrow> bt | None \<Rightarrow> [])"
  define nn where "nn = (case map_of x n of Some bt \<Rightarrow> bt | None \<Rightarrow> [])"
  define ks where "ks = set_from (own_keys pn @ own_keys nn)"
  have def: "compareNode p x n d = fold (compareInput n pn nn) ks d"
    by (simp add: compareNode_def pn_def nn_def ks_def Let_def)
  have ins: "inputs_at p n t = (case map_of pn t of Some i \<Rightarrow> i | None \<Rightarrow> [])"
    "inputs_at x n t = (case map_of nn t of Some i \<Rightarrow> i | None \<Rightarrow> [])" for t
    by (auto simp: inputs_at_def pn_def nn_def split: option.splits)
  have outside: "inputs_at p n t = []" "inputs_at x n t = []" if "t \<notin> set ks"
  proof -
    have "map_of pn t = None" "map_of nn t = None"
      using that by (simp_all add: ks_def map_of_eq_None_iff)
    then show "inputs_at p n t = []" "inputs_at x n t = []" by (simp_all add: ins)
  qed
  have "distinct ks" by (simp add: ks_def)
  then have pick: "concat (map (\<lambda>u. if n' = n \<and> t = u then f u else []) ks) = (if n' = n \<and> t \<in> set ks then f t else [])"
    for f :: "string \<Rightarrow> connection_entry list"
    using concat_if_eq [of ks t f] by (cases "n' = n") simp_all
  have added: "entries_at (diff_added (fold (compareInput n pn nn) ks d)) n' t = entries_at (diff_added d) n' t @
      concat (map (\<lambda>u. if n' = n \<and> t = u then all_missing (inputs_at x n u) (inputs_at p n u) else []) ks)"
    unfolding ins
    by (rule fold_appends [where rd = "\<lambda>d. entries_at (diff_added d) n' t"]) (rule entries_at_compareInput)
  have removed: "entries_at (diff_removed (fold (compareInput n pn nn) ks d)) n' t = entries_at (diff_removed d) n' t @
      concat (map (\<lambda>u. if n' = n \<and> t = u then all_missing (inputs_at p n u) (inputs_at x n u) else []) ks)"
    unfolding ins
    by (rule fold_appends [where rd = "\<lambda>d. entries_at (diff_removed d) n' t"]) (rule entries_at_compareInput)
  show "entries_at (diff_added (compareNode p x n d)) n' t = entries_at (diff_added d) n' t @
     (if n' = n then all_missing (inputs_at x n t) (inputs_at p n t) else [])"
    using outside unfolding def added pick by simp
  show "entries_at (diff_removed (compareNode p x n d)) n' t = entries_at (diff_removed d) n' t @
     (if n' = n then all_missing (inputs_at p n t) (inputs_at x n t) else [])"
    using outside unfolding def removed pick by simp
qed

lemma compareConnections_spec:
  "entries_at (diff_added (compareConnections p x)) n t = all_missing (inputs_at x n t) (inputs_at p n t)"
  "entries_at (diff_removed (compareConnections p x)) n t = all_missing (inputs_at p n t) (inputs_at x n t)"
proof -
  define ks where "ks = set_from (own_keys p @ own_keys x)"
  have outside: "inputs_at p n t = []" "inputs_at x n t = []" if "n \<notin> set ks"
  proof -
    have "map_of p n = None" "map_of x n = None"
      using that by (simp_all add: ks_def map_of_eq_None_iff)
    then show "inputs_at p n t = []" "inputs_at x n t = []" by (simp_all add: inputs_at_def)
  qed
  have "distinct ks" by (simp add: ks_def)
  note pick = concat_if_eq [OF this, of n]
  have empty: "entries_at [] n t = []" by (simp add: entries_at_def)
  have added: "entries_at (diff_added (fold (compareNode p x) ks d)) n t = entries_at (diff_added d) n t @
      concat (map (\<lambda>m. if n = m then all_missing (inputs_at x m t) (inputs_at p m t) else []) ks)" for d
    by (rule fold_appends [where rd = "\<lambda>d. entries_at (diff_added d) n t"]) (rule entries_at_compareNode)
  have removed: "entries_at (diff_removed (fold (compareNode p x) ks d)) n t = entries_at (diff_removed d) n t @
      concat (map (\<lambda>m. if n = m then all_missing (inputs_at p m t) (inputs_at x m t) else []) ks)" for d
    by (rule fold_appends [where rd = "\<lambda>d. entries_at (diff_removed d) n t"]) (rule entries_at_compareNode)
  show "entries_at (diff_added (compareConnections p x)) n t = all_missing (inputs_at x n t) (inputs_at p n t)"
    using outside unfolding compareConnections_def ks_def [symmetric] added pick by (simp add: empty)
  show "entries_at (diff_removed (compareConnections p x)) n t = all_missing (inputs_at p n t) (inputs_at x n t)"
    using outside unfolding compareConnections_def ks_def [symmetric] removed pick by (simp add: empty)
qed

text \<open>As sets: a connection counts as added at a place if the new workflow has it there and the
  old one does not.\<close>

lemma set_missing_entries:
  "entry_connection ` set (missing_entries i here there) = set here - set there"
  using set_keys_connection_map [of here] by (force simp: missing_entries_def image_iff)

lemma mem_all_missing:
  "(\<exists>e \<in> set (all_missing here there). entry_source_index e = i \<and> entry_connection e = c)
     \<longleftrightarrow> c \<in> set (items_at here i) - set (items_at there i)"
proof -
  have idx: "entry_source_index e = j" if "e \<in> set (missing_entries j xs ys)" for e j xs ys
    using that by (auto simp: missing_entries_def)
  have out: "items_at here i = []" if "\<not> i < max (length here) (length there)"
    using that by (auto simp: items_at_def arr_item_def)
  have "(\<exists>e \<in> set (all_missing here there). entry_source_index e = i \<and> entry_connection e = c)
      \<longleftrightarrow> i < max (length here) (length there)
        \<and> c \<in> entry_connection ` set (missing_entries i (items_at here i) (items_at there i))"
    using idx by (fastforce simp: all_missing_def image_iff)
  then show ?thesis
    using out unfolding set_missing_entries by (cases "i < max (length here) (length there)") simp_all
qed

end
