(* ===== verification/Extractable.thy ===== *)
theory Extractable
  imports Connection_Maps
begin

text \<open>
  \<open>packages/workflow/src/graph/graph-utils.ts\<close>: whether a selection of nodes can be extracted into a
  workflow of its own. An adjacency list maps a node to the set of its outgoing connections; the
  members of that set are objects that differ by identity, so it is a list here.
\<close>

section \<open>The code\<close>

type_synonym adjacency_list = "(string \<times> iconnection list) list"

datatype extractable_error =
    MultipleInputNodes "string list"
  | MultipleOutputNodes "string list"
  | InputEdgeToNonRootNode string
  | OutputEdgeFromNonLeafNode string
  | NoContinuousPathFromRootToLeaf string string

definition adjacent :: "adjacency_list \<Rightarrow> string \<Rightarrow> iconnection list" where
  "adjacent adj n = (case map_of adj n of Some cs \<Rightarrow> cs | None \<Rightarrow> [])"

definition getInputEdges :: "string list \<Rightarrow> adjacency_list \<Rightarrow> (string \<times> iconnection) list" where
  "getInputEdges graphIds adj =
     concat (map (\<lambda>(from, tos). if from \<in> set graphIds then []
               else map (\<lambda>c. (from, c)) (filter (\<lambda>c. conn_node c \<in> set graphIds) tos)) adj)"

definition getOutputEdges :: "string list \<Rightarrow> adjacency_list \<Rightarrow> (string \<times> iconnection) list" where
  "getOutputEdges graphIds adj =
     concat (map (\<lambda>(from, tos). if from \<notin> set graphIds then []
               else map (\<lambda>c. (from, c)) (filter (\<lambda>c. conn_node c \<notin> set graphIds) tos)) adj)"

definition intersection :: "'a list \<Rightarrow> 'a list \<Rightarrow> 'a list" where
  "intersection a b = fold (\<lambda>x result. if x \<in> set b then set_add x result else result) a []"

definition set_union :: "'a list \<Rightarrow> 'a list \<Rightarrow> 'a list" where
  "set_union a b = fold set_add b (fold set_add a [])"

definition difference :: "'a list \<Rightarrow> 'a list \<Rightarrow> 'a list" where
  "difference minuend subtrahend = fold set_delete subtrahend (set_from minuend)"

text \<open>The targets of the \<open>main\<close> connections to other nodes.\<close>

definition otherMainTargets :: "adjacency_list \<Rightarrow> string \<Rightarrow> string list" where
  "otherMainTargets adj nodeId =
     set_from (map conn_node
       (filter (\<lambda>c. conn_type c = Main_type \<and> conn_node c \<noteq> nodeId) (adjacent adj nodeId)))"

definition getRootNodes :: "string list \<Rightarrow> adjacency_list \<Rightarrow> string list" where
  "getRootNodes graphIds adj =
     difference graphIds
       (fold (\<lambda>nodeId innerNodes. set_union innerNodes (otherMainTargets adj nodeId)) graphIds [])"

definition getLeafNodes :: "string list \<Rightarrow> adjacency_list \<Rightarrow> string list" where
  "getLeafNodes graphIds adj =
     fold (\<lambda>nodeId result.
       if length (intersection (otherMainTargets adj nodeId) graphIds) = 0
       then set_add nodeId result else result) graphIds []"

text \<open>\<open>hasPath\<close>: the last element of \<open>paths\<close> is the head of \<open>stack\<close>.\<close>

definition mainTargets :: "adjacency_list \<Rightarrow> string \<Rightarrow> string list" where
  "mainTargets adj n =
     set_from (map conn_node (filter (\<lambda>c. conn_type c = Main_type) (adjacent adj n)))"

function hasPathLoop :: "adjacency_list \<Rightarrow> string \<Rightarrow> string list \<Rightarrow> string list \<Rightarrow> bool" where
  "hasPathLoop adj end_node seen [] = False"
| "hasPathLoop adj end_node seen (next_node # stack) =
     (if next_node = end_node then True
      else hasPathLoop adj end_node (set_add next_node seen)
             (rev (difference (mainTargets adj next_node) (set_add next_node seen)) @ stack))"
  by pat_completeness auto

lemma set_fold_delete [simp]: "set (fold set_delete ys xs) = set xs - set ys"
  by (induction ys arbitrary: xs) auto

lemma set_difference [simp]: "set (difference a b) = set a - set b"
  by (simp add: difference_def)

lemma set_mainTargets:
  "set (mainTargets adj n) = {conn_node c | c. c \<in> set (adjacent adj n) \<and> conn_type c = Main_type}"
  by (auto simp: mainTargets_def)

abbreviation all_targets :: "adjacency_list \<Rightarrow> string set" where
  "all_targets adj \<equiv> conn_node ` \<Union>(set ` snd ` set adj)"

lemma mainTargets_subset: "set (mainTargets adj n) \<subseteq> all_targets adj"
proof (cases "map_of adj n")
  case (Some cs)
  then have "(n, cs) \<in> set adj" by (rule map_of_SomeD)
  with Some show ?thesis by (force simp: set_mainTargets adjacent_def)
qed (simp add: set_mainTargets adjacent_def)

termination hasPathLoop
proof (relation "measures
    [\<lambda>(adj, e, seen, stack). card (set stack \<union> all_targets adj - set seen),
     \<lambda>(adj, e, seen, stack). length (filter (\<lambda>n. n \<in> set seen) stack)]", goal_cases)
  case 1
  show ?case by simp
next
  case (2 adj e seen n stack)
  let ?new = "difference (mainTargets adj n) (set_add n seen)"
  have fin: "finite (all_targets adj)" by simp
  have sub: "set (rev ?new @ stack) \<union> all_targets adj - set (set_add n seen)
      \<subseteq> set (n # stack) \<union> all_targets adj - set seen"
    using mainTargets_subset [of adj n] by auto
  have fresh: "filter (\<lambda>x. x \<in> set (set_add n seen)) ?new = []"
    by (auto simp: filter_empty_conv)
  show ?case
  proof (cases "n \<in> set seen")
    case True
    then have "set_add n seen = seen" by (simp add: set_add_def)
    with sub fresh True card_mono [OF _ sub] show ?thesis
      by (auto simp: rev_filter [symmetric] le_less simp del: Un_iff)
  next
    case False
    have "set (rev ?new @ stack) \<union> all_targets adj - set (set_add n seen)
        \<subset> set (n # stack) \<union> all_targets adj - set seen"
      using sub False by auto
    then have "card (set (rev ?new @ stack) \<union> all_targets adj - set (set_add n seen))
        < card (set (n # stack) \<union> all_targets adj - set seen)"
      by (intro psubset_card_mono) auto
    then show ?thesis by simp
  qed
qed

definition hasPath :: "string \<Rightarrow> string \<Rightarrow> adjacency_list \<Rightarrow> bool" where
  "hasPath start end_node adj = hasPathLoop adj end_node [] [start]"

definition buildAdjacencyList :: "iconnections \<Rightarrow> adjacency_list" where
  "buildAdjacencyList connectionsBySourceNode =
     fold (\<lambda>(sourceNode, type, i, c) result. map_set sourceNode (adjacent result sourceNode @ [c]) result)
       (stored_connections connectionsBySourceNode) []"

definition first_of :: "'a list \<Rightarrow> 'a option" where
  "first_of xs = (case xs of [] \<Rightarrow> None | x # _ \<Rightarrow> Some x)"

definition parseExtractableSubgraphSelection ::
  "string list \<Rightarrow> adjacency_list \<Rightarrow> extractable_error list + string option \<times> string option" where
  "parseExtractableSubgraphSelection graphIds adj =
     (let inputNodes = set_from (map (\<lambda>x. conn_node (snd x))
            (filter (\<lambda>x. conn_type (snd x) = Main_type) (getInputEdges graphIds adj)));
          rootNodes = getRootNodes graphIds adj;
          rootNodes = (if length rootNodes = 0 \<and> length inputNodes = 1 then inputNodes else rootNodes);
          errors = map InputEdgeToNonRootNode (difference inputNodes rootNodes);
          rootInputNodes = intersection rootNodes inputNodes;
          errors = errors @ (if length rootInputNodes > 1 then [MultipleInputNodes rootInputNodes] else []);
          outputNodes = set_from (map fst
            (filter (\<lambda>x. conn_type (snd x) = Main_type) (getOutputEdges graphIds adj)));
          leafNodes = getLeafNodes graphIds adj;
          leafNodes = (if length leafNodes = 0 \<and> length outputNodes = 1 then outputNodes else leafNodes);
          errors = errors @ map OutputEdgeFromNonLeafNode (difference outputNodes leafNodes);
          leafOutputNodes = intersection leafNodes outputNodes;
          errors = errors @ (if length leafOutputNodes > 1 then [MultipleOutputNodes leafOutputNodes] else []);
          start = first_of rootInputNodes;
          end_node = first_of leafOutputNodes;
          errors = errors @ (case (start, end_node) of
             (Some s, Some e) \<Rightarrow>
               if s \<noteq> [] \<and> e \<noteq> [] \<and> \<not> hasPath s e adj then [NoContinuousPathFromRootToLeaf s e] else []
           | _ \<Rightarrow> [])
      in if length errors > 0 then Inl errors else Inr (start, end_node))"

section \<open>Paths\<close>

definition main_rel :: "adjacency_list \<Rightarrow> string rel" where
  "main_rel adj = {(n, m). \<exists>c \<in> set (adjacent adj n). conn_type c = Main_type \<and> conn_node c = m}"

lemma main_rel_Image: "main_rel adj `` {n} = set (mainTargets adj n)"
  by (auto simp: main_rel_def set_mainTargets)

lemma hasPathLoop_spec:
  assumes "end_node \<notin> set seen" and "\<And>x. x \<in> set seen \<Longrightarrow> main_rel adj `` {x} \<subseteq> set seen \<union> set stack"
  shows "hasPathLoop adj end_node seen stack
     \<longleftrightarrow> (\<exists>p \<in> set stack \<union> set seen. (p, end_node) \<in> (main_rel adj)\<^sup>*)"
  using assms
proof (induction adj end_node seen stack rule: hasPathLoop.induct)
  case (1 adj e seen)
  have "y \<in> set seen" if "p \<in> set seen" "(p, y) \<in> (main_rel adj)\<^sup>*" for p y
    using that(2) by (induction rule: rtrancl_induct) (use that(1) 1(2) in auto)
  with 1(1) show ?case by auto
next
  case (2 adj e seen n stack)
  show ?case
  proof (cases "n = e")
    case False
    let ?seen = "set_add n seen" and ?stack = "rev (difference (mainTargets adj n) (set_add n seen)) @ stack"
    have "main_rel adj `` {x} \<subseteq> set ?seen \<union> set ?stack" if "x \<in> set ?seen" for x
      using that 2(3) [of x] main_rel_Image [of adj n] by (cases "x = n") auto
    with 2(1) [OF False] 2(2) False
    have "hasPathLoop adj e seen (n # stack) \<longleftrightarrow> (\<exists>p \<in> set ?stack \<union> set ?seen. (p, e) \<in> (main_rel adj)\<^sup>*)"
      by simp
    also have "\<dots> \<longleftrightarrow> (\<exists>p \<in> set (n # stack) \<union> set seen. (p, e) \<in> (main_rel adj)\<^sup>*)"
      using main_rel_Image [of adj n] by (auto intro: converse_rtrancl_into_rtrancl)
    finally show ?thesis .
  qed simp
qed

lemma hasPath_spec: "hasPath start end_node adj \<longleftrightarrow> (start, end_node) \<in> (main_rel adj)\<^sup>*"
  using hasPathLoop_spec [of end_node "[]" adj "[start]"] by (simp add: hasPath_def)

lemma set_intersection [simp]: "set (intersection a b) = set a \<inter> set b"
proof -
  have "set (fold (\<lambda>x r. if x \<in> set b then set_add x r else r) a acc) = (set a \<inter> set b) \<union> set acc" for acc
    by (induction a arbitrary: acc) auto
  then show ?thesis by (simp add: intersection_def)
qed

lemma set_set_union [simp]: "set (set_union a b) = set a \<union> set b"
  by (auto simp: set_union_def)

lemma distinct_intersection: "distinct (intersection a b)"
proof -
  have "distinct acc \<Longrightarrow> distinct (fold (\<lambda>x r. if x \<in> set b then set_add x r else r) a acc)" for acc
    by (induction a arbitrary: acc) auto
  then show ?thesis by (simp add: intersection_def)
qed

section \<open>What an accepted selection looks like\<close>

definition input_nodes :: "string set \<Rightarrow> adjacency_list \<Rightarrow> string set" where
  "input_nodes G adj = {m \<in> G. \<exists>n. n \<notin> G \<and> (n, m) \<in> main_rel adj}"

definition output_nodes :: "string set \<Rightarrow> adjacency_list \<Rightarrow> string set" where
  "output_nodes G adj = {n \<in> G. \<exists>m. m \<notin> G \<and> (n, m) \<in> main_rel adj}"

lemma mem_adjacent:
  assumes d: "distinct (map_keys adj)"
  shows "c \<in> set (adjacent adj n) \<longleftrightarrow> (\<exists>cs. (n, cs) \<in> set adj \<and> c \<in> set cs)"
proof (cases "map_of adj n")
  case None
  then have "(n, cs) \<notin> set adj" for cs
    using d by (metis map_of_eq_Some_iff option.distinct(1))
  with None show ?thesis by (simp add: adjacent_def)
next
  case (Some cs)
  then have "(n, cs') \<in> set adj \<longleftrightarrow> cs' = cs" for cs'
    using d by (metis map_of_eq_Some_iff option.inject)
  with Some show ?thesis by (simp add: adjacent_def)
qed

lemma set_getInputEdges:
  "distinct (map_keys adj) \<Longrightarrow> (n, c) \<in> set (getInputEdges G adj)
     \<longleftrightarrow> n \<notin> set G \<and> c \<in> set (adjacent adj n) \<and> conn_node c \<in> set G"
  unfolding mem_adjacent by (force simp: getInputEdges_def)

lemma set_getOutputEdges:
  "distinct (map_keys adj) \<Longrightarrow> (n, c) \<in> set (getOutputEdges G adj)
     \<longleftrightarrow> n \<in> set G \<and> c \<in> set (adjacent adj n) \<and> conn_node c \<notin> set G"
  unfolding mem_adjacent by (force simp: getOutputEdges_def)

lemma path_stays_inside:
  assumes "(s, e) \<in> R\<^sup>*" and "s \<in> G" and "\<And>n m. (n, m) \<in> R \<Longrightarrow> n \<in> G \<Longrightarrow> m \<notin> G \<Longrightarrow> n = e"
  shows "(s, e) \<in> (R \<inter> G \<times> G)\<^sup>*"
proof -
  have "(x \<in> G \<and> (s, x) \<in> (R \<inter> G \<times> G)\<^sup>*) \<or> (s, e) \<in> (R \<inter> G \<times> G)\<^sup>*" if "(s, x) \<in> R\<^sup>*" for x
    using that
  proof (induction rule: rtrancl_induct)
    case base
    with assms(2) show ?case by simp
  next
    case (step y z)
    show ?case
    proof (cases "y \<in> G \<and> z \<in> G")
      case True
      with step show ?thesis by (auto intro: rtrancl_into_rtrancl)
    next
      case False
      with step assms(3) show ?thesis by auto
    qed
  qed
  from this [OF assms(1)] show ?thesis by blast
qed

lemma single_first:
  assumes "distinct xs" and "\<not> 1 < length xs"
  shows "set xs = set_option (first_of xs)"
proof (cases xs)
  case (Cons x ys)
  with assms show ?thesis by (cases ys) (auto simp: first_of_def)
qed (simp add: first_of_def)

lemma parseExtractableSubgraphSelection_accepts:
  assumes adj: "distinct (map_keys adj)"
    and ok: "parseExtractableSubgraphSelection G adj = Inr (start, end_node)"
  shows "input_nodes (set G) adj = set_option start \<and> output_nodes (set G) adj = set_option end_node
     \<and> (\<forall>s e. start = Some s \<and> end_node = Some e \<and> s \<noteq> [] \<and> e \<noteq> [] \<longrightarrow>
          (s, e) \<in> (main_rel adj \<inter> set G \<times> set G)\<^sup>*)"
proof -
  define ins where "ins = set_from (map (\<lambda>x. conn_node (snd x))
            (filter (\<lambda>x. conn_type (snd x) = Main_type) (getInputEdges G adj)))"
  define outs where "outs = set_from (map fst
            (filter (\<lambda>x. conn_type (snd x) = Main_type) (getOutputEdges G adj)))"
  define roots where "roots = (if length (getRootNodes G adj) = 0 \<and> length ins = 1 then ins else getRootNodes G adj)"
  define leaves where "leaves = (if length (getLeafNodes G adj) = 0 \<and> length outs = 1 then outs else getLeafNodes G adj)"
  from ok have res: "start = first_of (intersection roots ins)" "end_node = first_of (intersection leaves outs)"
    "difference ins roots = []" "\<not> 1 < length (intersection roots ins)"
    "difference outs leaves = []" "\<not> 1 < length (intersection leaves outs)"
    and path: "\<And>s e. start = Some s \<Longrightarrow> end_node = Some e \<Longrightarrow> s \<noteq> [] \<Longrightarrow> e \<noteq> [] \<Longrightarrow> hasPath s e adj"
    unfolding parseExtractableSubgraphSelection_def Let_def
      ins_def [symmetric] outs_def [symmetric] roots_def [symmetric] leaves_def [symmetric]
    by (auto split: if_splits)
  have "m \<in> set ins \<longleftrightarrow> m \<in> input_nodes (set G) adj" for m
    unfolding ins_def input_nodes_def main_rel_def set_set_from set_map set_filter image_iff
    by (simp add: set_getInputEdges [OF adj] split_beta) blast
  then have ins: "set ins = input_nodes (set G) adj" by blast
  have "n \<in> set outs \<longleftrightarrow> n \<in> output_nodes (set G) adj" for n
    unfolding outs_def output_nodes_def main_rel_def set_set_from set_map set_filter image_iff
    by (simp add: set_getOutputEdges [OF adj] split_beta) blast
  then have outs: "set outs = output_nodes (set G) adj" by blast
  have "set ins \<subseteq> set roots" using res(3) by (metis Diff_eq_empty_iff list.set(1) set_difference)
  then have start: "set_option start = set ins"
    using single_first [OF distinct_intersection res(4)] res(1) by auto
  have "set outs \<subseteq> set leaves" using res(5) by (metis Diff_eq_empty_iff list.set(1) set_difference)
  then have end_n: "set_option end_node = set outs"
    using single_first [OF distinct_intersection res(6)] res(2) by auto
  have "(s, e) \<in> (main_rel adj \<inter> set G \<times> set G)\<^sup>*"
    if s: "start = Some s" and e: "end_node = Some e" and ne: "s \<noteq> []" "e \<noteq> []" for s e
  proof (rule path_stays_inside)
    show "(s, e) \<in> (main_rel adj)\<^sup>*" using path [OF s e ne] by (simp add: hasPath_spec)
    have "s \<in> input_nodes (set G) adj" using start s unfolding ins [symmetric] by auto
    then show "s \<in> set G" by (simp add: input_nodes_def)
    show "n = e" if "(n, m) \<in> main_rel adj" "n \<in> set G" "m \<notin> set G" for n m
    proof -
      have "n \<in> output_nodes (set G) adj" using that unfolding output_nodes_def by blast
      then show "n = e" using end_n e unfolding outs [symmetric] by auto
    qed
  qed
  moreover from start ins have "input_nodes (set G) adj = set_option start" by simp
  moreover from end_n outs have "output_nodes (set G) adj = set_option end_node" by simp
  ultimately show ?thesis by simp
qed

section \<open>The adjacency list of a workflow\<close>

lemma adjacent_map_set: "adjacent (map_set k cs adj) n = (if n = k then cs else adjacent adj n)"
  by (simp add: adjacent_def)

lemma buildAdjacencyList_spec:
  "distinct (map_keys (buildAdjacencyList cs))
   \<and> adjacent (buildAdjacencyList cs) n
      = map (\<lambda>(s, t, i, c). c) (filter (\<lambda>(s, t, i, c). s = n) (stored_connections cs))"
proof -
  let ?f = "\<lambda>(s, t :: node_connection_type, i :: nat, c) result. map_set s (adjacent result s @ [c]) result"
  have "distinct (map_keys (fold ?f xs m)) \<and> adjacent (fold ?f xs m) n
      = adjacent m n @ map (\<lambda>(s, t, i, c). c) (filter (\<lambda>(s, t, i, c). s = n) xs)"
    if "distinct (map_keys m)" for xs :: "stored_connection list" and m
    using that
  proof (induction xs arbitrary: m)
    case (Cons x xs)
    obtain s t i c where x: "x = (s, t, i, c)" by (cases x)
    from Cons.IH [of "?f x m"] Cons.prems show ?case
      by (auto simp: x adjacent_map_set AList.distinct_update)
  qed simp
  from this [of "[]" "stored_connections cs"] show ?thesis
    by (simp add: buildAdjacencyList_def adjacent_def)
qed

lemma main_rel_buildAdjacencyList:
  assumes "wf_iconnections cs"
  shows "(n, m) \<in> main_rel (buildAdjacencyList cs)
     \<longleftrightarrow> (\<exists>t i c. c \<in> set (conns_at cs n t i) \<and> conn_type c = Main_type \<and> conn_node c = m)"
  unfolding main_rel_def conjunct2 [OF buildAdjacencyList_spec]
  using set_stored_connections [OF assms] by fastforce

end
