(* ===== verification/Workflow_Properties.thy ===== *)
theory Workflow_Properties
  imports Connected_Nodes Extractable
begin

text \<open>The properties of the functions over a workflow's nested connections, each with a witness
  where it has a hypothesis.\<close>

section \<open>Fixtures\<close>

definition to_main :: "string \<Rightarrow> nat \<Rightarrow> iconnection" where
  "to_main n i = \<lparr>conn_node = n, conn_type = Main_type, conn_index = i\<rparr>"

text \<open>\<open>Trigger \<rightarrow> A \<rightarrow> B \<rightarrow> C\<close>, where \<open>B\<close> also leads back to \<open>A\<close>.\<close>

definition sample_connections :: iconnections where
  "sample_connections =
     [(''Trigger'', [(Main_type, [Some [to_main ''A'' 0]])]),
      (''A'', [(Main_type, [None, Some [to_main ''B'' 1]])]),
      (''B'', [(Main_type, [Some [to_main ''C'' 0, to_main ''A'' 0]])])]"

lemma wf_sample_connections: "wf_iconnections sample_connections"
  by code_simp

section \<open>Nodes connected to a node\<close>

text \<open>C18: \<open>getConnectedNodes\<close> terminates, also on cyclic workflows, and lists each node that the
  allowed number of hops reaches exactly once, without the node itself. With the default depth
  these are all nodes reachable by one or more connections.\<close>

theorem getConnectedNodes_correct:
  "distinct (getConnectedNodes cs n ct d)
   \<and> set (getConnectedNodes cs n ct d) = reached (hop ct cs) (hops_allowed d) n - {n}
   \<and> set (getConnectedNodes cs n ct (- 1)) = (hop ct cs)\<^sup>+ `` {n} - {n}"
  using getConnectedNodes_spec [of cs n ct d] getConnectedNodes_spec [of cs n ct "- 1"]
  by (simp add: hops_allowed_def reached_infinity)

section \<open>Connections by destination\<close>

text \<open>C19: \<open>mapConnectionsByDestination\<close> loses and invents no connection: a connection is listed
  at its destination exactly when it is stored at its source, and mapping the result again gives
  the connections of every output back.\<close>

theorem mapConnectionsByDestination_roundtrip:
  assumes "wf_iconnections cs"
  shows "wf_iconnections (mapConnectionsByDestination cs)
   \<and> (e \<in> set (conns_at (mapConnectionsByDestination cs) n u j)
        \<longleftrightarrow> \<lparr>conn_node = n, conn_type = u, conn_index = j\<rparr>
              \<in> set (conns_at cs (conn_node e) (conn_type e) (conn_index e)))
   \<and> set (conns_at (mapConnectionsByDestination (mapConnectionsByDestination cs)) s t i)
       = set (conns_at cs s t i)"
  using mapConnectionsByDestination_spec mapConnectionsByDestination_mem [OF assms]
    mapConnectionsByDestination_twice [OF assms] by blast

theorem mapConnectionsByDestination_roundtrip_witness:
  "to_main ''A'' 1 \<in> set (conns_at (mapConnectionsByDestination sample_connections) ''B'' Main_type 1)
   \<and> set (conns_at (mapConnectionsByDestination (mapConnectionsByDestination sample_connections)) ''B'' Main_type 0)
       = {to_main ''C'' 0, to_main ''A'' 0}"
proof -
  have "\<lparr>conn_node = ''B'', conn_type = Main_type, conn_index = 1\<rparr>
          \<in> set (conns_at sample_connections ''A'' Main_type 1)"
    and "set (conns_at sample_connections ''B'' Main_type 0) = {to_main ''C'' 0, to_main ''A'' 0}"
    by code_simp+
  with mapConnectionsByDestination_roundtrip
    [OF wf_sample_connections, of "to_main ''A'' 1" "''B''" Main_type 1 "''B''" Main_type 0]
  show ?thesis by (simp add: to_main_def)
qed

section \<open>The difference of two workflows\<close>

lemma items_at_inputs_at: "items_at (inputs_at cs n t) i = conns_at cs n t i"
  by (simp add: inputs_at_def conns_at_def items_at_def arr_item_def split: option.split)

text \<open>\<open>compareConnections\<close> reports a connection as added at a source, type and output
  exactly when the new workflow has it there and the old one does not, as removed exactly when it
  is the other way round, and comparing in the other direction exchanges the two reports.\<close>

lemma compareConnections_correct:
  "((\<exists>e \<in> set (entries_at (diff_added (compareConnections prev nxt)) n t).
        entry_source_index e = i \<and> entry_connection e = c)
      \<longleftrightarrow> c \<in> set (conns_at nxt n t i) \<and> c \<notin> set (conns_at prev n t i))
   \<and> ((\<exists>e \<in> set (entries_at (diff_removed (compareConnections prev nxt)) n t).
        entry_source_index e = i \<and> entry_connection e = c)
      \<longleftrightarrow> c \<in> set (conns_at prev n t i) \<and> c \<notin> set (conns_at nxt n t i))
   \<and> entries_at (diff_added (compareConnections nxt prev)) n t
       = entries_at (diff_removed (compareConnections prev nxt)) n t"
  unfolding compareConnections_spec mem_all_missing items_at_inputs_at by simp

section \<open>Extracting a selection\<close>

text \<open>\<open>hasPath\<close> terminates on every adjacency list and answers whether the end can be
  reached from the start by \<open>main\<close> connections; on the adjacency list of a workflow these are the
  connections that the workflow stores at the source.\<close>

lemma hasPath_correct:
  assumes "wf_iconnections cs"
  shows "hasPath start end_node (buildAdjacencyList cs) \<longleftrightarrow>
     (start, end_node) \<in> {(n, m). \<exists>t i c. c \<in> set (conns_at cs n t i)
        \<and> conn_type c = Main_type \<and> conn_node c = m}\<^sup>*"
proof -
  have "main_rel (buildAdjacencyList cs)
      = {(n, m). \<exists>t i c. c \<in> set (conns_at cs n t i) \<and> conn_type c = Main_type \<and> conn_node c = m}"
    using main_rel_buildAdjacencyList [OF assms] by (intro set_eqI) (simp add: split_paired_all)
  then show ?thesis by (simp add: hasPath_spec)
qed

lemma hasPath_correct_example:
  "(''Trigger'', ''C'') \<in> {(n, m). \<exists>t i c. c \<in> set (conns_at sample_connections n t i)
        \<and> conn_type c = Main_type \<and> conn_node c = m}\<^sup>*"
proof -
  have "hasPath ''Trigger'' ''C'' (buildAdjacencyList sample_connections)" by code_simp
  then show ?thesis by (simp only: hasPath_correct [OF wf_sample_connections])
qed

text \<open>C20: a selection that \<open>parseExtractableSubgraphSelection\<close> accepts is entered from outside at
  the reported start only, left at the reported end only, and if there are both, a path of \<open>main\<close>
  connections leads from the start to the end inside the selection.\<close>

theorem parseExtractableSubgraphSelection_safe:
  assumes "parseExtractableSubgraphSelection G (buildAdjacencyList cs) = Inr (start, end_node)"
  shows "input_nodes (set G) (buildAdjacencyList cs) = set_option start
    \<and> output_nodes (set G) (buildAdjacencyList cs) = set_option end_node
    \<and> (case (start, end_node) of
         (Some s, Some e) \<Rightarrow> s = [] \<or> e = []
           \<or> (s, e) \<in> (main_rel (buildAdjacencyList cs) \<inter> set G \<times> set G)\<^sup>*
       | _ \<Rightarrow> True)"
  using parseExtractableSubgraphSelection_accepts [OF conjunct1 [OF buildAdjacencyList_spec] assms]
  by (auto split: option.split)

theorem parseExtractableSubgraphSelection_safe_witness:
  "input_nodes {''A'', ''B''} (buildAdjacencyList sample_connections) = {''A''}
   \<and> (''A'', ''B'') \<in> (main_rel (buildAdjacencyList sample_connections) \<inter> {''A'', ''B''} \<times> {''A'', ''B''})\<^sup>*"
proof -
  have "parseExtractableSubgraphSelection [''A'', ''B''] (buildAdjacencyList sample_connections)
      = Inr (Some ''A'', Some ''B'')" by code_simp
  from parseExtractableSubgraphSelection_safe [OF this] show ?thesis by simp
qed

end
