(* ===== verification/Workflow_Class.thy ===== *)
theory Workflow_Class
  imports Connection_Maps
begin

text \<open>
  The state of the class \<open>Workflow\<close> of \<open>packages/workflow/src/workflow.ts\<close>: its nodes by name, its
  connections by source and by destination and its pinned data, the methods that set and read them,
  and \<open>renameNode\<close> with \<open>node-parameters/rename-node-utils.ts\<close>.

  The registry of node types is an argument (\<open>nodeTypes.getByNameAndVersion\<close> as a function), as is
  \<open>applyAccessPatterns\<close>, the rewriting of one expression's text. A parameter whose value is
  \<open>undefined\<close> is the same as no parameter.
\<close>

section \<open>State\<close>

record workflow =
  workflow_nodes :: "(string \<times> inode) list"
  connectionsBySourceNode :: iconnections
  connectionsByDestinationNode :: iconnections
  workflow_pinData :: "pin_data option"

text \<open>What the code reads of a node type: its name and whether it has \<open>trigger\<close> and \<open>poll\<close>.\<close>

record node_type_info =
  type_name :: string
  has_trigger :: bool
  has_poll :: bool

type_synonym node_types = "string \<Rightarrow> rat \<Rightarrow> node_type_info option"

definition setNodes :: "inode list \<Rightarrow> workflow \<Rightarrow> workflow" where
  "setNodes ns w =
     w\<lparr>workflow_nodes := fold (\<lambda>node nodes. map_set (node_name node) node nodes) ns []\<rparr>"

definition setConnections :: "iconnections \<Rightarrow> workflow \<Rightarrow> workflow" where
  "setConnections cs w =
     w\<lparr>connectionsBySourceNode := cs, connectionsByDestinationNode := mapConnectionsByDestination cs\<rparr>"

definition setPinData :: "pin_data option \<Rightarrow> workflow \<Rightarrow> workflow" where
  "setPinData pins w = w\<lparr>workflow_pinData := pins\<rparr>"

text \<open>The nodes, connections and pinned data of a new workflow. \<open>getNodeParameters\<close> fills in the
  default values of a node whose type is known.\<close>

definition default_parameters ::
  "node_types \<Rightarrow> (node_type_info \<Rightarrow> inode \<Rightarrow> (string \<times> json) list option) \<Rightarrow> inode \<Rightarrow> inode" where
  "default_parameters types getNodeParameters node =
     (case types (node_type node) (type_version node) of
        None \<Rightarrow> node
      | Some nodeType \<Rightarrow>
          node\<lparr>parameters := (case getNodeParameters nodeType node of Some ps \<Rightarrow> ps | None \<Rightarrow> [])\<rparr>)"

definition new_workflow ::
  "node_types \<Rightarrow> (node_type_info \<Rightarrow> inode \<Rightarrow> (string \<times> json) list option)
   \<Rightarrow> inode list \<Rightarrow> iconnections \<Rightarrow> pin_data option \<Rightarrow> workflow" where
  "new_workflow types getNodeParameters ns cs pins =
     setPinData pins (setConnections cs (setNodes (map (default_parameters types getNodeParameters) ns)
       \<lparr>workflow_nodes = [], connectionsBySourceNode = [], connectionsByDestinationNode = [],
        workflow_pinData = None\<rparr>))"

section \<open>Queries\<close>

text \<open>The static method repeats \<open>mapConnectionsByDestination\<close>, with another padding loop and another
  guarded push.\<close>

fun push_empty :: "nat \<Rightarrow> node_input_connections \<Rightarrow> node_input_connections" where
  "push_empty 0 xs = xs"
| "push_empty (Suc k) xs = push_empty k (xs @ [Some []])"

definition record_by_destination :: "stored_connection \<Rightarrow> iconnections \<Rightarrow> iconnections" where
  "record_by_destination = (\<lambda>(sourceNode, type, inputIndex, connectionInfo) ret.
     let dest = conn_node connectionInfo; ctype = conn_type connectionInfo; idx = conn_index connectionInfo;
         ret1 = (if map_has ret dest then ret else map_set dest [] ret);
         byType = the (map_of ret1 dest);
         byType1 = (if map_has byType ctype then byType else map_set ctype [] byType);
         inputs = the (map_of byType1 ctype);
         inputs1 = push_empty (Suc idx - length inputs) inputs;
         inputs2 = (case arr_item inputs1 idx of
                      None \<Rightarrow> inputs1
                    | Some cs \<Rightarrow> inputs1[idx := Some (cs @
                        [\<lparr>conn_node = sourceNode, conn_type = type, conn_index = inputIndex\<rparr>])])
     in map_set dest (map_set ctype inputs2 byType1) ret1)"

definition getConnectionsByDestination :: "iconnections \<Rightarrow> iconnections" where
  "getConnectionsByDestination cs = fold record_by_destination (stored_connections cs) []"

definition queryNodes :: "node_types \<Rightarrow> (node_type_info \<Rightarrow> bool) \<Rightarrow> workflow \<Rightarrow> inode list" where
  "queryNodes types checkFunction w =
     filter (\<lambda>node. \<not> is_disabled node \<and>
               (case types (node_type node) (type_version node) of
                  None \<Rightarrow> False
                | Some nodeType \<Rightarrow> checkFunction nodeType))
       (object_values (workflow_nodes w))"

definition getTriggerNodes :: "node_types \<Rightarrow> workflow \<Rightarrow> inode list" where
  "getTriggerNodes types w = queryNodes types has_trigger w"

definition getPollNodes :: "node_types \<Rightarrow> workflow \<Rightarrow> inode list" where
  "getPollNodes types w = queryNodes types has_poll w"

definition getNode :: "workflow \<Rightarrow> string \<Rightarrow> inode option" where
  "getNode w nodeName = map_of (workflow_nodes w) nodeName"

definition workflow_getNodes :: "workflow \<Rightarrow> string list \<Rightarrow> inode list" where
  "workflow_getNodes w nodeNames = List.map_filter (getNode w) nodeNames"

definition getPinDataOfNode :: "workflow \<Rightarrow> string \<Rightarrow> node_items option" where
  "getPinDataOfNode w nodeName =
     (case workflow_pinData w of None \<Rightarrow> None | Some pins \<Rightarrow> map_of pins nodeName)"

text \<open>The children and parents of a node, by default over \<open>main\<close> connections and without a bound.\<close>

definition workflow_getChildNodes :: "workflow \<Rightarrow> string \<Rightarrow> connection_filter \<Rightarrow> int \<Rightarrow> string list" where
  "workflow_getChildNodes w nodeName type depth =
     getChildNodes (connectionsBySourceNode w) nodeName type depth"

definition workflow_getParentNodes :: "workflow \<Rightarrow> string \<Rightarrow> connection_filter \<Rightarrow> int \<Rightarrow> string list" where
  "workflow_getParentNodes w nodeName type depth =
     getParentNodes (connectionsByDestinationNode w) nodeName type depth"

definition getConnectionsBetweenNodes ::
  "workflow \<Rightarrow> string list \<Rightarrow> string list \<Rightarrow> (iconnection \<times> iconnection) list" where
  "getConnectionsBetweenNodes w sources targets =
     concat (map (\<lambda>source.
       concat (map (\<lambda>(type, outputs).
         map (\<lambda>(s, t, i, c). (\<lparr>conn_node = s, conn_type = t, conn_index = i\<rparr>, c))
           (filter (\<lambda>(s, t, i, c). conn_node c \<in> set targets) (stored_outputs source type outputs)))
         (object_entries (case map_of (connectionsBySourceNode w) source of
                            Some byType \<Rightarrow> byType
                          | None \<Rightarrow> []))))
       sources)"

section \<open>Renaming a node\<close>

text \<open>\<open>toLowerCase\<close> on the letters \<open>A\<close> to \<open>Z\<close>.\<close>

definition lower_char :: "char \<Rightarrow> char" where
  "lower_char c = (let n = (of_char c :: nat) in if 65 \<le> n \<and> n \<le> 90 then char_of (n + 32) else c)"

definition to_lower :: "string \<Rightarrow> string" where
  "to_lower s = map lower_char s"

definition restrictedKeys :: "string list" where
  "restrictedKeys =
     [''hasOwnProperty'', ''isPrototypeOf'', ''propertyIsEnumerable'', ''toLocaleString'',
      ''toString'', ''valueOf'', ''constructor'', ''prototype'', ''__proto__'',
      ''__defineGetter__'', ''__defineSetter__'', ''__lookupGetter__'', ''__lookupSetter__'']"

definition nodes_with_renamable_content :: "string list" where
  "nodes_with_renamable_content =
     [''n8n-nodes-base.code'', ''n8n-nodes-base.function'', ''n8n-nodes-base.functionItem'',
      ''n8n-nodes-base.aiTransform'']"

definition nodes_with_renamable_form_html_content :: "string list" where
  "nodes_with_renamable_form_html_content = [''n8n-nodes-base.form'']"

definition nodes_with_renamable_toplevel_html_content :: "string list" where
  "nodes_with_renamable_toplevel_html_content = [''n8n-nodes-base.mailgun'', ''n8n-nodes-base.html'']"

type_synonym access_patterns = "string \<Rightarrow> string \<Rightarrow> string \<Rightarrow> string"

text \<open>A \<open>null\<close> has the type \<open>object\<close> and so becomes an object without keys; the entries of an array
  are visited without the flag.\<close>

fun renameNodeInParameterValue ::
  "access_patterns \<Rightarrow> json \<Rightarrow> string \<Rightarrow> string \<Rightarrow> bool \<Rightarrow> json" where
  "renameNodeInParameterValue apply (JBool b) cur new content = JBool b"
| "renameNodeInParameterValue apply (JNum q) cur new content = JNum q"
| "renameNodeInParameterValue apply (JStr s) cur new content =
     (if take 1 s = ''='' \<or> content then JStr (apply s cur new) else JStr s)"
| "renameNodeInParameterValue apply (JArr xs) cur new content =
     JArr (map (\<lambda>x. renameNodeInParameterValue apply x cur new False) xs)"
| "renameNodeInParameterValue apply JNull cur new content = JObj []"
| "renameNodeInParameterValue apply (JObj kvs) cur new content =
     JObj (object_entries (map (\<lambda>(k, v). (k, renameNodeInParameterValue apply v cur new content)) kvs))"

definition object_of :: "json \<Rightarrow> (string \<times> json) list" where
  "object_of j = (case j of JObj kvs \<Rightarrow> kvs | _ \<Rightarrow> [])"

definition update_parameter ::
  "string \<Rightarrow> (json \<Rightarrow> json) \<Rightarrow> (string \<times> json) list \<Rightarrow> (string \<times> json) list" where
  "update_parameter key f ps = (case map_of ps key of None \<Rightarrow> ps | Some v \<Rightarrow> map_set key (f v) ps)"

definition rename_form_field :: "(json \<Rightarrow> json) \<Rightarrow> json \<Rightarrow> json" where
  "rename_form_field renameField field =
     (case field of
        JObj kvs \<Rightarrow> if map_of kvs ''fieldType'' = Some (JStr ''html'')
                   then JObj (update_parameter ''html'' renameField kvs) else field
      | _ \<Rightarrow> field)"

definition renameFormFields :: "(json \<Rightarrow> json) \<Rightarrow> (string \<times> json) list \<Rightarrow> (string \<times> json) list" where
  "renameFormFields renameField ps =
     (case map_of ps ''formFields'' of
        Some (JObj formFields) \<Rightarrow>
          (case map_of formFields ''values'' of
             Some (JArr entries) \<Rightarrow>
               map_set ''formFields''
                 (JObj (map_set ''values'' (JArr (map (rename_form_field renameField) entries)) formFields)) ps
           | _ \<Rightarrow> ps)
      | _ \<Rightarrow> ps)"

definition rename_parameters :: "access_patterns \<Rightarrow> string \<Rightarrow> string \<Rightarrow> inode \<Rightarrow> inode" where
  "rename_parameters apply currentName newName node =
     (let ps = object_of (renameNodeInParameterValue apply (JObj (parameters node)) currentName newName False);
          content = (\<lambda>v. renameNodeInParameterValue apply v currentName newName True);
          ps1 = (if node_type node \<in> set nodes_with_renamable_content
                 then update_parameter ''jsCode'' content ps else ps);
          ps2 = (if node_type node \<in> set nodes_with_renamable_toplevel_html_content
                 then update_parameter ''html'' content ps1 else ps1);
          ps3 = (if node_type node \<in> set nodes_with_renamable_form_html_content
                 then renameFormFields content ps2 else ps2)
      in node\<lparr>parameters := ps3\<rparr>)"

text \<open>An assignment under the new key, then a \<open>delete\<close> of the old one.\<close>

definition rename_key :: "string \<Rightarrow> string \<Rightarrow> ('v \<Rightarrow> 'v) \<Rightarrow> (string \<times> 'v) list \<Rightarrow> (string \<times> 'v) list" where
  "rename_key currentName newName f m =
     (case map_of m currentName of
        None \<Rightarrow> m
      | Some v \<Rightarrow> map_delete currentName (map_set newName (f v) m))"

definition redirect :: "string \<Rightarrow> string \<Rightarrow> iconnection \<Rightarrow> iconnection" where
  "redirect currentName newName c = (if conn_node c = currentName then c\<lparr>conn_node := newName\<rparr> else c)"

definition rename_destinations :: "string \<Rightarrow> string \<Rightarrow> iconnections \<Rightarrow> iconnections" where
  "rename_destinations currentName newName cs =
     map (\<lambda>(s, byType). (s, map (\<lambda>(t, outputs).
            (t, map (map_option (map (redirect currentName newName))) outputs)) byType)) cs"

datatype rename_error = RestrictedName string

definition renameNode ::
  "access_patterns \<Rightarrow> string \<Rightarrow> string \<Rightarrow> workflow \<Rightarrow> rename_error + workflow" where
  "renameNode apply currentName newName w =
     (if to_lower newName \<in> set (map to_lower restrictedKeys) then Inl (RestrictedName newName)
      else let nodes = rename_key currentName newName (\<lambda>n. n\<lparr>node_name := newName\<rparr>) (workflow_nodes w);
               nodes1 = map (\<lambda>(k, n). (k, rename_parameters apply currentName newName n)) nodes;
               cs = rename_key currentName newName (\<lambda>byType. byType) (connectionsBySourceNode w)
           in Inr (w\<lparr>workflow_nodes := nodes1,
                     connectionsBySourceNode := rename_destinations currentName newName cs\<rparr>))"

section \<open>The two mappings by destination agree\<close>

lemma push_empty_eq: "push_empty k xs = xs @ replicate k (Some [])"
  by (induction k arbitrary: xs) (simp_all add: replicate_append_same [symmetric])

lemma map_set_twice: "map_set k v (map_set k u m) = map_set k v m"
  by (induction m) auto

lemma record_by_destination_eq: "record_by_destination = addByDestination"
proof (intro ext, clarify)
  fix s t i m and c :: iconnection
  let ?dest = "conn_node c" and ?ctype = "conn_type c" and ?idx = "conn_index c"
  have pad: "push_empty (Suc ?idx - length xs) xs = pad_to ?idx xs" for xs
    by (simp add: push_empty_eq pad_to_def)
  have pad0: "push_empty ?idx [Some []] = pad_to ?idx []"
    using pad [of "[]"] by simp
  have item: "arr_item (pad_to ?idx xs) ?idx = pad_to ?idx xs ! ?idx" for xs
    by (simp add: arr_item_def pad_to_nth)
  show "record_by_destination (s, t, i, c) m = addByDestination (s, t, i, c) m"
    by (cases "map_of m ?dest")
      (auto simp: record_by_destination_def addByDestination_def Let_def map_has_def pad pad0 item
         map_set_twice split: option.split)
qed

lemma getConnectionsByDestination_eq: "getConnectionsByDestination cs = mapConnectionsByDestination cs"
  by (simp add: getConnectionsByDestination_def mapConnectionsByDestination_def record_by_destination_eq)

section \<open>What the queries return\<close>

text \<open>A workflow is well formed when its nodes are stored under their names and its connections
  lead from nodes to nodes.\<close>

definition wf_workflow :: "workflow \<Rightarrow> bool" where
  "wf_workflow w \<longleftrightarrow> distinct (map_keys (workflow_nodes w))
     \<and> (\<forall>(k, n) \<in> set (workflow_nodes w). node_name n = k)
     \<and> wf_iconnections (connectionsBySourceNode w)
     \<and> set (map_keys (connectionsBySourceNode w)) \<subseteq> set (map_keys (workflow_nodes w))
     \<and> (\<forall>(s, t, i, c) \<in> set (stored_connections (connectionsBySourceNode w)).
          conn_node c \<in> set (map_keys (workflow_nodes w)))"

lemma wf_workflow_target:
  assumes "wf_workflow w" and "c \<in> set (conns_at (connectionsBySourceNode w) s t i)"
  shows "getNode w (conn_node c) \<noteq> None"
proof -
  from assms(1) have wf: "wf_iconnections (connectionsBySourceNode w)" by (simp add: wf_workflow_def)
  have "(s, t, i, c) \<in> set (stored_connections (connectionsBySourceNode w))"
    using assms(2) set_stored_connections [OF wf] by simp
  with assms(1) show ?thesis
    by (auto simp: wf_workflow_def getNode_def map_of_eq_None_iff)
qed

lemma wf_setNodes:
  "distinct (map_keys (workflow_nodes (setNodes ns w)))
   \<and> (\<forall>(k, n) \<in> set (workflow_nodes (setNodes ns w)). node_name n = k)"
proof -
  have "distinct (map_keys m) \<Longrightarrow> (\<forall>(k, n) \<in> set m. node_name n = k) \<Longrightarrow>
      distinct (map_keys (fold (\<lambda>n. map_set (node_name n) n) ns m))
      \<and> (\<forall>(k, n) \<in> set (fold (\<lambda>n. map_set (node_name n) n) ns m). node_name n = k)" for m
  proof (induction ns arbitrary: m)
    case (Cons n ns)
    have "\<forall>(k, n') \<in> set (map_set (node_name n) n m). node_name n' = k"
      using Cons.prems by (auto simp: set_map_set)
    with Cons.IH [OF AList.distinct_update [OF Cons.prems(1)]] show ?case by simp
  qed simp
  from this [of "[]"] show ?thesis by (simp add: setNodes_def)
qed

lemma getNode_setNodes:
  "getNode (setNodes ns w) name = map_of (map (\<lambda>n. (node_name n, n)) (rev ns)) name"
proof -
  have "fold (\<lambda>n. map_set (node_name n) n) ns m
      = fold (\<lambda>(k, v). map_set k v) (map (\<lambda>n. (node_name n, n)) ns) m" for m
    by (induction ns arbitrary: m) simp_all
  then show ?thesis
    by (simp add: getNode_def setNodes_def js_map.lookup_fold_store rev_map split: option.split)
qed

lemma set_queryNodes:
  assumes "distinct (map_keys (workflow_nodes w))"
  shows "n \<in> set (queryNodes types check w) \<longleftrightarrow> n \<in> snd ` set (workflow_nodes w) \<and> \<not> is_disabled n
    \<and> (\<exists>nt. types (node_type n) (type_version n) = Some nt \<and> check nt)"
  by (auto simp: queryNodes_def set_object_values [OF assms] split: option.split)

lemma set_workflow_getNodes:
  "node \<in> set (workflow_getNodes w ns) \<longleftrightarrow> (\<exists>n \<in> set ns. getNode w n = Some node)"
  by (force simp: workflow_getNodes_def map_filter_def)

lemma set_getConnectionsBetweenNodes:
  assumes "wf_iconnections (connectionsBySourceNode w)"
  shows "(e, c) \<in> set (getConnectionsBetweenNodes w sources targets) \<longleftrightarrow>
    conn_node e \<in> set sources \<and> conn_node c \<in> set targets
    \<and> c \<in> set (conns_at (connectionsBySourceNode w) (conn_node e) (conn_type e) (conn_index e))"
proof -
  let ?cs = "connectionsBySourceNode w"
  have stored: "c \<in> set (conns_at ?cs s t i) \<longleftrightarrow>
      (\<exists>bt. map_of ?cs s = Some bt \<and> (\<exists>outs. (t, outs) \<in> set (object_entries bt)
        \<and> c \<in> set (items_at outs i)))" for s t i
  proof (cases "map_of ?cs s")
    case (Some bt)
    then have d: "distinct (map_keys bt)"
      using assms by (auto simp: wf_iconnections_def dest: map_of_SomeD)
    have "(t, outs) \<in> set (object_entries bt) \<longleftrightarrow> map_of bt t = Some outs" for outs
      unfolding set_object_entries [OF d] by (rule map_of_set [OF d])
    with Some show ?thesis by (cases "map_of bt t") (simp_all add: conns_at_def)
  qed (simp add: conns_at_def)
  let ?here = "\<lambda>s. object_entries (case map_of ?cs s of Some bt \<Rightarrow> bt | None \<Rightarrow> [])"
  let ?pair = "\<lambda>(s, t, i, c). (\<lparr>conn_node = s, conn_type = t, conn_index = i\<rparr>, c)"
  let ?found = "\<lambda>s0 t0 outs. map ?pair
      (filter (\<lambda>(s, t, i, c). conn_node c \<in> set targets) (stored_outputs s0 t0 outs))"
  have pair_iff: "?pair q = (e, c) \<longleftrightarrow> q = (conn_node e, conn_type e, conn_index e, c)" for q
    by (cases q, cases e) auto
  have one: "(e, c) \<in> set (?found s0 t0 outs) \<longleftrightarrow>
      s0 = conn_node e \<and> t0 = conn_type e \<and> conn_node c \<in> set targets \<and> c \<in> set (items_at outs (conn_index e))"
    for s0 t0 outs
  proof -
    have "(e, c) \<in> set (?found s0 t0 outs) \<longleftrightarrow>
        (\<exists>q \<in> set (filter (\<lambda>(s, t, i, c). conn_node c \<in> set targets) (stored_outputs s0 t0 outs)).
           ?pair q = (e, c))"
      unfolding set_map image_iff by (simp only: eq_commute)
    also have "\<dots> \<longleftrightarrow> conn_node c \<in> set targets
        \<and> (conn_node e, conn_type e, conn_index e, c) \<in> set (stored_outputs s0 t0 outs)"
      unfolding pair_iff by auto
    finally show ?thesis unfolding set_stored_outputs by blast
  qed
  have "(e, c) \<in> set (getConnectionsBetweenNodes w sources targets) \<longleftrightarrow>
    (\<exists>s \<in> set sources. \<exists>(t, outs) \<in> set (?here s). (e, c) \<in> set (?found s t outs))"
    by (simp only: getConnectionsBetweenNodes_def set_concat set_map UN_iff image_image bex_simps
          split_def)
  also have "\<dots> \<longleftrightarrow> (\<exists>s \<in> set sources. \<exists>(t, outs) \<in> set (?here s).
       s = conn_node e \<and> t = conn_type e \<and> conn_node c \<in> set targets \<and> c \<in> set (items_at outs (conn_index e)))"
    unfolding one ..
  also have "\<dots> \<longleftrightarrow> conn_node e \<in> set sources \<and> conn_node c \<in> set targets
      \<and> (\<exists>outs. (conn_type e, outs) \<in> set (?here (conn_node e)) \<and> c \<in> set (items_at outs (conn_index e)))"
    by auto
  also have "\<dots> \<longleftrightarrow> conn_node e \<in> set sources \<and> conn_node c \<in> set targets
      \<and> c \<in> set (conns_at ?cs (conn_node e) (conn_type e) (conn_index e))"
    unfolding stored
    by (cases "map_of ?cs (conn_node e)") (auto simp: object_entries_def own_keys_def)
  finally show ?thesis .
qed

end
