(* ===== verification/Workflow_Rename.thy ===== *)
theory Workflow_Rename
  imports Workflow_Class
begin

text \<open>
  What \<open>renameNode\<close> does to the nodes and to the connections of a well-formed workflow, and the
  lemmas behind the findings about it.
\<close>

section \<open>Names under a renaming\<close>

definition renamed :: "string \<Rightarrow> string \<Rightarrow> string \<Rightarrow> string" where
  "renamed currentName newName n = (if n = currentName then newName else n)"

lemma conn_redirect [simp]:
  "conn_node (redirect cur new c) = renamed cur new (conn_node c)"
  "conn_type (redirect cur new c) = conn_type c"
  "conn_index (redirect cur new c) = conn_index c"
  by (simp_all add: redirect_def renamed_def)

lemma redirect_back: "conn_node c \<noteq> new \<Longrightarrow> redirect new cur (redirect cur new c) = c"
  by (cases c) (simp add: redirect_def)

section \<open>Renaming a key\<close>

lemma map_of_rename_key:
  assumes "cur \<noteq> new"
  shows "map_of (rename_key cur new f m) k =
    (case map_of m cur of
       None \<Rightarrow> map_of m k
     | Some v \<Rightarrow> if k = cur then None else if k = new then Some (f v) else map_of m k)"
  using assms by (simp add: rename_key_def split: option.split)

lemma set_rename_key:
  assumes "distinct (map_keys m)" and "map_of m cur = Some v" and "cur \<noteq> new"
  shows "set (rename_key cur new f m) = insert (new, f v) {p \<in> set m. fst p \<noteq> cur \<and> fst p \<noteq> new}"
  using assms by (auto simp: rename_key_def set_map_delete set_map_set)

lemma distinct_rename_key: "distinct (map_keys m) \<Longrightarrow> distinct (map_keys (rename_key cur new f m))"
  by (auto simp: rename_key_def AList.distinct_delete AList.distinct_update split: option.split)

lemma keys_rename_key:
  assumes "cur \<noteq> new"
  shows "set (map_keys (rename_key cur new f m)) =
    (case map_of m cur of
       None \<Rightarrow> set (map_keys m)
     | Some v \<Rightarrow> insert new (set (map_keys m) - {cur}))"
proof (cases "map_of m cur")
  case (Some v)
  have "set (map_keys (rename_key cur new f m)) = insert new (set (map_keys m)) - {cur}"
    by (simp only: rename_key_def Some option.case js_map.keys_remove js_map.keys_store)
  with Some assms show ?thesis by auto
qed (simp add: rename_key_def)

lemma rename_key_same_name: "map_of (rename_key n n f m) n = None"
  by (cases "map_of m n") (simp_all add: rename_key_def)

lemma map_of_map_values: "map_of (map (\<lambda>(k, v). (k, f v)) m) k = map_option f (map_of m k)"
  by (simp add: map_of_map)

section \<open>The renamed connections\<close>

lemma map_of_rename_destinations:
  "map_of (rename_destinations cur new cs) s = map_option
     (map (\<lambda>(t, outs). (t, map (map_option (map (redirect cur new))) outs))) (map_of cs s)"
  unfolding rename_destinations_def by (rule map_of_map_values)

lemma keys_rename_destinations [simp]: "map_keys (rename_destinations cur new cs) = map_keys cs"
  by (simp add: rename_destinations_def split_def comp_def)

lemma items_at_map: "items_at (map (map_option (map f)) outs) i = map f (items_at outs i)"
  by (simp add: items_at_def arr_item_def split: option.split)

lemma conns_at_rename_destinations:
  "conns_at (rename_destinations cur new cs) s t i = map (redirect cur new) (conns_at cs s t i)"
proof (cases "map_of cs s")
  case (Some byType)
  have "map_of (map (\<lambda>(t, outs). (t, map (map_option (map (redirect cur new))) outs)) byType) t
      = map_option (map (map_option (map (redirect cur new)))) (map_of byType t)"
    by (rule map_of_map_values)
  with Some show ?thesis
    by (cases "map_of byType t") (simp_all add: conns_at_def map_of_rename_destinations items_at_map)
qed (simp add: conns_at_def map_of_rename_destinations)

lemma wf_rename_destinations: "wf_iconnections cs \<Longrightarrow> wf_iconnections (rename_destinations cur new cs)"
  by (auto simp: wf_iconnections_def rename_destinations_def split_def comp_def)

lemma wf_rename_key:
  assumes "wf_iconnections cs"
  shows "wf_iconnections (rename_key cur new (\<lambda>bt. bt) cs)"
proof -
  have d: "distinct (map_keys cs)" using assms by (simp add: wf_iconnections_def)
  have "snd ` set (rename_key cur new (\<lambda>bt. bt) cs) \<subseteq> snd ` set cs"
    by (cases "map_of cs cur")
      (auto simp: rename_key_def set_map_delete set_map_set [OF d] dest: map_of_SomeD intro: rev_image_eqI)
  with assms distinct_rename_key [OF d] show ?thesis
    by (fastforce simp: wf_iconnections_def)
qed

lemma conns_at_rename_key:
  assumes "cur \<noteq> new" and "map_of cs new = None" and "s \<noteq> new"
  shows "conns_at (rename_key cur new (\<lambda>bt. bt) cs) (renamed cur new s) t i = conns_at cs s t i"
    and "conns_at (rename_key cur new (\<lambda>bt. bt) cs) cur t i = []"
  using assms
  by (simp_all add: conns_at_def map_of_rename_key renamed_def split: option.split)

section \<open>The renamed workflow\<close>

definition renamed_nodes :: "access_patterns \<Rightarrow> string \<Rightarrow> string \<Rightarrow> workflow \<Rightarrow> (string \<times> inode) list" where
  "renamed_nodes apply cur new w =
     map (\<lambda>(k, n). (k, rename_parameters apply cur new n))
       (rename_key cur new (\<lambda>n. n\<lparr>node_name := new\<rparr>) (workflow_nodes w))"

definition renamed_connections :: "string \<Rightarrow> string \<Rightarrow> workflow \<Rightarrow> iconnections" where
  "renamed_connections cur new w =
     rename_destinations cur new (rename_key cur new (\<lambda>byType. byType) (connectionsBySourceNode w))"

lemma renameNode_eq:
  "renameNode apply cur new w =
     (if to_lower new \<in> set (map to_lower restrictedKeys) then Inl (RestrictedName new)
      else Inr (w\<lparr>workflow_nodes := renamed_nodes apply cur new w,
                   connectionsBySourceNode := renamed_connections cur new w\<rparr>))"
  by (simp add: renameNode_def renamed_nodes_def renamed_connections_def Let_def)

lemma node_name_rename_parameters [simp]: "node_name (rename_parameters apply cur new n) = node_name n"
  by (simp add: rename_parameters_def Let_def)

lemma map_of_renamed_nodes:
  "map_of (renamed_nodes apply cur new w) k = map_option (rename_parameters apply cur new)
     (map_of (rename_key cur new (\<lambda>n. n\<lparr>node_name := new\<rparr>) (workflow_nodes w)) k)"
  unfolding renamed_nodes_def by (rule map_of_map_values)

lemma keys_renamed_nodes [simp]:
  "map_keys (renamed_nodes apply cur new w)
     = map_keys (rename_key cur new (\<lambda>n. n\<lparr>node_name := new\<rparr>) (workflow_nodes w))"
  by (simp add: renamed_nodes_def split_def comp_def)

lemma conns_at_key: "c \<in> set (conns_at cs s t i) \<Longrightarrow> s \<in> set (map_keys cs)"
  by (cases "map_of cs s") (auto simp: conns_at_def dest: map_of_SomeD intro: rev_image_eqI)

lemma wf_renamed:
  assumes wf: "wf_workflow w" and cur: "getNode w cur = Some node" and new: "getNode w new = None"
  shows "wf_workflow (w\<lparr>workflow_nodes := renamed_nodes apply cur new w,
                       connectionsBySourceNode := renamed_connections cur new w\<rparr>)"
proof -
  let ?nodes = "workflow_nodes w" and ?cs = "connectionsBySourceNode w"
  have d: "distinct (map_keys ?nodes)" and wfc: "wf_iconnections ?cs"
    and keys: "set (map_keys ?cs) \<subseteq> set (map_keys ?nodes)"
    using wf by (simp_all add: wf_workflow_def)
  have ne: "cur \<noteq> new" using cur new by auto
  have present: "map_of ?nodes cur = Some node" using cur by (simp add: getNode_def)
  have fresh: "new \<notin> set (map_keys ?nodes)" using new by (simp add: getNode_def map_of_eq_None_notin)
  have wfc': "wf_iconnections (renamed_connections cur new w)"
    unfolding renamed_connections_def by (intro wf_rename_destinations wf_rename_key wfc)
  have names: "set (map_keys (renamed_nodes apply cur new w)) = insert new (set (map_keys ?nodes) - {cur})"
    using keys_rename_key [OF ne, of _ ?nodes] present by simp
  have "node_name n = k" if "(k, n) \<in> set (renamed_nodes apply cur new w)" for k n
    using that wf by (auto simp: renamed_nodes_def set_rename_key [OF d present ne] wf_workflow_def)
  moreover have "set (map_keys (renamed_connections cur new w)) \<subseteq> set (map_keys (renamed_nodes apply cur new w))"
    using keys keys_rename_key [OF ne, of "\<lambda>bt. bt" ?cs] unfolding names renamed_connections_def
    by (cases "map_of ?cs cur") (auto simp: map_of_eq_None_iff)
  moreover have "conn_node c \<in> set (map_keys (renamed_nodes apply cur new w))"
    if "(s, t, i, c) \<in> set (stored_connections (renamed_connections cur new w))" for s t i c
  proof -
    have c: "c \<in> set (conns_at (renamed_connections cur new w) s t i)"
      using that set_stored_connections [OF wfc'] by simp
    then obtain c0 where c0: "c = redirect cur new c0"
      "c0 \<in> set (conns_at (rename_key cur new (\<lambda>bt. bt) ?cs) s t i)"
      unfolding renamed_connections_def conns_at_rename_destinations by auto
    have "conns_at (rename_key cur new (\<lambda>bt. bt) ?cs) s t i
        \<in> {[], conns_at ?cs cur t i, conns_at ?cs s t i}"
      by (simp add: conns_at_def map_of_rename_key [OF ne] split: option.split)
    with c0(2) have "\<exists>s. c0 \<in> set (conns_at ?cs s t i)" by auto
    with wf_workflow_target [OF wf] have "getNode w (conn_node c0) \<noteq> None" by blast
    then have "conn_node c0 \<in> set (map_keys ?nodes)" by (simp add: getNode_def map_of_eq_None_iff)
    then show ?thesis unfolding names c0(1) by (simp add: renamed_def)
  qed
  ultimately show ?thesis
    using d wfc' distinct_rename_key [OF d] by (fastforce simp: wf_workflow_def)
qed

section \<open>Behind the findings\<close>

text \<open>A node that is renamed to the name it has is removed, and so are its outgoing connections.\<close>

lemma renameNode_same_name_removes:
  assumes "renameNode apply n n w = Inr w'"
  shows "getNode w' n = None \<and> map_of (connectionsBySourceNode w') n = None"
  using assms
  by (auto simp: renameNode_eq getNode_def map_of_renamed_nodes renamed_connections_def
      map_of_rename_destinations rename_key_same_name split: if_splits)

text \<open>The connections by destination keep the old name.\<close>

lemma renameNode_keeps_destinations:
  "renameNode apply cur new w = Inr w' \<Longrightarrow>
   connectionsByDestinationNode w' = connectionsByDestinationNode w"
  by (auto simp: renameNode_eq split: if_splits)

text \<open>A \<open>null\<close> inside a parameter becomes an empty object.\<close>

lemma renameNode_null_parameter:
  "renameNodeInParameterValue apply (JObj [(k, JNull)]) cur new content = JObj [(k, JObj [])]"
  by (cases "array_index k") (simp_all add: object_entries_def own_keys_def Let_def)

end
