(* ===== verification/Workflow_Search.thy ===== *)
theory Workflow_Search
  imports Workflow_Class
begin

text \<open>
  The breadth-first search of the class \<open>Workflow\<close>: \<open>searchNodesBFS\<close> and
  \<open>getParentNodesByDepth\<close>. An object in \<open>returnConns\<close> is the one in \<open>visited\<close>, so the list keeps
  its name and the result reads the object at the end.
\<close>

section \<open>The code\<close>

record connected_node =
  found_name :: string
  indicies :: "nat list"
  found_depth :: nat

record bfs_state =
  visited :: "(string \<times> connected_node) list"
  returned :: "string list"
  bfs_queue :: "connected_node list"

text \<open>\<open>connections[node]?.[type]\<close>, and the connections that its arrays hold.\<close>

definition typed_connections ::
  "iconnections \<Rightarrow> node_connection_type \<Rightarrow> string \<Rightarrow> node_input_connections option" where
  "typed_connections cs type n =
     (case map_of cs n of None \<Rightarrow> None | Some byType \<Rightarrow> map_of byType type)"

definition connections_of :: "iconnections \<Rightarrow> node_connection_type \<Rightarrow> string \<Rightarrow> iconnection list" where
  "connections_of cs type n =
     (case typed_connections cs type n of None \<Rightarrow> [] | Some outputs \<Rightarrow> connections_in outputs)"

definition bfs_visit :: "iconnections \<Rightarrow> string \<Rightarrow> nat \<Rightarrow> connected_node \<Rightarrow> bfs_state \<Rightarrow> bfs_state" where
  "bfs_visit connections sourceNode depth current st =
     (case map_of (visited st) (found_name current) of
        Some seen \<Rightarrow>
          st\<lparr>visited := map_set (found_name current)
               (seen\<lparr>indicies := set_from (indicies seen @ indicies current)\<rparr>) (visited st)\<rparr>
      | None \<Rightarrow>
          st\<lparr>visited := map_set (found_name current) current (visited st),
             returned := (if found_name current \<noteq> sourceNode then returned st @ [found_name current]
                          else returned st),
             bfs_queue := bfs_queue st @
               map (\<lambda>c. \<lparr>found_name = conn_node c, indicies = [conn_index c], found_depth = depth\<rparr>)
                 (connections_of connections Main_type (found_name current))\<rparr>)"

lemma bfs_visit_keys:
  "set (map_keys (visited (bfs_visit cs src d e st))) = insert (found_name e) (set (map_keys (visited st)))"
proof -
  have "found_name e \<in> set (map_keys (visited st))" if "map_of (visited st) (found_name e) = Some v" for v
    using that by (metis map_of_eq_None_notin option.discI)
  then show ?thesis
    by (cases "map_of (visited st) (found_name e)")
      (auto simp: bfs_visit_def js_map.keys_store simp del: set_map)
qed

lemma fold_bfs_visit_keys:
  "set (map_keys (visited (fold (bfs_visit cs src d) q st))) = found_name ` set q \<union> set (map_keys (visited st))"
  by (induction q arbitrary: st) (simp_all only: fold_simps comp_apply bfs_visit_keys set_simps image_insert
      image_empty Un_insert_left Un_insert_right Un_empty_left)

text \<open>A round that fills the queue has visited a node that is a key of the connections.\<close>

lemma connections_of_key: "connections_of cs t n \<noteq> [] \<Longrightarrow> n \<in> set (map_keys cs)"
  by (cases "map_of cs n")
    (auto simp: connections_of_def typed_connections_def map_of_eq_None_iff dest: map_of_SomeD
      intro: rev_image_eqI)

lemma fold_bfs_visit_queue:
  "bfs_queue (fold (bfs_visit cs src d) q st) \<noteq> [] \<Longrightarrow> bfs_queue st = [] \<Longrightarrow>
   \<exists>n. n \<in> set (map_keys cs) \<and> n \<notin> set (map_keys (visited st)) \<and> n \<in> found_name ` set q"
proof (induction q arbitrary: st)
  case (Cons e q)
  let ?st = "bfs_visit cs src d e st"
  show ?case
  proof (cases "bfs_queue ?st = []")
    case True
    with Cons.IH [of ?st] Cons.prems(1) bfs_visit_keys [of cs src d e st] show ?thesis by auto
  next
    case False
    with Cons.prems(2) have new: "map_of (visited st) (found_name e) = None"
      and conns: "connections_of cs Main_type (found_name e) \<noteq> []"
      by (auto simp: bfs_visit_def split: option.splits)
    from new have "found_name e \<notin> set (map_keys (visited st))"
      by (rule map_of_eq_None_notin [THEN iffD1])
    with connections_of_key [OF conns] show ?thesis
      by (intro exI [of _ "found_name e"]) simp
  qed
qed simp

function bfs_loop :: "iconnections \<Rightarrow> string \<Rightarrow> int \<Rightarrow> nat \<Rightarrow> bfs_state \<Rightarrow> bfs_state" where
  "bfs_loop connections sourceNode maxDepth depth st =
     (if bfs_queue st = [] \<or> (maxDepth \<noteq> - 1 \<and> int depth > maxDepth) then st
      else bfs_loop connections sourceNode maxDepth (Suc depth)
             (fold (bfs_visit connections sourceNode (Suc depth)) (bfs_queue st) (st\<lparr>bfs_queue := []\<rparr>)))"
  by pat_completeness auto

termination bfs_loop
proof (relation "measures
    [\<lambda>(cs, src, maxDepth, d, st). card (set (map_keys cs) - set (map_keys (visited st))),
     \<lambda>(cs, src, maxDepth, d, st). if bfs_queue st = [] then 0 else 1]", goal_cases)
  case (2 cs src maxDepth d st)
  let ?st = "fold (bfs_visit cs src (Suc d)) (bfs_queue st) (st\<lparr>bfs_queue := []\<rparr>)"
  have keys: "set (map_keys (visited ?st)) = found_name ` set (bfs_queue st) \<union> set (map_keys (visited st))"
    by (simp add: fold_bfs_visit_keys del: set_map)
  show ?case
  proof (cases "bfs_queue ?st = []")
    case True
    have "card (set (map_keys cs) - set (map_keys (visited ?st)))
        \<le> card (set (map_keys cs) - set (map_keys (visited st)))"
      unfolding keys by (rule card_mono) auto
    with True 2 show ?thesis by (auto simp del: set_map)
  next
    case False
    then obtain n where n: "n \<in> set (map_keys cs)" "n \<notin> set (map_keys (visited st))"
      "n \<in> found_name ` set (bfs_queue st)"
      using fold_bfs_visit_queue [of cs src "Suc d" "bfs_queue st" "st\<lparr>bfs_queue := []\<rparr>"] by auto
    have "card (set (map_keys cs) - set (map_keys (visited ?st)))
        < card (set (map_keys cs) - set (map_keys (visited st)))"
      unfolding keys using n by (intro psubset_card_mono) auto
    then show ?thesis by (simp del: set_map)
  qed
qed simp

declare bfs_loop.simps [simp del]

definition searchNodesBFS :: "iconnections \<Rightarrow> string \<Rightarrow> int \<Rightarrow> connected_node list" where
  "searchNodesBFS connections sourceNode maxDepth =
     (let st = bfs_loop connections sourceNode maxDepth 0
                 \<lparr>visited = [], returned = [],
                  bfs_queue = [\<lparr>found_name = sourceNode, indicies = [], found_depth = 0\<rparr>]\<rparr>
      in map (\<lambda>n. the (map_of (visited st) n)) (returned st))"

definition getParentNodesByDepth :: "workflow \<Rightarrow> string \<Rightarrow> int \<Rightarrow> connected_node list" where
  "getParentNodesByDepth w nodeName maxDepth =
     searchNodesBFS (connectionsByDestinationNode w) nodeName maxDepth"

section \<open>Distances\<close>

definition at_distance :: "string rel \<Rightarrow> string \<Rightarrow> nat \<Rightarrow> string \<Rightarrow> bool" where
  "at_distance R src k n \<longleftrightarrow> (src, n) \<in> R ^^ k \<and> (\<forall>j<k. (src, n) \<notin> R ^^ j)"

definition closer :: "string rel \<Rightarrow> string \<Rightarrow> nat \<Rightarrow> string set" where
  "closer R src k = {n. \<exists>j<k. (src, n) \<in> R ^^ j}"

lemma closer_0 [simp]: "closer R src 0 = {}"
  by (simp add: closer_def)

lemma closer_Suc: "closer R src (Suc k) = closer R src k \<union> {n. at_distance R src k n}"
  by (auto simp: closer_def at_distance_def less_Suc_eq)

lemma at_distance_fresh: "at_distance R src k n \<Longrightarrow> n \<notin> closer R src k"
  by (auto simp: closer_def at_distance_def)

lemma at_distance_unique: "at_distance R src k n \<Longrightarrow> at_distance R src j n \<Longrightarrow> j = k"
  by (metis at_distance_def nat_neq_iff)

lemma at_distance_0 [simp]: "at_distance R src 0 n \<longleftrightarrow> n = src"
  by (auto simp: at_distance_def)

lemma closer_iff: "n \<in> closer R src k \<longleftrightarrow> (\<exists>j<k. at_distance R src j n)"
proof (induction k)
  case (Suc k)
  then show ?case by (auto simp: closer_Suc less_Suc_eq)
qed simp

lemma closer_mono: "j \<le> k \<Longrightarrow> closer R src j \<subseteq> closer R src k"
  unfolding closer_def using order_less_le_trans by blast

lemma closer_step: "n \<in> closer R src k \<Longrightarrow> (n, m) \<in> R \<Longrightarrow> m \<in> closer R src (Suc k)"
proof -
  assume "n \<in> closer R src k" and "(n, m) \<in> R"
  then obtain j where "j < k" "(src, m) \<in> R ^^ Suc j" by (auto simp: closer_def)
  then show ?thesis unfolding closer_def by (blast intro: Suc_mono)
qed

lemma at_distance_pred:
  assumes "at_distance R src (Suc k) n"
  obtains m where "at_distance R src k m" and "(m, n) \<in> R"
proof -
  from assms obtain m where m: "(src, m) \<in> R ^^ k" "(m, n) \<in> R"
    by (auto simp: at_distance_def)
  have "(src, m) \<notin> R ^^ j" if "j < k" for j
    using assms that m(2) by (metis Suc_less_eq at_distance_def relpow_Suc_I)
  with m that show ?thesis by (auto simp: at_distance_def)
qed

lemma at_distance_step:
  assumes "at_distance R src k m" and "(m, n) \<in> R"
  shows "at_distance R src (Suc k) n \<longleftrightarrow> n \<notin> closer R src (Suc k)"
  using assms unfolding at_distance_def closer_def by (auto intro: relpow_Suc_I)

section \<open>One round\<close>

definition node_depths :: "bfs_state \<Rightarrow> (string \<times> nat) list" where
  "node_depths st = map (\<lambda>(n, v). (n, found_depth v)) (visited st)"

definition add_depth :: "connected_node \<Rightarrow> (string \<times> nat) list \<Rightarrow> (string \<times> nat) list" where
  "add_depth e ds = (if found_name e \<in> fst ` set ds then ds else ds @ [(found_name e, found_depth e)])"

definition indices_of :: "connected_node list \<Rightarrow> string \<Rightarrow> nat set" where
  "indices_of q n = \<Union> ((\<lambda>e. set (indicies e)) ` {e \<in> set q. found_name e = n})"

definition pushed :: "iconnections \<Rightarrow> nat \<Rightarrow> string \<Rightarrow> connected_node list" where
  "pushed cs d n =
     map (\<lambda>c. \<lparr>found_name = conn_node c, indicies = [conn_index c], found_depth = d\<rparr>)
       (connections_of cs Main_type n)"

lemma indices_of_Nil [simp]: "indices_of [] n = {}"
  by (simp add: indices_of_def)

lemma indices_of_Cons [simp]:
  "indices_of (e # q) n = (if found_name e = n then set (indicies e) else {}) \<union> indices_of q n"
  by (auto simp: indices_of_def)

lemma keys_node_depths [simp]: "fst ` set (node_depths st) = fst ` set (visited st)"
  by (force simp: node_depths_def)

lemma node_depths_update:
  "map_of m k = Some v \<Longrightarrow> found_depth v' = found_depth v \<Longrightarrow> distinct (map_keys m) \<Longrightarrow>
   map (\<lambda>(n, v). (n, found_depth v)) (map_set k v' m) = map (\<lambda>(n, v). (n, found_depth v)) m"
proof (induction m)
  case (Cons p m)
  then show ?case by (cases p) (auto split: if_splits)
qed simp

lemma bfs_visit_step:
  assumes "distinct (map_keys (visited st))"
  shows "distinct (map_keys (visited (bfs_visit cs src d e st)))
    \<and> node_depths (bfs_visit cs src d e st) = add_depth e (node_depths st)
    \<and> bfs_queue (bfs_visit cs src d e st) = bfs_queue st
        @ (if found_name e \<in> fst ` set (visited st) then [] else pushed cs d (found_name e))
    \<and> returned (bfs_visit cs src d e st) = returned st
        @ filter (\<lambda>n. n \<noteq> src) (if found_name e \<in> fst ` set (visited st) then [] else [found_name e])"
proof (cases "map_of (visited st) (found_name e)")
  case None
  then have "found_name e \<notin> fst ` set (visited st)" by (simp add: map_of_eq_None_iff)
  with None assms show ?thesis
    by (simp add: bfs_visit_def node_depths_def add_depth_def pushed_def map_set_fresh image_image
        split_beta)
next
  case (Some v)
  then have "found_name e \<in> fst ` set (visited st)"
    by (auto dest: map_of_SomeD intro: rev_image_eqI)
  with Some assms show ?thesis
    by (simp add: bfs_visit_def add_depth_def AList.distinct_update)
      (simp add: node_depths_def node_depths_update)
qed

lemma fold_bfs_visit:
  assumes "distinct (map_keys (visited st))"
  shows "distinct (map_keys (visited (fold (bfs_visit cs src d) q st)))
    \<and> node_depths (fold (bfs_visit cs src d) q st) = fold add_depth q (node_depths st)
    \<and> set (bfs_queue (fold (bfs_visit cs src d) q st)) = set (bfs_queue st)
        \<union> (\<Union>n \<in> found_name ` set q - fst ` set (visited st). set (pushed cs d n))
    \<and> (returned st = filter (\<lambda>n. n \<noteq> src) (map fst (node_depths st)) \<longrightarrow>
       returned (fold (bfs_visit cs src d) q st)
         = filter (\<lambda>n. n \<noteq> src) (map fst (node_depths (fold (bfs_visit cs src d) q st))))"
  using assms
proof (induction q arbitrary: st)
  case (Cons e q)
  let ?st = "bfs_visit cs src d e st"
  note step = bfs_visit_step [OF Cons.prems, of cs src d e]
  from step have "distinct (map_keys (visited ?st))" by blast
  note IH = Cons.IH [OF this]
  have keys: "fst ` set (visited ?st) = insert (found_name e) (fst ` set (visited st))"
    using bfs_visit_keys [of cs src d e st] by simp
  have queue: "set (bfs_queue (fold (bfs_visit cs src d) (e # q) st)) = set (bfs_queue st)
      \<union> (\<Union>n \<in> found_name ` set (e # q) - fst ` set (visited st). set (pushed cs d n))"
  proof -
    let ?V = "fst ` set (visited st)" and ?q = "found_name ` set q"
    have "set (bfs_queue (fold (bfs_visit cs src d) q ?st)) = set (bfs_queue ?st)
        \<union> (\<Union>n \<in> ?q - insert (found_name e) ?V. set (pushed cs d n))"
      using IH unfolding keys by blast
    moreover have "set (bfs_queue ?st) = set (bfs_queue st)
        \<union> (if found_name e \<in> ?V then {} else set (pushed cs d (found_name e)))"
      using step by simp
    moreover have "found_name ` set (e # q) - V
        = (if found_name e \<in> V then {} else {found_name e}) \<union> (?q - insert (found_name e) V)" for V
      by auto
    ultimately show ?thesis by (simp add: Un_assoc)
  qed
  have ret: "returned ?st = filter (\<lambda>n. n \<noteq> src) (map fst (node_depths ?st))"
    if "returned st = filter (\<lambda>n. n \<noteq> src) (map fst (node_depths st))"
    using that step by (auto simp: add_depth_def)
  show ?case
  proof (intro conjI impI)
    assume "returned st = filter (\<lambda>n. n \<noteq> src) (map fst (node_depths st))"
    from ret [OF this] IH show "returned (fold (bfs_visit cs src d) (e # q) st)
        = filter (\<lambda>n. n \<noteq> src) (map fst (node_depths (fold (bfs_visit cs src d) (e # q) st)))"
      by simp
  qed (use queue IH step in simp_all)
qed simp

lemma keys_add_depth [simp]: "fst ` set (add_depth e ds) = insert (found_name e) (fst ` set ds)"
  by (simp add: add_depth_def insert_absorb)

lemma fold_add_depth:
  assumes "\<forall>e \<in> set q. found_depth e = k"
  shows "\<exists>ns. fold add_depth q ds = ds @ map (\<lambda>n. (n, k)) ns
    \<and> set ns = found_name ` set q - fst ` set ds"
  using assms
proof (induction q arbitrary: ds)
  case (Cons e q)
  from Cons.prems have "\<forall>e \<in> set q. found_depth e = k" and k: "found_depth e = k" by simp_all
  from Cons.IH [OF this(1), of "add_depth e ds"] obtain ns where
    ns: "fold add_depth q (add_depth e ds) = add_depth e ds @ map (\<lambda>n. (n, k)) ns"
    "set ns = found_name ` set q - insert (found_name e) (fst ` set ds)"
    unfolding keys_add_depth by blast
  show ?case
  proof (cases "found_name e \<in> fst ` set ds")
    case True
    then have "add_depth e ds = ds" by (simp add: add_depth_def)
    with True ns show ?thesis by (intro exI [of _ ns]) (simp add: insert_absorb)
  next
    case False
    with k have "add_depth e ds = ds @ [(found_name e, k)]" by (simp add: add_depth_def)
    with ns(1) have "fold add_depth (e # q) ds = ds @ map (\<lambda>n. (n, k)) (found_name e # ns)" by simp
    moreover have "set (found_name e # ns) = found_name ` set (e # q) - fst ` set ds"
      using False ns(2) by auto
    ultimately show ?thesis by blast
  qed
qed simp

text \<open>The indices of a node grow by those of the entries with its name.\<close>

definition indices_at :: "bfs_state \<Rightarrow> string \<Rightarrow> nat set" where
  "indices_at st n = (case map_of (visited st) n of None \<Rightarrow> {} | Some v \<Rightarrow> set (indicies v))"

definition named_right :: "bfs_state \<Rightarrow> bool" where
  "named_right st \<longleftrightarrow> (\<forall>(n, v) \<in> set (visited st). found_name v = n)"

lemma bfs_visit_indices:
  "indices_at (bfs_visit cs src d e st) n
     = indices_at st n \<union> (if found_name e = n then set (indicies e) else {})"
  by (auto simp: indices_at_def bfs_visit_def split: option.split)

lemma fold_bfs_visit_indices:
  "indices_at (fold (bfs_visit cs src d) q st) n = indices_at st n \<union> indices_of q n"
  by (induction q arbitrary: st) (auto simp: bfs_visit_indices)

lemma bfs_visit_named:
  assumes "distinct (map_keys (visited st))" and "named_right st"
  shows "named_right (bfs_visit cs src d e st)"
  using assms
  by (auto simp: named_right_def bfs_visit_def set_map_set dest: map_of_SomeD split: option.split)

lemma fold_bfs_visit_named:
  "distinct (map_keys (visited st)) \<Longrightarrow> named_right st \<Longrightarrow> named_right (fold (bfs_visit cs src d) q st)"
proof (induction q arbitrary: st)
  case (Cons e q)
  have "distinct (map_keys (visited (bfs_visit cs src d e st)))"
    using bfs_visit_step [OF Cons.prems(1)] by blast
  with Cons.IH bfs_visit_named [OF Cons.prems] show ?case by simp
qed simp

section \<open>The search as a whole\<close>

abbreviation main_hop :: "iconnections \<Rightarrow> string rel" where
  "main_hop cs \<equiv> hop (OneType Main_type) cs"

lemma hop_one: "(y, n) \<in> hop (OneType t) cs \<longleftrightarrow> (\<exists>c \<in> set (connections_of cs t y). conn_node c = n)"
  by (auto simp: hop_def connected_targets_def connection_types_of_def connections_of_def
      typed_connections_def split: option.splits)

text \<open>The indices of the connections that lead from one of some nodes to a node.\<close>

definition incoming :: "iconnections \<Rightarrow> string set \<Rightarrow> string \<Rightarrow> nat set" where
  "incoming cs Y n = {conn_index c | y c. y \<in> Y \<and> c \<in> set (connections_of cs Main_type y) \<and> conn_node c = n}"

definition previous_level :: "string rel \<Rightarrow> string \<Rightarrow> nat \<Rightarrow> string set" where
  "previous_level R src k = {y. \<exists>j. k = Suc j \<and> at_distance R src j y}"

definition bfs_inv :: "iconnections \<Rightarrow> string \<Rightarrow> nat \<Rightarrow> bfs_state \<Rightarrow> bool" where
  "bfs_inv cs src k st \<longleftrightarrow>
     distinct (map_keys (visited st)) \<and> named_right st
     \<and> returned st = filter (\<lambda>n. n \<noteq> src) (map fst (node_depths st))
     \<and> sorted (map snd (node_depths st))
     \<and> set (node_depths st) = {(n, j). j < k \<and> at_distance (main_hop cs) src j n}
     \<and> (\<forall>n. indices_at st n =
          (if n \<in> closer (main_hop cs) src k then incoming cs (closer (main_hop cs) src (k - 1)) n else {}))
     \<and> (\<forall>e \<in> set (bfs_queue st). found_depth e = k)
     \<and> found_name ` set (bfs_queue st)
         = (if k = 0 then {src} else main_hop cs `` previous_level (main_hop cs) src k)
     \<and> (\<forall>n. indices_of (bfs_queue st) n = incoming cs (previous_level (main_hop cs) src k) n)"

lemma closer_previous: "closer R src k = closer R src (k - 1) \<union> previous_level R src k"
  by (cases k) (auto simp: closer_Suc previous_level_def)

lemma incoming_Un: "incoming cs (Y \<union> Z) n = incoming cs Y n \<union> incoming cs Z n"
  by (auto simp: incoming_def)

lemma incoming_empty: "n \<notin> main_hop cs `` Y \<Longrightarrow> incoming cs Y n = {}"
  by (auto simp: incoming_def hop_one Image_def)

lemma hop_previous:
  "(if k = 0 then {src} else R `` previous_level R src k) - closer R src k = {n. at_distance R src k n}"
proof (cases k)
  case (Suc j)
  have "n \<in> R `` previous_level R src k \<and> n \<notin> closer R src k \<longleftrightarrow> at_distance R src k n" for n
  proof
    assume "n \<in> R `` previous_level R src k \<and> n \<notin> closer R src k"
    then obtain m where "at_distance R src j m" "(m, n) \<in> R" "n \<notin> closer R src (Suc j)"
      by (auto simp: previous_level_def Suc)
    then show "at_distance R src k n" using at_distance_step Suc by blast
  next
    assume n: "at_distance R src k n"
    then obtain m where "at_distance R src j m" "(m, n) \<in> R" using at_distance_pred Suc by blast
    with n at_distance_fresh [OF n] show "n \<in> R `` previous_level R src k \<and> n \<notin> closer R src k"
      by (auto simp: previous_level_def Suc)
  qed
  with Suc show ?thesis by auto
qed auto

lemma indices_of_pushed:
  assumes "set q = (\<Union>y \<in> Y. set (pushed cs d y))"
  shows "indices_of q n = incoming cs Y n"
proof (rule set_eqI)
  fix i
  have "i \<in> indices_of q n \<longleftrightarrow>
      (\<exists>y \<in> Y. \<exists>e \<in> set (pushed cs d y). found_name e = n \<and> i \<in> set (indicies e))"
    unfolding indices_of_def assms by blast
  also have "\<dots> \<longleftrightarrow> (\<exists>y \<in> Y. \<exists>c \<in> set (connections_of cs Main_type y). conn_node c = n \<and> i = conn_index c)"
    by (simp add: pushed_def)
  also have "\<dots> \<longleftrightarrow> i \<in> incoming cs Y n" unfolding incoming_def by blast
  finally show "i \<in> indices_of q n \<longleftrightarrow> i \<in> incoming cs Y n" .
qed

lemma bfs_round:
  assumes inv: "bfs_inv cs src k st"
  shows "bfs_inv cs src (Suc k) (fold (bfs_visit cs src (Suc k)) (bfs_queue st) (st\<lparr>bfs_queue := []\<rparr>))"
proof -
  let ?R = "main_hop cs" and ?st = "fold (bfs_visit cs src (Suc k)) (bfs_queue st) (st\<lparr>bfs_queue := []\<rparr>)"
  let ?q = "bfs_queue st" and ?names = "found_name ` set (bfs_queue st)"
  have st: "distinct (map_keys (visited st))" "named_right st"
      "returned st = filter (\<lambda>n. n \<noteq> src) (map fst (node_depths st))"
      "sorted (map snd (node_depths st))"
      "set (node_depths st) = {(n, j). j < k \<and> at_distance ?R src j n}"
    and names: "?names = (if k = 0 then {src} else ?R `` previous_level ?R src k)"
    and indices: "\<And>n. indices_at st n =
      (if n \<in> closer ?R src k then incoming cs (closer ?R src (k - 1)) n else {})"
    and queued: "\<And>n. indices_of ?q n = incoming cs (previous_level ?R src k) n"
    using inv by (simp_all only: bfs_inv_def simp_thms)
  have depth: "\<forall>e \<in> set ?q. found_depth e = k" using inv unfolding bfs_inv_def by (elim conjE)
  have same: "node_depths (st\<lparr>bfs_queue := []\<rparr>) = node_depths st" by (simp add: node_depths_def)
  have keys: "fst ` set (visited st) = closer ?R src k"
    using st(5) unfolding keys_node_depths [symmetric] by (force simp: closer_iff)
  have new: "?names - closer ?R src k = {n. at_distance ?R src k n}"
    unfolding names by (rule hop_previous)
  have d: "distinct (map_keys (visited (st\<lparr>bfs_queue := []\<rparr>)))" using st(1) by simp
  note round = fold_bfs_visit [OF d, of cs src "Suc k" ?q, unfolded same]
  obtain ns where ns: "node_depths ?st = node_depths st @ map (\<lambda>n. (n, k)) ns"
    "set ns = {n. at_distance ?R src k n}"
    using fold_add_depth [OF depth, of "node_depths st"] round new keys by auto
  have nd: "set (node_depths ?st) = {(n, j). j < Suc k \<and> at_distance ?R src j n}"
    using ns st(5) by (auto simp: less_Suc_eq)
  have q: "set (bfs_queue ?st) = (\<Union>n \<in> {n. at_distance ?R src k n}. set (pushed cs (Suc k) n))"
    using round keys new by simp
  have prev: "previous_level ?R src (Suc k) = {n. at_distance ?R src k n}"
    by (auto simp: previous_level_def)
  have ind: "indices_at ?st n = (if n \<in> closer ?R src (Suc k) then incoming cs (closer ?R src k) n else {})" for n
  proof -
    have "indices_at ?st n = indices_at st n \<union> incoming cs (previous_level ?R src k) n"
      unfolding fold_bfs_visit_indices queued by (simp add: indices_at_def)
    moreover have "incoming cs (closer ?R src (k - 1)) n = {}" if "n \<notin> closer ?R src k"
      using that closer_step [of _ ?R src "k - 1" n] by (cases k) (auto simp: incoming_def hop_one)
    moreover have "incoming cs (previous_level ?R src k) n = {}" if "n \<notin> closer ?R src (Suc k)"
      using that names new incoming_empty [of n cs "previous_level ?R src k"]
      by (cases "k = 0") (auto simp: closer_Suc previous_level_def incoming_def)
    moreover have "closer ?R src k \<subseteq> closer ?R src (Suc k)" by (rule closer_mono) simp
    ultimately show ?thesis
      unfolding indices closer_previous [of ?R src k] incoming_Un by auto
  qed
  have "\<forall>e \<in> set (bfs_queue ?st). found_depth e = Suc k" unfolding q by (auto simp: pushed_def)
  moreover have "found_name ` set (bfs_queue ?st) = ?R `` previous_level ?R src (Suc k)"
    unfolding q prev by (force simp: pushed_def hop_one)
  moreover have "indices_of (bfs_queue ?st) n = incoming cs (previous_level ?R src (Suc k)) n" for n
    unfolding prev by (rule indices_of_pushed [OF q])
  moreover have "sorted (map snd (node_depths ?st))"
    using st(4,5) ns by (auto simp: sorted_append sorted_map)
  moreover have "named_right ?st"
    using fold_bfs_visit_named [OF d] st(2) by (simp add: named_right_def)
  moreover have "returned ?st = filter (\<lambda>n. n \<noteq> src) (map fst (node_depths ?st))"
    using round st(3) by simp
  ultimately show ?thesis using round nd ind unfolding bfs_inv_def by simp
qed

text \<open>How deep a depth limit lets the search go: \<open>-1\<close> does not limit it, any other negative number
  allows nothing.\<close>

definition depth_allows :: "int \<Rightarrow> nat \<Rightarrow> bool" where
  "depth_allows maxDepth k \<longleftrightarrow> maxDepth = - 1 \<or> int k \<le> maxDepth"

lemma bfs_loop_spec:
  assumes "bfs_inv cs src k st" and "\<forall>j<k. depth_allows maxDepth j"
  shows "\<exists>k'. bfs_inv cs src k' (bfs_loop cs src maxDepth k st) \<and> (\<forall>j<k'. depth_allows maxDepth j)
    \<and> (bfs_queue (bfs_loop cs src maxDepth k st) = [] \<or> \<not> depth_allows maxDepth k')"
  using assms
proof (induction cs src maxDepth k st rule: bfs_loop.induct)
  case (1 cs src maxDepth k st)
  show ?case
  proof (cases "bfs_queue st = [] \<or> (maxDepth \<noteq> - 1 \<and> int k > maxDepth)")
    case True
    with "1.prems" show ?thesis
      unfolding bfs_loop.simps [of cs src maxDepth k st]
      by (intro exI [of _ k]) (auto simp: depth_allows_def)
  next
    case False
    then have "\<forall>j<Suc k. depth_allows maxDepth j"
      using "1.prems"(2) by (auto simp: depth_allows_def less_Suc_eq)
    with "1.IH" [OF False bfs_round [OF "1.prems"(1)]] show ?thesis
      unfolding bfs_loop.simps [of cs src maxDepth k st] if_not_P [OF False] by blast
  qed
qed

lemma bfs_inv_start:
  "bfs_inv cs src 0 \<lparr>visited = [], returned = [],
     bfs_queue = [\<lparr>found_name = src, indicies = [], found_depth = 0\<rparr>]\<rparr>"
  by (auto simp: bfs_inv_def named_right_def node_depths_def indices_at_def previous_level_def incoming_def)

text \<open>When the search has stopped, no allowed level is left.\<close>

lemma bfs_stopped:
  assumes inv: "bfs_inv cs src k st" and allowed: "\<forall>j<k. depth_allows maxDepth j"
    and stop: "bfs_queue st = [] \<or> \<not> depth_allows maxDepth k"
    and j: "depth_allows maxDepth j" "at_distance (main_hop cs) src j n"
  shows "j < k"
proof (rule ccontr)
  assume "\<not> j < k"
  then have jk: "k \<le> j" by simp
  with j(1) have "depth_allows maxDepth k" by (auto simp: depth_allows_def)
  with stop have "bfs_queue st = []" by simp
  with inv have "(if k = 0 then {src} else main_hop cs `` previous_level (main_hop cs) src k) = {}"
    unfolding bfs_inv_def by (elim conjE) simp
  with hop_previous [of k src "main_hop cs"] have none: "\<not> at_distance (main_hop cs) src k m" for m by blast
  have "\<not> at_distance (main_hop cs) src i m" if "k \<le> i" for i m
    using that
  proof (induction i arbitrary: m rule: dec_induct)
    case (step i)
    then show ?case by (metis at_distance_pred)
  qed (rule none)
  with jk j(2) show False by blast
qed

lemma searchNodesBFS_spec:
  fixes cs src maxDepth
  defines "r \<equiv> searchNodesBFS cs src maxDepth"
  shows "distinct (map found_name r) \<and> sorted (map found_depth r)
    \<and> set (map (\<lambda>e. (found_name e, found_depth e)) r)
        = {(n, k). n \<noteq> src \<and> depth_allows maxDepth k \<and> at_distance (main_hop cs) src k n}
    \<and> map (\<lambda>e. set (indicies e)) r
        = map (\<lambda>e. incoming cs {y. \<exists>k. depth_allows maxDepth (Suc k) \<and> at_distance (main_hop cs) src k y}
                 (found_name e)) r"
proof -
  let ?R = "main_hop cs"
  define st where "st = bfs_loop cs src maxDepth 0 \<lparr>visited = [], returned = [],
     bfs_queue = [\<lparr>found_name = src, indicies = [], found_depth = 0\<rparr>]\<rparr>"
  obtain k where inv: "bfs_inv cs src k st" and allowed: "\<forall>j<k. depth_allows maxDepth j"
    and stop: "bfs_queue st = [] \<or> \<not> depth_allows maxDepth k"
    using bfs_loop_spec [OF bfs_inv_start [of cs src], of maxDepth] unfolding st_def by auto
  let ?nd = "filter (\<lambda>(n, j). n \<noteq> src) (node_depths st)"
  have st: "distinct (map_keys (visited st))" "named_right st"
      "returned st = filter (\<lambda>n. n \<noteq> src) (map fst (node_depths st))"
      "sorted (map snd (node_depths st))"
      "set (node_depths st) = {(n, j). j < k \<and> at_distance ?R src j n}"
    using inv by (simp_all only: bfs_inv_def simp_thms)
  have levels: "j < k \<longleftrightarrow> depth_allows maxDepth j" if "at_distance ?R src j n" for j n
    using bfs_stopped [OF inv allowed stop _ that] allowed by blast
  have found: "\<exists>v. map_of (visited st) n = Some v \<and> found_name v = n \<and> found_depth v = j"
    if "(n, j) \<in> set (node_depths st)" for n j
  proof -
    from that obtain v where v: "(n, v) \<in> set (visited st)" "found_depth v = j"
      by (auto simp: node_depths_def)
    with st(1,2) show ?thesis by (auto simp: named_right_def)
  qed
  have r: "r = map (\<lambda>(n, j). the (map_of (visited st) n)) ?nd"
    unfolding r_def searchNodesBFS_def Let_def st_def [symmetric] st(3)
    by (simp add: filter_map comp_def split_def)
  have depths: "map (\<lambda>e. (found_name e, found_depth e)) r = ?nd"
    unfolding r map_map by (rule map_idI) (auto dest!: found)
  have names: "map found_name r = map fst ?nd"
    using arg_cong [OF depths, of "map fst"] by (simp add: comp_def)
  have "map found_depth r = map snd ?nd"
    using arg_cong [OF depths, of "map snd"] by (simp add: comp_def)
  then have "sorted (map found_depth r)"
    using st(4) by (simp add: sorted_map sorted_wrt_filter)
  moreover have "distinct (map found_name r)"
    unfolding names using st(1) by (intro distinct_map_fst_filter) (simp add: node_depths_def split_def comp_def)
  moreover have "set (map (\<lambda>e. (found_name e, found_depth e)) r)
      = {(n, k). n \<noteq> src \<and> depth_allows maxDepth k \<and> at_distance ?R src k n}"
    unfolding depths using st(5) levels by auto
  moreover have "set (indicies e)
      = incoming cs {y. \<exists>j. depth_allows maxDepth (Suc j) \<and> at_distance ?R src j y} (found_name e)"
    if "e \<in> set r" for e
  proof -
    from that obtain n j where n: "(n, j) \<in> set (node_depths st)" "e = the (map_of (visited st) n)"
      unfolding r by auto
    with found [OF n(1)] have nj: "(found_name e, j) \<in> set (node_depths st)"
      "map_of (visited st) (found_name e) = Some e" by auto
    have here: "found_name e \<in> closer ?R src k" using nj(1) st(5) by (auto simp: closer_iff)
    have "set (indicies e) = indices_at st (found_name e)" using nj(2) by (simp add: indices_at_def)
    also have "\<dots> = incoming cs (closer ?R src (k - 1)) (found_name e)"
      using inv here unfolding bfs_inv_def by (elim conjE) simp
    also have "\<dots> = incoming cs {y. \<exists>j. depth_allows maxDepth (Suc j) \<and> at_distance ?R src j y} (found_name e)"
    proof (rule set_eqI, rule iffI)
      fix i assume "i \<in> incoming cs (closer ?R src (k - 1)) (found_name e)"
      moreover have "closer ?R src (k - 1) \<subseteq> {y. \<exists>j. depth_allows maxDepth (Suc j) \<and> at_distance ?R src j y}"
      proof
        fix y assume "y \<in> closer ?R src (k - 1)"
        then obtain j where "j < k - 1" "at_distance ?R src j y" by (auto simp: closer_iff)
        then have "depth_allows maxDepth (Suc j)" using allowed by simp
        with \<open>at_distance ?R src j y\<close> show "y \<in> {y. \<exists>j. depth_allows maxDepth (Suc j) \<and> at_distance ?R src j y}"
          by blast
      qed
      ultimately show "i \<in> incoming cs
          {y. \<exists>j. depth_allows maxDepth (Suc j) \<and> at_distance ?R src j y} (found_name e)"
        unfolding incoming_def by blast
    next
      fix i assume "i \<in> incoming cs
          {y. \<exists>j. depth_allows maxDepth (Suc j) \<and> at_distance ?R src j y} (found_name e)"
      then obtain y j c where y: "depth_allows maxDepth (Suc j)" "at_distance ?R src j y"
        and c: "c \<in> set (connections_of cs Main_type y)" "conn_node c = found_name e" "i = conn_index c"
        unfolding incoming_def by blast
      have "depth_allows maxDepth j" using y(1) by (auto simp: depth_allows_def)
      with levels y(2) have jk: "j < k" by blast
      have "k \<noteq> Suc j"
      proof
        assume k: "k = Suc j"
        with stop y(1) have "bfs_queue st = []" by simp
        with inv have "{} = incoming cs (previous_level ?R src k) (found_name e)"
          unfolding bfs_inv_def by (elim conjE) simp
        moreover have "y \<in> previous_level ?R src k" using y(2) k by (simp add: previous_level_def)
        ultimately show False using c unfolding incoming_def by blast
      qed
      with jk have "j < k - 1" by simp
      with y(2) have "y \<in> closer ?R src (k - 1)" by (auto simp: closer_iff)
      with c show "i \<in> incoming cs (closer ?R src (k - 1)) (found_name e)"
        unfolding incoming_def by blast
    qed
    finally show ?thesis .
  qed
  ultimately show ?thesis by simp
qed

end
