(* ===== verification/Connection_Index.thy ===== *)
theory Connection_Index
  imports Workflow_Search
begin

text \<open>
  \<open>getNodeConnectionIndexes\<close> of the class \<open>Workflow\<close>: a breadth-first search over the connections
  by destination that stops at the first connection from the wanted parent. The \<open>while\<close> loop over
  the queue is a partial function: \<open>None\<close> stands for a search that does not return.
\<close>

section \<open>The code\<close>

record node_connection =
  source_index :: nat
  destination_index :: nat

text \<open>The two nested loops over the inputs of one node: \<open>Inl\<close> is the \<open>return\<close> from the middle.\<close>

fun scan_connections ::
  "string \<Rightarrow> string list \<Rightarrow> nat \<Rightarrow> iconnection list \<Rightarrow> string list \<Rightarrow> node_connection + string list" where
  "scan_connections parentNodeName visitedNodes destinationIndex [] queue = Inr queue"
| "scan_connections parentNodeName visitedNodes destinationIndex (connection # rest) queue =
     (if parentNodeName = conn_node connection
      then Inl \<lparr>source_index = conn_index connection, destination_index = destinationIndex\<rparr>
      else scan_connections parentNodeName visitedNodes (Suc destinationIndex) rest
             (if conn_node connection \<in> set visitedNodes then queue
              else queue @ [conn_node connection]))"

fun scan_inputs ::
  "string \<Rightarrow> string list \<Rightarrow> node_input_connections \<Rightarrow> string list \<Rightarrow> node_connection + string list" where
  "scan_inputs parentNodeName visitedNodes [] queue = Inr queue"
| "scan_inputs parentNodeName visitedNodes (None # rest) queue =
     scan_inputs parentNodeName visitedNodes rest queue"
| "scan_inputs parentNodeName visitedNodes (Some connectionsByIndex # rest) queue =
     bind_result (scan_connections parentNodeName visitedNodes 0 connectionsByIndex queue)
       (scan_inputs parentNodeName visitedNodes rest)"

partial_function (option) search_connection ::
  "iconnections \<Rightarrow> node_connection_type \<Rightarrow> string \<Rightarrow> string list \<Rightarrow> string list
   \<Rightarrow> node_connection option option" where
  "search_connection connectionsByDest type parentNodeName visitedNodes queue =
     (case queue of
        [] \<Rightarrow> Some None
      | currentNodeName # rest \<Rightarrow>
          if currentNodeName \<in> set visitedNodes
          then search_connection connectionsByDest type parentNodeName visitedNodes rest
          else case typed_connections connectionsByDest type currentNodeName of
                 None \<Rightarrow> search_connection connectionsByDest type parentNodeName
                           (currentNodeName # visitedNodes) rest
               | Some typeConnections \<Rightarrow>
                   (case scan_inputs parentNodeName (currentNodeName # visitedNodes) typeConnections rest of
                      Inl found \<Rightarrow> Some (Some found)
                    | Inr queue' \<Rightarrow> search_connection connectionsByDest type parentNodeName
                                     (currentNodeName # visitedNodes) queue'))"

definition getNodeConnectionIndexes ::
  "workflow \<Rightarrow> string \<Rightarrow> string \<Rightarrow> node_connection_type \<Rightarrow> node_connection option option" where
  "getNodeConnectionIndexes w nodeName parentNodeName type =
     (case getNode w parentNodeName of
        None \<Rightarrow> Some None
      | Some _ \<Rightarrow> search_connection (connectionsByDestinationNode w) type parentNodeName [] [nodeName])"

section \<open>The scan of one node\<close>

definition unvisited_targets :: "string list \<Rightarrow> iconnection list \<Rightarrow> string list" where
  "unvisited_targets seen cs = filter (\<lambda>n. n \<notin> set seen) (map conn_node cs)"

lemma scan_connections_Inr:
  "scan_connections p seen i cs q = Inr q' \<longleftrightarrow> p \<notin> conn_node ` set cs \<and> q' = q @ unvisited_targets seen cs"
  by (induction cs arbitrary: i q) (auto simp: unvisited_targets_def)

lemma scan_connections_Inl:
  "scan_connections p seen i cs q = Inl r \<Longrightarrow>
   \<exists>j < length cs. conn_node (cs ! j) = p \<and> (\<forall>l<j. conn_node (cs ! l) \<noteq> p)
     \<and> r = \<lparr>source_index = conn_index (cs ! j), destination_index = i + j\<rparr>"
proof (induction cs arbitrary: i q)
  case (Cons c cs)
  show ?case
  proof (cases "p = conn_node c")
    case True
    with Cons.prems show ?thesis by (intro exI [of _ 0]) simp
  next
    case False
    with Cons.IH Cons.prems obtain j where "j < length cs" "conn_node (cs ! j) = p"
      "\<forall>l<j. conn_node (cs ! l) \<noteq> p"
      "r = \<lparr>source_index = conn_index (cs ! j), destination_index = Suc i + j\<rparr>"
      by (metis scan_connections.simps(2))
    with False show ?thesis
      by (intro exI [of _ "Suc j"]) (auto simp: less_Suc_eq_0_disj)
  qed
qed simp

text \<open>What is returned for one node: its first input, in order, that has a connection from the
  parent, and there the first such connection.\<close>

definition first_connection_from :: "string \<Rightarrow> node_input_connections \<Rightarrow> node_connection \<Rightarrow> bool" where
  "first_connection_from p outs r \<longleftrightarrow>
     (\<exists>input cs. input < length outs \<and> outs ! input = Some cs
        \<and> destination_index r < length cs
        \<and> conn_node (cs ! destination_index r) = p
        \<and> source_index r = conn_index (cs ! destination_index r)
        \<and> (\<forall>j < destination_index r. conn_node (cs ! j) \<noteq> p)
        \<and> p \<notin> conn_node ` set (connections_in (take input outs)))"

lemma connections_in_simps [simp]:
  "connections_in [] = []"
  "connections_in (None # outs) = connections_in outs"
  "connections_in (Some cs # outs) = cs @ connections_in outs"
  by (simp_all add: connections_in_def)

lemma unvisited_targets_append [simp]:
  "unvisited_targets seen (cs @ ds) = unvisited_targets seen cs @ unvisited_targets seen ds"
  by (simp add: unvisited_targets_def)

lemma scan_inputs_Inr:
  "scan_inputs p seen outs q = Inr q' \<longleftrightarrow>
   p \<notin> conn_node ` set (connections_in outs) \<and> q' = q @ unvisited_targets seen (connections_in outs)"
proof (induction outs arbitrary: q)
  case (Cons cs outs)
  then show ?case
    by (cases cs) (auto simp: bind_result_Inr_iff scan_connections_Inr)
qed (auto simp: unvisited_targets_def)

lemma first_connection_later:
  assumes "first_connection_from p outs r" and "\<forall>cs. o1 = Some cs \<longrightarrow> p \<notin> conn_node ` set cs"
  shows "first_connection_from p (o1 # outs) r"
proof -
  from assms(1) obtain input cs where 1: "input < length outs" "outs ! input = Some cs"
    "destination_index r < length cs" "conn_node (cs ! destination_index r) = p"
    "source_index r = conn_index (cs ! destination_index r)"
    "\<forall>j < destination_index r. conn_node (cs ! j) \<noteq> p"
    "p \<notin> conn_node ` set (connections_in (take input outs))"
    unfolding first_connection_from_def by blast
  have "p \<notin> conn_node ` set (connections_in (take (Suc input) (o1 # outs)))"
    using 1(7) assms(2) by (cases o1) auto
  with 1 show ?thesis
    unfolding first_connection_from_def by (intro exI [of _ "Suc input"] exI [of _ cs]) simp
qed

lemma scan_inputs_Inl:
  "scan_inputs p seen outs q = Inl r \<Longrightarrow> first_connection_from p outs r"
proof (induction outs arbitrary: q)
  case (Cons o1 outs)
  show ?case
  proof (cases o1)
    case None
    with Cons show ?thesis by (intro first_connection_later) auto
  next
    case (Some cs)
    show ?thesis
    proof (cases "scan_connections p seen 0 cs q")
      case (Inl r')
      with Cons.prems Some have "r' = r" by simp
      with scan_connections_Inl [OF Inl] Some show ?thesis
        unfolding first_connection_from_def
        by (intro exI [of _ 0] exI [of _ cs]) auto
    next
      case (Inr q1)
      with Cons.prems Some have "scan_inputs p seen outs q1 = Inl r" by simp
      from Cons.IH [OF this] show ?thesis
        by (rule first_connection_later) (use Inr Some scan_connections_Inr in auto)
    qed
  qed
qed simp

lemma first_connection_edge:
  assumes "first_connection_from p outs r"
  shows "p \<in> conn_node ` set (connections_in outs)"
proof -
  from assms obtain input cs where 1: "input < length outs" "outs ! input = Some cs"
    "destination_index r < length cs" "conn_node (cs ! destination_index r) = p"
    unfolding first_connection_from_def by blast
  from 1(1,2) have "Some cs \<in> set outs" by (metis nth_mem)
  then have "set cs \<subseteq> set (connections_in outs)" by (force simp: connections_in_def)
  with 1(3,4) show ?thesis by (metis image_eqI nth_mem subsetD)
qed

section \<open>The queue\<close>

text \<open>
  The queue holds what is left of level \<open>k\<close> and then what has been found of the next level;
  everything closer has been visited, and no visited node has a connection from the parent.
\<close>

definition search_level ::
  "string rel \<Rightarrow> string \<Rightarrow> string \<Rightarrow> nat \<Rightarrow> string list \<Rightarrow> string list \<Rightarrow> string list \<Rightarrow> bool" where
  "search_level R p src k seen here ahead \<longleftrightarrow>
     closer R src k \<subseteq> set seen \<and> set seen \<union> set here \<subseteq> closer R src (Suc k)
     \<and> closer R src (Suc k) \<subseteq> set seen \<union> set here \<and> set ahead \<subseteq> closer R src (Suc (Suc k))
     \<and> R `` set seen \<subseteq> set seen \<union> set here \<union> set ahead \<and> p \<notin> R `` set seen"

lemma search_level_start: "search_level R p src 0 [] [src] []"
  by (auto simp: search_level_def closer_Suc)

lemma search_level_next:
  assumes "search_level R p src k seen [] ahead"
  shows "search_level R p src (Suc k) seen ahead []"
proof -
  have "n \<in> set seen \<union> set ahead" if "at_distance R src (Suc k) n" for n
  proof -
    from that obtain m where "at_distance R src k m" "(m, n) \<in> R" by (rule at_distance_pred)
    have "m \<in> set seen" using assms \<open>at_distance R src k m\<close>
      by (auto simp: search_level_def closer_Suc)
    with \<open>(m, n) \<in> R\<close> have "n \<in> R `` set seen" by blast
    with assms show ?thesis unfolding search_level_def by auto
  qed
  with assms show ?thesis
    by (auto simp: search_level_def closer_Suc [of R src "Suc k"] dest: subsetD [OF closer_mono])
qed

lemma search_level_head:
  assumes "search_level R p src k seen here ahead" and "here @ ahead = n # rest"
  obtains k' here' ahead' where "search_level R p src k' seen (n # here') ahead'" and "rest = here' @ ahead'"
proof (cases here)
  case Nil
  with assms search_level_next that [of "Suc k" rest "[]"] show ?thesis by auto
next
  case (Cons m here')
  with assms that show ?thesis by auto
qed

lemma search_level_skip:
  "search_level R p src k seen (n # here) ahead \<Longrightarrow> n \<in> set seen \<Longrightarrow> search_level R p src k seen here ahead"
  by (auto simp: search_level_def)

lemma search_level_new:
  assumes "search_level R p src k seen (n # here) ahead" and "n \<notin> set seen"
  shows "at_distance R src k n" and "p \<notin> R `` closer R src k"
  using assms by (auto simp: search_level_def closer_Suc)

lemma search_level_visit:
  assumes lev: "search_level R p src k seen (n # here) ahead" and "p \<notin> R `` {n}"
    and targets: "set ts = R `` {n} - set (n # seen)"
  shows "search_level R p src k (n # seen) here (ahead @ ts)"
proof -
  have "n \<in> closer R src (Suc k)" using lev by (auto simp: search_level_def)
  then have "R `` {n} \<subseteq> closer R src (Suc (Suc k))" using closer_step by fast
  with assms show ?thesis by (auto simp: search_level_def)
qed

lemma search_level_end:
  assumes "search_level R p src k seen [] []"
  shows "(src, p) \<notin> R\<^sup>+"
proof
  assume "(src, p) \<in> R\<^sup>+"
  then obtain y where y: "(src, y) \<in> R\<^sup>*" "(y, p) \<in> R" by (meson tranclD2)
  have "src \<in> closer R src (Suc k)" unfolding closer_def by (intro CollectI exI [of _ 0]) simp
  with assms have "src \<in> set seen" by (auto simp: search_level_def)
  moreover have "R `` set seen \<subseteq> set seen" using assms by (auto simp: search_level_def)
  ultimately have "y \<in> set seen" using closed_rtrancl [OF _ _ y(1), of "set seen"] by blast
  with y(2) assms show False by (auto simp: search_level_def)
qed

section \<open>The search returns\<close>

definition connection_found ::
  "iconnections \<Rightarrow> node_connection_type \<Rightarrow> string \<Rightarrow> string \<Rightarrow> node_connection \<Rightarrow> bool" where
  "connection_found cs t src p r \<longleftrightarrow>
     (\<exists>k y outs. at_distance (hop (OneType t) cs) src k y \<and> p \<notin> hop (OneType t) cs `` closer (hop (OneType t) cs) src k
        \<and> typed_connections cs t y = Some outs \<and> first_connection_from p outs r)"

lemma hop_image: "hop (OneType t) cs `` {n} = conn_node ` set (connections_of cs t n)"
  by (auto simp: hop_one)

lemma connection_found_hop:
  assumes "connection_found cs t src p r"
  shows "(src, p) \<in> (hop (OneType t) cs)\<^sup>+"
proof -
  from assms obtain k y outs where y: "at_distance (hop (OneType t) cs) src k y"
    "typed_connections cs t y = Some outs" "first_connection_from p outs r"
    unfolding connection_found_def by blast
  from first_connection_edge [OF y(3)] y(2) have "(y, p) \<in> hop (OneType t) cs"
    by (auto simp: hop_one connections_of_def)
  moreover have "(src, y) \<in> (hop (OneType t) cs)\<^sup>*" using y(1) by (auto simp: at_distance_def relpow_imp_rtrancl)
  ultimately show ?thesis by simp
qed

lemma search_connection_spec:
  assumes "search_level (hop (OneType t) cs) p src k seen here ahead"
  shows "\<exists>res. search_connection cs t p seen (here @ ahead) = Some res
    \<and> (case res of None \<Rightarrow> (src, p) \<notin> (hop (OneType t) cs)\<^sup>+ | Some r \<Rightarrow> connection_found cs t src p r)"
  using assms
proof (induction "(seen, here @ ahead)" arbitrary: seen here ahead k
    rule: wf_induct_rule [OF wf_measures [of "[\<lambda>(seen, q). card (set (map_keys cs) - set seen), \<lambda>(seen, q). length q]"]])
  case (1 seen here ahead k)
  let ?R = "hop (OneType t) cs"
  show ?case
  proof (cases "here @ ahead")
    case Nil
    with 1(2) search_level_end [of ?R p src k seen] show ?thesis
      by (simp add: search_connection.simps)
  next
    case (Cons n rest)
    from search_level_head [OF 1(2) Cons] obtain k' here' ahead' where
      lev: "search_level ?R p src k' seen (n # here') ahead'" and rest: "rest = here' @ ahead'" .
    note unfold = search_connection.simps [of cs t p seen "n # here' @ ahead'"]
    show ?thesis
    proof (cases "n \<in> set seen")
      case True
      with 1(1) [OF _ search_level_skip [OF lev True]] Cons rest show ?thesis
        by (simp add: unfold)
    next
      case False
      note new = search_level_new [OF lev False]
      have le: "card (set (map_keys cs) - insert n (set seen)) \<le> card (set (map_keys cs) - set seen)"
        by (rule card_mono) auto
      show ?thesis
      proof (cases "typed_connections cs t n")
        case None
        then have "connections_of cs t n = []" by (simp add: connections_of_def)
        then have "?R `` {n} = {}" by (simp add: hop_image)
        with search_level_visit [OF lev, of "[]"] have "search_level ?R p src k' (n # seen) here' ahead'"
          by simp
        from 1(1) [OF _ this] le None False Cons rest show ?thesis
          by (simp add: unfold le_less)
      next
        case (Some outs)
        then have conns: "connections_of cs t n = connections_in outs" by (simp add: connections_of_def)
        show ?thesis
        proof (cases "scan_inputs p (n # seen) outs rest")
          case (Inl r)
          with new scan_inputs_Inl [OF Inl] Some have "connection_found cs t src p r"
            unfolding connection_found_def by blast
          with Inl Some False Cons rest show ?thesis by (simp add: unfold)
        next
          case (Inr queue)
          then have q: "p \<notin> ?R `` {n}" "queue = here' @ ahead' @ unvisited_targets (n # seen) (connections_in outs)"
            by (simp_all add: scan_inputs_Inr hop_image conns rest)
          have "set (unvisited_targets (n # seen) (connections_in outs)) = ?R `` {n} - set (n # seen)"
            by (auto simp: unvisited_targets_def hop_image conns)
          from search_level_visit [OF lev q(1) this]
          have lev': "search_level ?R p src k' (n # seen) here'
            (ahead' @ unvisited_targets (n # seen) (connections_in outs))" .
          have "n \<in> set (map_keys cs)"
            using Some by (auto simp: typed_connections_def map_of_eq_None_iff dest: map_of_SomeD
                intro: rev_image_eqI split: option.splits)
          then have "card (set (map_keys cs) - insert n (set seen)) < card (set (map_keys cs) - set seen)"
            using False by (intro card_Diff_insert_less) auto
          with 1(1) [OF _ lev'] q(2) Inr Some False Cons rest show ?thesis by (simp add: unfold)
        qed
      qed
    qed
  qed
qed

lemma getNodeConnectionIndexes_spec:
  "\<exists>res. getNodeConnectionIndexes w n p t = Some res
    \<and> (case res of
         None \<Rightarrow> getNode w p = None \<or> (n, p) \<notin> (hop (OneType t) (connectionsByDestinationNode w))\<^sup>+
       | Some r \<Rightarrow> getNode w p \<noteq> None \<and> connection_found (connectionsByDestinationNode w) t n p r)"
proof (cases "getNode w p")
  case (Some node)
  from search_connection_spec [OF search_level_start,
      where t = t and cs = "connectionsByDestinationNode w" and p = p and src = n]
  obtain res where "search_connection (connectionsByDestinationNode w) t p [] [n] = Some res"
    "case res of None \<Rightarrow> (n, p) \<notin> (hop (OneType t) (connectionsByDestinationNode w))\<^sup>+
     | Some r \<Rightarrow> connection_found (connectionsByDestinationNode w) t n p r" by auto
  with Some show ?thesis
    by (intro exI [of _ res]) (auto simp: getNodeConnectionIndexes_def split: option.split)
qed (simp add: getNodeConnectionIndexes_def)

end
