(* ===== verification/Workflow_Start.thy ===== *)
theory Workflow_Start
  imports Connection_Index
begin

text \<open>
  \<open>getHighestNode\<close>, \<open>__getStartNode\<close> and \<open>getStartNode\<close> of the class \<open>Workflow\<close>: from which node a
  workflow starts. The array \<open>checkedNodes\<close>, which all recursive calls share, is passed along and
  returned; a property access on \<open>undefined\<close> is the error of the model.
\<close>

section \<open>The highest parents\<close>

text \<open>The connections that the loop over the inputs visits: all of them, or those of one input.\<close>

definition selected_inputs :: "nat option \<Rightarrow> node_input_connections \<Rightarrow> iconnection list" where
  "selected_inputs nodeConnectionIndex inputs =
     (case nodeConnectionIndex of None \<Rightarrow> connections_in inputs | Some i \<Rightarrow> items_at inputs i)"

definition in_nodes :: "workflow \<Rightarrow> string \<Rightarrow> bool" where
  "in_nodes w n \<longleftrightarrow> map_has (workflow_nodes w) n"

definition node_disabled :: "workflow \<Rightarrow> string \<Rightarrow> bool option" where
  "node_disabled w n = (case getNode w n of None \<Rightarrow> None | Some node \<Rightarrow> disabled node)"

function highestFrom :: "workflow \<Rightarrow> string \<Rightarrow> nat option \<Rightarrow> string list \<Rightarrow> string list \<times> string list"
  and highestLoop :: "workflow \<Rightarrow> iconnection list \<Rightarrow> string list \<Rightarrow> string list \<Rightarrow> string list \<times> string list"
where
  "highestFrom w nodeName nodeConnectionIndex checkedNodes =
     (if \<not> in_nodes w nodeName then ([], checkedNodes)
      else let currentHighest = (if node_disabled w nodeName = Some False then [nodeName] else []) in
        case typed_connections (connectionsByDestinationNode w) Main_type nodeName of
          None \<Rightarrow> (currentHighest, checkedNodes)
        | Some inputs \<Rightarrow>
            if nodeName \<in> set checkedNodes then (currentHighest, checkedNodes)
            else highestLoop w (selected_inputs nodeConnectionIndex inputs) (checkedNodes @ [nodeName]) [])"
| "highestLoop w [] checkedNodes returnNodes = (returnNodes, checkedNodes)"
| "highestLoop w (connection # rest) checkedNodes returnNodes =
     (if conn_node connection \<in> set checkedNodes \<or> \<not> in_nodes w (conn_node connection)
      then highestLoop w rest checkedNodes returnNodes
      else case highestFrom w (conn_node connection) None checkedNodes of
             (addNodes, checkedNodes') \<Rightarrow>
               highestLoop w rest checkedNodes'
                 (fold set_add
                   (if addNodes = [] \<and> node_disabled w (conn_node connection) \<noteq> Some True
                    then [conn_node connection] else addNodes)
                   returnNodes))"
  by pat_completeness auto

lemma checked_grows:
  "highestFrom_highestLoop_dom (Inl (w, n, i, chk)) \<Longrightarrow> set chk \<subseteq> set (snd (highestFrom w n i chk))"
  "highestFrom_highestLoop_dom (Inr (w, cs, chk, acc)) \<Longrightarrow> set chk \<subseteq> set (snd (highestLoop w cs chk acc))"
proof (induction w n i chk and w cs chk acc rule: highestFrom_highestLoop.pinduct)
  case (1 w n i chk)
  then show ?case
    by (auto simp: highestFrom.psimps Let_def split: option.split)
next
  case (2 w chk acc)
  then show ?case by (simp add: highestLoop.psimps)
next
  case (3 w c cs chk acc)
  then show ?case
    by (auto simp: highestLoop.psimps split: prod.split) blast+
qed

termination highestFrom
proof (relation "measures
    [\<lambda>x. case x of
         Inl (w, n, i, chk) \<Rightarrow> card (set (map_keys (workflow_nodes w)) - set chk)
       | Inr (w, cs, chk, acc) \<Rightarrow> card (set (map_keys (workflow_nodes w)) - set chk),
     \<lambda>x. case x of Inl _ \<Rightarrow> 0 | Inr (w, cs, chk, acc) \<Rightarrow> Suc (length cs)]", goal_cases)
  case (2 w n i chk h inputs)
  then have "n \<in> set (map_keys (workflow_nodes w))"
    unfolding in_nodes_def map_has_def by (metis map_of_eq_None_notin)
  with 2 show ?case
    using card_Diff_insert_less [of "set (map_keys (workflow_nodes w))" n "set chk"] by simp
next
  case (5 w c cs chk acc add chk')
  then have "set chk \<subseteq> set chk'"
    using checked_grows(1) [of w "conn_node c" None chk] by (metis snd_conv)
  then have "card (set (map_keys (workflow_nodes w)) - set chk')
      \<le> card (set (map_keys (workflow_nodes w)) - set chk)"
    by (intro card_mono) auto
  then show ?case by auto
qed simp_all

declare highestFrom.simps [simp del]

definition getHighestNode :: "workflow \<Rightarrow> string \<Rightarrow> nat option \<Rightarrow> string list" where
  "getHighestNode w nodeName nodeConnectionIndex = fst (highestFrom w nodeName nodeConnectionIndex [])"

section \<open>What is found\<close>

definition parent_of :: "workflow \<Rightarrow> string rel" where
  "parent_of w = {(n, m). in_nodes w n \<and> in_nodes w m
     \<and> (n, m) \<in> hop (OneType Main_type) (connectionsByDestinationNode w)}"

definition startable :: "workflow \<Rightarrow> string \<Rightarrow> bool" where
  "startable w n \<longleftrightarrow> in_nodes w n \<and> node_disabled w n \<noteq> Some True"

text \<open>An enabled node without a parent.\<close>

definition is_highest :: "workflow \<Rightarrow> string \<Rightarrow> bool" where
  "is_highest w n \<longleftrightarrow> startable w n \<and> parent_of w `` {n} = {}"

abbreviation no_main_inputs :: "workflow \<Rightarrow> string \<Rightarrow> bool" where
  "no_main_inputs w n \<equiv> typed_connections (connectionsByDestinationNode w) Main_type n = None"

lemma parent_of_iff:
  "(n, m) \<in> parent_of w \<longleftrightarrow> in_nodes w n \<and> in_nodes w m
     \<and> (\<exists>c \<in> set (connections_of (connectionsByDestinationNode w) Main_type n). conn_node c = m)"
  by (auto simp: parent_of_def hop_one)

lemma selected_inputs_subset: "set (selected_inputs i inputs) \<subseteq> set (connections_in inputs)"
  by (force simp: selected_inputs_def items_at_def arr_item_def connections_in_def split: option.splits)

lemma highest_sound:
  shows "highestFrom w n i chk = (r, chk') \<Longrightarrow>
      distinct r \<and> set r \<subseteq> {x. (n, x) \<in> (parent_of w)\<^sup>* \<and> startable w x}
      \<and> (\<not> no_main_inputs w n \<longrightarrow> n \<notin> set chk \<longrightarrow> set r \<subseteq> (parent_of w)\<^sup>+ `` {n})"
    and "highestLoop w cs chk acc = (r, chk') \<Longrightarrow> distinct acc \<Longrightarrow>
      distinct r \<and> set r \<subseteq> set acc \<union> {x. \<exists>c \<in> set cs. in_nodes w (conn_node c)
        \<and> (conn_node c, x) \<in> (parent_of w)\<^sup>* \<and> startable w x}"
proof (induction w n i chk and w cs chk acc arbitrary: r chk' and r chk'
    rule: highestFrom_highestLoop.induct)
  case (1 w n i chk)
  note unfold = highestFrom.simps [of w n i chk]
  show ?case
  proof (cases "in_nodes w n")
    case False
    with "1.prems" show ?thesis by (simp add: unfold)
  next
    case True
    show ?thesis
    proof (cases "no_main_inputs w n \<or> n \<in> set chk")
      case True
      with \<open>in_nodes w n\<close> "1.prems" show ?thesis
        by (auto simp: unfold Let_def startable_def split: option.splits if_splits)
    next
      case False
      then obtain inputs where inputs: "typed_connections (connectionsByDestinationNode w) Main_type n = Some inputs"
        by auto
      have loop: "highestLoop w (selected_inputs i inputs) (chk @ [n]) [] = (r, chk')"
        using "1.prems" True False inputs by (simp add: unfold)
      have IH: "distinct r" "set r \<subseteq> {x. \<exists>c \<in> set (selected_inputs i inputs). in_nodes w (conn_node c)
          \<and> (conn_node c, x) \<in> (parent_of w)\<^sup>* \<and> startable w x}"
        using "1.IH" [OF _ refl inputs _ loop] True False by auto
      have "(n, conn_node c) \<in> parent_of w"
        if "c \<in> set (selected_inputs i inputs)" "in_nodes w (conn_node c)" for c
        using that True inputs selected_inputs_subset [of i inputs]
        by (auto simp: parent_of_iff connections_of_def)
      then have "set r \<subseteq> {x. (n, x) \<in> (parent_of w)\<^sup>+ \<and> startable w x}"
        using IH(2) by (blast intro: rtrancl_into_trancl2)
      with IH(1) show ?thesis by (auto dest: trancl_into_rtrancl)
    qed
  qed
next
  case (2 w chk acc)
  then show ?case by auto
next
  case (3 w c cs chk acc)
  show ?case
  proof (cases "conn_node c \<in> set chk \<or> \<not> in_nodes w (conn_node c)")
    case True
    with 3 show ?thesis by auto
  next
    case False
    obtain add chk1 where call: "highestFrom w (conn_node c) None chk = (add, chk1)" by fastforce
    let ?add = "if add = [] \<and> node_disabled w (conn_node c) \<noteq> Some True then [conn_node c] else add"
    have rest: "highestLoop w cs chk1 (fold set_add ?add acc) = (r, chk')"
      using "3.prems"(1) False call by simp
    have "set ?add \<subseteq> {x. (conn_node c, x) \<in> (parent_of w)\<^sup>* \<and> startable w x}"
      using "3.IH"(2) [OF False call] False by (auto simp: startable_def)
    moreover have "distinct r \<and> set r \<subseteq> set (fold set_add ?add acc) \<union> {x. \<exists>c \<in> set cs.
        in_nodes w (conn_node c) \<and> (conn_node c, x) \<in> (parent_of w)\<^sup>* \<and> startable w x}"
      using "3.IH"(3) [OF False call [symmetric] rest] "3.prems"(2) by simp
    ultimately show ?thesis using False by auto
  qed
qed

section \<open>Nothing is missed\<close>

text \<open>
  After a call every newly checked node is found if it is a highest one, and its parents are checked
  or have no inputs themselves, in which case they are found if they are highest ones.
\<close>

definition highest_post :: "workflow \<Rightarrow> string list \<Rightarrow> string list \<Rightarrow> string set \<Rightarrow> bool" where
  "highest_post w chk chk' found \<longleftrightarrow> set chk \<subseteq> set chk' \<and> (\<forall>y \<in> set chk'. \<not> no_main_inputs w y)
     \<and> (\<forall>y \<in> set chk' - set chk. (is_highest w y \<longrightarrow> y \<in> found)
          \<and> (\<forall>m. (y, m) \<in> parent_of w \<longrightarrow> m \<in> set chk' \<or> (no_main_inputs w m \<and> (is_highest w m \<longrightarrow> m \<in> found))))"

lemma highest_post_refl: "\<forall>y \<in> set chk. \<not> no_main_inputs w y \<Longrightarrow> highest_post w chk chk found"
  by (simp add: highest_post_def)

lemma highest_post_mono:
  "highest_post w chk chk' found \<Longrightarrow> (\<And>y. y \<in> found \<Longrightarrow> is_highest w y \<Longrightarrow> y \<in> found') \<Longrightarrow>
   highest_post w chk chk' found'"
  unfolding highest_post_def by blast

lemma highest_post_trans:
  "highest_post w chk chk1 found \<Longrightarrow> highest_post w chk1 chk2 found \<Longrightarrow> highest_post w chk chk2 found"
  unfolding highest_post_def by blast

lemma is_highest_no_parents: "is_highest w n \<Longrightarrow> (parent_of w)\<^sup>+ `` {n} = {}"
  unfolding is_highest_def by (blast dest: tranclD)

text \<open>What the loop adds for a highest node: the node itself.\<close>

lemma highest_added:
  assumes "is_highest w n" and "n \<notin> set chk" and call: "highestFrom w n None chk = (add, chk')"
  shows "n \<in> set (if add = [] \<and> node_disabled w n \<noteq> Some True then [n] else add)"
proof (cases "no_main_inputs w n")
  case True
  with assms show ?thesis
    by (auto simp: highestFrom.simps [of w n None chk] is_highest_def startable_def Let_def split: if_splits)
next
  case False
  with highest_sound(1) [OF call] assms(2) is_highest_no_parents [OF assms(1)] have "add = []" by simp
  with assms(1) show ?thesis by (simp add: is_highest_def startable_def)
qed

lemma highest_complete:
  shows "highestFrom w n i chk = (r, chk') \<Longrightarrow> i = None \<Longrightarrow> in_nodes w n \<Longrightarrow>
      \<forall>y \<in> set chk. \<not> no_main_inputs w y \<Longrightarrow>
      highest_post w chk chk' (insert n (set r)) \<and> (no_main_inputs w n \<or> n \<in> set chk')"
    and "highestLoop w cs chk acc = (r, chk') \<Longrightarrow> \<forall>y \<in> set chk. \<not> no_main_inputs w y \<Longrightarrow>
      highest_post w chk chk' (set r) \<and> set acc \<subseteq> set r
      \<and> (\<forall>c \<in> set cs. in_nodes w (conn_node c) \<longrightarrow> conn_node c \<in> set chk'
           \<or> (no_main_inputs w (conn_node c) \<and> (is_highest w (conn_node c) \<longrightarrow> conn_node c \<in> set r)))"
proof (induction w n i chk and w cs chk acc arbitrary: r chk' and r chk'
    rule: highestFrom_highestLoop.induct)
  case (1 w n i chk)
  note unfold = highestFrom.simps [of w n i chk]
  show ?case
  proof (cases "no_main_inputs w n \<or> n \<in> set chk")
    case True
    then have "chk' = chk" using "1.prems"(1,3) by (auto simp: unfold Let_def split: option.splits)
    with True highest_post_refl [OF "1.prems"(4)] show ?thesis by blast
  next
    case False
    then obtain inputs where inputs: "typed_connections (connectionsByDestinationNode w) Main_type n = Some inputs"
      by auto
    have loop: "highestLoop w (selected_inputs i inputs) (chk @ [n]) [] = (r, chk')"
      using "1.prems"(1,3) False inputs by (simp add: unfold)
    have old: "\<forall>y \<in> set (chk @ [n]). \<not> no_main_inputs w y" using "1.prems"(4) False by simp
    have IH: "highest_post w (chk @ [n]) chk' (set r)"
      "\<forall>c \<in> set (selected_inputs i inputs). in_nodes w (conn_node c) \<longrightarrow> conn_node c \<in> set chk'
         \<or> (no_main_inputs w (conn_node c) \<and> (is_highest w (conn_node c) \<longrightarrow> conn_node c \<in> set r))"
      using "1.IH" [OF _ refl inputs _ loop old] "1.prems"(3) False by auto
    have "m \<in> set chk' \<or> (no_main_inputs w m \<and> (is_highest w m \<longrightarrow> m \<in> set r))"
      if "(n, m) \<in> parent_of w" for m
      using that IH(2) inputs "1.prems"(2) by (auto simp: parent_of_iff connections_of_def selected_inputs_def)
    note parents = this
    have "(is_highest w y \<longrightarrow> y \<in> insert n (set r)) \<and> (\<forall>m. (y, m) \<in> parent_of w \<longrightarrow>
        m \<in> set chk' \<or> (no_main_inputs w m \<and> (is_highest w m \<longrightarrow> m \<in> insert n (set r))))"
      if "y \<in> set chk' - set chk" for y
    proof (cases "y = n")
      case True
      with parents show ?thesis by blast
    next
      case False
      with that have "y \<in> set chk' - set (chk @ [n])" by simp
      with IH(1) show ?thesis unfolding highest_post_def by blast
    qed
    with IH(1) show ?thesis unfolding highest_post_def by simp
  qed
next
  case (2 w chk acc)
  then show ?case by (auto simp: highest_post_refl)
next
  case (3 w c cs chk acc)
  show ?case
  proof (cases "conn_node c \<in> set chk \<or> \<not> in_nodes w (conn_node c)")
    case True
    with 3 show ?thesis by (auto simp: highest_post_def)
  next
    case False
    obtain add chk1 where call: "highestFrom w (conn_node c) None chk = (add, chk1)" by fastforce
    let ?add = "if add = [] \<and> node_disabled w (conn_node c) \<noteq> Some True then [conn_node c] else add"
    have rest: "highestLoop w cs chk1 (fold set_add ?add acc) = (r, chk')"
      using "3.prems"(1) False call by simp
    have first: "highest_post w chk chk1 (insert (conn_node c) (set add))"
      "no_main_inputs w (conn_node c) \<or> conn_node c \<in> set chk1"
      using "3.IH"(2) [OF False call refl _ "3.prems"(2)] False by auto
    then have "\<forall>y \<in> set chk1. \<not> no_main_inputs w y" unfolding highest_post_def by blast
    from "3.IH"(3) [OF False call [symmetric] rest this]
    have then_rest: "highest_post w chk1 chk' (set r)" "set ?add \<union> set acc \<subseteq> set r"
      "\<forall>c \<in> set cs. in_nodes w (conn_node c) \<longrightarrow> conn_node c \<in> set chk'
         \<or> (no_main_inputs w (conn_node c) \<and> (is_highest w (conn_node c) \<longrightarrow> conn_node c \<in> set r))"
      by auto
    have self: "conn_node c \<in> set r" if "is_highest w (conn_node c)"
      using highest_added [OF that _ call] False then_rest(2) by blast
    have "set add \<subseteq> set ?add" by simp
    then have "highest_post w chk chk1 (set r)"
      using then_rest(2) self by (intro highest_post_mono [OF first(1)]) blast
    then have "highest_post w chk chk' (set r)" using then_rest(1) by (rule highest_post_trans)
    moreover have "set chk1 \<subseteq> set chk'" using then_rest(1) by (simp add: highest_post_def)
    ultimately show ?thesis using then_rest first(2) self by auto
  qed
qed

lemma getHighestNode_sound:
  "distinct (getHighestNode w n i)
   \<and> set (getHighestNode w n i) \<subseteq> {x. (n, x) \<in> (parent_of w)\<^sup>* \<and> startable w x}"
  using highest_sound(1) [of w n i "[]"] unfolding getHighestNode_def
  by (cases "highestFrom w n i []") auto

lemma getHighestNode_complete:
  assumes x: "(n, x) \<in> (parent_of w)\<^sup>+" and highest: "is_highest w x"
  shows "x \<in> set (getHighestNode w n None)"
proof -
  obtain r chk where call: "highestFrom w n None [] = (r, chk)" by fastforce
  have n: "in_nodes w n" using tranclD [OF x] by (auto simp: parent_of_def)
  from highest_complete(1) [OF call refl n]
  have post: "highest_post w [] chk (insert n (set r))" and start: "no_main_inputs w n \<or> n \<in> set chk" by auto
  have leaf: "parent_of w `` {m} = {}" if "no_main_inputs w m" for m
    using that by (auto simp: parent_of_iff connections_of_def)
  have "y \<in> set chk \<or> (no_main_inputs w y \<and> (is_highest w y \<longrightarrow> y \<in> insert n (set r)))"
    if "(n, y) \<in> (parent_of w)\<^sup>+" for y
    using that
  proof (induction rule: trancl_induct)
    case (base y)
    with leaf [of n] start post show ?case unfolding highest_post_def by fastforce
  next
    case (step y z)
    with leaf [of y] post show ?case unfolding highest_post_def by fastforce
  qed
  from this [OF x] highest post have "x \<in> insert n (set r)" unfolding highest_post_def by auto
  moreover have "x \<noteq> n" using x is_highest_no_parents [OF highest] by auto
  ultimately show ?thesis using call by (simp add: getHighestNode_def)
qed

section \<open>The start node\<close>

definition manualChatTrigger_type :: string where
  "manualChatTrigger_type = ''@n8n/n8n-nodes-langchain.manualChatTrigger''"

definition starting_node_types :: "string list" where
  "starting_node_types =
     [''n8n-nodes-base.manualTrigger'', ''n8n-nodes-base.executeWorkflowTrigger'',
      ''n8n-nodes-base.errorTrigger'', ''n8n-nodes-base.evaluationTrigger'',
      ''n8n-nodes-base.formTrigger'']"

text \<open>The first enabled trigger or poll node; \<open>nodeType.description\<close> is read before the code asks
  whether there is a node type.\<close>

fun first_trigger :: "node_types \<Rightarrow> workflow \<Rightarrow> string list \<Rightarrow> engine_error + inode option" where
  "first_trigger types w [] = Inr None"
| "first_trigger types w (nodeName # rest) =
     (case getNode w nodeName of
        None \<Rightarrow> Inl TypeErrorUndefined
      | Some node \<Rightarrow>
          (case types (node_type node) (type_version node) of
             None \<Rightarrow> Inl TypeErrorUndefined
           | Some nodeType \<Rightarrow>
               if type_name nodeType = manualChatTrigger_type then first_trigger types w rest
               else if has_trigger nodeType \<or> has_poll nodeType
               then (if is_disabled node then first_trigger types w rest else Inr (Some node))
               else first_trigger types w rest))"

definition index_of :: "'a list \<Rightarrow> 'a \<Rightarrow> int" where
  "index_of xs x = (case find_index (\<lambda>y. y = x) xs of Some i \<Rightarrow> int i | None \<Rightarrow> - 1)"

definition compare_start_types :: "inode \<Rightarrow> inode \<Rightarrow> int" where
  "compare_start_types a b = index_of starting_node_types (node_type a) - index_of starting_node_types (node_type b)"

fun first_starting_type :: "workflow \<Rightarrow> string list \<Rightarrow> engine_error + inode option" where
  "first_starting_type w [] = Inr None"
| "first_starting_type w (nodeName # rest) =
     (case getNode w nodeName of
        None \<Rightarrow> Inl TypeErrorUndefined
      | Some node \<Rightarrow>
          if node_type node \<in> set starting_node_types \<and> \<not> is_disabled node then Inr (Some node)
          else first_starting_type w rest)"

definition start_by_type :: "node_types \<Rightarrow> workflow \<Rightarrow> string list \<Rightarrow> engine_error + inode option" where
  "start_by_type types w nodeNames =
     bind_result (first_trigger types w nodeNames) (\<lambda>found.
       case found of
         Some node \<Rightarrow> Inr (Some node)
       | None \<Rightarrow> first_starting_type w
           (map node_name (sort_by compare_start_types (object_values (workflow_nodes w)))))"

definition start_node_of :: "node_types \<Rightarrow> workflow \<Rightarrow> string list \<Rightarrow> engine_error + inode option" where
  "start_node_of types w nodeNames =
     (case (if length nodeNames = 1 then getNode w (hd nodeNames) else None) of
        None \<Rightarrow> start_by_type types w nodeNames
      | Some node \<Rightarrow> if is_disabled node then start_by_type types w nodeNames else Inr (Some node))"

definition getStartNode :: "node_types \<Rightarrow> workflow \<Rightarrow> string option \<Rightarrow> engine_error + inode option" where
  "getStartNode types w destinationNode =
     (case destinationNode of
        Some (c # cs) \<Rightarrow>
          (let highest = getHighestNode w (c # cs) None;
               nodeNames = (if highest = [] then [c # cs] else highest)
           in bind_result (start_node_of types w nodeNames) (\<lambda>node. case node of
                Some node \<Rightarrow> Inr (Some node)
              | None \<Rightarrow> Inr (getNode w (hd nodeNames))))
      | _ \<Rightarrow> start_node_of types w (own_keys (workflow_nodes w)))"

section \<open>Which node that is\<close>

definition trigger_node :: "node_types \<Rightarrow> inode \<Rightarrow> bool" where
  "trigger_node types n \<longleftrightarrow> \<not> is_disabled n
     \<and> (case types (node_type n) (type_version n) of
          None \<Rightarrow> False
        | Some nt \<Rightarrow> type_name nt \<noteq> manualChatTrigger_type \<and> (has_trigger nt \<or> has_poll nt))"

definition starting_node :: "inode \<Rightarrow> bool" where
  "starting_node n \<longleftrightarrow> \<not> is_disabled n \<and> node_type n \<in> set starting_node_types"

abbreviation nodes_of :: "workflow \<Rightarrow> inode set" where
  "nodes_of w \<equiv> snd ` set (workflow_nodes w)"

definition known_types :: "node_types \<Rightarrow> workflow \<Rightarrow> bool" where
  "known_types types w \<longleftrightarrow> (\<forall>n \<in> nodes_of w. types (node_type n) (type_version n) \<noteq> None)"

lemma getNode_mem: "getNode w n = Some node \<Longrightarrow> node \<in> nodes_of w"
  by (force simp: getNode_def dest: map_of_SomeD)

lemma getNode_name:
  assumes "wf_workflow w" and "node \<in> nodes_of w"
  shows "getNode w (node_name node) = Some node"
  using assms by (fastforce simp: wf_workflow_def getNode_def)

lemma in_nodes_getNode: "in_nodes w n \<longleftrightarrow> getNode w n \<noteq> None"
  by (simp add: in_nodes_def map_has_def getNode_def)

lemma startable_getNode: "startable w n \<longleftrightarrow> (\<exists>node. getNode w n = Some node \<and> \<not> is_disabled node)"
  by (auto simp: startable_def in_nodes_getNode node_disabled_def is_disabled_def)

lemma first_trigger_eq:
  assumes "known_types types w" and "\<forall>n \<in> set ns. getNode w n \<noteq> None"
  shows "first_trigger types w ns = Inr (List.find (trigger_node types) (workflow_getNodes w ns))"
  using assms(2)
proof (induction ns)
  case (Cons n ns)
  from Cons.prems obtain node where node: "getNode w n = Some node" by auto
  with assms(1) obtain nt where "types (node_type node) (type_version node) = Some nt"
    using getNode_mem by (fastforce simp: known_types_def)
  with Cons node show ?case
    by (auto simp: workflow_getNodes_def map_filter_def trigger_node_def)
qed (simp add: workflow_getNodes_def map_filter_def)

lemma first_starting_type_eq:
  assumes "wf_workflow w" and "set ns \<subseteq> nodes_of w"
  shows "first_starting_type w (map node_name ns) = Inr (List.find starting_node ns)"
  using assms(2)
proof (induction ns)
  case (Cons n ns)
  then show ?case using getNode_name [OF assms(1), of n]
    by (auto simp: starting_node_def)
qed simp

interpretation start_types: comparison compare_start_types
  by unfold_locales (auto simp: compare_start_types_def)

lemma find_sorted:
  assumes "sorted_wrt (\<lambda>a b. cmp a b \<le> (0 :: int)) xs" and "List.find P xs = Some x"
    and "y \<in> set xs" and "P y"
  shows "x = y \<or> cmp x y \<le> 0"
  using assms by (induction xs) (auto split: if_splits)

lemma find_in: "List.find P xs = Some x \<Longrightarrow> x \<in> set xs \<and> P x"
  by (induction xs) (auto split: if_splits)

text \<open>The node that a type makes the start: the first in the order of \<open>STARTING_NODE_TYPES\<close>.\<close>

definition first_by_type :: "workflow \<Rightarrow> inode option" where
  "first_by_type w = List.find starting_node (sort_by compare_start_types (object_values (workflow_nodes w)))"

lemma first_by_type_Some:
  assumes "wf_workflow w" and "first_by_type w = Some s"
  shows "s \<in> nodes_of w \<and> starting_node s
    \<and> (\<forall>n \<in> nodes_of w. starting_node n \<longrightarrow>
         index_of starting_node_types (node_type s) \<le> index_of starting_node_types (node_type n))"
proof -
  have vals: "set (object_values (workflow_nodes w)) = nodes_of w"
    using assms(1) by (intro set_object_values) (simp add: wf_workflow_def)
  have "index_of starting_node_types (node_type s) \<le> index_of starting_node_types (node_type n)"
    if "n \<in> nodes_of w" "starting_node n" for n
    using find_sorted [OF start_types.sorted_sort_by assms(2) [unfolded first_by_type_def], of n] that vals
    by (auto simp: compare_start_types_def)
  with find_in [OF assms(2) [unfolded first_by_type_def]] vals show ?thesis by simp
qed

lemma first_by_type_None:
  assumes "wf_workflow w"
  shows "first_by_type w = None \<longleftrightarrow> (\<forall>n \<in> nodes_of w. \<not> starting_node n)"
proof -
  have "set (object_values (workflow_nodes w)) = nodes_of w"
    using assms by (intro set_object_values) (simp add: wf_workflow_def)
  then show ?thesis by (auto simp: first_by_type_def find_None_iff)
qed

lemma start_by_type_eq:
  assumes "wf_workflow w" and "known_types types w" and "\<forall>n \<in> set ns. getNode w n \<noteq> None"
  shows "start_by_type types w ns = Inr
    (case List.find (trigger_node types) (workflow_getNodes w ns) of
       Some s \<Rightarrow> Some s
     | None \<Rightarrow> first_by_type w)"
proof -
  have "set (sort_by compare_start_types (object_values (workflow_nodes w))) \<subseteq> nodes_of w"
    using assms(1) set_object_values [of "workflow_nodes w"] by (simp add: wf_workflow_def)
  from first_starting_type_eq [OF assms(1) this] first_trigger_eq [OF assms(2,3)]
  show ?thesis by (simp add: start_by_type_def first_by_type_def split: option.split)
qed

lemma getStartNode_missing:
  assumes "d \<noteq> []" and "getNode w d = None"
  shows "getStartNode types w (Some d) = Inl TypeErrorUndefined"
proof -
  have "getHighestNode w d None = []"
    using assms(2) by (simp add: getHighestNode_def highestFrom.simps in_nodes_getNode)
  then show ?thesis using assms
    by (cases d) (simp_all add: getStartNode_def start_node_of_def start_by_type_def)
qed

text \<open>From which node a workflow starts, given candidates: the only candidate if it is enabled, or else
  the first candidate that is an enabled trigger or polling node, or else a node of the workflow whose
  type comes first among the starting types.\<close>

definition starts_from :: "node_types \<Rightarrow> workflow \<Rightarrow> inode list \<Rightarrow> inode option \<Rightarrow> bool" where
  "starts_from types w cs r \<longleftrightarrow>
     (if length cs = 1 \<and> \<not> is_disabled (hd cs) then r = Some (hd cs)
      else if \<exists>c \<in> set cs. trigger_node types c then r = List.find (trigger_node types) cs
      else case r of
             None \<Rightarrow> \<forall>n \<in> nodes_of w. \<not> starting_node n
           | Some s \<Rightarrow> s \<in> nodes_of w \<and> starting_node s
               \<and> (\<forall>n \<in> nodes_of w. starting_node n \<longrightarrow>
                    index_of starting_node_types (node_type s) \<le> index_of starting_node_types (node_type n)))"

lemma getNodes_known:
  "\<forall>n \<in> set ns. getNode w n \<noteq> None \<Longrightarrow> workflow_getNodes w ns = map (\<lambda>n. the (getNode w n)) ns"
  by (induction ns) (auto simp: workflow_getNodes_def map_filter_def)

lemma start_node_of_starts:
  assumes "wf_workflow w" and "known_types types w" and "\<forall>n \<in> set ns. getNode w n \<noteq> None"
  shows "\<exists>r. start_node_of types w ns = Inr r \<and> starts_from types w (workflow_getNodes w ns) r"
proof -
  let ?cs = "workflow_getNodes w ns"
  note cs = getNodes_known [OF assms(3)]
  show ?thesis
  proof (cases "length ?cs = 1 \<and> \<not> is_disabled (hd ?cs)")
    case True
    then obtain n where n: "ns = [n]" unfolding cs by (auto simp: length_Suc_conv)
    with assms(3) obtain s where s: "getNode w n = Some s" by auto
    with True n cs have "\<not> is_disabled s" "?cs = [s]" by simp_all
    with n s show ?thesis by (simp add: start_node_of_def starts_from_def)
  next
    case False
    have "start_node_of types w ns = start_by_type types w ns"
    proof (cases "length ns = 1")
      case True
      then obtain n where n: "ns = [n]" by (auto simp: length_Suc_conv)
      with assms(3) obtain s where "getNode w n = Some s" by auto
      with n cs False show ?thesis by (simp add: start_node_of_def)
    qed (simp add: start_node_of_def)
    note eq = this [unfolded start_by_type_eq [OF assms]]
    show ?thesis
    proof (cases "List.find (trigger_node types) ?cs")
      case (Some s)
      with find_in [OF Some] False eq show ?thesis by (auto simp: starts_from_def)
    next
      case None
      then have none: "\<not> (\<exists>c \<in> set ?cs. trigger_node types c)" by (simp add: find_None_iff)
      have "starts_from types w ?cs r \<longleftrightarrow> (case r of
             None \<Rightarrow> \<forall>n \<in> nodes_of w. \<not> starting_node n
           | Some s \<Rightarrow> s \<in> nodes_of w \<and> starting_node s
               \<and> (\<forall>n \<in> nodes_of w. starting_node n \<longrightarrow>
                    index_of starting_node_types (node_type s) \<le> index_of starting_node_types (node_type n)))" for r
        unfolding starts_from_def by (simp only: False none if_False)
      with first_by_type_Some [OF assms(1)] first_by_type_None [OF assms(1)]
      have "starts_from types w ?cs (first_by_type w)" by (cases "first_by_type w") simp_all
      with eq None show ?thesis by simp
    qed
  qed
qed

definition start_candidates :: "workflow \<Rightarrow> string \<Rightarrow> string list" where
  "start_candidates w d = (if getHighestNode w d None = [] then [d] else getHighestNode w d None)"

lemma start_candidates_found:
  shows "start_candidates w d = [d]
      \<or> set (start_candidates w d) \<subseteq> {x. (d, x) \<in> (parent_of w)\<^sup>* \<and> startable w x}"
    and "{x. (d, x) \<in> (parent_of w)\<^sup>+ \<and> is_highest w x} \<subseteq> set (start_candidates w d)"
proof -
  show "start_candidates w d = [d]
      \<or> set (start_candidates w d) \<subseteq> {x. (d, x) \<in> (parent_of w)\<^sup>* \<and> startable w x}"
    using getHighestNode_sound [of w d None] by (auto simp: start_candidates_def)
  show "{x. (d, x) \<in> (parent_of w)\<^sup>+ \<and> is_highest w x} \<subseteq> set (start_candidates w d)"
  proof
    fix x assume "x \<in> {x. (d, x) \<in> (parent_of w)\<^sup>+ \<and> is_highest w x}"
    then have "x \<in> set (getHighestNode w d None)" using getHighestNode_complete [of d x w] by simp
    then show "x \<in> set (start_candidates w d)" by (auto simp: start_candidates_def)
  qed
qed

lemma getStartNode_from:
  assumes "wf_workflow w" and "known_types types w" and "d \<noteq> []" and node: "getNode w d = Some node"
  shows "\<exists>r. starts_from types w (workflow_getNodes w (start_candidates w d)) r
    \<and> getStartNode types w (Some d)
       = Inr (Some (case r of Some s \<Rightarrow> s | None \<Rightarrow> hd (workflow_getNodes w (start_candidates w d))))"
proof -
  let ?ns = "start_candidates w d"
  have ns: "\<forall>n \<in> set ?ns. getNode w n \<noteq> None"
    using getHighestNode_sound [of w d None] node by (auto simp: start_candidates_def startable_getNode)
  obtain r where r: "start_node_of types w ?ns = Inr r" "starts_from types w (workflow_getNodes w ?ns) r"
    using start_node_of_starts [OF assms(1,2) ns] by blast
  have ne: "?ns \<noteq> []" by (simp add: start_candidates_def)
  then have hd: "getNode w (hd ?ns) = Some (hd (workflow_getNodes w ?ns))"
    unfolding getNodes_known [OF ns] using ns by (cases ?ns) auto
  obtain c cs where d: "d = c # cs" using assms(3) by (cases d) auto
  have "getStartNode types w (Some d)
      = (case r of Some s \<Rightarrow> Inr (Some s) | None \<Rightarrow> Inr (getNode w (hd ?ns)))"
    using r(1) by (simp only: d getStartNode_def option.case list.case Let_def start_candidates_def bind_result.simps)
  with hd r(2) show ?thesis by (intro exI [of _ r]) (simp split: option.split)
qed

end
