(* ===== verification/Workflow_Class_Properties.thy ===== *)
theory Workflow_Class_Properties
  imports Workflow_Properties Workflow_Rename Workflow_Start
begin

text \<open>The properties of the class \<open>Workflow\<close>, each with a witness where it has a hypothesis, and
  the lemmas behind the findings about it.\<close>

section \<open>Fixtures\<close>

definition plain_node :: "nat \<Rightarrow> string \<Rightarrow> string \<Rightarrow> inode" where
  "plain_node ref name type =
     \<lparr>node_ref = ref, node_id = name, node_name = name, node_type = type, type_version = 1,
      disabled = None, parameters = [], rewire_output_log_to = None,
      position = (0, 0), retryOnFail = None, maxTries = None, alwaysOutputData = None,
      executeOnce = None, onError = None, continueOnFail = None, forceCustomOperation = None\<rparr>"

definition sample_nodes :: "inode list" where
  "sample_nodes =
     [plain_node 1 ''Trigger'' ''t'', plain_node 2 ''A'' ''x'', plain_node 3 ''B'' ''x'',
      plain_node 4 ''C'' ''x'']"

definition workflow_of :: "inode list \<Rightarrow> iconnections \<Rightarrow> workflow" where
  "workflow_of ns cs = new_workflow (\<lambda>_ _. None) (\<lambda>_ _. None) ns cs None"

definition sample_types :: node_types where
  "sample_types type version =
     (if type = ''t'' then Some \<lparr>type_name = ''t'', has_trigger = True, has_poll = False\<rparr>
      else if type = ''x'' then Some \<lparr>type_name = ''x'', has_trigger = False, has_poll = False\<rparr>
      else None)"

abbreviation sample_workflow :: workflow where
  "sample_workflow \<equiv> workflow_of sample_nodes sample_connections"

lemma sample_workflow_nodes:
  "workflow_nodes sample_workflow =
     [(''Trigger'', plain_node 1 ''Trigger'' ''t''), (''A'', plain_node 2 ''A'' ''x''),
      (''B'', plain_node 3 ''B'' ''x''), (''C'', plain_node 4 ''C'' ''x'')]"
  by (simp add: workflow_of_def new_workflow_def setNodes_def setConnections_def setPinData_def
      default_parameters_def sample_nodes_def plain_node_def)

lemma sample_workflow_connections:
  "connectionsBySourceNode sample_workflow = sample_connections"
  "connectionsByDestinationNode sample_workflow = mapConnectionsByDestination sample_connections"
  by (simp_all add: workflow_of_def new_workflow_def setConnections_def setPinData_def setNodes_def)

lemma wf_sample_workflow: "wf_workflow sample_workflow"
proof -
  have "set (map_keys sample_connections) \<subseteq> {''Trigger'', ''A'', ''B'', ''C''}"
    and "\<forall>(s, t, i, c) \<in> set (stored_connections sample_connections).
      conn_node c \<in> {''Trigger'', ''A'', ''B'', ''C''}"
    by code_simp+
  then show ?thesis
    unfolding wf_workflow_def sample_workflow_connections sample_workflow_nodes
    using wf_sample_connections by (simp add: plain_node_def)
qed

section \<open>Renaming a node\<close>

text \<open>C37: renaming a node of a well-formed workflow to a free name gives a well-formed workflow (or
  the error for a restricted name): nodes are still stored under their names and connections still
  lead from nodes to nodes. The old name is gone, every other node keeps its place up to its
  rewritten parameters, and every list of connections is the old one, in the same order, with the
  name replaced at its source and at its targets.\<close>

theorem renameNode_wellformed:
  assumes "wf_workflow w" and "getNode w cur = Some node" and "getNode w new = None"
  shows "\<exists>w'. renameNode apply cur new w =
        (if to_lower new \<in> set (map to_lower restrictedKeys) then Inl (RestrictedName new) else Inr w')
    \<and> wf_workflow w' \<and> getNode w' cur = None
    \<and> getNode w' new = Some (rename_parameters apply cur new (node\<lparr>node_name := new\<rparr>))
    \<and> (n \<in> {cur, new} \<or> getNode w' n = map_option (rename_parameters apply cur new) (getNode w n))
    \<and> (s = new \<or> conns_at (connectionsBySourceNode w') (renamed cur new s) t i
          = map (redirect cur new) (conns_at (connectionsBySourceNode w) s t i))
    \<and> conns_at (connectionsBySourceNode w') cur t i = []"
proof -
  let ?w = "w\<lparr>workflow_nodes := renamed_nodes apply cur new w,
              connectionsBySourceNode := renamed_connections cur new w\<rparr>"
  have ne: "cur \<noteq> new" using assms by auto
  have "map_of (connectionsBySourceNode w) new = None"
    using assms(1,3) by (auto simp: wf_workflow_def getNode_def map_of_eq_None_iff)
  note conns = conns_at_rename_key [OF ne this]
  have same: "s = new \<or> conns_at (rename_key cur new (\<lambda>bt. bt) (connectionsBySourceNode w)) (renamed cur new s) t i
      = conns_at (connectionsBySourceNode w) s t i" using conns(1) by blast
  have nodes: "map_of (workflow_nodes w) cur = Some node" using assms(2) by (simp add: getNode_def)
  show ?thesis
    using wf_renamed [OF assms, of "apply"] ne nodes same conns(2)
    by (intro exI [of _ ?w])
      (auto simp: renameNode_eq getNode_def map_of_renamed_nodes map_of_rename_key
        renamed_connections_def conns_at_rename_destinations)
qed

theorem renameNode_wellformed_witness:
  "\<exists>w'. renameNode (\<lambda>e _ _. e) ''A'' ''X'' sample_workflow = Inr w' \<and> wf_workflow w'
    \<and> getNode w' ''A'' = None
    \<and> conns_at (connectionsBySourceNode w') ''B'' Main_type 0 = [to_main ''C'' 0, to_main ''X'' 0]"
proof -
  have "getNode sample_workflow ''A'' = Some (plain_node 2 ''A'' ''x'')"
    and "getNode sample_workflow ''X'' = None"
    by (simp_all add: getNode_def sample_workflow_nodes)
  note result = renameNode_wellformed [OF wf_sample_workflow this, of "\<lambda>e _ _. e" "''B''" "''B''" Main_type 0]
  have "to_lower ''X'' \<notin> set (map to_lower restrictedKeys)"
    and "map (redirect ''A'' ''X'') (conns_at sample_connections ''B'' Main_type 0)
      = [to_main ''C'' 0, to_main ''X'' 0]"
    and "renamed ''A'' ''X'' ''B'' = ''B''" and "''B'' \<noteq> ''X''"
    by code_simp+
  with result show ?thesis unfolding sample_workflow_connections by auto
qed

section \<open>Breadth-first search\<close>

text \<open>C38: \<open>searchNodesBFS\<close> terminates, lists every node but the source at most once, in the order of
  its distance from the source, and reports exactly the nodes whose distance the limit allows, each
  with its distance. The indices reported with a node are those of all connections to it from nodes
  that the limit lets the search go beyond.\<close>

theorem searchNodesBFS_correct:
  "distinct (map found_name (searchNodesBFS cs src maxDepth))
   \<and> sorted (map found_depth (searchNodesBFS cs src maxDepth))
   \<and> set (map (\<lambda>e. (found_name e, found_depth e)) (searchNodesBFS cs src maxDepth))
       = {(n, k). n \<noteq> src \<and> depth_allows maxDepth k \<and> at_distance (main_hop cs) src k n}
   \<and> map (\<lambda>e. set (indicies e)) (searchNodesBFS cs src maxDepth)
       = map (\<lambda>e. incoming cs
                {y. \<exists>k. depth_allows maxDepth (Suc k) \<and> at_distance (main_hop cs) src k y} (found_name e))
           (searchNodesBFS cs src maxDepth)"
  by (rule searchNodesBFS_spec)

section \<open>The connection from a parent\<close>

text \<open>C39: the search of \<open>getNodeConnectionIndexes\<close> returns on every workflow, cyclic ones included.
  It finds a connection exactly when the wanted parent is a node of the workflow and lies before the
  given node, and then it is the first connection from the parent into a node of the least possible
  distance.\<close>

theorem getNodeConnectionIndexes_returns:
  "\<exists>res. getNodeConnectionIndexes w n p t = Some res
    \<and> (res \<noteq> None \<longleftrightarrow> getNode w p \<noteq> None \<and> (n, p) \<in> (hop (OneType t) (connectionsByDestinationNode w))\<^sup>+)
    \<and> (case res of None \<Rightarrow> True | Some r \<Rightarrow> connection_found (connectionsByDestinationNode w) t n p r)"
proof -
  obtain res where res: "getNodeConnectionIndexes w n p t = Some res"
    "case res of
         None \<Rightarrow> getNode w p = None \<or> (n, p) \<notin> (hop (OneType t) (connectionsByDestinationNode w))\<^sup>+
       | Some r \<Rightarrow> getNode w p \<noteq> None \<and> connection_found (connectionsByDestinationNode w) t n p r"
    using getNodeConnectionIndexes_spec by blast
  then show ?thesis
    by (intro exI [of _ res]) (auto dest: connection_found_hop split: option.splits)
qed

section \<open>The highest parents\<close>

text \<open>\<open>getHighestNode\<close> terminates, also on cyclic workflows. It lists, without duplicates, only
  enabled nodes of the workflow among the node itself and those before it, and it lists every
  enabled node before it that has no parent.\<close>

lemma getHighestNode_correct:
  "distinct (getHighestNode w n i)
   \<and> set (getHighestNode w n i) \<subseteq> {x. (n, x) \<in> (parent_of w)\<^sup>* \<and> startable w x}
   \<and> {x. (n, x) \<in> (parent_of w)\<^sup>+ \<and> is_highest w x} \<subseteq> set (getHighestNode w n None)"
  using getHighestNode_sound [of w n i] getHighestNode_complete [of n _ w] by blast

section \<open>The start node\<close>

text \<open>C40: in a well-formed workflow whose node types are all known, \<open>getStartNode\<close> throws exactly for
  a destination that is not in the workflow. For any other destination the candidates are the highest
  nodes that \<open>getHighestNode\<close> finds, which are enabled nodes among the destination and the nodes before
  it, every enabled node without parents before it among them; without any, the destination is the only
  candidate, enabled or not. Without a destination all nodes are candidates. The start node is the only
  candidate if that is enabled; or else the first candidate that is an enabled trigger or polling node
  (the chat trigger apart); or else an enabled node of the whole workflow, candidate or not, whose type
  comes first among the starting types. If there is none of these it is the first candidate when a
  destination is given, and none is returned otherwise.\<close>

theorem getStartNode_correct:
  assumes "wf_workflow w" and "known_types types w" and "d \<noteq> []"
  shows "(case getNode w d of
      None \<Rightarrow> getStartNode types w (Some d) = Inl TypeErrorUndefined
    | Some node \<Rightarrow> (\<exists>r. starts_from types w (workflow_getNodes w (start_candidates w d)) r
          \<and> getStartNode types w (Some d)
             = Inr (Some (case r of Some s \<Rightarrow> s | None \<Rightarrow> hd (workflow_getNodes w (start_candidates w d)))))
        \<and> (start_candidates w d = [d]
           \<or> set (start_candidates w d) \<subseteq> {x. (d, x) \<in> (parent_of w)\<^sup>* \<and> startable w x})
        \<and> {x. (d, x) \<in> (parent_of w)\<^sup>+ \<and> is_highest w x} \<subseteq> set (start_candidates w d))
   \<and> (\<exists>r. getStartNode types w None = Inr r
       \<and> starts_from types w (workflow_getNodes w (own_keys (workflow_nodes w))) r)"
proof -
  have "\<forall>n \<in> set (own_keys (workflow_nodes w)). getNode w n \<noteq> None"
    by (simp add: getNode_def map_of_eq_None_iff)
  from start_node_of_starts [OF assms(1,2) this]
  have none: "\<exists>r. getStartNode types w None = Inr r
       \<and> starts_from types w (workflow_getNodes w (own_keys (workflow_nodes w))) r"
    by (simp add: getStartNode_def)
  show ?thesis
  proof (cases "getNode w d")
    case None
    with none getStartNode_missing [OF assms(3) None] show ?thesis by simp
  next
    case (Some node)
    with none start_candidates_found [where w = w and d = d] getStartNode_from [OF assms Some] show ?thesis by (simp only: option.case)
  qed
qed

theorem getStartNode_correct_witness:
  "\<exists>s. getStartNode sample_types sample_workflow (Some ''C'') = Inr (Some s)
     \<and> s = hd (workflow_getNodes sample_workflow (start_candidates sample_workflow ''C''))"
proof -
  have "known_types sample_types sample_workflow"
    by (simp add: known_types_def sample_workflow_nodes plain_node_def sample_types_def)
  moreover have "getNode sample_workflow ''C'' = Some (plain_node 4 ''C'' ''x'')"
    by (simp add: getNode_def sample_workflow_nodes)
  ultimately obtain r where "starts_from sample_types sample_workflow
      (workflow_getNodes sample_workflow (start_candidates sample_workflow ''C'')) r"
    "getStartNode sample_types sample_workflow (Some ''C'') = Inr (Some (case r of Some s \<Rightarrow> s
       | None \<Rightarrow> hd (workflow_getNodes sample_workflow (start_candidates sample_workflow ''C''))))"
    using getStartNode_correct [OF wf_sample_workflow, of sample_types "''C''"] by (simp only: option.case) blast
  moreover have "length (workflow_getNodes sample_workflow (start_candidates sample_workflow ''C'')) = 1
      \<and> \<not> is_disabled (hd (workflow_getNodes sample_workflow (start_candidates sample_workflow ''C'')))"
    by code_simp
  ultimately show ?thesis by (simp add: starts_from_def)
qed

section \<open>Behind the findings\<close>

text \<open>\<open>Root \<rightarrow> A\<close>, \<open>A\<close> leads to \<open>B\<close> and \<open>C\<close>, and both lead to \<open>D\<close>.\<close>

definition diamond_connections :: iconnections where
  "diamond_connections =
     [(''Root'', [(Main_type, [Some [to_main ''A'' 0]])]),
      (''A'', [(Main_type, [Some [to_main ''B'' 0, to_main ''C'' 0]])]),
      (''B'', [(Main_type, [Some [to_main ''D'' 0]])]),
      (''C'', [(Main_type, [Some [to_main ''D'' 1]])])]"

definition diamond_workflow :: workflow where
  "diamond_workflow = workflow_of
     [plain_node 1 ''Root'' ''t'', plain_node 2 ''A'' ''x'', plain_node 3 ''B'' ''x'',
      plain_node 4 ''C'' ''x'', plain_node 5 ''D'' ''x''] diamond_connections"

text \<open>\<open>C\<close> has the parent \<open>A\<close>, but \<open>A\<close> is checked by the time \<open>C\<close> is visited.\<close>

lemma getHighestNode_reports_inner_node:
  "getHighestNode diamond_workflow ''D'' None = [''Root'', ''C'']"
  by code_simp

text \<open>A node without inputs is reported for itself only if \<open>disabled\<close> is \<open>false\<close>, not if it is unset.\<close>

lemma getHighestNode_unset_disabled:
  "getHighestNode diamond_workflow ''Root'' None = []"
  by code_simp

text \<open>\<open>C\<close> is connected to the second input of \<open>D\<close>, yet the reported \<open>destinationIndex\<close> is \<open>0\<close>.\<close>

lemma destinationIndex_is_not_the_input:
  "getNodeConnectionIndexes diamond_workflow ''D'' ''C'' Main_type
     = Some (Some \<lparr>source_index = 0, destination_index = 0\<rparr>)"
proof -
  have "typed_connections (connectionsByDestinationNode diamond_workflow) Main_type ''D''
      = Some [Some [to_main ''B'' 0], Some [to_main ''C'' 0]]"
    and "map_has (workflow_nodes diamond_workflow) ''C''"
    by code_simp+
  then show ?thesis
    by (auto simp: getNodeConnectionIndexes_def getNode_def map_has_def to_main_def search_connection.simps)
qed

text \<open>A node whose type is unknown makes \<open>__getStartNode\<close> throw, in spite of the check for it.\<close>

lemma unknown_type_throws:
  "getNode w n = Some node \<Longrightarrow> types (node_type node) (type_version node) = None \<Longrightarrow>
   first_trigger types w (n # ns) = Inl TypeErrorUndefined"
  by simp

text \<open>A destination without candidates but itself: the trigger that is returned is no candidate and does
  not lead to the destination.\<close>

lemma start_outside_candidates:
  "getStartNode (\<lambda>_ _. Some \<lparr>type_name = ''x'', has_trigger = False, has_poll = False\<rparr>)
     (workflow_of [(plain_node 1 ''D'' ''x'')\<lparr>disabled := Some True\<rparr>,
                   plain_node 2 ''M'' ''n8n-nodes-base.manualTrigger''] []) (Some ''D'')
     = Inr (Some (plain_node 2 ''M'' ''n8n-nodes-base.manualTrigger''))"
  by code_simp

end
