(* ===== verification/Execution_State.thy ===== *)
theory Execution_State
  imports Execution_Stack Workflow_Start
begin

text \<open>
  The state of the class \<open>WorkflowExecute\<close> of
  \<open>packages/core/src/execution-engine/workflow-execute.ts\<close>: the stack of nodes to execute, the
  executions that wait for more inputs, the run data and the small variables of the loop
  \<open>processRunExecutionData\<close>; and the operations on its maps of waiting executions.

  An array read out of range or at a hole is \<open>undefined\<close>, which the loop does not treat like
  \<open>null\<close>: it tests \<open>=== null\<close>. The arrays per input are therefore lists of slots. Only the arrays
  of the connection type \<open>main\<close> are kept per waiting execution, as the loop uses no other.
\<close>

section \<open>Slots of an input array\<close>

datatype 'd slot = Undef | Null | Val 'd

text \<open>\<open>xs[i]\<close> and \<open>xs[i] = v\<close>.\<close>

definition slot_get :: "'d slot list \<Rightarrow> nat \<Rightarrow> 'd slot" where
  "slot_get xs i = (if i < length xs then xs ! i else Undef)"

definition slot_set :: "nat \<Rightarrow> 'd slot \<Rightarrow> 'd slot list \<Rightarrow> 'd slot list" where
  "slot_set i v xs =
     (if i < length xs then xs[i := v] else xs @ replicate (i - length xs) Undef @ [v])"

text \<open>\<open>!x\<close> for a slot that holds an array or an object: those are truthy, even when empty.\<close>

fun falsy :: "'d slot \<Rightarrow> bool" where
  "falsy (Val d) = False"
| "falsy v = True"

text \<open>What the partial execution left in an array: an entry that it did not write is a hole.\<close>

fun slot_or_hole :: "'d option \<Rightarrow> 'd slot" where
  "slot_or_hole None = Undef"
| "slot_or_hole (Some d) = Val d"

text \<open>\<open>xs.map((x, i) => ...)\<close>.\<close>

definition map_index :: "(nat \<Rightarrow> 'a \<Rightarrow> 'b) \<Rightarrow> 'a list \<Rightarrow> 'b list" where
  "map_index f xs = map (\<lambda>(i, x). f i x) (List.enumerate 0 xs)"

lemma length_map_index [simp]: "length (map_index f xs) = length xs"
  by (simp add: map_index_def)

lemma nth_map_index [simp]: "i < length xs \<Longrightarrow> map_index f xs ! i = f i (xs ! i)"
  by (simp add: map_index_def nth_enumerate_eq)

lemma map_index_Nil [simp]: "map_index f [] = []"
  by (simp add: map_index_def)

lemma length_slot_set: "length (slot_set i v xs) = max (length xs) (Suc i)"
  by (auto simp: slot_set_def)

lemma slot_get_set: "slot_get (slot_set i v xs) j = (if j = i then v else slot_get xs j)"
  by (auto simp: slot_get_def slot_set_def nth_append nth_Cons')

lemma slot_set_twice: "slot_set i v (slot_set i u xs) = slot_set i v xs"
  by (auto simp: slot_set_def list_update_append)

lemma slot_set_same: "i < length xs \<Longrightarrow> slot_get xs i = v \<Longrightarrow> slot_set i v xs = xs"
  by (auto simp: slot_set_def slot_get_def)

text \<open>\<open>{ ...base, ...js }\<close>.\<close>

definition join_json :: "(string \<times> json) list \<Rightarrow> (string \<times> json) list \<Rightarrow> (string \<times> json) list" where
  "join_json base js = fold (\<lambda>(k, v). map_set k v) js base"

section \<open>Requests of a node to run other nodes\<close>

text \<open>\<open>EngineRequest\<close>, \<open>ITaskMetadata\<close>: the fields that the loop and \<open>requests-response.ts\<close> use.\<close>

record requested_action =
  action_node :: string
  action_type :: node_connection_type
  action_id :: string
  action_input :: "(string \<times> json) list"
  action_parent :: "string option"
  action_item :: "nat option"

record task_metadata =
  nodeWasResumed :: bool
  preserveSourceOverwrite :: bool
  preservedSourceOverwrite :: "source_data option"
  subNodeActions :: "(requested_action \<times> string \<times> nat) list option"
  resumeError :: "thrown option"

section \<open>The stack and the waiting executions\<close>

type_synonym task_inputs = "(node_connection_type \<times> node_items slot list) list"
type_synonym 'd waiting_map = "(string \<times> (nat \<times> 'd slot list) list) list"

record queued =
  queued_node :: inode
  queued_data :: task_inputs
  queued_source :: "(node_connection_type \<times> source_data slot list) list option"
  queued_run :: "nat option"
  queued_metadata :: "task_metadata option"

record exec_state =
  node_stack :: "queued list"
  waiting_items :: "node_items waiting_map"
  waiting_sources :: "source_data waiting_map"
  exec_run_data :: run_data
  exec_pins :: pin_data
  last_executed :: "string option"
  result_error :: "thrown option"
  wait_till :: bool
  next_index :: nat
  last_try :: string
  exec_error :: "thrown option"
  sub_responses :: "(requested_action \<times> task_data) list"
  rewired :: "(string \<times> node_connection_type) list"
  node_calls :: nat

text \<open>
  A node's request to run a tool sets \<open>rewireOutputLogTo\<close> on the node object, which the workflow and
  the stack share: \<open>rewired\<close> holds what was set, by node name.
\<close>

definition rewire_node :: "exec_state \<Rightarrow> inode \<Rightarrow> inode" where
  "rewire_node s node =
     (case map_of (rewired s) (node_name node) of
        None \<Rightarrow> node | Some type \<Rightarrow> node\<lparr>rewire_output_log_to := Some type\<rparr>)"

text \<open>\<open>waiting[node]?.[index]?.main\<close>, storing it, and the two \<open>delete\<close>s that drop an entry, where
  \<open>gone\<close> says whether the node has no entry left.\<close>

definition waiting_main :: "'d waiting_map \<Rightarrow> string \<Rightarrow> nat \<Rightarrow> 'd slot list option" where
  "waiting_main w nodeName index =
     Option.bind (map_of w nodeName) (\<lambda>entries. map_of entries index)"

definition store_main :: "string \<Rightarrow> nat \<Rightarrow> 'd slot list \<Rightarrow> 'd waiting_map \<Rightarrow> 'd waiting_map" where
  "store_main nodeName index xs w =
     map_set nodeName (map_set index xs (entry_or w nodeName [])) w"

definition delete_main :: "string \<Rightarrow> nat \<Rightarrow> bool \<Rightarrow> 'd waiting_map \<Rightarrow> 'd waiting_map" where
  "delete_main nodeName index gone w =
     (if gone then map_delete nodeName w
      else map_set nodeName (map_delete index (entry_or w nodeName [])) w)"

definition remove_waiting :: "string \<Rightarrow> nat \<Rightarrow> exec_state \<Rightarrow> exec_state" where
  "remove_waiting nodeName index s =
     (let gone = (map_delete index (entry_or (waiting_items s) nodeName []) = [])
      in s\<lparr>waiting_items := delete_main nodeName index gone (waiting_items s),
           waiting_sources := delete_main nodeName index gone (waiting_sources s)\<rparr>)"

definition prepareWaitingToExecution :: "string \<Rightarrow> nat \<Rightarrow> nat \<Rightarrow> exec_state \<Rightarrow> exec_state" where
  "prepareWaitingToExecution nodeName numberOfConnections runIndex s =
     s\<lparr>waiting_items := store_main nodeName runIndex (replicate numberOfConnections Null) (waiting_items s),
       waiting_sources := store_main nodeName runIndex (replicate numberOfConnections Null) (waiting_sources s)\<rparr>"

lemma waiting_main_store:
  "waiting_main (store_main n i xs w) m j = (if m = n \<and> j = i then Some xs else waiting_main w m j)"
  by (auto simp: waiting_main_def store_main_def split: option.splits)

lemma waiting_main_delete:
  assumes "gone \<Longrightarrow> map_delete i (entry_or w n []) = []"
  shows "waiting_main (delete_main n i gone w) m j = (if m = n \<and> j = i then None else waiting_main w m j)"
proof (cases gone)
  case True
  then have "map_of (map_delete i (entry_or w n [])) j = None" by (simp only: assms map_of.simps)
  then show ?thesis
    using True by (auto simp: waiting_main_def delete_main_def split: option.splits if_splits)
next
  case False
  then show ?thesis by (auto simp: waiting_main_def delete_main_def split: option.splits)
qed

lemma waiting_items_remove:
  "waiting_main (waiting_items (remove_waiting n i s)) m j
     = (if m = n \<and> j = i then None else waiting_main (waiting_items s) m j)"
  by (simp add: remove_waiting_def Let_def waiting_main_delete)

section \<open>The engine around the state\<close>

text \<open>
  What stays fixed during a run: the workflow, its settings, what the code reads of the node types,
  the filter and the destination of a partial run, and the world outside \<open>src/packages/core\<close>: what
  a call of a node's implementation returns (it may differ from call to call, so it is given the
  number of the call), whether it asked for the execution to wait, whether the run was canceled or
  timed out when the iteration with a given number begins, whether a node's parameters have issues,
  and the item that the data proxy pairs
  with a source (\<open>$getPairedItem\<close>).
\<close>

datatype required_inputs = RequiredCount nat | RequiredIndices "nat list"

text \<open>\<open>description.inputs\<close> is an array or the text of an expression.\<close>

datatype described_inputs = InputList "node_connection_type list" | InputExpression string

fun inputs_length :: "described_inputs \<Rightarrow> nat" where
  "inputs_length (InputList xs) = length xs"
| "inputs_length (InputExpression e) = length e"

record engine_type =
  executes :: bool
  polls :: bool
  triggers :: bool
  webhooks :: bool
  supplies_data :: bool
  is_declarative :: bool
  custom_operations :: "(string \<times> string list) list option"
  described_inputs_of :: described_inputs
  required_inputs_of :: "required_inputs option"
  main_outputs :: nat

datatype call_kind = ExecuteCall | PollCall | TriggerCall | DeclarativeCall

record call_arguments =
  call_kind_of :: call_kind
  call_node :: inode
  call_run :: nat
  call_connection_input :: node_items
  call_inputs :: task_inputs
  call_sub_results :: "(requested_action \<times> task_data) list"

datatype node_response =
    Threw thrown
  | Returned "node_items slot list option"
  | Requested "requested_action list"

record engine =
  flow :: workflow
  order_v1 :: bool
  manual_mode :: bool
  engine_types :: "inode \<Rightarrow> engine_type option"
  run_node_filter :: "string list option"
  destination_name :: "string option"
  destination_inclusive :: bool
  node_call :: "call_arguments \<Rightarrow> nat \<Rightarrow> node_response \<times> bool"
  halted_at :: "nat \<Rightarrow> bool"
  parameter_issues :: "inode \<Rightarrow> bool"
  paired_lookup :: "source_data slot \<Rightarrow> paired_item_data \<Rightarrow> node_execution_data option"

definition isLegacyExecutionOrder :: "engine \<Rightarrow> bool" where
  "isLegacyExecutionOrder eng \<longleftrightarrow> \<not> order_v1 eng"

text \<open>\<open>nodeExecutionStack[enqueueFn]\<close>: in front for the execution order \<open>v1\<close>, behind otherwise.\<close>

definition pushEntry :: "engine \<Rightarrow> queued \<Rightarrow> exec_state \<Rightarrow> exec_state" where
  "pushEntry eng item s =
     s\<lparr>node_stack := (if order_v1 eng then item # node_stack s else node_stack s @ [item])\<rparr>"

definition dest_inputs :: "engine \<Rightarrow> string \<Rightarrow> node_input_connections" where
  "dest_inputs eng nodeName =
     inputs_at (connectionsByDestinationNode (flow eng)) nodeName Main_type"

end
