(* ===== verification/Node_Run.thy ===== *)
theory Node_Run
  imports Execution_State
begin

text \<open>
  Running one node, from \<open>workflow-execute.ts\<close>: the pairing of its input items, \<open>runNode\<close> with the
  checks before a node's implementation is called, the attempts with their retries, the error
  output, the assignment of paired items and the merging of error information.

  Not modelled: binary data, hints, the reports to the error reporter, the time between two attempts,
  telemetry tags. When \<open>handleNodeErrorOutput\<close> or \<open>assignPairedItems\<close> throw half-way, the model
  keeps the data as it was before the call. A slot \<open>Undef\<close> among the inputs is a hole of the array, which
  \<open>map\<close> passes over; an input that was set to \<open>undefined\<close>, on which the pairing of the items would throw, is
  not told apart from it.
\<close>

section \<open>Truth of a JSON value\<close>

fun json_truthy :: "json \<Rightarrow> bool" where
  "json_truthy JNull = False"
| "json_truthy (JBool b) = b"
| "json_truthy (JNum x) = (x \<noteq> 0)"
| "json_truthy (JStr s) = (s \<noteq> [])"
| "json_truthy _ = True"

definition truthy_field :: "(string \<times> json) list \<Rightarrow> string \<Rightarrow> bool" where
  "truthy_field js f = (case map_of js f of None \<Rightarrow> False | Some v \<Rightarrow> json_truthy v)"

text \<open>\<open>error.message\<close>.\<close>

fun message_of :: "json \<Rightarrow> engine_error + json option" where
  "message_of JNull = Inl TypeErrorUndefined"
| "message_of (JObj js) = Inr (map_of js ''message'')"
| "message_of _ = Inr None"

section \<open>Pairing the input items\<close>

definition resolveSourceOverwrite :: "node_execution_data \<Rightarrow> queued \<Rightarrow> source_data option" where
  "resolveSourceOverwrite item executionData =
     (case queued_metadata executionData of
        None \<Rightarrow> None
      | Some metadata \<Rightarrow>
          if \<not> preserveSourceOverwrite metadata then None
          else (case preservedSourceOverwrite metadata of
              Some source \<Rightarrow> Some source
            | None \<Rightarrow> (case item_paired item of
                Some (PairedOne pairedItem) \<Rightarrow> source_overwrite pairedItem
              | _ \<Rightarrow> None)))"

definition pair_item :: "queued \<Rightarrow> nat \<Rightarrow> nat \<Rightarrow> node_execution_data \<Rightarrow> node_execution_data" where
  "pair_item executionData inputIndex itemIndex item =
     item\<lparr>item_paired := Some (PairedOne
       \<lparr>paired_item = itemIndex,
        paired_input = (if inputIndex = 0 then None else Some inputIndex),
        source_overwrite = resolveSourceOverwrite item executionData\<rparr>)\<rparr>"

fun pair_input :: "queued \<Rightarrow> nat \<Rightarrow> node_items slot \<Rightarrow> node_items slot" where
  "pair_input executionData inputIndex (Val items) =
     Val (map_index (pair_item executionData inputIndex) items)"
| "pair_input executionData inputIndex input = input"

definition pair_inputs :: "queued \<Rightarrow> queued" where
  "pair_inputs executionData =
     executionData\<lparr>queued_data := map (\<lambda>(connectionType, inputs).
       (connectionType, map_index (pair_input executionData) inputs)) (queued_data executionData)\<rparr>"

section \<open>The checks before a node's implementation\<close>

definition continuesOnError :: "inode \<Rightarrow> bool" where
  "continuesOnError node \<longleftrightarrow> continueOnFail node = Some True
     \<or> onError node \<in> {Some ''continueRegularOutput'', Some ''continueErrorOutput''}"

definition handleDisabledNode :: "task_inputs \<Rightarrow> node_items slot list option" where
  "handleDisabledNode inputData =
     (case map_of inputData Main_type of
        None \<Rightarrow> None
      | Some [] \<Rightarrow> None
      | Some (Null # _) \<Rightarrow> None
      | Some (input # _) \<Rightarrow> Some [input])"

definition json_string :: "(string \<times> json) list \<Rightarrow> string \<Rightarrow> string option" where
  "json_string js f = (case map_of js f of Some (JStr s) \<Rightarrow> Some s | _ \<Rightarrow> None)"

text \<open>Whether there is a custom operation.\<close>

definition getCustomOperation :: "inode \<Rightarrow> engine_type \<Rightarrow> bool" where
  "getCustomOperation node type =
     (case custom_operations type of
        None \<Rightarrow> False
      | Some customOperations \<Rightarrow>
          (case (case forceCustomOperation node of
                   Some (resource, operation) \<Rightarrow> (Some resource, Some operation)
                 | None \<Rightarrow> (json_string (parameters node) ''resource'',
                            json_string (parameters node) ''operation'')) of
             (Some resource, Some operation) \<Rightarrow>
               (case map_of customOperations resource of
                  None \<Rightarrow> False | Some operations \<Rightarrow> operation \<in> set operations)
           | _ \<Rightarrow> False))"

fun has_items :: "node_items slot \<Rightarrow> bool" where
  "has_items (Val items) = (items \<noteq> [])"
| "has_items _ = False"

definition prepareConnectionInputData ::
  "engine \<Rightarrow> engine_type \<Rightarrow> bool \<Rightarrow> task_inputs \<Rightarrow> node_items option" where
  "prepareConnectionInputData eng nodeType customOperation inputData =
     (if executes nodeType \<or> customOperation
         \<or> (\<not> polls nodeType \<and> \<not> triggers nodeType \<and> \<not> webhooks nodeType) then
        (case map_of inputData Main_type of
           None \<Rightarrow> None
         | Some [] \<Rightarrow> None
         | Some (first # rest) \<Rightarrow>
             (case (if order_v1 eng
                    then (case find has_items (first # rest) of Some input \<Rightarrow> input | None \<Rightarrow> first)
                    else first) of
                Val (item # items) \<Rightarrow> Some (item # items)
              | _ \<Rightarrow> None))
      else Some [])"

fun first_item :: "node_items slot \<Rightarrow> node_items slot" where
  "first_item (Val items) = Val (take 1 items)"
| "first_item input = input"

definition handleExecuteOnce :: "inode \<Rightarrow> task_inputs \<Rightarrow> task_inputs" where
  "handleExecuteOnce node inputData =
     (if executeOnce node = Some True
      then map (\<lambda>(connectionType, inputs). (connectionType, map first_item inputs)) inputData
      else inputData)"

section \<open>Running the node\<close>

text \<open>Structured node errors are thrown as they are; of others only the message is kept.\<close>

definition rethrowNodeError :: "thrown \<Rightarrow> thrown" where
  "rethrowNodeError error =
     (if thrown_name error \<in> {Some ''NodeOperationError'', Some ''NodeApiError''} then error
      else Thrown None (thrown_message error))"

text \<open>A call of an implementation: it counts, and it may ask the execution to wait.\<close>

definition call_node_impl :: "engine \<Rightarrow> call_arguments \<Rightarrow> exec_state \<Rightarrow> node_response \<times> exec_state" where
  "call_node_impl eng args s =
     (let (response, waits) = node_call eng args (node_calls s)
      in (response, s\<lparr>node_calls := Suc (node_calls s), wait_till := wait_till s \<or> waits\<rparr>))"

definition type_error_thrown :: thrown where
  "type_error_thrown = Thrown None ''TypeError''"

definition supply_data_message :: "inode \<Rightarrow> string" where
  "supply_data_message node = ''The node \"'' @ node_type node
     @ ''\" has a \"supplyData\" method but no \"execute\" method.''"

text \<open>The items of a node that resumes after its sub-workflow failed.\<close>

definition resumed_error_items :: "string \<Rightarrow> task_inputs \<Rightarrow> node_items" where
  "resumed_error_items message inputData =
     [\<lparr>item_json = [(''error'', JStr message)],
       item_paired = Some (PairedMany (map
         (\<lambda>i. \<lparr>paired_item = i, paired_input = None, source_overwrite = None\<rparr>)
         [0..<(case map_of inputData Main_type of
                 Some (Val items # _) \<Rightarrow> length items | _ \<Rightarrow> 0)])),
       item_error = None\<rparr>]"

definition run_enabled ::
  "engine \<Rightarrow> queued \<Rightarrow> engine_type \<Rightarrow> nat \<Rightarrow> (requested_action \<times> task_data) list \<Rightarrow> exec_state
   \<Rightarrow> node_response \<times> exec_state" where
  "run_enabled eng executionData nodeType runIndex subResults s =
     (let node = queued_node executionData;
          customOperation = getCustomOperation node nodeType
      in case prepareConnectionInputData eng nodeType customOperation (queued_data executionData) of
           None \<Rightarrow> (Returned None, s)
         | Some connectionInputData \<Rightarrow>
             (case (if last_executed s = Some (node_name node) then result_error s else None) of
                Some err \<Rightarrow> (Threw (rethrowNodeError err), s)
              | None \<Rightarrow>
                  (let inputData = handleExecuteOnce node (queued_data executionData);
                       args = (\<lambda>kind. \<lparr>call_kind_of = kind, call_node = node, call_run = runIndex,
                         call_connection_input = connectionInputData, call_inputs = inputData,
                         call_sub_results = subResults\<rparr>)
                   in if executes nodeType \<or> customOperation then call_node_impl eng (args ExecuteCall) s
                      else if polls nodeType then
                        (if manual_mode eng then call_node_impl eng (args PollCall) s
                         else (Returned (map_of inputData Main_type), s))
                      else if triggers nodeType then
                        (if manual_mode eng then
                           (case call_node_impl eng (args TriggerCall) s of
                              (Returned (Some []), s1) \<Rightarrow> (Returned None, s1)
                            | result \<Rightarrow> result)
                         else (Returned (map_of inputData Main_type), s))
                      else if supplies_data nodeType then (Threw (Thrown None (supply_data_message node)), s)
                      else if webhooks nodeType \<and> \<not> is_declarative nodeType then
                        (Returned (map_of inputData Main_type), s)
                      else call_node_impl eng (args DeclarativeCall) s)))"

definition runNode ::
  "engine \<Rightarrow> queued \<Rightarrow> nat \<Rightarrow> (requested_action \<times> task_data) list \<Rightarrow> exec_state
   \<Rightarrow> node_response \<times> exec_state" where
  "runNode eng executionData runIndex subResults s =
     (let node = queued_node executionData; inputData = queued_data executionData
      in case Option.bind (queued_metadata executionData) resumeError of
           Some err \<Rightarrow>
             (if continuesOnError node
              then (Returned (Some [Val (resumed_error_items (thrown_message err) inputData)]), s)
              else (Threw (rethrowNodeError err), s))
         | None \<Rightarrow>
             if is_disabled node then (Returned (handleDisabledNode inputData), s)
             else (case engine_types eng node of
                     None \<Rightarrow> (Threw type_error_thrown, s)
                   | Some nodeType \<Rightarrow> run_enabled eng executionData nodeType runIndex subResults s))"

text \<open>\<open>checkFailure\<close>: the first item carries an error.\<close>

fun checkFailure :: "node_response \<Rightarrow> bool" where
  "checkFailure (Returned (Some (Val (item # items) # outputs))) =
     (case map_of (item_json item) ''error'' of
        None \<Rightarrow> False | Some v \<Rightarrow> v \<noteq> JNull \<and> v \<noteq> JBool False)"
| "checkFailure response = False"

text \<open>The loop that calls the node again while it reports a failure. It returns the number of
  attempts that are left; an attempt that throws leaves the count as it is.\<close>

fun retryFailed ::
  "engine \<Rightarrow> queued \<Rightarrow> nat \<Rightarrow> nat \<Rightarrow> node_response \<Rightarrow> exec_state \<Rightarrow> node_response \<times> nat \<times> exec_state" where
  "retryFailed eng executionData runIndex 0 response s = (response, 0, s)"
| "retryFailed eng executionData runIndex (Suc left) response s =
     (if checkFailure response then
        (case runNode eng executionData runIndex [] s of
           (Threw err, s1) \<Rightarrow> (Threw err, Suc left, s1)
         | (response1, s1) \<Rightarrow> retryFailed eng executionData runIndex left response1 s1)
      else (response, Suc left, s))"

lemma retryFailed_left: "fst (snd (retryFailed eng q r left resp s)) \<le> left"
  by (induction left arbitrary: resp s) (auto split: prod.splits node_response.splits intro: le_SucI)

end
