(* ===== verification/Node_Queueing.thy ===== *)
theory Node_Queueing
  imports Execution_State
begin

text \<open>
  \<open>addNodeToBeExecuted\<close> of \<open>workflow-execute.ts\<close>: a packet of items for one input of a node goes
  straight onto the stack when the node has at most one input. Otherwise it is stored in an entry
  of the node that still misses this input, and the entry goes onto the stack when nothing of it is
  \<open>null\<close> any more. In the legacy execution order the first packet for a node also makes the
  nodes at its other inputs run.

  A node that is not in the workflow cannot be put onto the stack: the code stores \<open>undefined\<close> and
  reads its name when it takes it off; the model reports the \<open>TypeError\<close> at once. No caller does
  it: all of them look the node up before.
\<close>

section \<open>Packets\<close>

record packet =
  packet_connection :: iconnection
  packet_output :: nat
  packet_parent :: string
  packet_data :: "node_items slot list option"
  packet_run :: nat
  packet_new_run :: "nat option"
  packet_metadata :: "task_metadata option"

abbreviation packet_node :: "packet \<Rightarrow> string" where
  "packet_node p \<equiv> conn_node (packet_connection p)"

abbreviation packet_input :: "packet \<Rightarrow> nat" where
  "packet_input p \<equiv> conn_index (packet_connection p)"

definition delivered :: "packet \<Rightarrow> node_items slot" where
  "delivered p = (case packet_data p of
      None \<Rightarrow> Null | Some nodeSuccessData \<Rightarrow> slot_get nodeSuccessData (packet_output p))"

definition packet_source :: "packet \<Rightarrow> source_data" where
  "packet_source p =
     \<lparr>previous_node = packet_parent p, previous_node_output = Some (packet_output p),
      previous_node_run = Some (packet_run p)\<rparr>"

definition delivered_source :: "packet \<Rightarrow> source_data slot" where
  "delivered_source p = (case packet_data p of None \<Rightarrow> Null | Some _ \<Rightarrow> Val (packet_source p))"

section \<open>Empty connections\<close>

definition run_output :: "run_data \<Rightarrow> string \<Rightarrow> nat \<Rightarrow> nat \<Rightarrow> node_items slot" where
  "run_output runData nodeName runIndex outputIndex =
     (case map_of runData nodeName of None \<Rightarrow> Undef
      | Some runs \<Rightarrow> (case arr_get runs runIndex of None \<Rightarrow> Undef
      | Some task \<Rightarrow> (case task_output task of None \<Rightarrow> Undef
      | Some byType \<Rightarrow> (case map_of byType Main_type of None \<Rightarrow> Undef
      | Some outputs \<Rightarrow> (case arr_get outputs outputIndex of None \<Rightarrow> Undef
      | Some None \<Rightarrow> Null
      | Some (Some items) \<Rightarrow> Val items)))))"

fun incomingConnectionIsEmpty :: "run_data \<Rightarrow> iconnection list \<Rightarrow> nat \<Rightarrow> engine_error + bool" where
  "incomingConnectionIsEmpty runData [] runIndex = Inr True"
| "incomingConnectionIsEmpty runData (inputConnection # rest) runIndex =
     (case run_output runData (conn_node inputConnection) runIndex (conn_index inputConnection) of
        Undef \<Rightarrow> incomingConnectionIsEmpty runData rest runIndex
      | Null \<Rightarrow> Inl TypeErrorUndefined
      | Val items \<Rightarrow> if items \<noteq> [] then Inr False
                     else incomingConnectionIsEmpty runData rest runIndex)"

definition first_connections :: "engine \<Rightarrow> string \<Rightarrow> engine_error + iconnection list" where
  "first_connections eng nodeName =
     (case map_of (connectionsByDestinationNode (flow eng)) nodeName of
        None \<Rightarrow> Inl TypeErrorUndefined
      | Some byType \<Rightarrow> (case map_of byType Main_type of
          None \<Rightarrow> Inl TypeErrorUndefined
        | Some inputs \<Rightarrow> Inr (case arr_item inputs 0 of None \<Rightarrow> [] | Some cs \<Rightarrow> cs)))"

section \<open>Storing a packet in an entry that waits\<close>

text \<open>The first entry, in the order of the run indices, that has nothing at the input.\<close>

definition open_entry :: "(nat \<times> 'd slot list) list \<Rightarrow> nat \<Rightarrow> nat option" where
  "open_entry entries inputIndex =
     find (\<lambda>index. falsy (slot_get (the (map_of entries index)) inputIndex)) (sort (map_keys entries))"

text \<open>A node without entries gets an object for them.\<close>

definition ensureWaiting :: "string \<Rightarrow> exec_state \<Rightarrow> exec_state" where
  "ensureWaiting nodeName s =
     (if map_has (waiting_items s) nodeName then s
      else s\<lparr>waiting_items := map_set nodeName [] (waiting_items s),
             waiting_sources := map_set nodeName [] (waiting_sources s)\<rparr>)"

text \<open>The entry for the packet: an open one, or a new one at the index that is their number.\<close>

definition chooseEntry :: "engine \<Rightarrow> packet \<Rightarrow> exec_state \<Rightarrow> nat \<times> exec_state" where
  "chooseEntry eng p s =
     (let nodeName = packet_node p; entries = entry_or (waiting_items s) nodeName []
      in case open_entry entries (packet_input p) of
           Some index \<Rightarrow> (index, s)
         | None \<Rightarrow> (length entries, prepareWaitingToExecution nodeName
             (length (dest_inputs eng nodeName)) (length entries) s))"

definition storePacket :: "packet \<Rightarrow> nat \<Rightarrow> exec_state \<Rightarrow> engine_error + exec_state" where
  "storePacket p index s =
     (let nodeName = packet_node p
      in case (waiting_main (waiting_items s) nodeName index, waiting_main (waiting_sources s) nodeName index) of
           (Some items, Some sources) \<Rightarrow>
             Inr (s\<lparr>waiting_items := store_main nodeName index
                    (slot_set (packet_input p) (delivered p) items) (waiting_items s),
                  waiting_sources := store_main nodeName index
                    (slot_set (packet_input p) (delivered_source p) sources) (waiting_sources s)\<rparr>)
         | _ \<Rightarrow> Inl TypeErrorUndefined)"

text \<open>The index of the entry, whether the node was waiting already, and the state.\<close>

definition placePacket :: "engine \<Rightarrow> packet \<Rightarrow> exec_state \<Rightarrow> engine_error + nat \<times> bool \<times> exec_state" where
  "placePacket eng p s =
     (let nodeWasWaiting = map_has (waiting_items s) (packet_node p);
          (index, s1) = chooseEntry eng p (ensureWaiting (packet_node p) s)
      in bind_result (storePacket p index s1) (\<lambda>s2. Inr (index, nodeWasWaiting, s2)))"

text \<open>Still incomplete: the entry is prepared anew and gets its data and its source back.\<close>

definition keepWaiting :: "engine \<Rightarrow> packet \<Rightarrow> nat \<Rightarrow> exec_state \<Rightarrow> engine_error + exec_state" where
  "keepWaiting eng p index s =
     (let nodeName = packet_node p
      in case (waiting_main (waiting_items s) nodeName index,
               waiting_main (waiting_sources s) nodeName index) of
           (Some items, Some sources) \<Rightarrow>
             (let s1 = prepareWaitingToExecution nodeName (length (dest_inputs eng nodeName)) index s
              in Inr (s1\<lparr>waiting_items := store_main nodeName index
                           (slot_set (packet_input p) (delivered p) items) (waiting_items s1),
                         waiting_sources := store_main nodeName index sources (waiting_sources s1)\<rparr>))
         | _ \<Rightarrow> Inl TypeErrorUndefined)"

section \<open>Making the other inputs run in the legacy order\<close>

definition checkOutputNodes :: "engine \<Rightarrow> string \<Rightarrow> engine_error + string list" where
  "checkOutputNodes eng parentNodeName =
     (case map_of (connectionsBySourceNode (flow eng)) parentNodeName of
        None \<Rightarrow> Inl TypeErrorUndefined
      | Some byType \<Rightarrow> Inr (case map_of byType Main_type of
          None \<Rightarrow> []
        | Some outputs \<Rightarrow> map conn_node (connections_in outputs)))"

fun walkParents ::
  "run_data \<Rightarrow> string list \<Rightarrow> string list \<Rightarrow> string \<Rightarrow> string option \<Rightarrow> string list \<Rightarrow> string option" where
  "walkParents runData outputNodes stackNodes inputNode nodeToAdd [] = nodeToAdd"
| "walkParents runData outputNodes stackNodes inputNode nodeToAdd (parentNode # rest) =
     (if inputNode \<noteq> parentNode \<and> parentNode \<in> set outputNodes then None
      else if parentNode \<in> set stackNodes then None
      else if map_has runData parentNode then nodeToAdd
      else walkParents runData outputNodes stackNodes inputNode (Some parentNode) rest)"

definition addEmptyItem :: "engine \<Rightarrow> packet \<Rightarrow> exec_state \<Rightarrow> string \<Rightarrow> engine_error + bool" where
  "addEmptyItem eng p s nodeToAdd =
     (if \<not> map_has (connectionsByDestinationNode (flow eng)) nodeToAdd then Inr True
      else bind_result (first_connections eng nodeToAdd) (\<lambda>cs.
             incomingConnectionIsEmpty (exec_run_data s) cs (packet_run p)))"

definition no_items :: "packet \<Rightarrow> engine_error + bool" where
  "no_items p = (case delivered p of Val items \<Rightarrow> Inr (items = []) | _ \<Rightarrow> Inl TypeErrorUndefined)"

definition forceNode ::
  "engine \<Rightarrow> packet \<Rightarrow> string list \<Rightarrow> string list \<Rightarrow> string \<Rightarrow> exec_state \<Rightarrow> engine_error + exec_state" where
  "forceNode eng p outputNodes stackNodes inputNode s =
     (let parentNodes = workflow_getParentNodes (flow eng) inputNode (OneType Main_type) (- 1) @ [inputNode];
          nodeToAdd = walkParents (exec_run_data s) outputNodes stackNodes inputNode (Some inputNode)
                        (rev parentNodes);
          parentNodesNodeToAdd = (case nodeToAdd of None \<Rightarrow> []
            | Some n \<Rightarrow> workflow_getParentNodes (flow eng) n (OneType Main_type) (- 1))
      in bind_result (if packet_parent p \<in> set parentNodesNodeToAdd then no_items p else Inr False)
           (\<lambda>dropIt. case (if dropIt then None else nodeToAdd) of
              None \<Rightarrow> Inr s
            | Some n \<Rightarrow> bind_result (addEmptyItem eng p s n) (\<lambda>addIt.
                if addIt then
                  (case getNode (flow eng) n of
                     None \<Rightarrow> Inl TypeErrorUndefined
                   | Some node \<Rightarrow> Inr (pushEntry eng
                       \<lparr>queued_node = node, queued_data = [(Main_type, [Val [empty_item]])],
                        queued_source = Some [(Main_type, [Val (packet_source p)])],
                        queued_run = None, queued_metadata = None\<rparr> s))
                else Inr s)))"

definition forceInput ::
  "engine \<Rightarrow> packet \<Rightarrow> string list \<Rightarrow> string \<Rightarrow> exec_state \<Rightarrow> engine_error + exec_state" where
  "forceInput eng p outputNodes inputNode s =
     (if inputNode = packet_parent p then Inr s
      else
        let executionStackNodes = map (node_name \<circ> queued_node) (node_stack s)
        in bind_result
             (if inputNode \<in> set outputNodes
              then bind_result (first_connections eng inputNode) (\<lambda>cs.
                     bind_result (incomingConnectionIsEmpty (exec_run_data s) cs (packet_run p))
                       (\<lambda>isEmpty. Inr (\<not> isEmpty)))
              else Inr False)
             (\<lambda>willRun.
                if willRun \<or> inputNode \<in> set executionStackNodes
                   \<or> map_has (exec_run_data s) inputNode \<or> \<not> isLegacyExecutionOrder eng
                then Inr s
                else forceNode eng p outputNodes executionStackNodes inputNode s))"

definition forceInputs :: "engine \<Rightarrow> packet \<Rightarrow> exec_state \<Rightarrow> engine_error + exec_state" where
  "forceInputs eng p s =
     bind_result (checkOutputNodes eng (packet_parent p)) (\<lambda>outputNodes.
       fold_result (forceInput eng p outputNodes)
         (map conn_node (connections_in (dest_inputs eng (packet_node p)))) s)"

section \<open>The whole operation\<close>

definition enqueueWaiting :: "engine \<Rightarrow> packet \<Rightarrow> nat \<Rightarrow> exec_state \<Rightarrow> engine_error + exec_state" where
  "enqueueWaiting eng p index s =
     (case (getNode (flow eng) (packet_node p), waiting_main (waiting_items s) (packet_node p) index,
            waiting_main (waiting_sources s) (packet_node p) index) of
        (Some node, Some items, Some sources) \<Rightarrow>
          Inr (remove_waiting (packet_node p) index (pushEntry eng
            \<lparr>queued_node = node, queued_data = [(Main_type, items)],
             queued_source = Some [(Main_type, sources)],
             queued_run = None, queued_metadata = None\<rparr> s))
      | _ \<Rightarrow> Inl TypeErrorUndefined)"

definition allDataFound :: "exec_state \<Rightarrow> string \<Rightarrow> nat \<Rightarrow> bool" where
  "allDataFound s nodeName index \<longleftrightarrow>
     (case waiting_main (waiting_items s) nodeName index of
        None \<Rightarrow> False | Some items \<Rightarrow> list_all (\<lambda>data. data \<noteq> Null) items)"

definition enqueueSingle :: "engine \<Rightarrow> packet \<Rightarrow> exec_state \<Rightarrow> exec_state" where
  "enqueueSingle eng p s =
     (case getNode (flow eng) (packet_node p) of
        None \<Rightarrow> s
      | Some node \<Rightarrow> pushEntry eng
          \<lparr>queued_node = node,
           queued_data = [(Main_type,
             slot_set (packet_input p) (delivered p) (replicate (Suc (packet_input p)) Null))],
           queued_source = Some [(Main_type, [Val (packet_source p)])],
           queued_run = packet_new_run p, queued_metadata = packet_metadata p\<rparr> s)"

definition addNodeToBeExecuted :: "engine \<Rightarrow> packet \<Rightarrow> exec_state \<Rightarrow> engine_error + exec_state" where
  "addNodeToBeExecuted eng p s =
     (if length (dest_inputs eng (packet_node p)) > 1 then
        bind_result (placePacket eng p s) (\<lambda>(index, nodeWasWaiting, s1).
          if allDataFound s1 (packet_node p) index then enqueueWaiting eng p index s1
          else bind_result (if nodeWasWaiting then Inr s1 else forceInputs eng p s1)
                 (keepWaiting eng p index))
      else Inr (enqueueSingle eng p s))"

end
