(* ===== verification/Engine_Requests.thy ===== *)
theory Engine_Requests
  imports Node_Queueing
begin

text \<open>
  \<open>requests-response.ts\<close>: a node may answer with a request to run other nodes (an agent its tools).
  Each requested node gets an entry in the run data and a packet; the requesting node is scheduled
  below them, to run again with their results. An action that names an unknown node throws; what
  was done for the actions before it stays done.

  A node that is listed in the run data has at least one run there, so the index of its last run is
  not negative.
\<close>

section \<open>The data for a requested node\<close>

definition buildParentOutputData ::
  "(string \<times> json) list \<Rightarrow> nat \<Rightarrow> nat \<Rightarrow> string \<Rightarrow> node_items" where
  "buildParentOutputData js parentRunIndex parentOutputIndex parentSourceNode =
     [\<lparr>item_json = js,
       item_paired = Some (PairedOne
         \<lparr>paired_item = parentRunIndex, paired_input = Some parentOutputIndex,
          source_overwrite = Some \<lparr>previous_node = parentSourceNode,
            previous_node_output = Some parentOutputIndex, previous_node_run = Some parentRunIndex\<rparr>\<rparr>),
       item_error = None\<rparr>]"

definition initializeNodeRunData ::
  "string \<Rightarrow> source_data \<Rightarrow> node_items \<Rightarrow> run_data \<Rightarrow> nat \<times> run_data" where
  "initializeNodeRunData nodeName sourceData displayOutputData runData =
     (let nodeRunData = entry_or runData nodeName []
      in (length nodeRunData,
          map_set nodeName (nodeRunData @
            [\<lparr>execution_index = Some 0, task_error = None, task_output = None, task_status = None,
              task_source = [Some sourceData],
              task_input_override = Some [(AiTool_type, [Some displayOutputData])]\<rparr>]) runData))"

definition main_source :: "queued \<Rightarrow> nat \<Rightarrow> source_data option" where
  "main_source executionData i =
     (case Option.bind (queued_source executionData) (\<lambda>source. map_of source Main_type) of
        None \<Rightarrow> None
      | Some sources \<Rightarrow> (case slot_get sources i of Val source \<Rightarrow> Some source | _ \<Rightarrow> None))"

definition agent_json :: "queued \<Rightarrow> nat \<Rightarrow> (string \<times> json) list" where
  "agent_json executionData itemIndex =
     (case map_of (queued_data executionData) Main_type of
        Some (Val items # _) \<Rightarrow>
          (case arr_get items itemIndex of Some item \<Rightarrow> item_json item | None \<Rightarrow> [])
      | _ \<Rightarrow> [])"

section \<open>The requested nodes\<close>

definition requestNode ::
  "queued \<Rightarrow> string \<Rightarrow> nat \<Rightarrow> requested_action \<Rightarrow> exec_state
   \<Rightarrow> packet \<times> (requested_action \<times> string \<times> nat) \<times> exec_state" where
  "requestNode executionData currentName runIndex action s =
     (let parentSourceData = main_source executionData runIndex;
          outputIndex = (case Option.bind parentSourceData previous_node_output of Some i \<Rightarrow> i | None \<Rightarrow> 0);
          sourceNode = (case parentSourceData of Some src \<Rightarrow> previous_node src | None \<Rightarrow> currentName);
          parentNode = (case action_parent action of Some n \<Rightarrow> n | None \<Rightarrow> currentName);
          customParent = (case action_parent action of Some n \<Rightarrow> n \<noteq> [] | None \<Rightarrow> False);
          parentRunIndex = (if customParent
            then (case map_of (exec_run_data s) parentNode of Some runs \<Rightarrow> length runs | None \<Rightarrow> 1) - 1
            else (case Option.bind parentSourceData previous_node_run of Some r \<Rightarrow> r | None \<Rightarrow> 0));
          nodeRun = (if customParent then parentRunIndex else runIndex);
          mergedJson = map_set ''toolCallId'' (JStr (action_id action))
            (join_json (agent_json executionData (case action_item action of Some i \<Rightarrow> i | None \<Rightarrow> 0))
              (action_input action));
          (nodeRunIndex, runData) = initializeNodeRunData (action_node action)
            \<lparr>previous_node = parentNode, previous_node_output = Some outputIndex,
             previous_node_run = Some nodeRun\<rparr>
            (buildParentOutputData (action_input action) parentRunIndex outputIndex sourceNode)
            (exec_run_data s)
      in (\<lparr>packet_connection = \<lparr>conn_node = action_node action, conn_type = action_type action, conn_index = 0\<rparr>,
           packet_output = 0, packet_parent = parentNode,
           packet_data = Some [Val (buildParentOutputData mergedJson parentRunIndex outputIndex sourceNode)],
           packet_run = nodeRun, packet_new_run = Some nodeRunIndex,
           packet_metadata = Some \<lparr>nodeWasResumed = False, preserveSourceOverwrite = True,
             preservedSourceOverwrite = Some (case Option.bind (queued_metadata executionData) preservedSourceOverwrite of
               Some src \<Rightarrow> src
             | None \<Rightarrow> \<lparr>previous_node = sourceNode, previous_node_output = Some outputIndex,
                         previous_node_run = Some parentRunIndex\<rparr>),
             subNodeActions = None, resumeError = None\<rparr>\<rparr>,
          (action, action_node action, nodeRunIndex),
          s\<lparr>exec_run_data := runData,
            rewired := map_set (action_node action) (action_type action) (rewired s)\<rparr>))"

fun prepareRequestedNodesForExecution ::
  "engine \<Rightarrow> queued \<Rightarrow> string \<Rightarrow> nat \<Rightarrow> requested_action list \<Rightarrow> exec_state
   \<Rightarrow> engine_error option \<times> packet list \<times> (requested_action \<times> string \<times> nat) list \<times> exec_state" where
  "prepareRequestedNodesForExecution eng executionData currentName runIndex [] s = (None, [], [], s)"
| "prepareRequestedNodesForExecution eng executionData currentName runIndex (action # rest) s =
     (if getNode (flow eng) (action_node action) = None
      then (Some (RequestedNodeMissing (action_node action)), [], [], s)
      else
        (let (p, sub, s1) = requestNode executionData currentName runIndex action s;
             (err, ps, subs, s2) =
               prepareRequestedNodesForExecution eng executionData currentName runIndex rest s1
         in (err, p # ps, sub # subs, s2)))"

section \<open>The requesting node\<close>

definition prepareRequestingNodeForResuming ::
  "queued \<Rightarrow> nat \<Rightarrow> (requested_action \<times> string \<times> nat) list \<Rightarrow> packet option" where
  "prepareRequestingNodeForResuming executionData runIndex subActions =
     (case main_source executionData 0 of
        None \<Rightarrow> None
      | Some source \<Rightarrow>
          if previous_node source = [] then None
          else
            (let kept = (case queued_metadata executionData of
                   Some m \<Rightarrow> if preserveSourceOverwrite m then preservedSourceOverwrite m else None
                 | None \<Rightarrow> None)
             in Some \<lparr>packet_connection = \<lparr>conn_node = node_name (queued_node executionData),
                        conn_type = AiTool_type, conn_index = 0\<rparr>,
                  packet_output = 0, packet_parent = previous_node source,
                  packet_data = Some (case map_of (queued_data executionData) Main_type of
                    Some inputs \<Rightarrow> inputs | None \<Rightarrow> []),
                  packet_run = runIndex, packet_new_run = Some runIndex,
                  packet_metadata = Some \<lparr>nodeWasResumed = True,
                    preserveSourceOverwrite = (kept \<noteq> None), preservedSourceOverwrite = kept,
                    subNodeActions = Some subActions, resumeError = None\<rparr>\<rparr>))"

text \<open>The packets, the requesting node first, or the error.\<close>

definition handleRequest ::
  "engine \<Rightarrow> queued \<Rightarrow> string \<Rightarrow> nat \<Rightarrow> requested_action list \<Rightarrow> exec_state
   \<Rightarrow> engine_error option \<times> packet list \<times> exec_state" where
  "handleRequest eng executionData currentName runIndex actions s =
     (case prepareRequestedNodesForExecution eng executionData currentName runIndex actions s of
        (Some e, _, _, s1) \<Rightarrow> (Some e, [], s1)
      | (None, packets, subActions, s1) \<Rightarrow>
          (case prepareRequestingNodeForResuming executionData runIndex subActions of
             None \<Rightarrow> (None, [], s1)
           | Some p \<Rightarrow> (None, p # packets, s1)))"

fun queue_all :: "engine \<Rightarrow> packet list \<Rightarrow> exec_state \<Rightarrow> engine_error option \<times> exec_state" where
  "queue_all eng [] s = (None, s)"
| "queue_all eng (p # ps) s =
     (case addNodeToBeExecuted eng p s of
        Inl e \<Rightarrow> (Some e, s) | Inr s1 \<Rightarrow> queue_all eng ps s1)"

definition handleEngineRequest ::
  "engine \<Rightarrow> queued \<Rightarrow> nat \<Rightarrow> requested_action list \<Rightarrow> exec_state \<Rightarrow> engine_error option \<times> exec_state" where
  "handleEngineRequest eng executionData runIndex actions s =
     (case handleRequest eng executionData (node_name (queued_node executionData)) runIndex actions s of
        (Some e, _, s1) \<Rightarrow> (Some e, s1)
      | (None, packets, s1) \<Rightarrow> queue_all eng packets s1)"

end
