(* ===== verification/Node_Attempts.thy ===== *)
theory Node_Attempts
  imports Node_Run Engine_Requests
begin

text \<open>
  What \<open>workflow-execute.ts\<close> does with the output of a node: the error output, the paired items, the
  item for nodes that always output data, the loop over the attempts, and the merging of error
  information into the items.

  An error object without a message gives an item without fields, where the code stores a field
  \<open>error\<close> whose value is \<open>undefined\<close>.
\<close>

section \<open>The error output\<close>

definition is_error_item :: "node_execution_data \<Rightarrow> bool" where
  "is_error_item item \<longleftrightarrow>
     (case item_error item of None \<Rightarrow> False | Some e \<Rightarrow> json_truthy e)
     \<or> (truthy_field (item_json item) ''error'' \<and> length (item_json item) = 1)
     \<or> (truthy_field (item_json item) ''error'' \<and> truthy_field (item_json item) ''message''
         \<and> length (item_json item) = 2)"

fun first_paired :: "paired option \<Rightarrow> paired_item_data option" where
  "first_paired (Some (PairedOne p)) = Some p"
| "first_paired (Some (PairedMany (p # ps))) = Some p"
| "first_paired _ = None"

definition error_item ::
  "engine \<Rightarrow> queued \<Rightarrow> node_execution_data \<Rightarrow> engine_error + node_execution_data" where
  "error_item eng executionData item =
     (case (queued_source executionData, first_paired (item_paired item)) of
        (Some source, Some pairedItemData) \<Rightarrow>
          (case map_of source Main_type of
             None \<Rightarrow> Inl TypeErrorUndefined
           | Some sources \<Rightarrow>
               (case slot_get sources (case paired_input pairedItemData of Some i \<Rightarrow> i | None \<Rightarrow> 0) of
                  Val sourceData \<Rightarrow>
                    Inr (case paired_lookup eng (Val sourceData) pairedItemData of
                           None \<Rightarrow> item
                         | Some paired_with \<Rightarrow>
                             item\<lparr>item_json := join_json (item_json paired_with) (item_json item)\<rparr>)
                | _ \<Rightarrow> Inl TypeErrorUndefined))
      | _ \<Rightarrow> Inr item)"

fun split_errors ::
  "engine \<Rightarrow> queued \<Rightarrow> node_items \<Rightarrow> engine_error + node_items \<times> node_items" where
  "split_errors eng executionData [] = Inr ([], [])"
| "split_errors eng executionData (item # items) =
     bind_result (if is_error_item item
                  then bind_result (error_item eng executionData item) (\<lambda>e. Inr ([], [e]))
                  else Inr ([item], []))
       (\<lambda>(ok, err). bind_result (split_errors eng executionData items)
         (\<lambda>(oks, errs). Inr (ok @ oks, err @ errs)))"

fun slot_items :: "node_items slot \<Rightarrow> node_items" where
  "slot_items (Val items) = items"
| "slot_items _ = []"

fun split_outputs ::
  "engine \<Rightarrow> queued \<Rightarrow> nat list \<Rightarrow> node_items slot list \<times> node_items
   \<Rightarrow> engine_error + node_items slot list \<times> node_items" where
  "split_outputs eng executionData [] acc = Inr acc"
| "split_outputs eng executionData (outputIndex # rest) (nodeSuccessData, errorItems) =
     bind_result (split_errors eng executionData (slot_items (slot_get nodeSuccessData outputIndex)))
       (\<lambda>(oks, errs). split_outputs eng executionData rest
          (slot_set outputIndex (Val oks) nodeSuccessData, errorItems @ errs))"

definition handleNodeErrorOutput ::
  "engine \<Rightarrow> queued \<Rightarrow> node_items slot list \<Rightarrow> engine_error + node_items slot list" where
  "handleNodeErrorOutput eng executionData nodeSuccessData =
     (case engine_types eng (queued_node executionData) of
        None \<Rightarrow> Inl TypeErrorUndefined
      | Some nodeType \<Rightarrow>
          bind_result (split_outputs eng executionData [0..<main_outputs nodeType - 1] (nodeSuccessData, []))
            (\<lambda>(outputs, errorItems). Inr (if main_outputs nodeType = 0 then outputs
              else slot_set (main_outputs nodeType - 1) (Val errorItems) outputs)))"

section \<open>Paired items\<close>

text \<open>\<open>xs[i]?.length\<close>, and \<open>xs[i].length\<close>.\<close>

fun slot_length :: "node_items slot \<Rightarrow> nat option" where
  "slot_length (Val items) = Some (length items)"
| "slot_length _ = None"

datatype pairing = PairFirst | PairSameIndex | PairNot

definition pairing_of :: "node_items slot list \<Rightarrow> node_items slot list \<Rightarrow> engine_error + pairing" where
  "pairing_of nodeSuccessData inputs =
     (let one_input = (length inputs = 1);
          items_in = slot_length (slot_get inputs 0);
          isSingleInputAndOutput = (one_input \<and> items_in = Some 1);
          one_output = (length nodeSuccessData = 1)
      in if one_output \<and> one_input \<and> slot_length (slot_get nodeSuccessData 0) = None
         then Inl TypeErrorUndefined
         else Inr (
           if isSingleInputAndOutput then PairFirst
           else if one_output \<and> one_input \<and> items_in = slot_length (slot_get nodeSuccessData 0)
             then PairSameIndex
           else if one_output \<and> slot_length (slot_get nodeSuccessData 0) = Some 1 \<and> one_input
                   \<and> (case items_in of Some n \<Rightarrow> n > 1 | None \<Rightarrow> False)
             then PairFirst
           else PairNot))"

definition plain_pair :: "nat \<Rightarrow> paired option" where
  "plain_pair i = Some (PairedOne \<lparr>paired_item = i, paired_input = None, source_overwrite = None\<rparr>)"

definition assign_pair :: "pairing \<Rightarrow> nat \<Rightarrow> node_execution_data \<Rightarrow> node_execution_data" where
  "assign_pair mode index item =
     (if item_paired item = None
      then item\<lparr>item_paired := plain_pair (if mode = PairSameIndex then index else 0)\<rparr>
      else item)"

fun assign_outputs :: "pairing \<Rightarrow> node_items slot list \<Rightarrow> engine_error + node_items slot list" where
  "assign_outputs mode [] = Inr []"
| "assign_outputs mode (Null # outputs) =
     bind_result (assign_outputs mode outputs) (\<lambda>rest. Inr (Null # rest))"
| "assign_outputs mode (Undef # outputs) = Inl TypeErrorUndefined"
| "assign_outputs mode (Val items # outputs) =
     (if mode = PairNot \<and> (\<exists>item \<in> set items. item_paired item = None)
      then Inr (Val items # outputs)
      else bind_result (assign_outputs mode outputs)
             (\<lambda>rest. Inr (Val (map_index (assign_pair mode) items) # rest)))"

definition assignPairedItems ::
  "node_items slot list option \<Rightarrow> queued \<Rightarrow> engine_error + node_items slot list option" where
  "assignPairedItems nodeSuccessData executionData =
     (case nodeSuccessData of
        None \<Rightarrow> Inr None
      | Some [] \<Rightarrow> Inr (Some [])
      | Some outputs \<Rightarrow>
          (case map_of (queued_data executionData) Main_type of
             None \<Rightarrow> Inl TypeErrorUndefined
           | Some inputs \<Rightarrow>
               bind_result (pairing_of outputs inputs) (\<lambda>mode.
                 bind_result (assign_outputs mode outputs) (\<lambda>assigned. Inr (Some assigned)))))"

section \<open>Nodes that always output data\<close>

definition all_pairs :: "node_items slot list \<Rightarrow> paired_item_data list" where
  "all_pairs inputs = concat (map_index (\<lambda>inputIndex input.
     map (\<lambda>itemIndex. \<lparr>paired_item = itemIndex, paired_input = Some inputIndex, source_overwrite = None\<rparr>)
       [0..<length (slot_items input)]) inputs)"

definition alwaysOutput ::
  "queued \<Rightarrow> node_items slot list option \<Rightarrow> engine_error + node_items slot list option" where
  "alwaysOutput executionData nodeSuccessData =
     (if has_items (slot_get (case nodeSuccessData of Some outputs \<Rightarrow> outputs | None \<Rightarrow> []) 0)
         \<or> alwaysOutputData (queued_node executionData) \<noteq> Some True
      then Inr nodeSuccessData
      else (case map_of (queued_data executionData) Main_type of
              None \<Rightarrow> Inl TypeErrorUndefined
            | Some inputs \<Rightarrow>
                Inr (Some (slot_set 0
                  (Val [\<lparr>item_json = [], item_paired = Some (PairedMany (all_pairs inputs)), item_error = None\<rparr>])
                  (case nodeSuccessData of Some outputs \<Rightarrow> outputs | None \<Rightarrow> [])))))"

section \<open>One attempt\<close>

text \<open>
  What the attempts end with: a request of the node that was scheduled, a branch that ends, or data to record with the
  last error. Pinned items are objects of the pin data: what the code assigns to them stays there.
\<close>

datatype tried =
    TriedRequest
  | TriedEnd
  | TriedData "thrown option" "node_items slot list option"

definition is_pinned :: "exec_state \<Rightarrow> inode \<Rightarrow> bool" where
  "is_pinned s node \<longleftrightarrow> \<not> is_disabled node \<and> map_has (exec_pins s) (node_name node)"

definition sub_results :: "queued \<Rightarrow> run_data \<Rightarrow> (requested_action \<times> task_data) list" where
  "sub_results executionData runData =
     (case Option.bind (queued_metadata executionData) subNodeActions of
        None \<Rightarrow> []
      | Some actions \<Rightarrow> List.map_filter (\<lambda>(action, nodeName, runIndex).
          (case map_of runData nodeName of
             None \<Rightarrow> None
           | Some runs \<Rightarrow> map_option (\<lambda>task. (action, task)) (arr_get runs runIndex))) actions)"

text \<open>The data of one attempt, before it is post-processed; \<open>left\<close> counts the attempts left. The results
  of the nodes that were asked for gather in \<open>sub_responses\<close>: an iteration starts without any, and each
  attempt adds them again.\<close>

datatype produced = ProducedRequest "requested_action list" | ProducedData "node_items slot list option"
  | ProducedError thrown

definition gather_responses :: "queued \<Rightarrow> exec_state \<Rightarrow> exec_state" where
  "gather_responses executionData s =
     s\<lparr>sub_responses := sub_responses s @ sub_results executionData (exec_run_data s)\<rparr>"

definition produce ::
  "engine \<Rightarrow> queued \<Rightarrow> nat \<Rightarrow> nat \<Rightarrow> exec_state \<Rightarrow> produced \<times> nat \<times> exec_state" where
  "produce eng executionData runIndex left s =
     (let node = queued_node executionData
      in if is_pinned s node
         then (ProducedData (Some [Val (the (map_of (exec_pins s) (node_name node)))]), left, s)
         else (case runNode eng executionData runIndex (sub_responses (gather_responses executionData s))
                    (gather_responses executionData s) of
                 (response, s1) \<Rightarrow>
           (case retryFailed eng executionData runIndex left response s1 of
              (Threw err, left2, s2) \<Rightarrow> (ProducedError err, left2, s2)
            | (Requested actions, left2, s2) \<Rightarrow> (ProducedRequest actions, left2, s2)
            | (Returned outputs, left2, s2) \<Rightarrow> (ProducedData outputs, left2, s2))))"

definition error_output ::
  "engine \<Rightarrow> queued \<Rightarrow> bool \<Rightarrow> node_items slot list option \<Rightarrow> engine_error + node_items slot list option" where
  "error_output eng executionData pinned nodeSuccessData =
     (case nodeSuccessData of
        None \<Rightarrow> Inr None
      | Some outputs \<Rightarrow>
          if \<not> pinned \<and> onError (queued_node executionData) = Some ''continueErrorOutput''
          then bind_result (handleNodeErrorOutput eng executionData outputs) (\<lambda>os. Inr (Some os))
          else Inr (Some outputs))"

text \<open>\<open>nodeSuccessData\<close> is set when the node returns; an error behind that does not take it back.\<close>

definition finish_attempt ::
  "engine \<Rightarrow> queued \<Rightarrow> node_items slot list option \<Rightarrow> exec_state
   \<Rightarrow> (engine_error + tried) \<times> exec_state" where
  "finish_attempt eng executionData outputs s =
     (let node = queued_node executionData; pinned = is_pinned s node
      in case bind_result (error_output eng executionData pinned outputs)
                (\<lambda>os. assignPairedItems os executionData) of
           Inl e \<Rightarrow> (Inl e, s)
         | Inr assigned \<Rightarrow>
             (let s1 = (if assigned = None then s else s\<lparr>last_executed := Some (node_name node)\<rparr>);
                  s2 = (case assigned of
                          Some (Val items # _) \<Rightarrow>
                            if pinned then s1\<lparr>exec_pins := map_set (node_name node) items (exec_pins s1)\<rparr>
                            else s1
                        | _ \<Rightarrow> s1)
              in case alwaysOutput executionData assigned of
                   Inl e \<Rightarrow> (Inl e, s2)
                 | Inr None \<Rightarrow> (Inr (if wait_till s2 then TriedData None None else TriedEnd), s2)
                 | Inr (Some os) \<Rightarrow> (Inr (TriedData None (Some os)), s2)))"

text \<open>An error that one of the engine's own operations throws; its name is no own property.\<close>

definition engine_thrown :: "engine_error \<Rightarrow> thrown" where
  "engine_thrown e = (case e of
      RequestedNodeMissing nodeName \<Rightarrow>
        Thrown None (''Workflow does not contain a node with the name of \"'' @ nodeName @ ''\".'')
    | _ \<Rightarrow> type_error_thrown)"

text \<open>The loop over the attempts. \<open>stale\<close> is the data of an earlier attempt that failed.\<close>

function attempts ::
  "engine \<Rightarrow> queued \<Rightarrow> nat \<Rightarrow> nat \<Rightarrow> node_items slot list option \<Rightarrow> exec_state \<Rightarrow> tried \<times> exec_state" where
  "attempts eng executionData runIndex left stale s =
     (case produce eng executionData runIndex left s of
        (ProducedRequest actions, left1, s1) \<Rightarrow>
          (case handleEngineRequest eng executionData runIndex actions s1 of
             (None, s2) \<Rightarrow> (TriedRequest, s2)
           | (Some e, s2) \<Rightarrow>
               (let s3 = s2\<lparr>last_executed := Some (node_name (queued_node executionData))\<rparr>
                in if left1 = 0 then (TriedData (Some (engine_thrown e)) stale, s3)
                   else attempts eng executionData runIndex (left1 - 1) stale s3))
      | (ProducedError err, left1, s1) \<Rightarrow>
          (let s2 = s1\<lparr>last_executed := Some (node_name (queued_node executionData))\<rparr>
           in if left1 = 0 then (TriedData (Some err) stale, s2)
              else attempts eng executionData runIndex (left1 - 1) stale s2)
      | (ProducedData outputs, left1, s1) \<Rightarrow>
          (case finish_attempt eng executionData outputs s1 of
             (Inr result, s2) \<Rightarrow> (result, s2)
           | (Inl e, s2) \<Rightarrow>
               (let s3 = s2\<lparr>last_executed := Some (node_name (queued_node executionData))\<rparr>
                in if left1 = 0 then (TriedData (Some (engine_thrown e)) outputs, s3)
                   else attempts eng executionData runIndex (left1 - 1) outputs s3)))"
  by pat_completeness auto

lemma produce_left: "produce eng q r left s = (x, left1, s1) \<Longrightarrow> left1 \<le> left"
  using retryFailed_left [of eng q r left]
  by (auto simp: produce_def Let_def split: if_splits prod.splits node_response.splits) (metis fst_conv snd_conv)+

termination attempts
  by (relation "measure (\<lambda>(_, _, _, left, _, _). left)")
    (auto dest!: produce_left [OF sym])

declare attempts.simps [simp del]

definition maxTries_of :: "queued \<Rightarrow> nat" where
  "maxTries_of executionData =
     (if retryOnFail (queued_node executionData) = Some True
         \<and> Option.bind (queued_metadata executionData) resumeError = None
      then min 5 (max 2 (case maxTries (queued_node executionData) of
             None \<Rightarrow> 3 | Some n \<Rightarrow> if n = 0 then 3 else n))
      else 1)"

definition tryNode :: "engine \<Rightarrow> queued \<Rightarrow> nat \<Rightarrow> exec_state \<Rightarrow> tried \<times> exec_state" where
  "tryNode eng executionData runIndex s =
     attempts eng executionData runIndex (maxTries_of executionData - 1) None s"

section \<open>Merging error information\<close>

definition error_json :: "json \<Rightarrow> engine_error + (string \<times> json) list" where
  "error_json e = bind_result (message_of e)
     (\<lambda>message. Inr (case message of None \<Rightarrow> [] | Some m \<Rightarrow> [(''error'', m)]))"

definition merge_item :: "node_execution_data \<Rightarrow> engine_error + node_execution_data" where
  "merge_item item =
     (case (map_of (item_json item) ''$error'', map_of (item_json item) ''$json'', item_error item) of
        (Some e, Some _, _) \<Rightarrow>
          bind_result (error_json e) (\<lambda>js. Inr (item\<lparr>item_json := js, item_error := Some e\<rparr>))
      | (_, _, Some e) \<Rightarrow> bind_result (error_json e) (\<lambda>js. Inr (item\<lparr>item_json := js\<rparr>))
      | _ \<Rightarrow> Inr item)"

fun map_result :: "('a \<Rightarrow> 'e + 'b) \<Rightarrow> 'a list \<Rightarrow> 'e + 'b list" where
  "map_result f [] = Inr []"
| "map_result f (x # xs) =
     bind_result (f x) (\<lambda>y. bind_result (map_result f xs) (\<lambda>ys. Inr (y # ys)))"

definition mergeErrors :: "node_items slot list option \<Rightarrow> engine_error + node_items list" where
  "mergeErrors nodeSuccessData =
     (case nodeSuccessData of
        None \<Rightarrow> Inl TypeErrorUndefined
      | Some outputs \<Rightarrow> map_result (\<lambda>output. case output of
            Val items \<Rightarrow> map_result merge_item items
          | _ \<Rightarrow> Inl TypeErrorUndefined) outputs)"

end
