(* ===== verification/Loop_Steps.thy ===== *)
theory Loop_Steps
  imports Node_Attempts
begin

text \<open>
  The steps of the loop of \<open>processRunExecutionData\<close> in \<open>workflow-execute.ts\<close>: the check that the input
  data is there, the entry in the run data, the nodes queued behind a node, and the release of an
  execution that waits when the stack is empty.
\<close>

section \<open>Is the input data there?\<close>

fun inputsPresent :: "engine \<Rightarrow> string \<Rightarrow> task_inputs \<Rightarrow> nat list \<Rightarrow> bool" where
  "inputsPresent eng nodeName inputData [] = True"
| "inputsPresent eng nodeName inputData (connectionIndex # rest) =
     (if getHighestNode (flow eng) nodeName (Some connectionIndex) = [] then True
      else (case map_of inputData Main_type of
              None \<Rightarrow> False
            | Some inputs \<Rightarrow>
                if isLegacyExecutionOrder eng
                   \<and> (length inputs < connectionIndex \<or> slot_get inputs connectionIndex = Null)
                then False
                else inputsPresent eng nodeName inputData rest))"

definition ensureInputData :: "engine \<Rightarrow> queued \<Rightarrow> exec_state \<Rightarrow> bool \<times> exec_state" where
  "ensureInputData eng executionData s =
     (let nodeName = node_name (queued_node executionData)
      in if inputsPresent eng nodeName (queued_data executionData) [0..<length (dest_inputs eng nodeName)]
         then (True, s)
         else (False, s\<lparr>node_stack := node_stack s @ [executionData]\<rparr>))"

section \<open>Recording a run\<close>

text \<open>\<open>Object.assign(currentTaskData, taskData)\<close>: a field that the new data does not have stays.\<close>

definition assign_task :: "task_data \<Rightarrow> task_data \<Rightarrow> task_data" where
  "assign_task current taskData =
     taskData\<lparr>task_error := (case task_error taskData of None \<Rightarrow> task_error current | Some e \<Rightarrow> Some e),
       task_output := (case task_output taskData of None \<Rightarrow> task_output current | Some d \<Rightarrow> Some d),
       task_input_override := (case task_input_override taskData of
           None \<Rightarrow> task_input_override current | Some d \<Rightarrow> Some d)\<rparr>"

definition record_task :: "string \<Rightarrow> nat \<Rightarrow> task_data \<Rightarrow> run_data \<Rightarrow> run_data" where
  "record_task nodeName runIndex taskData runData =
     (let runs = entry_or runData nodeName []
      in map_set nodeName
           (case arr_get runs runIndex of
              Some currentTask \<Rightarrow> runs[runIndex := assign_task currentTask taskData]
            | None \<Rightarrow> runs @ [taskData]) runData)"

fun slot_option :: "'d slot \<Rightarrow> 'd option" where
  "slot_option (Val d) = Some d"
| "slot_option _ = None"

definition started_task :: "queued \<Rightarrow> nat \<Rightarrow> task_data" where
  "started_task executionData executionIndex =
     \<lparr>execution_index = Some executionIndex, task_error = None, task_output = None, task_status = None,
      task_source = (case queued_source executionData of None \<Rightarrow> []
        | Some source \<Rightarrow> (case map_of source Main_type of None \<Rightarrow> []
            | Some sources \<Rightarrow> map slot_option sources)),
      task_input_override = None\<rparr>"

definition input_override :: "run_data \<Rightarrow> string \<Rightarrow> nat \<Rightarrow> task_data_connections" where
  "input_override runData nodeName runIndex =
     (case Option.bind (Option.bind (map_of runData nodeName) (\<lambda>runs. arr_get runs runIndex))
             task_input_override of
        Some d \<Rightarrow> d | None \<Rightarrow> [])"

section \<open>Queueing the next nodes\<close>

definition output_connections :: "engine \<Rightarrow> string \<Rightarrow> (nat \<times> iconnection) list" where
  "output_connections eng nodeName =
     concat (map_index (\<lambda>outputIndex connections.
         map (Pair outputIndex) (case connections of None \<Rightarrow> [] | Some cs \<Rightarrow> cs))
       (inputs_at (connectionsBySourceNode (flow eng)) nodeName Main_type))"

definition output_followed :: "engine \<Rightarrow> node_items list \<Rightarrow> nat \<times> iconnection \<Rightarrow> bool" where
  "output_followed eng nodeSuccessData = (\<lambda>(outputIndex, connectionData).
     outputIndex < length nodeSuccessData
     \<and> (nodeSuccessData ! outputIndex \<noteq> [] \<or> (conn_index connectionData > 0 \<and> isLegacyExecutionOrder eng)))"

definition packet_of :: "string \<Rightarrow> node_items list \<Rightarrow> nat \<Rightarrow> nat \<times> iconnection \<Rightarrow> packet" where
  "packet_of parentNodeName nodeSuccessData runIndex = (\<lambda>(outputIndex, connectionData).
     \<lparr>packet_connection = connectionData, packet_output = outputIndex, packet_parent = parentNodeName,
      packet_data = Some (map Val nodeSuccessData), packet_run = runIndex,
      packet_new_run = None, packet_metadata = None\<rparr>)"

text \<open>The comparator of the execution order \<open>v1\<close>: lower nodes first, then the ones more to the
  right, as each is put in front of the stack.\<close>

definition node_position :: "engine \<Rightarrow> iconnection \<Rightarrow> rat \<times> rat" where
  "node_position eng connectionData =
     (case getNode (flow eng) (conn_node connectionData) of None \<Rightarrow> (0, 0) | Some node \<Rightarrow> position node)"

definition compare_positions :: "rat \<times> rat \<Rightarrow> rat \<times> rat \<Rightarrow> int" where
  "compare_positions a b =
     (if snd a < snd b then 1 else if snd a > snd b then -1 else if fst a > fst b then -1 else 0)"

definition check_destination ::
  "engine \<Rightarrow> string \<Rightarrow> nat \<times> iconnection \<Rightarrow> engine_error + unit" where
  "check_destination eng nodeName = (\<lambda>(outputIndex, connectionData).
     if map_has (workflow_nodes (flow eng)) (conn_node connectionData) then Inr ()
     else Inl (DestinationNotFound nodeName (conn_node connectionData)))"

definition queueChildren ::
  "engine \<Rightarrow> string \<Rightarrow> node_items list \<Rightarrow> nat \<Rightarrow> exec_state \<Rightarrow> engine_error + exec_state" where
  "queueChildren eng nodeName nodeSuccessData runIndex s =
     (let connections = output_connections eng nodeName;
          add = (\<lambda>c. addNodeToBeExecuted eng (packet_of nodeName nodeSuccessData runIndex c))
      in if order_v1 eng then
           bind_result (fold_result (\<lambda>c u. check_destination eng nodeName c) connections ()) (\<lambda>_.
             let nodesToAdd = filter (output_followed eng nodeSuccessData) connections
             in fold_result add
                  (sort_by (\<lambda>a b. compare_positions (node_position eng (snd a)) (node_position eng (snd b)))
                    nodesToAdd) s)
         else
           fold_result (\<lambda>c s. bind_result (check_destination eng nodeName c) (\<lambda>_.
             if output_followed eng nodeSuccessData c then add c s else Inr s)) connections s)"

section \<open>Releasing a node that waits\<close>

datatype release_outcome = SkipNode | DropEntry exec_state | ReleaseNode exec_state

text \<open>The keys of a plain object are strings, and \<open>sort\<close> without a comparator compares strings.\<close>

definition first_run_index :: "(nat \<times> 'd) list \<Rightarrow> nat option" where
  "first_run_index entries =
     (case sort_by (\<lambda>a b. code_unit_compare (show_nat a) (show_nat b)) (map_keys entries) of
        [] \<Rightarrow> None | index # _ \<Rightarrow> Some index)"

definition inputs_with_data :: "node_items slot list \<Rightarrow> nat list" where
  "inputs_with_data main = filter (\<lambda>i. slot_length (slot_get main i) \<noteq> None) [0..<length main]"

definition all_required :: "required_inputs option \<Rightarrow> nat \<Rightarrow> bool" where
  "all_required requiredInputs n =
     (case requiredInputs of
        None \<Rightarrow> False
      | Some (RequiredCount k) \<Rightarrow> k = n
      | Some (RequiredIndices xs) \<Rightarrow> length xs = n)"

definition required_missing :: "required_inputs option \<Rightarrow> nat list \<Rightarrow> bool" where
  "required_missing requiredInputs inputsWithData =
     (case requiredInputs of
        None \<Rightarrow> False
      | Some (RequiredCount k) \<Rightarrow> length inputsWithData < k
      | Some (RequiredIndices xs) \<Rightarrow> \<not> set xs \<subseteq> set inputsWithData)"

fun null_to_empty :: "node_items slot \<Rightarrow> node_items slot" where
  "null_to_empty Null = Val []"
| "null_to_empty input = input"

definition releaseEntry ::
  "string \<Rightarrow> inode \<Rightarrow> engine_type option \<Rightarrow> nat \<Rightarrow> node_items slot list \<Rightarrow> exec_state
   \<Rightarrow> engine_error + release_outcome" where
  "releaseEntry nodeName node nodeType index main s =
     (case map_of (waiting_sources s) nodeName of
        None \<Rightarrow> Inl TypeErrorUndefined
      | Some sources \<Rightarrow>
          (let taskDataMain = map null_to_empty main
           in if list_ex has_items taskDataMain then
                (case nodeType of
                   None \<Rightarrow> Inl TypeErrorUndefined
                 | Some t \<Rightarrow>
                     let padding = replicate (inputs_length (described_inputs_of t) - length main) (Val [])
                     in Inr (ReleaseNode (remove_waiting nodeName index
                          (s\<lparr>node_stack := node_stack s @
                             [\<lparr>queued_node = node, queued_data = [(Main_type, taskDataMain @ padding)],
                               queued_source = map_option (\<lambda>src. [(Main_type, src)]) (map_of sources index),
                               queued_run = None, queued_metadata = None\<rparr>]\<rparr>))))
              else Inr (DropEntry (remove_waiting nodeName index s))))"

definition described_length :: "engine_type option \<Rightarrow> nat" where
  "described_length nodeType = (case nodeType of None \<Rightarrow> 0 | Some t \<Rightarrow> inputs_length (described_inputs_of t))"

definition releaseNode :: "engine \<Rightarrow> string list \<Rightarrow> string \<Rightarrow> exec_state \<Rightarrow> engine_error + release_outcome" where
  "releaseNode eng waitingNodes nodeName s =
     (case getNode (flow eng) nodeName of
        None \<Rightarrow> Inr SkipNode
      | Some node \<Rightarrow>
          (let nodeType = engine_types eng node;
               requiredInputs = (if order_v1 eng then Option.bind nodeType required_inputs_of else None);
               parentNodes = workflow_getParentNodes (flow eng) nodeName (OneType Main_type) (- 1)
           in if order_v1 eng \<and> nodeType = None then Inl TypeErrorUndefined
              else if all_required requiredInputs (described_length nodeType)
                 \<or> set parentNodes \<inter> set waitingNodes \<noteq> {}
              then Inr SkipNode
              else (case first_run_index (entry_or (waiting_items s) nodeName []) of
                      None \<Rightarrow> Inl TypeErrorUndefined
                    | Some index \<Rightarrow>
                        (case waiting_main (waiting_items s) nodeName index of
                           None \<Rightarrow> Inl TypeErrorUndefined
                         | Some main \<Rightarrow>
                             if required_missing requiredInputs (inputs_with_data main)
                             then Inr SkipNode
                             else releaseEntry nodeName node nodeType index main s))))"

text \<open>The number of executions that wait: it falls whenever an entry is dropped.\<close>

definition waiting_count :: "'d waiting_map \<Rightarrow> nat" where
  "waiting_count w = sum_list (map (length \<circ> snd) w)"

lemma length_map_delete: "map_of m k \<noteq> None \<Longrightarrow> length (map_delete k m) < length m"
proof (induction m)
  case (Cons p m)
  have "length (map_delete k m) \<le> length m" by (simp add: AList.delete_eq)
  with Cons show ?case by (cases p) (auto simp: le_imp_less_Suc split: if_splits)
qed simp

lemma waiting_count_set:
  "length es' < length (entry_or w n []) \<Longrightarrow> waiting_count (map_set n es' w) < waiting_count w"
  by (induction w) (auto simp: waiting_count_def split: if_splits)

lemma waiting_count_delete:
  "entry_or w n [] \<noteq> [] \<Longrightarrow> waiting_count (map_delete n w) < waiting_count w"
proof (induction w)
  case (Cons p w)
  have le: "waiting_count (map_delete n w) \<le> waiting_count w"
    by (induction w) (auto simp: waiting_count_def AList.delete_eq)
  obtain k b where p: "p = (k, b)" by (cases p)
  show ?case
  proof (cases "k = n")
    case True
    with Cons.prems p have "0 < length b" by simp
    then have "waiting_count (map_delete n w) < length b + waiting_count w"
      using le by linarith
    then show ?thesis by (simp add: p True waiting_count_def)
  next
    case False
    with Cons p show ?thesis by (simp add: waiting_count_def)
  qed
qed simp

lemma waiting_count_remove:
  assumes "waiting_main (waiting_items s) n i \<noteq> None"
  shows "waiting_count (waiting_items (remove_waiting n i s)) < waiting_count (waiting_items s)"
proof -
  from assms obtain es where es: "map_of (waiting_items s) n = Some es" "map_of es i \<noteq> None"
    by (auto simp: waiting_main_def split: option.splits Option.bind_splits)
  then have "es \<noteq> []" by auto
  with es length_map_delete [OF es(2)] show ?thesis
    by (auto simp: remove_waiting_def delete_main_def Let_def intro!: waiting_count_delete waiting_count_set)
qed

lemma releaseNode_drops:
  assumes "releaseNode eng ws n s = Inr (DropEntry s')"
  shows "waiting_count (waiting_items s') < waiting_count (waiting_items s)"
proof -
  from assms obtain i where "waiting_main (waiting_items s) n i \<noteq> None" and "s' = remove_waiting n i s"
    by (auto simp: releaseNode_def releaseEntry_def Let_def split: option.splits if_splits)
  then show ?thesis using waiting_count_remove by blast
qed

function releaseWaiting ::
  "engine \<Rightarrow> string list \<Rightarrow> string list \<Rightarrow> exec_state \<Rightarrow> engine_error + exec_state" where
  "releaseWaiting eng waitingNodes [] s = Inr s"
| "releaseWaiting eng waitingNodes (nodeName # rest) s =
     bind_result (releaseNode eng waitingNodes nodeName s) (\<lambda>outcome.
       case outcome of
         SkipNode \<Rightarrow> releaseWaiting eng waitingNodes rest s
       | ReleaseNode s1 \<Rightarrow> Inr s1
       | DropEntry s1 \<Rightarrow>
           releaseWaiting eng (own_keys (waiting_items s1)) (own_keys (waiting_items s1)) s1)"
  by pat_completeness auto

termination releaseWaiting
  by (relation "measures [\<lambda>(_, _, _, s). waiting_count (waiting_items s), \<lambda>(_, _, rest, _). length rest]")
    (auto dest: releaseNode_drops)

declare releaseWaiting.simps [simp del]

end
