(* ===== verification/Execution_Loop.thy ===== *)
theory Execution_Loop
  imports Loop_Steps
begin

text \<open>
  The loop of \<open>processRunExecutionData\<close> in \<open>workflow-execute.ts\<close>, the start of a run (\<open>run\<close>) and its
  end (\<open>processSuccessExecution\<close>). One iteration takes the first entry off the stack, runs its node,
  records what it did and queues the nodes behind it; when the stack is empty, the first execution
  that waits and may do without its missing inputs is released.

  Not modelled: the lifecycle hooks, times, dynamic credentials, the abort signal that a node may
  listen to. An operation that throws half-way leaves the state as it was before it.
\<close>

section \<open>One iteration\<close>

text \<open>The loop goes on, breaks, stops because the run was canceled, or rejects with an error.\<close>

datatype step_result =
    Proceed exec_state
  | Finished exec_state
  | CanceledRun exec_state
  | Rejected engine_error exec_state

definition run_index_of :: "queued \<Rightarrow> exec_state \<Rightarrow> nat" where
  "run_index_of executionData s =
     (case queued_run executionData of
        Some i \<Rightarrow> i
      | None \<Rightarrow> (case map_of (exec_run_data s) (node_name (queued_node executionData)) of
            Some runs \<Rightarrow> length runs | None \<Rightarrow> 0))"

definition try_key :: "string \<Rightarrow> nat \<Rightarrow> string" where
  "try_key nodeName runIndex = nodeName @ '':'' @ show_nat runIndex"

definition ensure_runs :: "string \<Rightarrow> exec_state \<Rightarrow> exec_state" where
  "ensure_runs nodeName s =
     (if map_has (exec_run_data s) nodeName then s
      else s\<lparr>exec_run_data := map_set nodeName [] (exec_run_data s)\<rparr>)"

definition message_item :: "thrown \<Rightarrow> node_execution_data" where
  "message_item err =
     \<lparr>item_json = [(''error'', JStr (thrown_message err))], item_paired = None, item_error = None\<rparr>"

definition continues_after :: "inode \<Rightarrow> bool" where
  "continues_after node \<longleftrightarrow> continuesOnError node
     \<or> (rewire_output_log_to node = Some AiTool_type \<and> onError node \<noteq> Some ''stopWorkflow'')"

text \<open>What a node that failed hands on when the run continues: its error for an agent, or its input.\<close>

definition passed_on ::
  "queued \<Rightarrow> thrown \<Rightarrow> node_items slot list option \<Rightarrow> node_items slot list option" where
  "passed_on executionData err nodeSuccessData =
     (if rewire_output_log_to (queued_node executionData) = Some AiTool_type
      then Some [Val [message_item err]]
      else (case map_of (queued_data executionData) Main_type of
              None \<Rightarrow> nodeSuccessData
            | Some [] \<Rightarrow> nodeSuccessData
            | Some (input # _) \<Rightarrow> if input = Null then nodeSuccessData else Some [input]))"

text \<open>The run stops: the failed run is recorded and the entry goes back onto the stack.\<close>

definition stopOnError :: "queued \<Rightarrow> task_data \<Rightarrow> nat \<Rightarrow> thrown \<Rightarrow> exec_state \<Rightarrow> exec_state" where
  "stopOnError executionData taskData runIndex err s =
     (let node = queued_node executionData;
          failed = taskData\<lparr>task_error := Some err, task_status := Some StatusError\<rparr>;
          logged = (case rewire_output_log_to node of
              None \<Rightarrow> failed
            | Some type \<Rightarrow> failed\<lparr>
                task_input_override := Some (input_override (exec_run_data s) (node_name node) runIndex),
                task_output := Some [(type, [Some [message_item err]])]\<rparr>)
      in s\<lparr>exec_run_data := record_task (node_name node) runIndex logged (exec_run_data s),
           node_stack := executionData # node_stack s\<rparr>)"

definition logged_output :: "inode \<Rightarrow> node_items list \<Rightarrow> run_data \<Rightarrow> nat \<Rightarrow> task_data \<Rightarrow> task_data" where
  "logged_output node outputs runData runIndex taskData =
     (case rewire_output_log_to node of
        None \<Rightarrow> taskData\<lparr>task_output := Some [(Main_type, map Some outputs)]\<rparr>
      | Some type \<Rightarrow> taskData\<lparr>
          task_input_override := Some (input_override runData (node_name node) runIndex),
          task_output := Some [(type, map Some outputs)]\<rparr>)"

text \<open>Items of a pinned node are the objects of the pin data.\<close>

definition keep_pins :: "inode \<Rightarrow> node_items list \<Rightarrow> exec_state \<Rightarrow> exec_state" where
  "keep_pins node outputs s =
     (if is_pinned s node \<and> exec_error s = None \<and> outputs \<noteq> []
         \<and> map_of (exec_pins s) (node_name node) \<noteq> Some []
      then s\<lparr>exec_pins := map_set (node_name node) (hd outputs) (exec_pins s)\<rparr> else s)"

definition completeNode ::
  "engine \<Rightarrow> queued \<Rightarrow> task_data \<Rightarrow> nat \<Rightarrow> node_items slot list option \<Rightarrow> exec_state \<Rightarrow> step_result" where
  "completeNode eng executionData taskData runIndex nodeSuccessData s =
     (let node = queued_node executionData; nodeName = node_name node
      in case mergeErrors nodeSuccessData of
           Inl e \<Rightarrow> Rejected e s
         | Inr outputs \<Rightarrow>
             (let logged = logged_output node outputs (exec_run_data s) runIndex taskData;
                  s0 = keep_pins node outputs s;
                  s1 = s0\<lparr>exec_run_data := record_task nodeName runIndex logged (exec_run_data s0)\<rparr>
              in if wait_till s1 then Finished (s1\<lparr>node_stack := executionData # node_stack s1\<rparr>)
                 else if destination_name eng = Some nodeName then Proceed s1
                 else (case queueChildren eng nodeName outputs runIndex s1 of
                         Inl e \<Rightarrow> Rejected e s1
                       | Inr s2 \<Rightarrow>
                           if node_stack s2 = [] then
                             (case releaseWaiting eng (own_keys (waiting_items s2))
                                     (own_keys (waiting_items s2)) s2 of
                                Inl e \<Rightarrow> Rejected e s2
                              | Inr s3 \<Rightarrow> Proceed s3)
                           else Proceed s2)))"

definition finishNode ::
  "engine \<Rightarrow> queued \<Rightarrow> nat \<Rightarrow> nat \<Rightarrow> thrown option \<Rightarrow> node_items slot list option \<Rightarrow> exec_state
   \<Rightarrow> step_result" where
  "finishNode eng executionData executionIndex runIndex failure nodeSuccessData s =
     (let node = queued_node executionData;
          s1 = ensure_runs (node_name node) (s\<lparr>exec_error := failure\<rparr>);
          taskData = (started_task executionData executionIndex)
            \<lparr>task_status := Some (if wait_till s1 then StatusWaiting else StatusSuccess)\<rparr>
      in case failure of
           None \<Rightarrow> completeNode eng executionData taskData runIndex nodeSuccessData s1
         | Some err \<Rightarrow>
             if continues_after node
             then completeNode eng executionData
                    (taskData\<lparr>task_error := Some err, task_status := Some StatusError\<rparr>)
                    runIndex (passed_on executionData err nodeSuccessData) s1
             else Finished (stopOnError executionData taskData runIndex err s1))"

definition filtered_out :: "engine \<Rightarrow> string \<Rightarrow> bool" where
  "filtered_out eng nodeName =
     (case run_node_filter eng of None \<Rightarrow> False | Some names \<Rightarrow> nodeName \<notin> set names)"

definition runEntry :: "engine \<Rightarrow> queued \<Rightarrow> nat \<Rightarrow> exec_state \<Rightarrow> step_result" where
  "runEntry eng executionData executionIndex s =
     (let nodeName = node_name (queued_node executionData);
          runIndex = run_index_of executionData s;
          currentExecutionTry = try_key nodeName runIndex
      in if currentExecutionTry = last_try s then Rejected EndlessLoop s
         else if filtered_out eng nodeName then Proceed s
         else (case ensureInputData eng executionData s of
                 (False, s1) \<Rightarrow> Proceed (s1\<lparr>last_try := currentExecutionTry\<rparr>)
               | (True, s1) \<Rightarrow>
                   (case tryNode eng executionData runIndex s1 of
                      (TriedRequest, s2) \<Rightarrow> Proceed s2
                    | (TriedEnd, s2) \<Rightarrow> Proceed s2
                    | (TriedData err nodeSuccessData, s2) \<Rightarrow>
                        finishNode eng executionData executionIndex runIndex err nodeSuccessData s2)))"

definition iteration :: "engine \<Rightarrow> exec_state \<Rightarrow> step_result" where
  "iteration eng s =
     (case node_stack s of
        [] \<Rightarrow> Finished s
      | entry # rest \<Rightarrow>
          if halted_at eng (next_index s) then CanceledRun s
          else runEntry eng
                 (pair_inputs (entry\<lparr>queued_node := rewire_node s (queued_node entry)\<rparr>))
                 (next_index s)
                 (s\<lparr>node_stack := rest, next_index := Suc (next_index s), exec_error := None,
                    sub_responses := []\<rparr>))"

section \<open>The loop\<close>

text \<open>With fuel for the iterations; \<open>None\<close> means that it ran out.\<close>

fun executionLoop :: "engine \<Rightarrow> nat \<Rightarrow> exec_state \<Rightarrow> step_result option" where
  "executionLoop eng 0 s = (if node_stack s = [] then Some (Finished s) else None)"
| "executionLoop eng (Suc fuel) s =
     (if node_stack s = [] then Some (Finished s)
      else (case iteration eng s of
              Proceed s1 \<Rightarrow> executionLoop eng fuel s1
            | result \<Rightarrow> Some result))"

lemma executionLoop_more:
  "executionLoop eng fuel s = Some result \<Longrightarrow> fuel \<le> fuel' \<Longrightarrow> executionLoop eng fuel' s = Some result"
proof (induction fuel arbitrary: s fuel')
  case 0
  then have "node_stack s = []" by (simp split: if_splits)
  with 0 show ?case by (cases fuel') auto
next
  case (Suc fuel)
  then obtain k where "fuel' = Suc k" and "fuel \<le> k" by (cases fuel') auto
  with Suc.prems(1) Suc.IH show ?case by (auto split: if_splits step_result.splits)
qed

section \<open>Before the loop\<close>

definition checkReadyForExecution ::
  "engine \<Rightarrow> string option \<Rightarrow> (string \<times> bool) option \<Rightarrow> string list" where
  "checkReadyForExecution eng startNode destination =
     (let checkNodes = (case destination of
            Some (nodeName, inclusive) \<Rightarrow>
              workflow_getParentNodes (flow eng) nodeName (OneType Main_type) (- 1)
              @ (if inclusive then [nodeName] else [])
          | None \<Rightarrow> (case startNode of
              Some nodeName \<Rightarrow>
                workflow_getChildNodes (flow eng) nodeName (OneType Main_type) (- 1) @ [nodeName]
            | None \<Rightarrow> []))
      in filter (\<lambda>nodeName. case getNode (flow eng) nodeName of
             None \<Rightarrow> False
           | Some node \<Rightarrow> \<not> is_disabled node
               \<and> (engine_types eng node = None \<or> parameter_issues eng node)) checkNodes)"

definition checkForWorkflowIssues :: "engine \<Rightarrow> exec_state \<Rightarrow> engine_error + unit" where
  "checkForWorkflowIssues eng s =
     (case checkReadyForExecution eng
             (case node_stack s of [] \<Rightarrow> None | entry # _ \<Rightarrow> Some (node_name (queued_node entry)))
             (map_option (\<lambda>n. (n, destination_inclusive eng)) (destination_name eng)) of
        [] \<Rightarrow> Inr ()
      | nodeName # _ \<Rightarrow> Inl (NodeIssues nodeName))"

text \<open>A run that resumes after it waited: the node that waited is disabled, with every entry that
  shares its node object, and its last run is taken back.\<close>

definition handleWaitingState :: "exec_state \<Rightarrow> engine_error + exec_state" where
  "handleWaitingState s =
     (if \<not> wait_till s then Inr s
      else (case (node_stack s, Option.bind (last_executed s) (map_of (exec_run_data s))) of
              (entry # rest, Some runs) \<Rightarrow>
                (let disable = (\<lambda>q. if node_ref (queued_node q) = node_ref (queued_node entry)
                                    then q\<lparr>queued_node := (queued_node q)\<lparr>disabled := Some True\<rparr>\<rparr> else q);
                     stack = (if Option.bind (queued_metadata entry) resumeError = None
                              then map disable (entry # rest) else entry # rest)
                 in Inr (s\<lparr>wait_till := False, node_stack := stack,
                      exec_run_data := map_set (the (last_executed s)) (butlast runs) (exec_run_data s)\<rparr>))
            | _ \<Rightarrow> Inl TypeErrorUndefined))"

definition processRunExecutionData ::
  "engine \<Rightarrow> nat \<Rightarrow> exec_state \<Rightarrow> engine_error + step_result option" where
  "processRunExecutionData eng fuel s =
     bind_result (checkForWorkflowIssues eng s) (\<lambda>_.
       bind_result (handleWaitingState s) (\<lambda>s1. Inr (executionLoop eng fuel s1)))"

section \<open>After the loop\<close>

definition string_includes :: "string \<Rightarrow> string \<Rightarrow> bool" where
  "string_includes s part \<longleftrightarrow>
     list_ex (\<lambda>i. take (length part) (drop i s) = part) [0..<Suc (length s)]"

definition error_status :: "thrown \<Rightarrow> execution_status" where
  "error_status err =
     (if string_includes (thrown_message err) ''canceled''
         \<or> (case thrown_name err of Some n \<Rightarrow> string_includes n ''Cancelled'' | None \<Rightarrow> False)
      then StatusCanceled else StatusError)"

text \<open>The error of a run that was canceled between two nodes, by hand or because its time was up.\<close>

definition manual_cancellation :: thrown where
  "manual_cancellation =
     Thrown (Some ''ManualExecutionCancelledError'') ''The execution was cancelled manually''"

definition timeout_cancellation :: thrown where
  "timeout_cancellation =
     Thrown (Some ''TimeoutExecutionCancelledError'') ''The execution was cancelled because it timed out''"

lemma cancellation_status [simp]:
  "error_status manual_cancellation = StatusCanceled"
  "error_status timeout_cancellation = StatusCanceled"
  by code_simp+

text \<open>The status of the finished run. Both cancellations give the same one. The \<open>catch\<close> of a rejected
  loop does not change the status.\<close>

fun finalStatus :: "step_result \<Rightarrow> execution_status" where
  "finalStatus (Finished s) =
     (case exec_error s of
        Some err \<Rightarrow> error_status err
      | None \<Rightarrow> if wait_till s then StatusWaiting else StatusSuccess)"
| "finalStatus (CanceledRun s) =
     (case exec_error s of Some err \<Rightarrow> error_status err | None \<Rightarrow> error_status manual_cancellation)"
| "finalStatus (Rejected e s) = StatusRunning"
| "finalStatus (Proceed s) = StatusRunning"

section \<open>The start of a run\<close>

definition run_filter :: "workflow \<Rightarrow> string \<Rightarrow> bool \<Rightarrow> string list option \<Rightarrow> string list" where
  "run_filter w nodeName inclusive additionalRunFilterNodes =
     set_from (workflow_getParentNodes w nodeName (OneType Main_type) (- 1)
       @ workflow_getParentNodes w nodeName AllNonMain (- 1)
       @ (if inclusive then [nodeName] else [])
       @ (case additionalRunFilterNodes of Some ns \<Rightarrow> ns | None \<Rightarrow> []))"

definition start_state :: "queued list \<Rightarrow> run_data \<Rightarrow> pin_data \<Rightarrow> exec_state" where
  "start_state stack runData pinData =
     \<lparr>node_stack = stack, waiting_items = [], waiting_sources = [], exec_run_data = runData,
      exec_pins = pinData, last_executed = None, result_error = None, wait_till = False,
      next_index = 0, last_try = [], exec_error = None, sub_responses = [], rewired = [], node_calls = 0\<rparr>"

definition run ::
  "engine \<Rightarrow> node_types \<Rightarrow> inode option \<Rightarrow> (string \<times> bool) option \<Rightarrow> pin_data \<Rightarrow> task_inputs option
   \<Rightarrow> string list option \<Rightarrow> nat \<Rightarrow> engine_error + step_result option" where
  "run eng types startNode destination pinData triggerData additionalRunFilterNodes fuel =
     bind_result
       (case startNode of
          Some node \<Rightarrow> Inr (Some node)
        | None \<Rightarrow> getStartNode types (flow eng) (map_option fst destination))
       (\<lambda>start. case start of
          None \<Rightarrow> Inl NoStartNode
        | Some node \<Rightarrow>
            processRunExecutionData
              (eng\<lparr>destination_name := map_option fst destination,
                   destination_inclusive := (case destination of Some (_, inclusive) \<Rightarrow> inclusive | None \<Rightarrow> False),
                   run_node_filter := map_option (\<lambda>(nodeName, inclusive).
                     run_filter (flow eng) nodeName inclusive additionalRunFilterNodes) destination\<rparr>)
              fuel
              (start_state
                [\<lparr>queued_node = node,
                  queued_data = (case triggerData of Some d \<Rightarrow> d | None \<Rightarrow> [(Main_type, [Val [empty_item]])]),
                  queued_source = None, queued_run = None, queued_metadata = None\<rparr>]
                [] pinData))"

end
