(* ===== verification/Node_Frames.thy ===== *)
theory Node_Frames
  imports Execution_Loop
begin

text \<open>
  Running a node changes only the pins, the name of the last node executed, the wish to wait and the
  number of calls; and the nodes of an engine that makes no requests never answer with one.
\<close>

definition no_requests :: "engine \<Rightarrow> bool" where
  "no_requests eng \<longleftrightarrow> (\<forall>args i actions. fst (node_call eng args i) \<noteq> Requested actions)"

definition same_rest :: "exec_state \<Rightarrow> exec_state \<Rightarrow> bool" where
  "same_rest s s' \<longleftrightarrow> node_stack s' = node_stack s \<and> waiting_items s' = waiting_items s
     \<and> waiting_sources s' = waiting_sources s \<and> exec_run_data s' = exec_run_data s
     \<and> next_index s' = next_index s \<and> last_try s' = last_try s \<and> exec_error s' = exec_error s"

lemma same_rest_refl: "same_rest s s"
  by (simp add: same_rest_def)

lemma same_rest_trans: "same_rest s t \<Longrightarrow> same_rest t u \<Longrightarrow> same_rest s u"
  by (simp add: same_rest_def)

section \<open>The call\<close>

lemma call_node_impl_rest: "same_rest s (snd (call_node_impl eng args s))"
  by (simp add: call_node_impl_def same_rest_def split: prod.splits)

lemma call_node_impl_response:
  "no_requests eng \<Longrightarrow> fst (call_node_impl eng args s) \<noteq> Requested actions"
  by (simp add: call_node_impl_def no_requests_def split: prod.splits) (metis fst_conv)

lemma run_enabled_rest: "same_rest s (snd (run_enabled eng q t r sub s))"
  using call_node_impl_rest [of s eng] same_rest_refl [of s]
  by (auto simp: run_enabled_def Let_def split: option.splits prod.splits node_response.splits list.splits)
    (metis snd_conv)+

lemma run_enabled_response:
  assumes "no_requests eng" shows "fst (run_enabled eng q t r sub s) \<noteq> Requested actions"
  using call_node_impl_response [OF assms]
  by (auto simp: run_enabled_def Let_def split: option.splits prod.splits node_response.splits list.splits)
    (metis fst_conv)+

lemma runNode_rest: "runNode eng q r sub s = (resp, s') \<Longrightarrow> same_rest s s'"
  using run_enabled_rest [of s eng q _ r sub] same_rest_refl [of s]
  by (auto simp: runNode_def Let_def split: option.splits if_splits) (metis snd_conv)+

lemma runNode_response:
  "no_requests eng \<Longrightarrow> runNode eng q r sub s = (resp, s') \<Longrightarrow> resp \<noteq> Requested actions"
  using run_enabled_response [of eng q _ r sub s actions]
  by (auto simp: runNode_def Let_def split: option.splits if_splits) (metis fst_conv)

section \<open>The attempts\<close>

lemma gather_rest: "same_rest s (gather_responses q s)"
  by (simp add: gather_responses_def same_rest_def)

lemma gather_calls [simp]: "node_calls (gather_responses q s) = node_calls s"
  by (simp add: gather_responses_def)

lemma retryFailed_rest:
  "retryFailed eng q r left resp s = (resp', left', s') \<Longrightarrow> same_rest s s'"
proof (induction left arbitrary: resp s)
  case 0
  then show ?case by (simp add: same_rest_refl)
next
  case (Suc left)
  then show ?case
    by (auto simp: same_rest_def split: if_splits prod.splits node_response.splits dest!: runNode_rest)
qed

lemma retryFailed_response:
  assumes "no_requests eng"
  shows "retryFailed eng q r left resp s = (resp', left', s') \<Longrightarrow> (\<And>acts. resp \<noteq> Requested acts)
    \<Longrightarrow> resp' \<noteq> Requested actions"
proof (induction left arbitrary: resp s)
  case (Suc left)
  then show ?case
    by (auto split: if_splits prod.splits node_response.splits dest: runNode_response [OF assms])
qed simp

lemma produce_cases:
  assumes "produce eng q r left s = (x, left', s')"
  obtains (Pinned) items where "x = ProducedData (Some [Val items])" and "s' = s"
    | (Ran) resp s1 resp2 where
        "runNode eng q r (sub_responses (gather_responses q s)) (gather_responses q s) = (resp, s1)"
        and "retryFailed eng q r left resp s1 = (resp2, left', s')"
        and "x = (case resp2 of Threw e \<Rightarrow> ProducedError e | Requested a \<Rightarrow> ProducedRequest a
                  | Returned d \<Rightarrow> ProducedData d)"
proof (cases "is_pinned s (queued_node q)")
  case True
  with assms Pinned show ?thesis by (auto simp: produce_def Let_def)
next
  case False
  obtain resp s1 where
    run: "runNode eng q r (sub_responses (gather_responses q s)) (gather_responses q s) = (resp, s1)" by force
  obtain resp2 l2 s2 where retry: "retryFailed eng q r left resp s1 = (resp2, l2, s2)" by (metis prod_cases3)
  have "s' = s2 \<and> left' = l2 \<and> x = (case resp2 of Threw e \<Rightarrow> ProducedError e | Requested a \<Rightarrow> ProducedRequest a
      | Returned d \<Rightarrow> ProducedData d)"
    using assms False run retry by (auto simp: produce_def Let_def split: node_response.splits)
  with run retry Ran show ?thesis by blast
qed

lemma produce_rest: "produce eng q r left s = (x, left', s') \<Longrightarrow> same_rest s s'"
  by (erule produce_cases)
    (auto intro: same_rest_refl same_rest_trans gather_rest dest!: runNode_rest retryFailed_rest)

lemma produce_response:
  assumes "produce eng q r left s = (x, left', s')" and "no_requests eng"
  shows "x \<noteq> ProducedRequest actions"
  using assms(1)
proof (cases rule: produce_cases)
  case (Ran resp s1 resp2)
  have "resp2 \<noteq> Requested actions"
    using retryFailed_response [OF assms(2) Ran(2)] runNode_response [OF assms(2) Ran(1)] by blast
  with Ran(3) show ?thesis by (auto split: node_response.splits)
qed simp

lemma finish_attempt_rest: "finish_attempt eng q d s = (x, s') \<Longrightarrow> same_rest s s'"
  by (auto simp: finish_attempt_def Let_def same_rest_def
      split: sum.splits option.splits list.splits slot.splits if_splits)

lemma finish_attempt_response: "finish_attempt eng q d s = (x, s') \<Longrightarrow> x \<noteq> Inr TriedRequest"
  by (auto simp: finish_attempt_def Let_def split: sum.splits option.splits list.splits slot.splits if_splits)

section \<open>The packets for the nodes behind a node\<close>

lemma packet_of_sel [simp]:
  "packet_node (packet_of n outs r c) = conn_node (snd c)"
  "packet_input (packet_of n outs r c) = conn_index (snd c)"
  "delivered (packet_of n outs r c) = slot_get (map Val outs) (fst c)"
  by (simp_all add: packet_of_def delivered_def split: prod.splits)

lemma destinations_checked:
  "fold_result (\<lambda>c u. check_destination eng n c) cs () = Inr u \<Longrightarrow> c \<in> set cs \<Longrightarrow>
     getNode (flow eng) (conn_node (snd c)) \<noteq> None"
  by (induction cs)
    (auto simp: js_simps check_destination_def getNode_def map_has_def split: prod.splits if_splits)

end
