(* ===== verification/Packet_Delivery.thy ===== *)
theory Packet_Delivery
  imports Node_Queueing
begin

text \<open>
  What \<open>addNodeToBeExecuted\<close> does to the items that are on the way: sums over the stack and the
  executions that wait, for any measure of an input array that grows by a fixed amount when a
  packet fills an empty place. Two measures are used: the multiset of the packets themselves, and
  a weight from which the termination of the loop follows.
\<close>

section \<open>Sums over the waiting executions\<close>

definition entries_total :: "('d slot list \<Rightarrow> 'a::comm_monoid_add) \<Rightarrow> (nat \<times> 'd slot list) list \<Rightarrow> 'a" where
  "entries_total f es = sum_list (map (f \<circ> snd) es)"

definition waiting_total :: "(string \<Rightarrow> 'd slot list \<Rightarrow> 'a::comm_monoid_add) \<Rightarrow> 'd waiting_map \<Rightarrow> 'a" where
  "waiting_total f w = sum_list (map (\<lambda>(n, es). entries_total (f n) es) w)"

definition keys_ok :: "'d waiting_map \<Rightarrow> bool" where
  "keys_ok w \<longleftrightarrow> distinct (map_keys w) \<and> list_all (\<lambda>(n, es). distinct (map_keys es)) w"

lemma sum_list_map_set:
  fixes g :: "'k \<Rightarrow> 'v \<Rightarrow> 'a::comm_monoid_add"
  assumes "distinct (map_keys m)"
  shows "sum_list (map (\<lambda>(k, v). g k v) (map_set k v m))
     + (case map_of m k of None \<Rightarrow> 0 | Some u \<Rightarrow> g k u)
   = sum_list (map (\<lambda>(k, v). g k v) m) + g k v"
  using assms
proof (induction m)
  case (Cons p m)
  show ?case
  proof (cases "fst p = k")
    case True
    then show ?thesis by (cases p) (simp add: ac_simps)
  next
    case False
    with Cons show ?thesis by (cases p) (simp add: ac_simps)
  qed
qed simp

lemma sum_list_map_delete:
  fixes g :: "'k \<Rightarrow> 'v \<Rightarrow> 'a::comm_monoid_add"
  assumes "distinct (map_keys m)"
  shows "sum_list (map (\<lambda>(k, v). g k v) (map_delete k m))
     + (case map_of m k of None \<Rightarrow> 0 | Some u \<Rightarrow> g k u)
   = sum_list (map (\<lambda>(k, v). g k v) m)"
  using assms
proof (induction m)
  case (Cons p m)
  show ?case
  proof (cases "fst p = k")
    case True
    with Cons.prems have "k \<notin> fst ` set m" by auto
    then have "map_delete k m = m" by (force simp: AList.delete_eq filter_id_conv)
    with True show ?thesis by (cases p) (simp add: ac_simps)
  next
    case False
    with Cons show ?thesis by (cases p) (simp add: ac_simps)
  qed
qed simp

lemma keys_ok_entries: "keys_ok w \<Longrightarrow> distinct (map_keys (entry_or w n []))"
  by (auto simp: keys_ok_def list_all_iff split: option.splits dest!: map_of_SomeD)

lemma keys_ok_map_set: "keys_ok w \<Longrightarrow> distinct (map_keys es) \<Longrightarrow> keys_ok (map_set n es w)"
  by (auto simp: keys_ok_def list_all_iff set_map_set distinct_update simp del: set_map)

lemma keys_ok_map_delete: "keys_ok w \<Longrightarrow> keys_ok (map_delete n w)"
  by (auto simp: keys_ok_def list_all_iff set_map_delete distinct_delete simp del: set_map)

lemma keys_ok_store: "keys_ok w \<Longrightarrow> keys_ok (store_main n i xs w)"
  unfolding store_main_def by (intro keys_ok_map_set distinct_update keys_ok_entries)

lemma keys_ok_delete_main: "keys_ok w \<Longrightarrow> keys_ok (delete_main n i gone w)"
  unfolding delete_main_def
  by (auto intro!: keys_ok_map_set keys_ok_map_delete distinct_delete keys_ok_entries)

text \<open>What an entry counts for; nothing when it is not there.\<close>

definition entry_total :: "(string \<Rightarrow> 'd slot list \<Rightarrow> 'a::comm_monoid_add) \<Rightarrow> 'd waiting_map \<Rightarrow> string \<Rightarrow> nat \<Rightarrow> 'a" where
  "entry_total f w n i = (case waiting_main w n i of None \<Rightarrow> 0 | Some xs \<Rightarrow> f n xs)"

lemma entries_total_set:
  assumes "distinct (map_keys es)"
  shows "entries_total f (map_set i xs es) + (case map_of es i of None \<Rightarrow> 0 | Some ys \<Rightarrow> f ys)
    = entries_total f es + f xs"
  using sum_list_map_set [OF assms, where g = "\<lambda>_. f"]
  by (simp add: entries_total_def case_prod_unfold comp_def)

lemma entries_total_delete:
  assumes "distinct (map_keys es)"
  shows "entries_total f (map_delete i es) + (case map_of es i of None \<Rightarrow> 0 | Some ys \<Rightarrow> f ys)
    = entries_total f es"
  using sum_list_map_delete [OF assms, where g = "\<lambda>_. f"]
  by (simp add: entries_total_def case_prod_unfold comp_def)

lemma waiting_total_set:
  assumes "keys_ok w"
  shows "waiting_total f (map_set n es w) + entries_total (f n) (entry_or w n [])
    = waiting_total f w + entries_total (f n) es"
  using sum_list_map_set [of w "\<lambda>n. entries_total (f n)" n es] assms
  by (cases "map_of w n") (auto simp: waiting_total_def keys_ok_def entries_total_def)

lemma waiting_total_delete:
  assumes "keys_ok w"
  shows "waiting_total f (map_delete n w) + entries_total (f n) (entry_or w n []) = waiting_total f w"
  using sum_list_map_delete [of w "\<lambda>n. entries_total (f n)" n] assms
  by (cases "map_of w n") (auto simp: waiting_total_def keys_ok_def entries_total_def)

lemma entry_total_entries:
  "entry_total f w n i = (case map_of (entry_or w n []) i of None \<Rightarrow> 0 | Some xs \<Rightarrow> f n xs)"
  by (auto simp: entry_total_def waiting_main_def split: option.splits)

lemma waiting_total_store:
  fixes f :: "string \<Rightarrow> 'd slot list \<Rightarrow> 'a::cancel_comm_monoid_add"
  assumes "keys_ok w"
  shows "waiting_total f (store_main n i xs w) + entry_total f w n i = waiting_total f w + f n xs"
proof -
  let ?es = "entry_or w n []"
  note outer = waiting_total_set [OF assms, of f n "map_set i xs ?es"]
  note inner = entries_total_set [OF keys_ok_entries [OF assms], of "f n" i xs n]
  have "waiting_total f (store_main n i xs w) + entry_total f w n i + entries_total (f n) ?es
      = waiting_total f w + entries_total (f n) (map_set i xs ?es) + entry_total f w n i"
    using outer by (simp add: store_main_def ac_simps)
  also have "\<dots> = waiting_total f w + f n xs + entries_total (f n) ?es"
    using inner by (simp add: entry_total_entries ac_simps)
  finally show ?thesis by simp
qed

lemma waiting_total_delete_main:
  fixes f :: "string \<Rightarrow> 'd slot list \<Rightarrow> 'a::cancel_comm_monoid_add"
  assumes "keys_ok w" and "gone \<longleftrightarrow> map_delete i (entry_or w n []) = []"
  shows "waiting_total f (delete_main n i gone w) + entry_total f w n i = waiting_total f w"
proof -
  let ?es = "entry_or w n []"
  note inner = entries_total_delete [OF keys_ok_entries [OF assms(1)], of "f n" i n]
  show ?thesis
  proof (cases gone)
    case True
    then have "entry_total f w n i = entries_total (f n) ?es"
      using inner assms(2) by (simp add: entries_total_def entry_total_entries)
    then show ?thesis using waiting_total_delete [OF assms(1), of f n] True
      by (simp add: delete_main_def)
  next
    case False
    have "waiting_total f (delete_main n i gone w) + entry_total f w n i + entries_total (f n) ?es
        = waiting_total f w + entries_total (f n) (map_delete i ?es) + entry_total f w n i"
      using waiting_total_set [OF assms(1), of f n "map_delete i ?es"] False
      by (simp add: delete_main_def ac_simps)
    also have "\<dots> = waiting_total f w + entries_total (f n) ?es"
      using inner by (simp add: entry_total_entries ac_simps)
    finally show ?thesis by simp
  qed
qed

section \<open>What storing a packet does\<close>

lemma entry_or_map_set: "entry_or (map_set n v m) k d = (if k = n then v else entry_or m k d)"
  by simp

lemma store_main_twice: "store_main n i xs (store_main n i ys w) = store_main n i xs w"
  by (simp add: store_main_def entry_or_map_set)

lemma store_main_fresh: "map_of w n = None \<Longrightarrow> store_main n i xs (map_set n [] w) = store_main n i xs w"
  by (simp add: store_main_def)

lemma store_main_same: "waiting_main w n i = Some xs \<Longrightarrow> store_main n i xs w = w"
  by (auto simp: store_main_def waiting_main_def update_triv split: Option.bind_splits)

lemma open_entry_Some:
  assumes "open_entry es j = Some i"
  shows "\<exists>xs. map_of es i = Some xs \<and> falsy (slot_get xs j)"
proof -
  let ?ks = "sort (map_keys es)"
  from assms obtain k where "k < length ?ks" and "i = ?ks ! k" and f: "falsy (slot_get (the (map_of es i)) j)"
    unfolding open_entry_def find_Some_iff by blast
  then have "i \<in> set ?ks" using nth_mem by blast
  then have "i \<in> set (map_keys es)" by simp
  then obtain xs where "map_of es i = Some xs" using map_of_eq_None_notin [of es i] by (cases "map_of es i") blast+
  with f show ?thesis by simp
qed

lemma open_entry_None:
  "open_entry es j = None \<longleftrightarrow> (\<forall>i \<in> set (map_keys es). \<not> falsy (slot_get (the (map_of es i)) j))"
  by (simp add: open_entry_def find_None_iff)

definition placed_in :: "exec_state \<Rightarrow> packet \<Rightarrow> nat \<Rightarrow> node_items slot list \<Rightarrow> bool" where
  "placed_in s p i xs \<longleftrightarrow>
     (let es = entry_or (waiting_items s) (packet_node p) []
      in if open_entry es (packet_input p) = None
         then i = length es \<and> (\<exists>k. xs = replicate k Null)
         else open_entry es (packet_input p) = Some i \<and> map_of es i = Some xs
                \<and> falsy (slot_get xs (packet_input p)))"

lemma ensureWaiting_items:
  "entry_or (waiting_items (ensureWaiting n s)) n [] = entry_or (waiting_items s) n []"
  "store_main n i xs (waiting_items (ensureWaiting n s)) = store_main n i xs (waiting_items s)"
  "waiting_main (waiting_items (ensureWaiting n s)) n i = waiting_main (waiting_items s) n i"
  by (auto simp: ensureWaiting_def map_has_def store_main_fresh waiting_main_def split: option.splits)

lemma waiting_main_entries: "waiting_main w n i = map_of (entry_or w n []) i"
  by (auto simp: waiting_main_def split: option.splits)

definition same_but_waiting :: "exec_state \<Rightarrow> exec_state \<Rightarrow> bool" where
  "same_but_waiting s s' \<longleftrightarrow>
     s' = s\<lparr>waiting_items := waiting_items s', waiting_sources := waiting_sources s'\<rparr>"

lemma same_but_waitingI: "same_but_waiting s (s\<lparr>waiting_items := wi, waiting_sources := ws\<rparr>)"
  by (simp add: same_but_waiting_def)

lemma same_but_waitingD:
  assumes "same_but_waiting s s'"
  shows "node_stack s' = node_stack s" and "exec_run_data s' = exec_run_data s"
  by (subst assms [unfolded same_but_waiting_def], simp)+

lemma same_but_waiting_refl: "same_but_waiting s s"
  by (simp add: same_but_waiting_def)

lemma same_but_waiting_ensure: "same_but_waiting s (ensureWaiting n s)"
  by (simp add: same_but_waiting_def ensureWaiting_def)

lemma same_but_waiting_prepare: "same_but_waiting s (prepareWaitingToExecution n k i s)"
  unfolding prepareWaitingToExecution_def by (rule same_but_waitingI)

lemma same_but_waiting_trans:
  assumes "same_but_waiting s t" and "same_but_waiting t u" shows "same_but_waiting s u"
proof -
  from assms(2) have "u = t\<lparr>waiting_items := waiting_items u, waiting_sources := waiting_sources u\<rparr>"
    by (simp add: same_but_waiting_def)
  also have "\<dots> = s\<lparr>waiting_items := waiting_items u, waiting_sources := waiting_sources u\<rparr>"
    by (subst assms(1) [unfolded same_but_waiting_def]) simp
  finally show ?thesis by (simp add: same_but_waiting_def)
qed

lemma placed_in_ensure: "placed_in (ensureWaiting (packet_node p) s) p i xs = placed_in s p i xs"
  by (simp add: placed_in_def ensureWaiting_items)

lemma chooseEntry_effect:
  assumes "chooseEntry eng p t = (i, t1)"
  shows "same_but_waiting t t1" and "\<exists>xs. placed_in t p i xs \<and> waiting_main (waiting_items t1) (packet_node p) i = Some xs"
    and "store_main (packet_node p) i ys (waiting_items t1) = store_main (packet_node p) i ys (waiting_items t)"
proof -
  let ?es = "entry_or (waiting_items t) (packet_node p) []"
  have "same_but_waiting t t1 \<and> (\<exists>xs. placed_in t p i xs \<and> waiting_main (waiting_items t1) (packet_node p) i = Some xs)
      \<and> store_main (packet_node p) i ys (waiting_items t1) = store_main (packet_node p) i ys (waiting_items t)"
  proof (cases "open_entry ?es (packet_input p)")
    case None
    with assms have i: "i = length ?es"
      and t1: "t1 = prepareWaitingToExecution (packet_node p) (length (dest_inputs eng (packet_node p))) i t"
      by (auto simp: chooseEntry_def Let_def)
    have "placed_in t p i (replicate (length (dest_inputs eng (packet_node p))) Null)"
      unfolding placed_in_def Let_def using None i by auto
    moreover have "waiting_main (waiting_items t1) (packet_node p) i
        = Some (replicate (length (dest_inputs eng (packet_node p))) Null)"
      by (simp add: t1 prepareWaitingToExecution_def waiting_main_store)
    ultimately show ?thesis
      using same_but_waiting_prepare unfolding t1
      by (auto simp: prepareWaitingToExecution_def store_main_twice)
  next
    case (Some k)
    from open_entry_Some [OF this] obtain xs where "map_of ?es k = Some xs" "falsy (slot_get xs (packet_input p))"
      by blast
    with Some assms show ?thesis
      by (auto simp: chooseEntry_def Let_def placed_in_def waiting_main_entries same_but_waiting_refl)
  qed
  then show "same_but_waiting t t1" and "\<exists>xs. placed_in t p i xs \<and> waiting_main (waiting_items t1) (packet_node p) i = Some xs"
    and "store_main (packet_node p) i ys (waiting_items t1) = store_main (packet_node p) i ys (waiting_items t)"
    by blast+
qed

lemma placePacket_effect:
  assumes "placePacket eng p s = Inr (i, waits, s1)"
  shows "\<exists>xs. placed_in s p i xs \<and> waiting_items s1
      = store_main (packet_node p) i (slot_set (packet_input p) (delivered p) xs) (waiting_items s)"
    and "same_but_waiting s s1"
proof -
  let ?t = "ensureWaiting (packet_node p) s"
  obtain k t1 where c: "chooseEntry eng p ?t = (k, t1)" by force
  from assms c have st: "storePacket p k t1 = Inr s1" and k: "k = i"
    by (auto simp: placePacket_def js_simps)
  from st have "same_but_waiting t1 s1"
    by (auto simp: storePacket_def Let_def intro: same_but_waitingI split: option.splits)
  with chooseEntry_effect(1) [OF c] same_but_waiting_ensure show "same_but_waiting s s1"
    by (blast intro: same_but_waiting_trans)
  from chooseEntry_effect(2) [OF c] obtain xs where xs: "placed_in ?t p i xs"
    "waiting_main (waiting_items t1) (packet_node p) i = Some xs" unfolding k by blast
  have "waiting_items s1 = store_main (packet_node p) i (slot_set (packet_input p) (delivered p) xs) (waiting_items t1)"
    using st xs(2) by (auto simp: storePacket_def Let_def k split: option.splits)
  also have "\<dots> = store_main (packet_node p) i (slot_set (packet_input p) (delivered p) xs) (waiting_items s)"
    using chooseEntry_effect(3) [OF c] by (simp add: k ensureWaiting_items)
  finally show "\<exists>xs. placed_in s p i xs \<and> waiting_items s1
      = store_main (packet_node p) i (slot_set (packet_input p) (delivered p) xs) (waiting_items s)"
    using xs(1) unfolding placed_in_ensure by blast
qed

section \<open>The operation in the execution order \<open>v1\<close>\<close>

lemma forceInput_v1: "order_v1 eng \<Longrightarrow> forceInput eng p outs n s = Inr s' \<Longrightarrow> s' = s"
  by (auto simp: forceInput_def isLegacyExecutionOrder_def js_simps Let_def split: if_splits)

lemma forceInputs_v1:
  assumes "order_v1 eng" and "forceInputs eng p s = Inr s'" shows "s' = s"
proof -
  from assms(2) obtain outs where
    "fold_result (forceInput eng p outs) (map conn_node (connections_in (dest_inputs eng (packet_node p)))) s = Inr s'"
    by (auto simp: forceInputs_def js_simps)
  then show ?thesis
    by (rule fold_result_inv [where P = "\<lambda>t. t = s"]) (auto dest: forceInput_v1 [OF assms(1)])
qed

lemma keepWaiting_same:
  assumes "keepWaiting eng p i s = Inr s'"
    and "waiting_main (waiting_items s) (packet_node p) i = Some (slot_set (packet_input p) (delivered p) xs)"
  shows "s' = s"
  using assms
  by (auto simp: keepWaiting_def Let_def prepareWaitingToExecution_def store_main_twice slot_set_twice
      store_main_same split: option.splits)

definition filled_slots :: "packet \<Rightarrow> node_items slot list \<Rightarrow> node_items slot list" where
  "filled_slots p xs = slot_set (packet_input p) (delivered p) xs"

lemma addNode_v1:
  assumes "order_v1 eng" and "addNodeToBeExecuted eng p s = Inr s'"
    and "length (dest_inputs eng (packet_node p)) > 1"
  shows "\<exists>i xs s1. placed_in s p i xs \<and> same_but_waiting s s1
     \<and> waiting_items s1 = store_main (packet_node p) i (filled_slots p xs) (waiting_items s)
     \<and> (if Null \<in> set (filled_slots p xs) then s' = s1 else enqueueWaiting eng p i s1 = Inr s')"
proof -
  from assms obtain i w s1 where place: "placePacket eng p s = Inr (i, w, s1)"
    and rest: "(if allDataFound s1 (packet_node p) i then enqueueWaiting eng p i s1
       else bind_result (if w then Inr s1 else forceInputs eng p s1) (keepWaiting eng p i)) = Inr s'"
    by (auto simp: addNodeToBeExecuted_def js_simps)
  from placePacket_effect [OF place] obtain xs where xs: "placed_in s p i xs"
    "waiting_items s1 = store_main (packet_node p) i (filled_slots p xs) (waiting_items s)" "same_but_waiting s s1"
    unfolding filled_slots_def by blast
  from xs(2) have main: "waiting_main (waiting_items s1) (packet_node p) i = Some (filled_slots p xs)"
    by (simp add: waiting_main_store)
  have "s' = s1" if "Null \<in> set (filled_slots p xs)"
  proof -
    from that main rest have "bind_result (if w then Inr s1 else forceInputs eng p s1) (keepWaiting eng p i) = Inr s'"
      by (auto simp: allDataFound_def list_all_iff split: if_splits)
    then have "keepWaiting eng p i s1 = Inr s'"
      using forceInputs_v1 [OF assms(1)] by (auto simp: js_simps split: if_splits)
    then show ?thesis using main unfolding filled_slots_def by (rule keepWaiting_same)
  qed
  moreover have "enqueueWaiting eng p i s1 = Inr s'" if "Null \<notin> set (filled_slots p xs)"
    using that main rest by (auto simp: allDataFound_def list_all_iff split: if_splits)
  ultimately show ?thesis using xs by (intro exI conjI) auto
qed

section \<open>Measures of what is on the way\<close>

definition queued_main :: "queued \<Rightarrow> node_items slot list" where
  "queued_main q = entry_or (queued_data q) Main_type []"

definition queued_name :: "queued \<Rightarrow> string" where
  "queued_name q = node_name (queued_node q)"

definition stack_total :: "(string \<Rightarrow> node_items slot list \<Rightarrow> 'a::comm_monoid_add) \<Rightarrow> queued list \<Rightarrow> 'a" where
  "stack_total f qs = sum_list (map (\<lambda>q. f (queued_name q) (queued_main q)) qs)"

definition held_total :: "(string \<Rightarrow> node_items slot list \<Rightarrow> 'a::comm_monoid_add) \<Rightarrow> exec_state \<Rightarrow> 'a" where
  "held_total f s = stack_total f (node_stack s) + waiting_total f (waiting_items s)"

text \<open>What the packet overwrites: the entry at the index of a new one, if there is one already.\<close>

definition overwritten ::
  "(string \<Rightarrow> node_items slot list \<Rightarrow> 'a::comm_monoid_add) \<Rightarrow> engine \<Rightarrow> packet \<Rightarrow> exec_state \<Rightarrow> 'a" where
  "overwritten f eng p s =
     (let es = entry_or (waiting_items s) (packet_node p) []
      in if length (dest_inputs eng (packet_node p)) > 1 \<and> open_entry es (packet_input p) = None
         then entry_total f (waiting_items s) (packet_node p) (length es) else 0)"

text \<open>The nodes of the workflow are filed under their names.\<close>

definition names_ok :: "engine \<Rightarrow> bool" where
  "names_ok eng \<longleftrightarrow> list_all (\<lambda>(n, node). node_name node = n) (workflow_nodes (flow eng))"

lemma names_okD: "names_ok eng \<Longrightarrow> getNode (flow eng) n = Some node \<Longrightarrow> node_name node = n"
  by (auto simp: names_ok_def getNode_def list_all_iff dest!: map_of_SomeD)

locale slot_measure =
  fixes f :: "string \<Rightarrow> node_items slot list \<Rightarrow> 'a::cancel_comm_monoid_add"
    and g :: "string \<Rightarrow> nat \<Rightarrow> node_items \<Rightarrow> 'a"
  assumes f_nulls: "f n (replicate k Null) = 0"
    and f_set: "falsy (slot_get xs i) \<Longrightarrow> f n (slot_set i (Val items) xs) = f n xs + g n i items"
begin

lemma placed_total:
  assumes "keys_ok (waiting_items s)" and "delivered p = Val items" and "placed_in s p i xs"
    and "length (dest_inputs eng (packet_node p)) > 1"
  shows "waiting_total f (store_main (packet_node p) i (filled_slots p xs) (waiting_items s))
      + overwritten f eng p s
    = waiting_total f (waiting_items s) + g (packet_node p) (packet_input p) items"
proof -
  let ?n = "packet_node p" and ?w = "waiting_items s"
  let ?es = "entry_or ?w ?n []"
  note store = waiting_total_store [OF assms(1), of f ?n i "filled_slots p xs"]
  show ?thesis
  proof (cases "open_entry ?es (packet_input p) = None")
    case True
    then have i: "i = length ?es" and xs: "\<exists>k. xs = replicate k Null"
      using assms(3) by (auto simp: placed_in_def Let_def)
    have "falsy (slot_get xs (packet_input p))" using xs by (auto simp: slot_get_def)
    then have "f ?n (filled_slots p xs) = g ?n (packet_input p) items"
      using xs by (auto simp: filled_slots_def assms(2) f_set f_nulls)
    then show ?thesis
      using store assms(4) True by (simp add: overwritten_def Let_def i)
  next
    case False
    then have es: "map_of ?es i = Some xs" and "falsy (slot_get xs (packet_input p))"
      using assms(3) by (auto simp: placed_in_def Let_def)
    then have "f ?n (filled_slots p xs) = f ?n xs + g ?n (packet_input p) items"
      by (simp add: filled_slots_def assms(2) f_set)
    with store es have "waiting_total f (store_main ?n i (filled_slots p xs) ?w) + f ?n xs
        = (waiting_total f ?w + g ?n (packet_input p) items) + f ?n xs"
      by (simp add: entry_total_entries ac_simps)
    then have "waiting_total f (store_main ?n i (filled_slots p xs) ?w)
        = waiting_total f ?w + g ?n (packet_input p) items" by (rule add_right_imp_eq)
    moreover have "overwritten f eng p s = 0"
      using False by (auto simp: overwritten_def Let_def)
    ultimately show ?thesis by simp
  qed
qed

lemma enqueueWaiting_total:
  assumes "names_ok eng" and "keys_ok (waiting_items s)" and "enqueueWaiting eng p i s = Inr s'"
  shows "held_total f s' = held_total f s"
proof -
  from assms(3) obtain node items sources where n: "getNode (flow eng) (packet_node p) = Some node"
    and m: "waiting_main (waiting_items s) (packet_node p) i = Some items"
    and s': "s' = remove_waiting (packet_node p) i (pushEntry eng
      \<lparr>queued_node = node, queued_data = [(Main_type, items)], queued_source = Some [(Main_type, sources)],
       queued_run = None, queued_metadata = None\<rparr> s)"
    by (auto simp: enqueueWaiting_def split: option.splits)
  have "stack_total f (node_stack s') = stack_total f (node_stack s) + f (packet_node p) items"
    using names_okD [OF assms(1) n]
    by (simp add: s' remove_waiting_def Let_def pushEntry_def stack_total_def queued_name_def queued_main_def ac_simps)
  moreover have "waiting_total f (waiting_items s') + f (packet_node p) items = waiting_total f (waiting_items s)"
    using waiting_total_delete_main [OF assms(2) refl, of f "packet_node p" i] m
    by (simp add: s' remove_waiting_def Let_def pushEntry_def entry_total_def)
  ultimately show ?thesis by (metis (no_types, lifting) add.assoc add.commute held_total_def)
qed

lemma add_total:
  assumes "order_v1 eng" and "names_ok eng" and "keys_ok (waiting_items s)"
    and "getNode (flow eng) (packet_node p) = Some node" and "delivered p = Val items"
    and "addNodeToBeExecuted eng p s = Inr s'"
  shows "held_total f s' + overwritten f eng p s
    = held_total f s + g (packet_node p) (packet_input p) items"
proof (cases "length (dest_inputs eng (packet_node p)) > 1")
  case True
  from addNode_v1 [OF assms(1,6) True] obtain i xs s1 where pl: "placed_in s p i xs"
    and sb: "same_but_waiting s s1"
    and w: "waiting_items s1 = store_main (packet_node p) i (filled_slots p xs) (waiting_items s)"
    and s': "if Null \<in> set (filled_slots p xs) then s' = s1 else enqueueWaiting eng p i s1 = Inr s'"
    by blast
  have "keys_ok (waiting_items s1)" unfolding w by (rule keys_ok_store [OF assms(3)])
  with s' enqueueWaiting_total [OF assms(2)] have "held_total f s' = held_total f s1"
    by (cases "Null \<in> set (filled_slots p xs)") auto
  moreover have "held_total f s1 + overwritten f eng p s = held_total f s + g (packet_node p) (packet_input p) items"
    using placed_total [OF assms(3,5) pl True] same_but_waitingD(1) [OF sb]
    by (simp add: held_total_def w add.assoc)
  ultimately show ?thesis by simp
next
  case False
  let ?xs = "replicate (Suc (packet_input p)) Null"
  have "falsy (slot_get ?xs (packet_input p))"
    by (simp add: slot_get_def del: replicate_Suc)
  then have f: "f (packet_node p) (slot_set (packet_input p) (Val items) ?xs) = g (packet_node p) (packet_input p) items"
    by (subst f_set) (simp_all add: f_nulls del: replicate_Suc)
  from False assms(6) have "s' = enqueueSingle eng p s" by (simp add: addNodeToBeExecuted_def)
  with False names_okD [OF assms(2,4)] show ?thesis
    by (simp add: enqueueSingle_def assms(4,5) held_total_def overwritten_def Let_def pushEntry_def
        stack_total_def queued_name_def queued_main_def f ac_simps del: replicate_Suc)
qed

end

section \<open>The two measures\<close>

definition slot_sum :: "(nat \<Rightarrow> 'd slot \<Rightarrow> 'a::comm_monoid_add) \<Rightarrow> 'd slot list \<Rightarrow> 'a" where
  "slot_sum h xs = sum_list (map (\<lambda>i. h i (slot_get xs i)) [0..<length xs])"

lemma slot_sum_upto:
  assumes "\<And>i. h i Undef = 0" and "length xs \<le> N"
  shows "slot_sum h xs = (\<Sum>i<N. h i (slot_get xs i))"
proof -
  have "slot_sum h xs = (\<Sum>i<length xs. h i (slot_get xs i))"
    by (simp add: slot_sum_def interv_sum_list_conv_sum_set_nat lessThan_atLeast0)
  also have "\<dots> = (\<Sum>i<N. h i (slot_get xs i))"
    by (rule sum.mono_neutral_left) (use assms in \<open>auto simp: slot_get_def\<close>)
  finally show ?thesis .
qed

lemma slot_sum_set:
  assumes h: "\<And>i v. falsy v \<Longrightarrow> h i v = 0" and "falsy (slot_get xs i)"
  shows "slot_sum h (slot_set i v xs) = slot_sum h xs + h i v"
proof -
  let ?N = "max (length xs) (Suc i)"
  have h0: "h j Undef = 0" for j using h by simp
  have "slot_sum h (slot_set i v xs) = (\<Sum>j<?N. h j (slot_get (slot_set i v xs) j))"
    using slot_sum_upto [where h = h, OF h0, of "slot_set i v xs" ?N] by (simp add: length_slot_set)
  also have "\<dots> = h i v + (\<Sum>j \<in> {..<?N} - {i}. h j (slot_get xs j))"
    by (subst sum.remove [of _ i]) (auto simp: slot_get_set intro!: sum.cong arg_cong [of _ _ "\<lambda>x. h i v + x"])
  also have "(\<Sum>j \<in> {..<?N} - {i}. h j (slot_get xs j)) = (\<Sum>j<?N. h j (slot_get xs j))"
    using sum.remove [of "{..<?N}" i "\<lambda>j. h j (slot_get xs j)"] h [OF assms(2)] by auto
  also have "\<dots> = slot_sum h xs"
    using slot_sum_upto [where h = h, OF h0, of xs ?N] by simp
  finally show ?thesis by (simp add: add.commute)
qed

lemma slot_sum_nulls: "(\<And>i. h i Null = 0) \<Longrightarrow> slot_sum h (replicate k Null) = 0"
proof -
  assume h: "\<And>i. h i Null = 0"
  have "map (\<lambda>i. h i (slot_get (replicate k Null) i)) [0..<k] = map (\<lambda>_. 0) [0..<k]"
    by (rule map_cong) (simp_all add: slot_get_def h)
  then show ?thesis unfolding slot_sum_def length_replicate by (simp only: sum_list_0)
qed

text \<open>Every packet on the way: the node, the input and the items.\<close>

fun slot_packet :: "string \<Rightarrow> nat \<Rightarrow> node_items slot \<Rightarrow> (string \<times> nat \<times> node_items) multiset" where
  "slot_packet n i (Val items) = {#(n, i, items)#}"
| "slot_packet n i v = {#}"

definition packets_in :: "string \<Rightarrow> node_items slot list \<Rightarrow> (string \<times> nat \<times> node_items) multiset" where
  "packets_in n xs = slot_sum (slot_packet n) xs"

lemma slot_packet_falsy: "falsy v \<Longrightarrow> slot_packet n i v = {#}"
  by (cases v) auto

interpretation packets: slot_measure packets_in "\<lambda>n i items. {#(n, i, items)#}"
proof
  show "packets_in n (replicate k Null) = 0" for n k
    by (simp add: packets_in_def slot_sum_nulls)
  show "packets_in n (slot_set i (Val items) xs) = packets_in n xs + {#(n, i, items)#}"
    if "falsy (slot_get xs i)" for xs i n items
    using slot_sum_set [of "slot_packet n", OF slot_packet_falsy that] by (simp add: packets_in_def)
qed

text \<open>A weight per node, for each input that has items.\<close>

definition items_weight :: "(string \<Rightarrow> nat) \<Rightarrow> string \<Rightarrow> nat \<Rightarrow> node_items \<Rightarrow> nat" where
  "items_weight W n i items = (if items = [] then 0 else W n)"

fun slot_weight :: "(string \<Rightarrow> nat) \<Rightarrow> string \<Rightarrow> nat \<Rightarrow> node_items slot \<Rightarrow> nat" where
  "slot_weight W n i (Val items) = items_weight W n i items"
| "slot_weight W n i v = 0"

definition inputs_weight :: "(string \<Rightarrow> nat) \<Rightarrow> string \<Rightarrow> node_items slot list \<Rightarrow> nat" where
  "inputs_weight W n xs = slot_sum (slot_weight W n) xs"

lemma slot_weight_falsy: "falsy v \<Longrightarrow> slot_weight W n i v = 0"
  by (cases v) auto

interpretation weighted: slot_measure "inputs_weight W" "items_weight W" for W
proof
  show "inputs_weight W n (replicate k Null) = 0" for n k
    by (simp add: inputs_weight_def slot_sum_nulls)
  show "inputs_weight W n (slot_set i (Val items) xs) = inputs_weight W n xs + items_weight W n i items"
    if "falsy (slot_get xs i)" for xs i n items
    using slot_sum_set [of "slot_weight W n", OF slot_weight_falsy that] by (simp add: inputs_weight_def)
qed

section \<open>What the operation keeps\<close>

definition has_main :: "queued \<Rightarrow> bool" where
  "has_main q \<longleftrightarrow> map_has (queued_data q) Main_type"

text \<open>Everything but the stack and the waiting executions.\<close>

definition same_run :: "exec_state \<Rightarrow> exec_state \<Rightarrow> bool" where
  "same_run s s' \<longleftrightarrow> s' = s\<lparr>node_stack := node_stack s', waiting_items := waiting_items s',
     waiting_sources := waiting_sources s'\<rparr>"

lemma same_run_refl: "same_run s s"
  by (simp add: same_run_def)

lemma same_runI: "same_run s (s\<lparr>node_stack := st, waiting_items := wi, waiting_sources := ws\<rparr>)"
  by (simp add: same_run_def)

lemma same_run_trans:
  assumes "same_run s t" and "same_run t u" shows "same_run s u"
proof -
  from assms(2) have "u = t\<lparr>node_stack := node_stack u, waiting_items := waiting_items u,
     waiting_sources := waiting_sources u\<rparr>" by (simp add: same_run_def)
  also have "\<dots> = s\<lparr>node_stack := node_stack u, waiting_items := waiting_items u,
     waiting_sources := waiting_sources u\<rparr>"
    by (subst assms(1) [unfolded same_run_def]) simp
  finally show ?thesis by (simp add: same_run_def)
qed

lemma same_runD:
  assumes "same_run s s'"
  shows "exec_run_data s' = exec_run_data s" and "wait_till s' = wait_till s"
    and "next_index s' = next_index s" and "last_try s' = last_try s" and "exec_error s' = exec_error s"
  by (subst assms [unfolded same_run_def], simp)+

lemma same_but_waiting_same_run:
  assumes "same_but_waiting s s'" shows "same_run s s'"
  by (subst assms [unfolded same_but_waiting_def]) (simp add: same_run_def)

lemma same_run_remove: "same_run s (remove_waiting n i s)"
  by (simp add: same_run_def remove_waiting_def Let_def)

lemma same_run_pushEntry: "same_run s (pushEntry eng q s)"
  by (simp add: same_run_def pushEntry_def)

definition new_entry :: "packet \<Rightarrow> queued \<Rightarrow> bool" where
  "new_entry p q \<longleftrightarrow> queued_name q = packet_node p \<and> has_main q \<and> delivered p \<in> set (queued_main q)"

lemma delivered_filled: "delivered p \<in> set (filled_slots p xs)"
proof -
  have "slot_get (filled_slots p xs) (packet_input p) = delivered p"
    by (simp add: filled_slots_def slot_get_set)
  moreover have "packet_input p < length (filled_slots p xs)"
    by (simp add: filled_slots_def length_slot_set)
  ultimately show ?thesis by (metis nth_mem slot_get_def)
qed

lemma enqueueWaiting_frame:
  assumes "enqueueWaiting eng p i s = Inr s'" and "names_ok eng" and "order_v1 eng"
    and "waiting_main (waiting_items s) (packet_node p) i = Some (filled_slots p xs)"
    and "keys_ok (waiting_items s)"
  shows "same_run s s'" and "keys_ok (waiting_items s')"
    and "\<exists>q. node_stack s' = q # node_stack s \<and> new_entry p q"
proof -
  from assms(1,4) obtain node sources where n: "getNode (flow eng) (packet_node p) = Some node"
    and s': "s' = remove_waiting (packet_node p) i (pushEntry eng
      \<lparr>queued_node = node, queued_data = [(Main_type, filled_slots p xs)],
       queued_source = Some [(Main_type, sources)], queued_run = None, queued_metadata = None\<rparr> s)"
    by (auto simp: enqueueWaiting_def split: option.splits)
  show "same_run s s'" unfolding s' using same_run_pushEntry same_run_remove same_run_trans by blast
  show "keys_ok (waiting_items s')"
    using assms(5) by (simp add: s' remove_waiting_def Let_def pushEntry_def keys_ok_delete_main)
  show "\<exists>q. node_stack s' = q # node_stack s \<and> new_entry p q"
    using assms(3) names_okD [OF assms(2) n] delivered_filled [of p xs]
    by (simp add: s' remove_waiting_def Let_def pushEntry_def new_entry_def queued_name_def has_main_def
        map_has_def queued_main_def)
qed

lemma add_frame:
  assumes "order_v1 eng" and "names_ok eng" and "keys_ok (waiting_items s)"
    and "addNodeToBeExecuted eng p s = Inr s'"
  shows "same_run s s'" and "keys_ok (waiting_items s')"
    and "node_stack s' = node_stack s \<or> (\<exists>q. node_stack s' = q # node_stack s \<and> new_entry p q)"
proof -
  have "same_run s s' \<and> keys_ok (waiting_items s')
    \<and> (node_stack s' = node_stack s \<or> (\<exists>q. node_stack s' = q # node_stack s \<and> new_entry p q))"
  proof (cases "length (dest_inputs eng (packet_node p)) > 1")
    case True
    from addNode_v1 [OF assms(1,4) True] obtain i xs s1 where
      sb: "same_but_waiting s s1"
      and w: "waiting_items s1 = store_main (packet_node p) i (filled_slots p xs) (waiting_items s)"
      and s': "if Null \<in> set (filled_slots p xs) then s' = s1 else enqueueWaiting eng p i s1 = Inr s'"
      by blast
    have k: "keys_ok (waiting_items s1)" unfolding w by (rule keys_ok_store [OF assms(3)])
    have m: "waiting_main (waiting_items s1) (packet_node p) i = Some (filled_slots p xs)"
      by (simp add: w waiting_main_store)
    show ?thesis
    proof (cases "Null \<in> set (filled_slots p xs)")
      case True
      with s' k same_but_waiting_same_run [OF sb] same_but_waitingD(1) [OF sb] show ?thesis by auto
    next
      case False
      with s' have "enqueueWaiting eng p i s1 = Inr s'" by simp
      from enqueueWaiting_frame [OF this assms(2,1) m k] same_but_waitingD(1) [OF sb]
        same_run_trans [OF same_but_waiting_same_run [OF sb]]
      show ?thesis by auto
    qed
  next
    case False
    with assms(4) have s': "s' = enqueueSingle eng p s" by (simp add: addNodeToBeExecuted_def)
    show ?thesis
    proof (cases "getNode (flow eng) (packet_node p)")
      case None
      with s' assms(3) show ?thesis by (simp add: enqueueSingle_def same_run_refl)
    next
      case (Some node)
      have "delivered p \<in> set (slot_set (packet_input p) (delivered p) (replicate (Suc (packet_input p)) Null))"
        using delivered_filled [of p] by (simp only: filled_slots_def)
      with Some assms(1,3) names_okD [OF assms(2) Some] show ?thesis
        by (simp add: s' enqueueSingle_def pushEntry_def same_run_def new_entry_def queued_name_def
            has_main_def map_has_def queued_main_def)
    qed
  qed
  then show "same_run s s'" and "keys_ok (waiting_items s')"
    and "node_stack s' = node_stack s \<or> (\<exists>q. node_stack s' = q # node_stack s \<and> new_entry p q)"
    by blast+
qed

end
