(* ===== verification/Execution_Termination.thy ===== *)
theory Execution_Termination
  imports Node_Frames Packet_Delivery
begin

text \<open>
  The loop of the execution order \<open>v1\<close> ends on a workflow without cycles whose nodes make no
  requests. A node's weight is one more than the weights of the nodes behind its connections; what
  is on the stack and what waits is weighed by its nodes and their inputs with items, and every
  iteration makes this potential smaller.
\<close>

section \<open>Weights of nodes\<close>

definition flow_rel :: "engine \<Rightarrow> string rel" where
  "flow_rel eng = {(n, m). \<exists>(i, c) \<in> set (output_connections eng n). m = conn_node c}"

fun weight_upto :: "engine \<Rightarrow> nat \<Rightarrow> string \<Rightarrow> nat" where
  "weight_upto eng 0 n = 1"
| "weight_upto eng (Suc k) n =
     1 + sum_list (map (\<lambda>(i, c). weight_upto eng k (conn_node c)) (output_connections eng n))"

definition node_weight :: "engine \<Rightarrow> string \<Rightarrow> nat" where
  "node_weight eng n = weight_upto eng (length (connectionsBySourceNode (flow eng))) n"

definition sources_after :: "engine \<Rightarrow> string \<Rightarrow> string set" where
  "sources_after eng n = Domain (flow_rel eng) \<inter> (flow_rel eng)\<^sup>* `` {n}"

lemma output_connections_key:
  "output_connections eng n \<noteq> [] \<Longrightarrow> n \<in> set (map_keys (connectionsBySourceNode (flow eng)))"
  using map_of_eq_None_notin [of "connectionsBySourceNode (flow eng)" n]
  by (auto simp: output_connections_def inputs_at_def split: option.splits)

lemma Domain_flow_rel: "Domain (flow_rel eng) \<subseteq> set (map_keys (connectionsBySourceNode (flow eng)))"
proof
  fix n assume "n \<in> Domain (flow_rel eng)"
  then have "output_connections eng n \<noteq> []" by (auto simp: flow_rel_def)
  then show "n \<in> set (map_keys (connectionsBySourceNode (flow eng)))" by (rule output_connections_key)
qed

lemma finite_sources_after: "finite (sources_after eng n)"
  using Domain_flow_rel [of eng] finite_subset unfolding sources_after_def by blast

lemma card_sources_after: "card (sources_after eng n) \<le> length (connectionsBySourceNode (flow eng))"
proof -
  have "card (sources_after eng n) \<le> card (set (map_keys (connectionsBySourceNode (flow eng))))"
    using Domain_flow_rel [of eng] by (intro card_mono) (auto simp: sources_after_def)
  also have "\<dots> \<le> length (map_keys (connectionsBySourceNode (flow eng)))" by (rule card_length)
  finally show ?thesis by simp
qed

lemma card_sources_child:
  assumes "acyclic (flow_rel eng)" and "(n, m) \<in> flow_rel eng"
  shows "card (sources_after eng m) < card (sources_after eng n)"
proof (rule psubset_card_mono [OF finite_sources_after])
  have "n \<in> sources_after eng n" using assms(2) by (auto simp: sources_after_def)
  moreover have "n \<notin> sources_after eng m"
    using assms unfolding sources_after_def acyclic_def by (blast intro: rtrancl_into_trancl2)
  moreover have "sources_after eng m \<subseteq> sources_after eng n"
    using assms(2) unfolding sources_after_def by (blast intro: converse_rtrancl_into_rtrancl)
  ultimately show "sources_after eng m \<subset> sources_after eng n" by blast
qed

lemma weight_stable:
  assumes "acyclic (flow_rel eng)" and "card (sources_after eng n) \<le> k"
  shows "weight_upto eng (Suc k) n = weight_upto eng k n"
  using assms(2)
proof (induction k arbitrary: n)
  case 0
  then have "n \<notin> Domain (flow_rel eng)"
    using finite_sources_after [of eng n] by (auto simp: sources_after_def)
  then have "output_connections eng n = []"
    by (cases "output_connections eng n") (force simp: flow_rel_def)+
  then show ?case by simp
next
  case (Suc k)
  have "weight_upto eng (Suc k) (conn_node c) = weight_upto eng k (conn_node c)"
    if "(i, c) \<in> set (output_connections eng n)" for i c
  proof -
    from that have "(n, conn_node c) \<in> flow_rel eng" by (force simp: flow_rel_def)
    from card_sources_child [OF assms(1) this] Suc.prems show ?thesis by (intro Suc.IH) simp
  qed
  then have "map (\<lambda>(i, c). weight_upto eng (Suc k) (conn_node c)) (output_connections eng n)
      = map (\<lambda>(i, c). weight_upto eng k (conn_node c)) (output_connections eng n)"
    by (intro map_cong) auto
  then show ?case by (subst weight_upto.simps) (simp only: weight_upto.simps(2) [of eng k n])
qed

lemma node_weight_eq:
  assumes "acyclic (flow_rel eng)"
  shows "node_weight eng n
    = 1 + sum_list (map (\<lambda>(i, c). node_weight eng (conn_node c)) (output_connections eng n))"
  using weight_stable [OF assms card_sources_after, of n] by (simp add: node_weight_def)

lemma node_weight_pos: "0 < node_weight eng n"
  by (cases "length (connectionsBySourceNode (flow eng))") (auto simp: node_weight_def)

section \<open>The potential\<close>

definition entry_weight :: "engine \<Rightarrow> queued \<Rightarrow> nat" where
  "entry_weight eng q =
     (let w = inputs_weight (node_weight eng) (queued_name q) (queued_main q)
      in if w = 0 then node_weight eng (queued_name q) else w)"

definition potential :: "engine \<Rightarrow> exec_state \<Rightarrow> nat" where
  "potential eng s = sum_list (map (entry_weight eng) (node_stack s))
     + waiting_total (inputs_weight (node_weight eng)) (waiting_items s)"

definition state_ok :: "exec_state \<Rightarrow> bool" where
  "state_ok s \<longleftrightarrow> keys_ok (waiting_items s) \<and> list_all has_main (node_stack s)"

lemma slot_weight_has_items: "slot_weight W n i v = (if has_items v then W n else 0)"
  by (cases v) (auto simp: items_weight_def)

lemma inputs_weight_eq:
  "inputs_weight W n xs = W n * length (filter (\<lambda>i. has_items (slot_get xs i)) [0..<length xs])"
proof -
  have "inputs_weight W n xs
      = sum_list (map (\<lambda>i. if has_items (slot_get xs i) then W n else 0) [0..<length xs])"
    by (simp add: inputs_weight_def slot_sum_def slot_weight_has_items)
  also have "\<dots> = W n * length (filter (\<lambda>i. has_items (slot_get xs i)) js)" if "js = [0..<length xs]" for js
    unfolding that [symmetric] by (induction js) auto
  finally show ?thesis by blast
qed

lemma inputs_weight_items:
  assumes "v \<in> set xs" and "has_items v"
  shows "W n \<le> inputs_weight W n xs"
proof -
  from assms obtain i where "i < length xs" "xs ! i = v" by (auto simp: in_set_conv_nth)
  with assms(2) have "i \<in> set (filter (\<lambda>i. has_items (slot_get xs i)) [0..<length xs])"
    by (simp add: slot_get_def)
  then have "0 < length (filter (\<lambda>i. has_items (slot_get xs i)) [0..<length xs])"
    by (metis length_pos_if_in_set)
  then show ?thesis unfolding inputs_weight_eq by (cases "length (filter (\<lambda>i. has_items (slot_get xs i)) [0..<length xs])") (simp_all only: mult_Suc_right le_add1 less_irrefl)
qed

lemma entry_weight_ge: "node_weight eng (queued_name q) \<le> entry_weight eng q"
proof -
  have "inputs_weight W n xs = 0 \<or> W n \<le> inputs_weight W n xs" for W n xs
  proof (cases "\<exists>v \<in> set xs. has_items v")
    case True
    then show ?thesis using inputs_weight_items by blast
  next
    case False
    then have "filter (\<lambda>i. has_items (slot_get xs i)) [0..<length xs] = []"
      by (auto simp: filter_empty_conv slot_get_def)
    then show ?thesis by (simp add: inputs_weight_eq)
  qed
  from this [of "node_weight eng" "queued_name q" "queued_main q"] show ?thesis
    by (auto simp: entry_weight_def Let_def)
qed

lemma entry_weight_items:
  assumes "v \<in> set (queued_main q)" and "has_items v"
  shows "entry_weight eng q = inputs_weight (node_weight eng) (queued_name q) (queued_main q)"
  using inputs_weight_items [OF assms, of "node_weight eng" "queued_name q"] node_weight_pos [of eng "queued_name q"]
  by (simp add: entry_weight_def Let_def)

lemma add_potential:
  assumes v1: "order_v1 eng" and names: "names_ok eng" and ok: "state_ok s"
    and node: "getNode (flow eng) (packet_node p) = Some node"
    and items: "delivered p = Val items" "items \<noteq> []"
    and add: "addNodeToBeExecuted eng p s = Inr s'"
  shows "potential eng s' \<le> potential eng s + node_weight eng (packet_node p)" and "state_ok s'"
proof -
  let ?W = "node_weight eng" and ?f = "inputs_weight (node_weight eng)"
  from ok have keys: "keys_ok (waiting_items s)" by (simp add: state_ok_def)
  note frame = add_frame [OF v1 names keys add]
  from frame(2,3) ok show "state_ok s'"
    by (auto simp: state_ok_def new_entry_def)
  have "held_total ?f s' + overwritten ?f eng p s = held_total ?f s + ?W (packet_node p)"
    using weighted.add_total [OF v1 names keys node items(1) add, of ?W] items(2)
    by (simp add: items_weight_def)
  moreover have "sum_list (map (entry_weight eng) (node_stack s')) + stack_total ?f (node_stack s)
      = sum_list (map (entry_weight eng) (node_stack s)) + stack_total ?f (node_stack s')"
    using frame(3)
  proof
    assume "\<exists>q. node_stack s' = q # node_stack s \<and> new_entry p q"
    then obtain q where "node_stack s' = q # node_stack s" and new: "new_entry p q" by blast
    moreover have "entry_weight eng q = ?f (queued_name q) (queued_main q)"
      using new items by (intro entry_weight_items) (auto simp: new_entry_def)
    ultimately show ?thesis by (simp add: stack_total_def)
  qed simp
  ultimately show "potential eng s' \<le> potential eng s + ?W (packet_node p)"
    by (simp add: potential_def held_total_def)
qed

section \<open>Queueing the nodes behind a node\<close>

definition children_weight :: "engine \<Rightarrow> (nat \<times> iconnection) list \<Rightarrow> nat" where
  "children_weight eng cs = sum_list (map (\<lambda>(i, c). node_weight eng (conn_node c)) cs)"

lemma children_weight_sum:
  "children_weight eng cs = sum_mset (image_mset (\<lambda>(i, c). node_weight eng (conn_node c)) (mset cs))"
  by (simp add: children_weight_def flip: sum_mset_sum_list)

lemma children_weight_mset: "mset cs = mset ds \<Longrightarrow> children_weight eng cs = children_weight eng ds"
  using children_weight_sum [of eng] by simp

lemma children_weight_filter: "children_weight eng (filter P cs) \<le> children_weight eng cs"
  by (induction cs) (auto simp: children_weight_def)

lemma delivered_followed:
  assumes "order_v1 eng" and "output_followed eng outs c"
  shows "\<exists>items. slot_get (map Val outs) (fst c) = Val items \<and> items \<noteq> []"
  using assms
  by (auto simp: output_followed_def slot_get_def isLegacyExecutionOrder_def split: prod.splits)

lemma add_children_potential:
  assumes v1: "order_v1 eng" and names: "names_ok eng"
    and "\<And>c. c \<in> set cs \<Longrightarrow> output_followed eng outs c"
    and "\<And>c. c \<in> set cs \<Longrightarrow> getNode (flow eng) (conn_node (snd c)) \<noteq> None"
    and "state_ok s" and "fold_result (\<lambda>c. addNodeToBeExecuted eng (packet_of n outs r c)) cs s = Inr s'"
  shows "potential eng s' \<le> potential eng s + children_weight eng cs \<and> state_ok s' \<and> same_run s s'"
  using assms(3-)
proof (induction cs arbitrary: s)
  case Nil
  then show ?case by (simp add: children_weight_def same_run_refl)
next
  case (Cons c cs)
  from Cons.prems(4) obtain s1 where add: "addNodeToBeExecuted eng (packet_of n outs r c) s = Inr s1"
    and rest: "fold_result (\<lambda>c. addNodeToBeExecuted eng (packet_of n outs r c)) cs s1 = Inr s'"
    by (auto simp: js_simps)
  obtain items where it: "delivered (packet_of n outs r c) = Val items" "items \<noteq> []"
    using delivered_followed [OF v1 Cons.prems(1) [of c]] by auto
  obtain node where nd: "getNode (flow eng) (packet_node (packet_of n outs r c)) = Some node"
    using Cons.prems(2) [of c] by auto
  note step = add_potential [OF v1 names Cons.prems(3) nd it add]
  from Cons.prems(3) have "keys_ok (waiting_items s)" by (simp add: state_ok_def)
  from add_frame(1) [OF v1 names this add] have "same_run s s1" .
  with Cons.IH [OF _ _ step(2) rest] Cons.prems(1,2) step(1) show ?case
    by (cases c) (auto simp: children_weight_def intro: same_run_trans)
qed

lemma queueChildren_potential:
  assumes "order_v1 eng" and "names_ok eng" and "state_ok s"
    and "queueChildren eng n outs r s = Inr s'"
  shows "potential eng s' \<le> potential eng s + children_weight eng (output_connections eng n)"
    and "state_ok s'" and "same_run s s'"
proof -
  let ?cs = "output_connections eng n" and ?cmp = "\<lambda>a b. compare_positions (node_position eng (snd a)) (node_position eng (snd b))"
  let ?ds = "sort_by ?cmp (filter (output_followed eng outs) ?cs)"
  from assms(1,4) obtain u where check: "fold_result (\<lambda>c u. check_destination eng n c) ?cs () = Inr u"
    and add: "fold_result (\<lambda>c. addNodeToBeExecuted eng (packet_of n outs r c)) ?ds s = Inr s'"
    by (auto simp: queueChildren_def Let_def js_simps)
  note dest = destinations_checked [OF check]
  have "potential eng s' \<le> potential eng s + children_weight eng ?ds \<and> state_ok s' \<and> same_run s s'"
    by (rule add_children_potential [OF assms(1,2) _ _ assms(3) add]) (use dest in auto)
  moreover have "children_weight eng ?ds \<le> children_weight eng ?cs"
    using children_weight_mset [of ?ds "filter (output_followed eng outs) ?cs" eng]
      children_weight_filter [of eng "output_followed eng outs" ?cs] by simp
  ultimately show "potential eng s' \<le> potential eng s + children_weight eng ?cs"
    and "state_ok s'" and "same_run s s'" by auto
qed

section \<open>Releasing a node that waits\<close>

lemma remove_waiting_keys: "keys_ok (waiting_items s) \<Longrightarrow> keys_ok (waiting_items (remove_waiting n i s))"
  by (simp add: remove_waiting_def Let_def keys_ok_delete_main)

lemma remove_waiting_total:
  fixes f :: "string \<Rightarrow> node_items slot list \<Rightarrow> 'a::cancel_comm_monoid_add"
  assumes "keys_ok (waiting_items s)" and "waiting_main (waiting_items s) n i = Some main"
  shows "waiting_total f (waiting_items (remove_waiting n i s)) + f n main = waiting_total f (waiting_items s)"
  using waiting_total_delete_main [OF assms(1) refl, of f n i] assms(2)
  by (simp add: remove_waiting_def Let_def entry_total_def)

lemma inputs_weight_padded:
  "inputs_weight W n (map null_to_empty main @ replicate k (Val [])) = inputs_weight W n main"
proof -
  let ?xs = "map null_to_empty main @ replicate k (Val [])"
  have "has_items (slot_get ?xs i) = has_items (slot_get main i)" for i
  proof (cases "i < length main")
    case True
    then show ?thesis by (cases "main ! i") (auto simp: slot_get_def nth_append)
  qed (simp add: slot_get_def nth_append)
  then have "slot_weight W n i (slot_get ?xs i) = slot_weight W n i (slot_get main i)" for i
    by (simp only: slot_weight_has_items)
  moreover have "inputs_weight W n ?xs = (\<Sum>i<length ?xs. slot_weight W n i (slot_get ?xs i))"
    "inputs_weight W n main = (\<Sum>i<length ?xs. slot_weight W n i (slot_get main i))"
    unfolding inputs_weight_def by (intro slot_sum_upto; simp)+
  ultimately show ?thesis by simp
qed

lemma releaseNode_potential:
  assumes "names_ok eng" and "state_ok s"
  shows "releaseNode eng ws n s = Inr (DropEntry s') \<Longrightarrow> state_ok s' \<and> potential eng s' \<le> potential eng s \<and> same_run s s'"
    and "releaseNode eng ws n s = Inr (ReleaseNode s') \<Longrightarrow> state_ok s' \<and> potential eng s' \<le> potential eng s \<and> same_run s s'"
proof -
  let ?f = "inputs_weight (node_weight eng)"
  from assms(2) have keys: "keys_ok (waiting_items s)" and st: "list_all has_main (node_stack s)"
    by (auto simp: state_ok_def)
  {
    assume "releaseNode eng ws n s = Inr (DropEntry s')"
    then obtain i main where m: "waiting_main (waiting_items s) n i = Some main" and s': "s' = remove_waiting n i s"
      by (auto simp: releaseNode_def releaseEntry_def Let_def split: option.splits if_splits)
    have "node_stack s' = node_stack s" by (simp add: s' remove_waiting_def Let_def)
    with remove_waiting_total [OF keys m, of ?f] remove_waiting_keys [OF keys] st
    show "state_ok s' \<and> potential eng s' \<le> potential eng s \<and> same_run s s'"
      by (simp add: s' state_ok_def potential_def same_run_remove)
  }
  {
    assume "releaseNode eng ws n s = Inr (ReleaseNode s')"
    then obtain node i main q k where m: "waiting_main (waiting_items s) n i = Some main"
      and nd: "getNode (flow eng) n = Some node" and it: "list_ex has_items (map null_to_empty main)"
      and s': "s' = remove_waiting n i (s\<lparr>node_stack := node_stack s @ [q]\<rparr>)"
      and q: "queued_node q = node" "queued_data q = [(Main_type, map null_to_empty main @ replicate k (Val []))]"
      by (auto simp: releaseNode_def releaseEntry_def Let_def split: option.splits if_splits)
    have main: "queued_main q = map null_to_empty main @ replicate k (Val [])" "queued_name q = n" "has_main q"
      using q names_okD [OF assms(1) nd] by (simp_all add: queued_main_def queued_name_def has_main_def map_has_def)
    from it obtain v where "v \<in> set (queued_main q)" "has_items v"
      by (auto simp: list_ex_iff main)
    from entry_weight_items [OF this] have "entry_weight eng q = ?f n main"
      by (simp add: main inputs_weight_padded)
    moreover have "node_stack s' = node_stack s @ [q]" by (simp add: s' remove_waiting_def Let_def)
    moreover let ?t = "s\<lparr>node_stack := node_stack s @ [q]\<rparr>"
    have "waiting_total ?f (waiting_items s') + ?f n main = waiting_total ?f (waiting_items s)"
      and "keys_ok (waiting_items s')"
      using remove_waiting_total [of ?t n i main ?f] remove_waiting_keys [of ?t n i] keys m by (simp_all add: s')
    moreover have "same_run s s'" unfolding s'
      using same_run_remove [of ?t n i] same_run_trans [of s ?t] by (simp add: same_run_def)
    ultimately show "state_ok s' \<and> potential eng s' \<le> potential eng s \<and> same_run s s'"
      using st main by (simp add: state_ok_def potential_def)
  }
qed

lemma releaseWaiting_potential:
  "names_ok eng \<Longrightarrow> state_ok s \<Longrightarrow> releaseWaiting eng ws rest s = Inr s' \<Longrightarrow>
    state_ok s' \<and> potential eng s' \<le> potential eng s \<and> same_run s s'"
proof (induction eng ws rest s rule: releaseWaiting.induct)
  case (1 eng ws s)
  then show ?case by (simp add: releaseWaiting.simps same_run_refl)
next
  case (2 eng ws n rest s)
  from 2(5) obtain out where out: "releaseNode eng ws n s = Inr out"
    and rest: "(case out of SkipNode \<Rightarrow> releaseWaiting eng ws rest s | ReleaseNode s1 \<Rightarrow> Inr s1
       | DropEntry s1 \<Rightarrow> releaseWaiting eng (own_keys (waiting_items s1)) (own_keys (waiting_items s1)) s1) = Inr s'"
    by (auto simp: releaseWaiting.simps js_simps)
  show ?case
  proof (cases out)
    case SkipNode
    with 2(1) [OF out] 2(3,4) rest show ?thesis by simp
  next
    case (DropEntry s1)
    with out have d: "releaseNode eng ws n s = Inr (DropEntry s1)" by simp
    note step = releaseNode_potential(1) [OF 2(3,4) d]
    from DropEntry rest have "releaseWaiting eng (own_keys (waiting_items s1)) (own_keys (waiting_items s1)) s1 = Inr s'"
      by simp
    with 2(2) [OF out DropEntry] 2(3) step have "state_ok s' \<and> potential eng s' \<le> potential eng s1 \<and> same_run s1 s'"
      by blast
    with step show ?thesis using same_run_trans order_trans by blast
  next
    case (ReleaseNode s1)
    with out rest releaseNode_potential(2) [OF 2(3,4), of ws n s1] show ?thesis by simp
  qed
qed

section \<open>Running a node leaves the stack alone\<close>

text \<open>What the potential depends on.\<close>

definition same_flow :: "exec_state \<Rightarrow> exec_state \<Rightarrow> bool" where
  "same_flow s s' \<longleftrightarrow> node_stack s' = node_stack s \<and> waiting_items s' = waiting_items s"

lemma same_flow_trans: "same_flow s t \<Longrightarrow> same_flow t u \<Longrightarrow> same_flow s u"
  by (simp add: same_flow_def)

lemma same_rest_flow: "same_rest s s' \<Longrightarrow> same_flow s s'"
  by (simp add: same_flow_def same_rest_def)

lemmas produce_flow = produce_rest [THEN same_rest_flow] produce_response
lemmas finish_attempt_flow = finish_attempt_rest [THEN same_rest_flow] finish_attempt_response

lemma attempts_flow:
  "no_requests eng \<Longrightarrow> attempts eng q r left stale s = (x, s') \<Longrightarrow> same_flow s s' \<and> x \<noteq> TriedRequest"
proof (induction eng q r left stale s rule: attempts.induct)
  case (1 eng q r left stale s)
  obtain d left1 s1 where p: "produce eng q r left s = (d, left1, s1)" by (metis prod_cases3)
  note f1 = produce_flow(1) [OF p] and noreq = produce_flow(2) [OF p 1(4)]
  let ?fail = "\<lambda>t :: exec_state. t\<lparr>last_executed := Some (node_name (queued_node q))\<rparr>"
  have fail: "same_flow t (?fail t)" for t by (simp add: same_flow_def)
  show ?case
  proof (cases d)
    case (ProducedRequest actions)
    with noreq show ?thesis by blast
  next
    case (ProducedError err)
    show ?thesis
    proof (cases "left1 = 0")
      case True
      with 1(5) p ProducedError f1 show ?thesis
        by (auto simp: attempts.simps [of eng q r left] same_flow_def)
    next
      case False
      with 1(5) p ProducedError have rec: "attempts eng q r (left1 - 1) stale (?fail s1) = (x, s')"
        by (simp add: attempts.simps [of eng q r left])
      from 1(3) [OF p [symmetric] ProducedError refl refl False 1(4) rec] f1 fail [of s1] same_flow_trans
      show ?thesis by blast
    qed
  next
    case (ProducedData outputs)
    obtain res s2 where f: "finish_attempt eng q outputs s1 = (res, s2)" by force
    note f2 = finish_attempt_flow [OF f]
    show ?thesis
    proof (cases res)
      case (Inr result)
      with 1(5) p ProducedData f f1 f2 same_flow_trans show ?thesis
        by (auto simp: attempts.simps [of eng q r left])
    next
      case (Inl e)
      show ?thesis
      proof (cases "left1 = 0")
        case True
        with 1(5) p ProducedData f Inl f1 f2(1) show ?thesis
          by (auto simp: attempts.simps [of eng q r left] same_flow_def)
      next
        case False
        with 1(5) p ProducedData f Inl have rec: "attempts eng q r (left1 - 1) outputs (?fail s2) = (x, s')"
          by (simp add: attempts.simps [of eng q r left])
        from 1(2) [OF p [symmetric] ProducedData refl f [symmetric] Inl refl False 1(4) rec] f1 f2(1) fail [of s2] same_flow_trans
        show ?thesis by blast
      qed
    qed
  qed
qed

section \<open>An iteration makes the potential smaller\<close>

lemma potential_cong: "same_flow s s' \<Longrightarrow> potential eng s' = potential eng s"
  by (simp add: potential_def same_flow_def)

lemma state_ok_cong: "same_flow s s' \<Longrightarrow> state_ok s' = state_ok s"
  by (simp add: state_ok_def same_flow_def)

lemma inputsPresent_v1:
  "order_v1 eng \<Longrightarrow> map_has d Main_type \<Longrightarrow> inputsPresent eng n d ks"
  by (induction ks) (auto simp: isLegacyExecutionOrder_def map_has_def)

lemma completeNode_potential:
  assumes "order_v1 eng" and "names_ok eng" and "state_ok s"
    and "completeNode eng q task r d s = Proceed s'"
  shows "potential eng s' \<le> potential eng s + children_weight eng (output_connections eng (queued_name q))"
    and "state_ok s'"
proof -
  from assms(4) obtain outputs s1 where s1: "same_flow s s1"
    and "s' = s1 \<or> (\<exists>s2. queueChildren eng (queued_name q) outputs r s1 = Inr s2
      \<and> (s' = s2 \<or> releaseWaiting eng (own_keys (waiting_items s2)) (own_keys (waiting_items s2)) s2 = Inr s'))"
  proof (cases "mergeErrors d")
    case (Inr outputs)
    let ?n = "queued_node q"
    let ?s0 = "keep_pins ?n outputs s"
    let ?s1 = "?s0\<lparr>exec_run_data := record_task (node_name ?n) r
      (logged_output ?n outputs (exec_run_data s) r task) (exec_run_data ?s0)\<rparr>"
    have "same_flow s ?s1" by (simp add: same_flow_def keep_pins_def)
    with Inr assms(4) show ?thesis
      by (intro that [of ?s1 outputs])
        (auto simp: completeNode_def Let_def queued_name_def split: if_splits sum.splits)
  qed (simp add: completeNode_def Let_def)
  then show "potential eng s' \<le> potential eng s + children_weight eng (output_connections eng (queued_name q))"
    and "state_ok s'"
  proof (atomize(full), elim disjE exE conjE)
    have ok1: "state_ok s1" using state_ok_cong [OF s1] assms(3) by simp
    {
      assume "s' = s1"
      with ok1 potential_cong [OF s1] show "potential eng s' \<le> potential eng s
          + children_weight eng (output_connections eng (queued_name q)) \<and> state_ok s'" by simp
    }
    fix s2 assume q: "queueChildren eng (queued_name q) outputs r s1 = Inr s2"
    note step = queueChildren_potential [OF assms(1,2) ok1 q]
    {
      assume "s' = s2"
      with step potential_cong [OF s1] show "potential eng s' \<le> potential eng s
          + children_weight eng (output_connections eng (queued_name q)) \<and> state_ok s'" by simp
    }
    assume "releaseWaiting eng (own_keys (waiting_items s2)) (own_keys (waiting_items s2)) s2 = Inr s'"
    from releaseWaiting_potential [OF assms(2) step(2) this] step(1) potential_cong [OF s1]
    show "potential eng s' \<le> potential eng s
        + children_weight eng (output_connections eng (queued_name q)) \<and> state_ok s'" by simp
  qed
qed

lemma finishNode_potential:
  assumes "order_v1 eng" and "names_ok eng" and "state_ok s"
    and "finishNode eng q k r err d s = Proceed s'"
  shows "potential eng s' \<le> potential eng s + children_weight eng (output_connections eng (queued_name q))"
    and "state_ok s'"
proof -
  let ?s1 = "ensure_runs (node_name (queued_node q)) (s\<lparr>exec_error := err\<rparr>)"
  have f: "same_flow s ?s1" by (simp add: same_flow_def ensure_runs_def)
  from assms(4) obtain task d' where "completeNode eng q task r d' ?s1 = Proceed s'"
    by (auto simp: finishNode_def Let_def split: option.splits if_splits)
  from completeNode_potential [OF assms(1,2) _ this] state_ok_cong [OF f] potential_cong [OF f] assms(3)
  show "potential eng s' \<le> potential eng s + children_weight eng (output_connections eng (queued_name q))"
    and "state_ok s'" by simp_all
qed

lemma runEntry_potential:
  assumes "order_v1 eng" and "names_ok eng" and "no_requests eng" and "state_ok s" and "has_main q"
    and "runEntry eng q k s = Proceed s'"
  shows "potential eng s' \<le> potential eng s + children_weight eng (output_connections eng (queued_name q))"
    and "state_ok s'"
proof -
  have e: "ensureInputData eng q s = (True, s)"
    using inputsPresent_v1 [OF assms(1), of "queued_data q"] assms(5)
    by (simp add: ensureInputData_def Let_def has_main_def)
  obtain x s2 where t: "tryNode eng q (run_index_of q s) s = (x, s2)" by force
  from attempts_flow [OF assms(3) t [unfolded tryNode_def]] have f: "same_flow s s2" "x \<noteq> TriedRequest" by auto
  from assms(6) e t f(2) have "s' = s \<or> s' = s2
      \<or> (\<exists>err d. finishNode eng q k (run_index_of q s) err d s2 = Proceed s')"
    by (auto simp: runEntry_def Let_def split: if_splits tried.splits)
  then have "potential eng s' \<le> potential eng s + children_weight eng (output_connections eng (queued_name q)) \<and> state_ok s'"
  proof (elim disjE exE)
    fix err d assume "finishNode eng q k (run_index_of q s) err d s2 = Proceed s'"
    from finishNode_potential [OF assms(1,2) _ this] state_ok_cong [OF f(1)] potential_cong [OF f(1)] assms(4)
    show ?thesis by simp
  qed (use assms(4) state_ok_cong [OF f(1)] potential_cong [OF f(1)] in auto)
  then show "potential eng s' \<le> potential eng s + children_weight eng (output_connections eng (queued_name q))"
    and "state_ok s'" by auto
qed

lemma paired_entry:
  "queued_name (pair_inputs (q\<lparr>queued_node := rewire_node s (queued_node q)\<rparr>)) = queued_name q"
  "has_main (pair_inputs (q\<lparr>queued_node := rewire_node s (queued_node q)\<rparr>)) = has_main q"
proof -
  show "queued_name (pair_inputs (q\<lparr>queued_node := rewire_node s (queued_node q)\<rparr>)) = queued_name q"
    by (simp add: queued_name_def pair_inputs_def rewire_node_def split: option.splits)
  have "map_has (map (\<lambda>(t, xs). (t, f xs)) m) k = map_has m k" for f and m :: task_inputs and k
    by (induction m) (auto simp: map_has_def)
  then show "has_main (pair_inputs (q\<lparr>queued_node := rewire_node s (queued_node q)\<rparr>)) = has_main q"
    by (simp add: has_main_def pair_inputs_def)
qed

lemma iteration_potential:
  assumes "order_v1 eng" and "names_ok eng" and "no_requests eng" and "acyclic (flow_rel eng)"
    and "state_ok s" and "iteration eng s = Proceed s'"
  shows "potential eng s' < potential eng s" and "state_ok s'"
proof -
  from assms(6) obtain q rest where st: "node_stack s = q # rest"
    by (auto simp: iteration_def split: list.splits)
  let ?q = "pair_inputs (q\<lparr>queued_node := rewire_node s (queued_node q)\<rparr>)"
  let ?s1 = "s\<lparr>node_stack := rest, next_index := Suc (next_index s), exec_error := None, sub_responses := []\<rparr>"
  from assms(6) st have run: "runEntry eng ?q (next_index s) ?s1 = Proceed s'"
    by (auto simp: iteration_def split: if_splits)
  have ok: "state_ok ?s1" and hm: "has_main ?q" using assms(5) st by (simp_all add: state_ok_def paired_entry)
  note step = runEntry_potential [OF assms(1-3) ok hm run, unfolded paired_entry]
  have "children_weight eng (output_connections eng (queued_name q)) < node_weight eng (queued_name q)"
    using node_weight_eq [OF assms(4), of "queued_name q"] by (simp add: children_weight_def)
  also have "\<dots> \<le> entry_weight eng q" by (rule entry_weight_ge)
  also have "entry_weight eng q + potential eng ?s1 = potential eng s" by (simp add: potential_def st)
  finally show "potential eng s' < potential eng s" using step(1) by linarith
  show "state_ok s'" by (rule step(2))
qed

lemma executionLoop_ends:
  assumes "order_v1 eng" and "names_ok eng" and "no_requests eng" and "acyclic (flow_rel eng)"
  shows "state_ok s \<Longrightarrow> potential eng s \<le> fuel \<Longrightarrow> executionLoop eng fuel s \<noteq> None"
proof (induction fuel arbitrary: s)
  case 0
  have "node_stack s = []"
  proof (cases "node_stack s")
    case (Cons q qs)
    with 0(2) entry_weight_ge [of eng q] node_weight_pos [of eng "queued_name q"] show ?thesis
      by (simp add: potential_def)
  qed
  then show ?case by simp
next
  case (Suc fuel)
  show ?case
  proof (cases "iteration eng s")
    case (Proceed s1)
    from iteration_potential [OF assms Suc.prems(1) this] Suc.prems(2) Suc.IH [of s1] Proceed show ?thesis by simp
  qed auto
qed

end
