(* ===== verification/Execution_Invariants.thy ===== *)
theory Execution_Invariants
  imports Node_Frames Packet_Delivery
begin

text \<open>
  What every iteration keeps, in both execution orders and with requests: an execution that waits
  misses an input, its sources are filed where its items are, and the execution indices in the run
  data are below the next one.
\<close>

section \<open>The invariant\<close>

definition aligned :: "exec_state \<Rightarrow> bool" where
  "aligned s \<longleftrightarrow> (\<forall>n i. waiting_main (waiting_items s) n i = None
     \<longleftrightarrow> waiting_main (waiting_sources s) n i = None)"

definition all_incomplete :: "exec_state \<Rightarrow> bool" where
  "all_incomplete s \<longleftrightarrow> (\<forall>n i xs. waiting_main (waiting_items s) n i = Some xs \<longrightarrow> Null \<in> set xs)"

definition waiting_ok :: "exec_state \<Rightarrow> bool" where
  "waiting_ok s \<longleftrightarrow> aligned s \<and> all_incomplete s"

definition task_below :: "nat \<Rightarrow> task_data \<Rightarrow> bool" where
  "task_below k t \<longleftrightarrow> (case execution_index t of None \<Rightarrow> True | Some i \<Rightarrow> i < k)"

definition indices_below :: "nat \<Rightarrow> run_data \<Rightarrow> bool" where
  "indices_below k rd \<longleftrightarrow> list_all (\<lambda>(n, runs). list_all (task_below k) runs) rd"

definition loop_ok :: "exec_state \<Rightarrow> bool" where
  "loop_ok s \<longleftrightarrow> waiting_ok s \<and> indices_below (next_index s) (exec_run_data s)"

fun result_state :: "step_result \<Rightarrow> exec_state" where
  "result_state (Proceed s) = s"
| "result_state (Finished s) = s"
| "result_state (CanceledRun s) = s"
| "result_state (Rejected e s) = s"

lemma waiting_ok_cong:
  assumes "waiting_items s' = waiting_items s" and "waiting_sources s' = waiting_sources s"
  shows "waiting_ok s' = waiting_ok s"
  by (simp add: waiting_ok_def aligned_def all_incomplete_def assms)

section \<open>Removing an entry\<close>

lemma map_of_all_None:
  assumes "\<And>k. map_of m k = None" shows "m = []"
proof (cases m)
  case (Cons p m')
  then have "map_of m (fst p) = Some (snd p)" by (cases p) simp
  with assms [of "fst p"] show ?thesis by simp
qed

lemma aligned_sources_gone:
  assumes "aligned s" and "map_delete i (entry_or (waiting_items s) n []) = []"
  shows "map_delete i (entry_or (waiting_sources s) n []) = []"
proof (rule map_of_all_None)
  fix k
  show "map_of (map_delete i (entry_or (waiting_sources s) n [])) k = None"
  proof (cases "k = i")
    case False
    have "map_of (map_delete i (entry_or (waiting_items s) n [])) k = None" by (simp only: assms(2) map_of.simps)
    with False have "waiting_main (waiting_items s) n k = None" by (simp add: waiting_main_entries)
    with assms(1) have "waiting_main (waiting_sources s) n k = None" by (simp add: aligned_def)
    with False show ?thesis by (simp add: waiting_main_entries)
  qed simp
qed

lemma waiting_sources_remove:
  assumes "aligned s"
  shows "waiting_main (waiting_sources (remove_waiting n i s)) m j
    = (if m = n \<and> j = i then None else waiting_main (waiting_sources s) m j)"
  using aligned_sources_gone [OF assms, of i n]
  by (simp add: remove_waiting_def Let_def waiting_main_delete)

lemma waiting_ok_remove: "waiting_ok s \<Longrightarrow> waiting_ok (remove_waiting n i s)"
  by (auto simp: waiting_ok_def aligned_def [of "remove_waiting n i s"] all_incomplete_def
      waiting_items_remove waiting_sources_remove dest: aligned_def [THEN iffD1])

section \<open>Adding a packet\<close>

lemma aligned_ensure:
  assumes "aligned s"
  shows "waiting_main (waiting_items (ensureWaiting n s)) m j = waiting_main (waiting_items s) m j"
    and "waiting_main (waiting_sources (ensureWaiting n s)) m j = waiting_main (waiting_sources s) m j"
proof -
  show "waiting_main (waiting_items (ensureWaiting n s)) m j = waiting_main (waiting_items s) m j"
    by (auto simp: ensureWaiting_def waiting_main_def map_has_def split: option.splits)
  have "waiting_main (waiting_sources s) n j = None" if "map_of (waiting_items s) n = None"
  proof -
    from that have "waiting_main (waiting_items s) n j = None" by (simp add: waiting_main_def)
    with assms show ?thesis by (simp only: aligned_def)
  qed
  then show "waiting_main (waiting_sources (ensureWaiting n s)) m j = waiting_main (waiting_sources s) m j"
    by (auto simp: ensureWaiting_def map_has_def waiting_main_def split: option.splits)
qed

lemma placePacket_aligned:
  assumes "aligned s" and "placePacket eng p s = Inr (i, w, s1)"
  shows "aligned s1" and "m \<noteq> packet_node p \<or> j \<noteq> i \<Longrightarrow>
    waiting_main (waiting_items s1) m j = waiting_main (waiting_items s) m j"
proof -
  let ?n = "packet_node p" and ?t = "ensureWaiting (packet_node p) s"
  obtain k t1 where c: "chooseEntry eng p ?t = (k, t1)" by force
  from assms(2) c have st: "storePacket p k t1 = Inr s1" and k: "k = i"
    by (auto simp: placePacket_def js_simps)
  have t1: "waiting_main (waiting_sources t1) m j = waiting_main (waiting_sources s) m j"
    "waiting_main (waiting_items t1) m j = waiting_main (waiting_items s) m j" if "m \<noteq> ?n \<or> j \<noteq> i" for m j
    using c k that aligned_ensure [OF assms(1)]
    by (auto simp: chooseEntry_def Let_def prepareWaitingToExecution_def waiting_main_store split: option.splits)
  from st obtain xs ys where s1: "waiting_items s1 = store_main ?n i xs (waiting_items t1)"
    "waiting_sources s1 = store_main ?n i ys (waiting_sources t1)"
    by (auto simp: storePacket_def Let_def k split: option.splits)
  show "m \<noteq> ?n \<or> j \<noteq> i \<Longrightarrow> waiting_main (waiting_items s1) m j = waiting_main (waiting_items s) m j"
    using t1(2) by (auto simp: s1 waiting_main_store)
  show "aligned s1"
    using t1 assms(1) by (auto simp: aligned_def s1 waiting_main_store)
qed

lemma forceInput_waiting:
  assumes "forceInput eng p outs n s = Inr s'"
  shows "waiting_items s' = waiting_items s \<and> waiting_sources s' = waiting_sources s
    \<and> exec_run_data s' = exec_run_data s \<and> next_index s' = next_index s"
  using assms
  by (auto simp: forceInput_def forceNode_def pushEntry_def js_simps Let_def split: if_splits option.splits)

lemma forceInputs_waiting:
  assumes "forceInputs eng p s = Inr s'"
  shows "waiting_items s' = waiting_items s \<and> waiting_sources s' = waiting_sources s
    \<and> exec_run_data s' = exec_run_data s \<and> next_index s' = next_index s"
proof -
  from assms obtain outs where
    "fold_result (forceInput eng p outs) (map conn_node (connections_in (dest_inputs eng (packet_node p)))) s = Inr s'"
    by (auto simp: forceInputs_def js_simps)
  then show ?thesis
    by (rule fold_result_inv [where P = "\<lambda>t. waiting_items t = waiting_items s \<and> waiting_sources t = waiting_sources s
      \<and> exec_run_data t = exec_run_data s \<and> next_index t = next_index s"]) (auto dest: forceInput_waiting)
qed

lemma keepWaiting_waiting:
  assumes "keepWaiting eng p i s = Inr s'"
    and "waiting_main (waiting_items s) (packet_node p) i = Some (filled_slots p xs)"
  shows "s' = s"
  using keepWaiting_same [OF assms(1)] assms(2) by (simp add: filled_slots_def)

lemma addNode_ok:
  assumes "waiting_ok s" and "addNodeToBeExecuted eng p s = Inr s'"
  shows "waiting_ok s' \<and> exec_run_data s' = exec_run_data s \<and> next_index s' = next_index s"
proof (cases "length (dest_inputs eng (packet_node p)) > 1")
  case True
  let ?n = "packet_node p"
  from assms(2) True obtain i w s1 where place: "placePacket eng p s = Inr (i, w, s1)"
    and rest: "(if allDataFound s1 ?n i then enqueueWaiting eng p i s1
       else bind_result (if w then Inr s1 else forceInputs eng p s1) (keepWaiting eng p i)) = Inr s'"
    by (auto simp: addNodeToBeExecuted_def js_simps)
  from placePacket_effect [OF place] obtain xs where sb: "same_but_waiting s s1"
    and w1: "waiting_items s1 = store_main ?n i (filled_slots p xs) (waiting_items s)"
    unfolding filled_slots_def by blast
  have al: "aligned s1" and inc: "all_incomplete s"
    using placePacket_aligned(1) [OF _ place] assms(1) by (auto simp: waiting_ok_def)
  have main: "waiting_main (waiting_items s1) ?n i = Some (filled_slots p xs)"
    by (simp add: w1 waiting_main_store)
  have frame: "exec_run_data s1 = exec_run_data s" "next_index s1 = next_index s"
    using same_runD [OF same_but_waiting_same_run [OF sb]] by auto
  show ?thesis
  proof (cases "Null \<in> set (filled_slots p xs)")
    case True
    with main rest obtain s2 where two: "(if w then Inr s1 else forceInputs eng p s1) = Inr s2"
      and keep: "keepWaiting eng p i s2 = Inr s'"
      by (auto simp: allDataFound_def list_all_iff js_simps split: if_splits)
    have s2: "waiting_items s2 = waiting_items s1" "waiting_sources s2 = waiting_sources s1"
      "exec_run_data s2 = exec_run_data s1" "next_index s2 = next_index s1"
      using two forceInputs_waiting [of eng p s1 s2] by (auto split: if_splits)
    have "s' = s2" using keepWaiting_waiting [OF keep] main by (simp add: s2)
    moreover have "all_incomplete s1"
      using inc True by (auto simp: all_incomplete_def w1 waiting_main_store)
    ultimately show ?thesis using al s2 frame waiting_ok_cong [OF s2(1,2)] by (simp add: waiting_ok_def)
  next
    case False
    with main rest have "enqueueWaiting eng p i s1 = Inr s'"
      by (auto simp: allDataFound_def list_all_iff split: if_splits)
    then obtain q where s': "s' = remove_waiting ?n i (pushEntry eng q s1)"
      by (auto simp: enqueueWaiting_def split: option.splits)
    let ?t = "pushEntry eng q s1"
    have t: "waiting_items ?t = waiting_items s1" "waiting_sources ?t = waiting_sources s1" "aligned ?t"
      using al by (simp_all add: pushEntry_def aligned_def)
    have "aligned s'" using t(3) unfolding s'
      by (auto simp: aligned_def [of "remove_waiting ?n i ?t"] waiting_items_remove
          waiting_sources_remove [OF t(3)] aligned_def)
    moreover have "all_incomplete s'" unfolding s'
      using inc by (auto simp: all_incomplete_def waiting_items_remove t w1 waiting_main_store)
    ultimately show ?thesis using frame by (simp add: waiting_ok_def s' remove_waiting_def Let_def pushEntry_def)
  qed
next
  case False
  with assms show ?thesis
    by (auto simp: addNodeToBeExecuted_def enqueueSingle_def pushEntry_def waiting_ok_def aligned_def
        all_incomplete_def split: option.splits)
qed

section \<open>Requests\<close>

lemma task_below_mono: "task_below k t \<Longrightarrow> k \<le> l \<Longrightarrow> task_below l t"
  by (simp add: task_below_def split: option.splits)

lemma indices_below_mono: "indices_below k rd \<Longrightarrow> k \<le> l \<Longrightarrow> indices_below l rd"
  unfolding indices_below_def list_all_iff by (fastforce intro: task_below_mono)

lemma indices_below_set:
  assumes "indices_below k rd" and "list_all (task_below k) runs"
  shows "indices_below k (map_set n runs rd)"
  using assms by (induction rd) (auto simp: indices_below_def)

lemma indices_below_runs: "indices_below k rd \<Longrightarrow> list_all (task_below k) (entry_or rd n [])"
  by (cases "map_of rd n") (auto simp: indices_below_def list_all_iff dest!: map_of_SomeD)

lemma requestNode_ok:
  assumes "requestNode q n r action s = (p, sub, s')"
    and "indices_below (next_index s) (exec_run_data s)" and "0 < next_index s"
  shows "waiting_items s' = waiting_items s" and "waiting_sources s' = waiting_sources s"
    and "next_index s' = next_index s" and "indices_below (next_index s) (exec_run_data s')"
proof -
  from assms(1) obtain runs where s': "exec_run_data s' = map_set (action_node action) runs (exec_run_data s)"
    "waiting_items s' = waiting_items s" "waiting_sources s' = waiting_sources s" "next_index s' = next_index s"
    and runs: "\<exists>t. runs = entry_or (exec_run_data s) (action_node action) [] @ [t] \<and> execution_index t = Some 0"
    by (auto simp: requestNode_def initializeNodeRunData_def Let_def)
  show "waiting_items s' = waiting_items s" "waiting_sources s' = waiting_sources s" "next_index s' = next_index s"
    by (fact s')+
  have "list_all (task_below (next_index s)) runs"
    using runs indices_below_runs [OF assms(2)] assms(3) by (auto simp: task_below_def)
  then show "indices_below (next_index s) (exec_run_data s')"
    unfolding s'(1) by (rule indices_below_set [OF assms(2)])
qed

lemma prepareRequested_ok:
  assumes "indices_below (next_index s) (exec_run_data s)" and "0 < next_index s"
    and "prepareRequestedNodesForExecution eng q n r actions s = (err, ps, subs, s')"
  shows "waiting_items s' = waiting_items s \<and> waiting_sources s' = waiting_sources s
    \<and> next_index s' = next_index s \<and> indices_below (next_index s) (exec_run_data s')"
  using assms
proof (induction actions arbitrary: s err ps subs)
  case (Cons a actions)
  show ?case
  proof (cases "getNode (flow eng) (action_node a) = None")
    case True
    with Cons.prems show ?thesis by simp
  next
    case False
    obtain p sub s1 where req: "requestNode q n r a s = (p, sub, s1)" by (metis prod_cases3)
    obtain err2 ps2 subs2 s2 where rec: "prepareRequestedNodesForExecution eng q n r actions s1 = (err2, ps2, subs2, s2)"
      by (metis prod_cases4)
    note step = requestNode_ok [OF req Cons.prems(1,2)]
    from Cons.prems(3) False req rec have "s' = s2" by simp
    with rec have "prepareRequestedNodesForExecution eng q n r actions s1 = (err2, ps2, subs2, s')" by simp
    from Cons.IH [OF _ _ this] step Cons.prems(2) show ?thesis by simp
  qed
qed simp

lemma queue_all_ok:
  assumes "waiting_ok s" and "queue_all eng ps s = (err, s')"
  shows "waiting_ok s' \<and> exec_run_data s' = exec_run_data s \<and> next_index s' = next_index s"
  using assms
proof (induction ps arbitrary: s)
  case (Cons p ps)
  show ?case
  proof (cases "addNodeToBeExecuted eng p s")
    case (Inr s1)
    with addNode_ok [OF Cons.prems(1) Inr] Cons.IH [of s1] Cons.prems(2) show ?thesis by simp
  qed (use Cons.prems in simp)
qed simp

lemma handleEngineRequest_ok:
  assumes "loop_ok s" and "0 < next_index s" and "handleEngineRequest eng q r actions s = (err, s')"
  shows "loop_ok s' \<and> next_index s' = next_index s"
proof -
  let ?n = "node_name (queued_node q)"
  obtain err1 ps subs s1 where prep: "prepareRequestedNodesForExecution eng q ?n r actions s = (err1, ps, subs, s1)"
    by (metis prod_cases4)
  from assms(1) have ib: "indices_below (next_index s) (exec_run_data s)" and w: "waiting_ok s"
    by (simp_all add: loop_ok_def)
  note step = prepareRequested_ok [OF ib assms(2) prep]
  then have w1: "waiting_ok s1" using w waiting_ok_cong [of s1 s] by simp
  have "s' = s1 \<or> (\<exists>qs. queue_all eng qs s1 = (err, s'))"
    using assms(3) prep
    by (auto simp: handleEngineRequest_def handleRequest_def simp del: queue_all.simps split: option.splits)
  then show ?thesis using step w1 queue_all_ok [OF w1] by (auto simp: loop_ok_def)
qed

section \<open>Attempts\<close>

lemma loop_ok_cong:
  assumes "waiting_items s' = waiting_items s" and "waiting_sources s' = waiting_sources s"
    and "exec_run_data s' = exec_run_data s" and "next_index s' = next_index s"
  shows "loop_ok s' = loop_ok s"
  using waiting_ok_cong [OF assms(1,2)] by (simp add: loop_ok_def assms(3,4))

lemma same_rest_loop_ok:
  assumes "same_rest s s'" shows "loop_ok s' = loop_ok s"
  using assms unfolding same_rest_def by (intro loop_ok_cong) blast+

text \<open>The invariant, inside an iteration: its index is behind that of the run that is recorded.\<close>

definition in_loop :: "nat \<Rightarrow> exec_state \<Rightarrow> bool" where
  "in_loop k s \<longleftrightarrow> loop_ok s \<and> next_index s = Suc k"

lemma in_loop_iff:
  "in_loop k s \<longleftrightarrow> waiting_ok s \<and> indices_below (Suc k) (exec_run_data s) \<and> next_index s = Suc k"
  by (auto simp: in_loop_def loop_ok_def)

lemma same_rest_in_loop:
  assumes "same_rest s s'" shows "in_loop k s' = in_loop k s"
proof -
  from assms have "next_index s' = next_index s" by (simp add: same_rest_def)
  then show ?thesis by (simp add: in_loop_def same_rest_loop_ok [OF assms])
qed

lemma in_loop_executed: "in_loop k (s\<lparr>last_executed := x\<rparr>) = in_loop k s"
  by (rule same_rest_in_loop) (simp add: same_rest_def)

lemma attempts_in_loop: "in_loop k s \<Longrightarrow> attempts eng q r left stale s = (x, s') \<Longrightarrow> in_loop k s'"
proof (induction eng q r left stale s rule: attempts.induct)
  case (1 eng q r left stale s)
  obtain d left1 s1 where p: "produce eng q r left s = (d, left1, s1)" by (metis prod_cases3)
  from 1(4) same_rest_in_loop [OF produce_rest [OF p]] have ok1: "in_loop k s1" by simp
  let ?fail = "\<lambda>t :: exec_state. t\<lparr>last_executed := Some (node_name (queued_node q))\<rparr>"
  note step = 1(5) [unfolded attempts.simps [of eng q r left stale s] p]
  show ?case
  proof (cases d)
    case (ProducedRequest actions)
    obtain err s2 where h: "handleEngineRequest eng q r actions s1 = (err, s2)" by force
    have ok2: "in_loop k s2"
      using handleEngineRequest_ok [OF _ _ h] ok1 by (simp add: in_loop_def)
    show ?thesis
    proof (cases err)
      case None
      with step ProducedRequest h ok2 show ?thesis by simp
    next
      case (Some e)
      have "left1 \<noteq> 0 \<Longrightarrow> attempts eng q r (left1 - 1) stale (?fail s2) = (x, s')"
        using step ProducedRequest h Some by simp
      with 1(1) [OF p [symmetric] ProducedRequest refl h [symmetric] Some refl] ok2
        step ProducedRequest h Some show ?thesis
        by (cases "left1 = 0") (auto simp: in_loop_executed)
    qed
  next
    case (ProducedError err)
    have "left1 \<noteq> 0 \<Longrightarrow> attempts eng q r (left1 - 1) stale (?fail s1) = (x, s')"
      using step ProducedError by simp
    with 1(3) [OF p [symmetric] ProducedError refl refl] ok1 step ProducedError show ?thesis
      by (cases "left1 = 0") (auto simp: in_loop_executed)
  next
    case (ProducedData outputs)
    obtain res s2 where f: "finish_attempt eng q outputs s1 = (res, s2)" by force
    have ok2: "in_loop k s2" using ok1 same_rest_in_loop [OF finish_attempt_rest [OF f]] by simp
    show ?thesis
    proof (cases res)
      case (Inr result)
      with step ProducedData f ok2 show ?thesis by simp
    next
      case (Inl e)
      have "left1 \<noteq> 0 \<Longrightarrow> attempts eng q r (left1 - 1) outputs (?fail s2) = (x, s')"
        using step ProducedData f Inl by simp
      with 1(2) [OF p [symmetric] ProducedData refl f [symmetric] Inl refl] ok2 step ProducedData f Inl
      show ?thesis by (cases "left1 = 0") (auto simp: in_loop_executed)
    qed
  qed
qed

section \<open>The rest of an iteration\<close>

lemma indices_below_record:
  assumes "indices_below k rd" and "task_below k t"
  shows "indices_below k (record_task n r t rd)"
proof -
  let ?runs = "entry_or rd n []"
  have "task_below k (assign_task u t)" for u
    using assms(2) by (simp add: assign_task_def task_below_def)
  moreover have runs: "list_all (task_below k) ?runs" by (rule indices_below_runs [OF assms(1)])
  ultimately have "list_all (task_below k) (?runs[r := assign_task u t])" for u
    by (auto simp: list_all_iff dest!: set_update_subset_insert [THEN subsetD])
  then show ?thesis
    using runs assms(2) unfolding record_task_def Let_def
    by (auto intro!: indices_below_set [OF assms(1)] split: option.splits)
qed

lemma in_loop_record:
  assumes "in_loop k s" and "task_below (Suc k) t"
  shows "in_loop k (s\<lparr>exec_run_data := record_task n r t (exec_run_data s)\<rparr>)"
proof -
  let ?s = "s\<lparr>exec_run_data := record_task n r t (exec_run_data s)\<rparr>"
  have "waiting_ok ?s = waiting_ok s" by (rule waiting_ok_cong) simp_all
  with assms indices_below_record [of "Suc k" "exec_run_data s" t n r] show ?thesis
    by (simp add: in_loop_iff)
qed

lemma in_loop_stack: "in_loop k (s\<lparr>node_stack := st\<rparr>) = in_loop k s"
proof -
  have "loop_ok (s\<lparr>node_stack := st\<rparr>) = loop_ok s" by (rule loop_ok_cong) simp_all
  then show ?thesis by (simp add: in_loop_def)
qed

lemma in_loop_try: "in_loop k (s\<lparr>last_try := x\<rparr>) = in_loop k s"
proof -
  have "loop_ok (s\<lparr>last_try := x\<rparr>) = loop_ok s" by (rule loop_ok_cong) simp_all
  then show ?thesis by (simp add: in_loop_def)
qed

lemma in_loop_pins: "in_loop k (keep_pins n outs s) = in_loop k s"
proof -
  have "loop_ok (keep_pins n outs s) = loop_ok s" by (rule loop_ok_cong) (simp_all add: keep_pins_def)
  then show ?thesis by (simp add: in_loop_def keep_pins_def)
qed

lemma in_loop_runs: "in_loop k s \<Longrightarrow> in_loop k (ensure_runs n (s\<lparr>exec_error := e\<rparr>))"
proof -
  assume s: "in_loop k s"
  let ?s = "ensure_runs n (s\<lparr>exec_error := e\<rparr>)"
  have "waiting_ok ?s = waiting_ok s" by (rule waiting_ok_cong) (simp_all add: ensure_runs_def)
  moreover have "next_index ?s = next_index s" by (simp add: ensure_runs_def)
  moreover have "indices_below (Suc k) (exec_run_data ?s)"
    using s indices_below_set [of "Suc k" "exec_run_data s" "[]" n]
    by (simp add: ensure_runs_def in_loop_iff)
  ultimately show ?thesis using s by (simp add: in_loop_iff)
qed

lemma in_loop_kept:
  assumes "in_loop k s" and "waiting_ok s'" and "exec_run_data s' = exec_run_data s"
    and "next_index s' = next_index s"
  shows "in_loop k s'"
  using assms by (simp add: in_loop_iff)

lemma in_loop_waiting: "in_loop k s \<Longrightarrow> waiting_ok s"
  by (simp add: in_loop_iff)

lemma queueChildren_in_loop:
  assumes "in_loop k s" and "queueChildren eng n outs r s = Inr s'"
  shows "in_loop k s'"
proof -
  let ?add = "\<lambda>c. addNodeToBeExecuted eng (packet_of n outs r c)"
  have step: "in_loop k t'" if "in_loop k t" "?add c t = Inr t'" for c t t'
    using addNode_ok [OF in_loop_waiting [OF that(1)] that(2)] by (blast intro: in_loop_kept [OF that(1)])
  show ?thesis
  proof (cases "order_v1 eng")
    case True
    with assms(2) obtain cs where "fold_result ?add cs s = Inr s'"
      by (auto simp: queueChildren_def Let_def js_simps)
    then show ?thesis by (rule fold_result_inv [where P = "in_loop k"]) (auto intro: assms(1) step)
  next
    case False
    with assms(2) have "fold_result (\<lambda>c s. bind_result (check_destination eng n c) (\<lambda>_.
        if output_followed eng outs c then ?add c s else Inr s)) (output_connections eng n) s = Inr s'"
      by (simp add: queueChildren_def Let_def)
    then show ?thesis
      by (rule fold_result_inv [where P = "in_loop k"])
        (auto simp: js_simps intro: assms(1) step split: if_splits)
  qed
qed

lemma in_loop_remove: "in_loop k s \<Longrightarrow> in_loop k (remove_waiting n i s)"
  by (rule in_loop_kept [OF _ waiting_ok_remove [OF in_loop_waiting]])
    (auto simp: remove_waiting_def Let_def)

lemma releaseNode_in_loop:
  assumes "in_loop k s" and "releaseNode eng ws n s = Inr out" and "out = DropEntry s' \<or> out = ReleaseNode s'"
  shows "in_loop k s'"
proof -
  from assms(2,3) obtain i st where "s' = remove_waiting n i (s\<lparr>node_stack := st\<rparr>) \<or> s' = remove_waiting n i s"
    by (auto simp: releaseNode_def releaseEntry_def Let_def split: option.splits if_splits)
  with assms(1) in_loop_remove [of k] in_loop_stack [of k _ s] show ?thesis by auto
qed

lemma releaseWaiting_in_loop:
  "in_loop k s \<Longrightarrow> releaseWaiting eng ws rest s = Inr s' \<Longrightarrow> in_loop k s'"
proof (induction eng ws rest s rule: releaseWaiting.induct)
  case (1 eng ws s)
  then show ?case by (simp add: releaseWaiting.simps)
next
  case (2 eng ws n rest s)
  from 2(4) obtain out where out: "releaseNode eng ws n s = Inr out"
    and rest: "(case out of SkipNode \<Rightarrow> releaseWaiting eng ws rest s | ReleaseNode s1 \<Rightarrow> Inr s1
       | DropEntry s1 \<Rightarrow> releaseWaiting eng (own_keys (waiting_items s1)) (own_keys (waiting_items s1)) s1) = Inr s'"
    by (auto simp: releaseWaiting.simps js_simps)
  note step = releaseNode_in_loop [OF 2(3) out]
  show ?case
    using 2(1) [OF out _ 2(3)] 2(2) [OF out] rest step by (cases out) auto
qed

section \<open>An iteration\<close>

lemma completeNode_in_loop:
  assumes "in_loop k s" and "task_below (Suc k) t"
  shows "in_loop k (result_state (completeNode eng q t r d s))"
proof (cases "mergeErrors d")
  case (Inl e)
  with assms show ?thesis by (simp add: completeNode_def Let_def)
next
  case (Inr outputs)
  let ?n = "queued_node q" and ?name = "node_name (queued_node q)"
  let ?t = "logged_output ?n outputs (exec_run_data s) r t"
  let ?s0 = "keep_pins ?n outputs s"
  let ?s1 = "?s0\<lparr>exec_run_data := record_task ?name r ?t (exec_run_data ?s0)\<rparr>"
  have "execution_index ?t = execution_index t" by (simp add: logged_output_def split: option.splits)
  with assms(2) have "task_below (Suc k) ?t" by (simp add: task_below_def)
  moreover have "in_loop k ?s0" using assms(1) by (simp add: in_loop_pins)
  ultimately have s1: "in_loop k ?s1" by (intro in_loop_record)
  then have st: "in_loop k (?s1\<lparr>node_stack := x\<rparr>)" for x by (simp only: in_loop_stack)
  show ?thesis
  proof (cases "queueChildren eng ?name outputs r ?s1")
    case (Inl e)
    with Inr s1 st show ?thesis by (simp add: completeNode_def Let_def)
  next
    case (Inr s2)
    from queueChildren_in_loop [OF s1 this] have s2: "in_loop k s2" .
    from \<open>mergeErrors d = Inr outputs\<close> Inr s1 s2 st releaseWaiting_in_loop [OF s2] show ?thesis
      by (simp add: completeNode_def Let_def split: sum.splits)
  qed
qed

lemma finishNode_in_loop:
  assumes "in_loop k s"
  shows "in_loop k (result_state (finishNode eng q k r err d s))"
proof -
  let ?s1 = "ensure_runs (node_name (queued_node q)) (s\<lparr>exec_error := err\<rparr>)"
  note s1 = in_loop_runs [OF assms, of "node_name (queued_node q)" err]
  have below: "task_below (Suc k) ((started_task q k)\<lparr>task_status := x\<rparr>)"
    "task_below (Suc k) ((started_task q k)\<lparr>task_error := e, task_status := x\<rparr>)" for x e
    by (simp_all add: started_task_def task_below_def)
  show ?thesis
  proof (cases err)
    case None
    with completeNode_in_loop [OF s1 below(1)] show ?thesis by (simp add: finishNode_def Let_def)
  next
    case (Some msg)
    let ?t = "(started_task q k)\<lparr>task_status := Some (if wait_till ?s1 then StatusWaiting else StatusSuccess)\<rparr>"
    have "in_loop k (stopOnError q ?t r msg ?s1)"
      unfolding stopOnError_def Let_def
      using in_loop_record [OF s1] below
      by (auto simp: in_loop_stack task_below_def started_task_def split: option.splits)
    with Some completeNode_in_loop [OF s1] below(2) show ?thesis
      by (auto simp: finishNode_def Let_def task_below_def started_task_def)
  qed
qed

lemma runEntry_in_loop:
  assumes "in_loop k s" shows "in_loop k (result_state (runEntry eng q k s))"
proof -
  obtain b s1 where e: "ensureInputData eng q s = (b, s1)" by force
  then have s1: "in_loop k s1" using assms in_loop_stack [of k _ s]
    by (auto simp: ensureInputData_def Let_def split: if_splits)
  obtain x s2 where t: "tryNode eng q (run_index_of q s) s1 = (x, s2)" by force
  from attempts_in_loop [OF s1 t [unfolded tryNode_def]] have s2: "in_loop k s2" .
  show ?thesis
    using assms e s1 t s2 finishNode_in_loop [OF s2]
    by (auto simp: runEntry_def Let_def in_loop_try split: tried.splits bool.splits)
qed

lemma iteration_ok:
  assumes "loop_ok s" shows "loop_ok (result_state (iteration eng s))"
    and "iteration eng s = Proceed s' \<Longrightarrow> next_index s' = Suc (next_index s)"
proof -
  have "loop_ok (result_state (iteration eng s))
    \<and> (\<forall>s'. iteration eng s = Proceed s' \<longrightarrow> next_index s' = Suc (next_index s))"
  proof (cases "node_stack s = [] \<or> halted_at eng (next_index s)")
    case True
    with assms show ?thesis by (cases "node_stack s") (auto simp: iteration_def)
  next
    case False
    then obtain q rest where st: "node_stack s = q # rest" and h: "\<not> halted_at eng (next_index s)"
      by (cases "node_stack s") auto
    let ?q = "pair_inputs (q\<lparr>queued_node := rewire_node s (queued_node q)\<rparr>)"
    let ?s1 = "s\<lparr>node_stack := rest, next_index := Suc (next_index s), exec_error := None, sub_responses := []\<rparr>"
    have "waiting_ok ?s1 = waiting_ok s" by (rule waiting_ok_cong) simp_all
    then have "in_loop (next_index s) ?s1"
      using assms indices_below_mono [of "next_index s" "exec_run_data s" "Suc (next_index s)"]
      by (simp add: in_loop_def loop_ok_def)
    from runEntry_in_loop [OF this, of eng ?q] st h show ?thesis
      by (auto simp: iteration_def in_loop_def)
  qed
  then show "loop_ok (result_state (iteration eng s))"
    and "iteration eng s = Proceed s' \<Longrightarrow> next_index s' = Suc (next_index s)" by auto
qed

lemma executionLoop_ok:
  "loop_ok s \<Longrightarrow> executionLoop eng fuel s = Some result \<Longrightarrow> loop_ok (result_state result)"
proof (induction fuel arbitrary: s)
  case (Suc fuel)
  note ok = iteration_ok(1) [OF Suc.prems(1), of eng]
  show ?case
  proof (cases "node_stack s = []")
    case True
    with Suc.prems show ?thesis by auto
  next
    case False
    with Suc.prems(2) Suc.IH ok show ?thesis by (cases "iteration eng s") auto
  qed
qed (auto split: if_splits)

end
