(* ===== verification/Execution_Order.thy ===== *)
theory Execution_Order
  imports Node_Frames Packet_Delivery
begin

text \<open>
  The order in which \<open>v1\<close> queues the nodes behind a node, the number of calls that the attempts make,
  and what a failure leaves behind.
\<close>

section \<open>Top-left first\<close>

definition above_or_left :: "rat \<times> rat \<Rightarrow> rat \<times> rat \<Rightarrow> bool" where
  "above_or_left a b \<longleftrightarrow> snd a < snd b \<or> (snd a = snd b \<and> fst a \<le> fst b)"

text \<open>The comparator answers \<open>0\<close> where it should answer \<open>1\<close>, for a node that is more to the left;
  the sorting only asks whether it is negative, so it sorts as this one does.\<close>

definition compare_signed :: "rat \<times> rat \<Rightarrow> rat \<times> rat \<Rightarrow> int" where
  "compare_signed a b = (if \<not> above_or_left a b then -1 else if \<not> above_or_left b a then 1 else 0)"

lemma compare_positions_negative: "compare_positions a b < 0 \<longleftrightarrow> \<not> above_or_left a b"
  by (auto simp: compare_positions_def above_or_left_def)

lemma compare_signed_negative: "compare_signed a b < 0 \<longleftrightarrow> \<not> above_or_left a b"
  by (auto simp: compare_signed_def)

lemma above_total: "above_or_left a b \<or> above_or_left b a"
  unfolding above_or_left_def by linarith

lemma above_trans:
  assumes "above_or_left a b" and "above_or_left b c" shows "above_or_left a c"
  using assms unfolding above_or_left_def by (elim disjE conjE) linarith+

lemma compare_signed_le: "compare_signed a b \<le> 0 \<longleftrightarrow> above_or_left b a"
  using above_total [of a b] by (auto simp: compare_signed_def)

interpretation positions: comparison compare_signed
proof
  show "compare_signed x y < 0 \<longleftrightarrow> 0 < compare_signed y x" for x y
    using above_total [of x y] by (auto simp: compare_signed_def)
  show "compare_signed x y \<le> 0 \<Longrightarrow> compare_signed y z \<le> 0 \<Longrightarrow> compare_signed x z \<le> 0" for x y z
    unfolding compare_signed_le by (rule above_trans)
qed

lemma insert_by_cong:
  "(\<And>y. cmp x y < 0 \<longleftrightarrow> cmp' x y < 0) \<Longrightarrow> insert_by cmp x ys = insert_by cmp' x ys"
  by (induction ys) auto

lemma sort_by_cong:
  assumes "\<And>x y. cmp x y < 0 \<longleftrightarrow> cmp' x y < 0" shows "sort_by cmp xs = sort_by cmp' xs"
proof -
  have "insert_by cmp = insert_by cmp'" using insert_by_cong [of cmp _ cmp'] assms by blast
  then show ?thesis by (simp add: sort_by_def)
qed

lemma map_insert_by: "map f (insert_by (\<lambda>a b. cmp (f a) (f b)) x ys) = insert_by cmp (f x) (map f ys)"
  by (induction ys) auto

lemma map_sort_by: "map f (sort_by (\<lambda>a b. cmp (f a) (f b)) xs) = sort_by cmp (map f xs)"
proof -
  have "map f (fold (insert_by (\<lambda>a b. cmp (f a) (f b))) xs acc) = fold (insert_by cmp) (map f xs) (map f acc)" for acc
    by (induction xs arbitrary: acc) (auto simp: map_insert_by)
  then show ?thesis by (simp add: sort_by_def)
qed

lemma sort_positions:
  "sorted_wrt (\<lambda>a b. above_or_left (f b) (f a)) (sort_by (\<lambda>a b. compare_positions (f a) (f b)) xs)"
proof -
  let ?ys = "sort_by (\<lambda>a b. compare_positions (f a) (f b)) xs"
  have "map f ?ys = sort_by compare_signed (map f xs)"
    using sort_by_cong [of "\<lambda>a b. compare_positions (f a) (f b)" "\<lambda>a b. compare_signed (f a) (f b)" xs]
    by (simp add: compare_positions_negative compare_signed_negative map_sort_by)
  then have "sorted_wrt (\<lambda>a b. compare_signed a b \<le> 0) (map f ?ys)"
    by (simp only: positions.sorted_sort_by)
  then have "sorted_wrt (\<lambda>a b. compare_signed (f a) (f b) \<le> 0) ?ys" by (simp only: sorted_wrt_map)
  then show ?thesis by (simp only: compare_signed_le)
qed

section \<open>The entries for nodes with one input\<close>

lemma slot_set_nulls: "slot_set i v (replicate (Suc i) Null) = replicate i Null @ [v]"
proof -
  have "replicate (Suc i) Null = replicate i Null @ [Null]" by (rule replicate_append_same [symmetric, simplified replicate_Suc [symmetric]])
  then have "(replicate (Suc i) Null)[i := v] = (replicate i Null @ [Null])[i := v]" by (rule arg_cong)
  also have "\<dots> = replicate i Null @ [v]" by (simp add: list_update_append)
  finally show ?thesis by (simp add: slot_set_def del: replicate_Suc)
qed

lemma add_single:
  assumes "order_v1 eng" and "length (dest_inputs eng (packet_node p)) \<le> 1"
    and "getNode (flow eng) (packet_node p) = Some node" and "names_ok eng"
    and "addNodeToBeExecuted eng p s = Inr s'"
  shows "\<exists>q. node_stack s' = q # node_stack s \<and> queued_name q = packet_node p
    \<and> queued_main q = replicate (packet_input p) Null @ [delivered p]"
proof -
  from assms(2,5) have s': "s' = enqueueSingle eng p s" by (simp add: addNodeToBeExecuted_def)
  show ?thesis
    using names_okD [OF assms(4,3)]
    by (simp add: s' enqueueSingle_def assms(1,3) pushEntry_def queued_name_def queued_main_def slot_set_nulls
        del: replicate_Suc)
qed

lemma add_singles:
  assumes "order_v1 eng" and "names_ok eng"
    and "\<And>c. c \<in> set cs \<Longrightarrow> length (dest_inputs eng (conn_node (snd c))) \<le> 1"
    and "\<And>c. c \<in> set cs \<Longrightarrow> getNode (flow eng) (conn_node (snd c)) \<noteq> None"
    and "fold_result (\<lambda>c. addNodeToBeExecuted eng (packet_of n outs r c)) cs s = Inr s'"
  shows "\<exists>qs. node_stack s' = qs @ node_stack s
    \<and> map queued_name qs = map (conn_node \<circ> snd) (rev cs)
    \<and> map queued_main qs = map (\<lambda>c. replicate (conn_index (snd c)) Null @ [slot_get (map Val outs) (fst c)]) (rev cs)"
  using assms(3-)
proof (induction cs arbitrary: s)
  case (Cons c cs)
  from Cons.prems(3) obtain s1 where add: "addNodeToBeExecuted eng (packet_of n outs r c) s = Inr s1"
    and rest: "fold_result (\<lambda>c. addNodeToBeExecuted eng (packet_of n outs r c)) cs s1 = Inr s'"
    by (auto simp: js_simps)
  obtain node where nd: "getNode (flow eng) (packet_node (packet_of n outs r c)) = Some node"
    using Cons.prems(2) [of c] by auto
  from add_single [OF assms(1) _ nd assms(2) add] Cons.prems(1) [of c] obtain q where
    "node_stack s1 = q # node_stack s" "queued_name q = conn_node (snd c)"
    "queued_main q = replicate (conn_index (snd c)) Null @ [slot_get (map Val outs) (fst c)]" by auto
  moreover obtain qs where "node_stack s' = qs @ node_stack s1"
    "map queued_name qs = map (conn_node \<circ> snd) (rev cs)"
    "map queued_main qs = map (\<lambda>c. replicate (conn_index (snd c)) Null @ [slot_get (map Val outs) (fst c)]) (rev cs)"
    using Cons.IH [OF _ _ rest] Cons.prems(1,2) by auto
  ultimately show ?case by (intro exI [of _ "qs @ [q]"]) simp
qed simp

section \<open>Calls\<close>

text \<open>Whether call \<open>i\<close> may report a failure, and how many of the calls from \<open>a\<close> up to \<open>b\<close> do.\<close>

definition reports_failure :: "engine \<Rightarrow> nat \<Rightarrow> bool" where
  "reports_failure eng i \<longleftrightarrow> (\<exists>args. checkFailure (fst (node_call eng args i)))"

definition reported_failures :: "engine \<Rightarrow> nat \<Rightarrow> nat \<Rightarrow> nat" where
  "reported_failures eng a b = card {i \<in> {a..<b}. reports_failure eng i}"

lemma reported_same [simp]: "reported_failures eng a a = 0"
  by (simp add: reported_failures_def)

lemma reported_one: "reported_failures eng a (Suc a) = (if reports_failure eng a then 1 else 0)"
proof -
  have "{i \<in> {a..<Suc a}. reports_failure eng i} = (if reports_failure eng a then {a} else {})" by auto
  then show ?thesis by (simp add: reported_failures_def)
qed

lemma reported_add:
  assumes "a \<le> b" and "b \<le> c"
  shows "reported_failures eng a c = reported_failures eng a b + reported_failures eng b c"
proof -
  have "{i \<in> {a..<c}. reports_failure eng i}
      = {i \<in> {a..<b}. reports_failure eng i} \<union> {i \<in> {b..<c}. reports_failure eng i}"
    using assms by auto
  moreover have "{i \<in> {a..<b}. reports_failure eng i} \<inter> {i \<in> {b..<c}. reports_failure eng i} = {}"
    by auto
  ultimately show ?thesis by (simp add: reported_failures_def card_Un_disjoint)
qed

lemma reported_none: "(\<And>i. \<not> reports_failure eng i) \<Longrightarrow> reported_failures eng a b = 0"
  by (simp add: reported_failures_def)

text \<open>A run of a node calls its implementation once, or not at all.\<close>

definition called_once :: "engine \<Rightarrow> exec_state \<Rightarrow> node_response \<Rightarrow> exec_state \<Rightarrow> bool" where
  "called_once eng s response s' \<longleftrightarrow> node_calls s' = node_calls s
     \<or> (node_calls s' = Suc (node_calls s) \<and> (checkFailure response \<longrightarrow> reports_failure eng (node_calls s)))"

lemma call_node_impl_calls: "call_node_impl eng args s = (resp, s') \<Longrightarrow> called_once eng s resp s'"
  by (auto simp: call_node_impl_def called_once_def reports_failure_def split: prod.splits) (metis fst_conv)

lemma run_enabled_calls: "run_enabled eng q t r sub s = (resp, s') \<Longrightarrow> called_once eng s resp s'"
proof -
  have "called_once eng s (Returned None) s'"
    if "call_node_impl eng args s = (Returned (Some []), s')" for args
    using call_node_impl_calls [OF that] by (simp add: called_once_def)
  moreover have same: "called_once eng s resp s" by (simp add: called_once_def)
  ultimately show "run_enabled eng q t r sub s = (resp, s') \<Longrightarrow> called_once eng s resp s'"
    by (auto simp: run_enabled_def Let_def
        split: option.splits if_splits prod.splits node_response.splits list.splits
        dest: call_node_impl_calls)
qed

lemma runNode_calls: "runNode eng q r sub s = (resp, s') \<Longrightarrow> called_once eng s resp s'"
  by (auto simp: runNode_def Let_def called_once_def split: option.splits if_splits
      dest!: run_enabled_calls [unfolded called_once_def])

lemma called_once_bound:
  "called_once eng s resp s' \<Longrightarrow> node_calls s \<le> node_calls s'
     \<and> node_calls s' + (if checkFailure resp then 1 else 0)
         \<le> Suc (node_calls s) + reported_failures eng (node_calls s) (node_calls s')"
  by (auto simp: called_once_def reported_one)

text \<open>Calls and attempts left together: only a reported failure pays for one call more.\<close>

lemma retryFailed_calls:
  "retryFailed eng q r left resp s = (resp', left', s') \<Longrightarrow> node_calls s \<le> node_calls s'
     \<and> node_calls s' + left' \<le> node_calls s + left + (if checkFailure resp then 1 else 0)
         + reported_failures eng (node_calls s) (node_calls s')"
proof (induction left arbitrary: resp s)
  case (Suc left)
  show ?case
  proof (cases "checkFailure resp")
    case True
    obtain resp1 s1 where run: "runNode eng q r [] s = (resp1, s1)" by force
    note c = called_once_bound [OF runNode_calls [OF run]]
    show ?thesis
    proof (cases "\<exists>e. resp1 = Threw e")
      case True
      with Suc.prems \<open>checkFailure resp\<close> run c show ?thesis by auto
    next
      case False
      with Suc.prems \<open>checkFailure resp\<close> run have "retryFailed eng q r left resp1 s1 = (resp', left', s')"
        by (auto split: node_response.splits)
      note rec = Suc.IH [OF this]
      from rec c have "node_calls s \<le> node_calls s1" "node_calls s1 \<le> node_calls s'" by auto
      from reported_add [OF this, of eng] rec c True show ?thesis by (auto split: if_splits)
    qed
  qed (use Suc.prems in auto)
qed auto

lemma produce_calls:
  assumes "produce eng q r left s = (x, left', s')"
  shows "node_calls s \<le> node_calls s'
    \<and> node_calls s' + left' \<le> Suc (node_calls s + left) + reported_failures eng (node_calls s) (node_calls s')"
  using assms
proof (cases rule: produce_cases)
  case (Pinned items)
  with produce_left [OF assms] show ?thesis by auto
next
  case (Ran resp s1 resp2)
  note c = called_once_bound [OF runNode_calls [OF Ran(1)], unfolded gather_calls]
    and r = retryFailed_calls [OF Ran(2)]
  then have "node_calls s \<le> node_calls s1" "node_calls s1 \<le> node_calls s'" by auto
  from reported_add [OF this, of eng] c r show ?thesis by (auto split: if_splits)
qed

text \<open>Two calls per attempt at most.\<close>

lemma runNode_once: "runNode eng q r sub s = (resp, s') \<Longrightarrow> node_calls s' \<le> Suc (node_calls s)"
  by (drule runNode_calls) (auto simp: called_once_def)

lemma retryFailed_twice:
  "retryFailed eng q r left resp s = (resp', left', s') \<Longrightarrow>
     node_calls s' + left' \<le> node_calls s + left
     \<or> (\<exists>e. resp' = Threw e) \<and> 0 < left' \<and> node_calls s' + left' \<le> Suc (node_calls s + left)"
proof (induction left arbitrary: resp s)
  case (Suc left)
  show ?case
  proof (cases "checkFailure resp")
    case True
    obtain resp1 s1 where run: "runNode eng q r [] s = (resp1, s1)" by force
    note c = runNode_once [OF run]
    show ?thesis
    proof (cases "\<exists>e. resp1 = Threw e")
      case True
      with Suc.prems \<open>checkFailure resp\<close> run c show ?thesis by auto
    next
      case False
      with Suc.prems \<open>checkFailure resp\<close> run have "retryFailed eng q r left resp1 s1 = (resp', left', s')"
        by (auto split: node_response.splits)
      from Suc.IH [OF this] c show ?thesis by auto
    qed
  qed (use Suc.prems in auto)
qed auto

lemma produce_twice:
  assumes "produce eng q r left s = (x, left', s')"
  shows "node_calls s' + left' \<le> Suc (node_calls s + left)
     \<or> (\<exists>e. x = ProducedError e) \<and> 0 < left' \<and> node_calls s' + left' \<le> Suc (Suc (node_calls s + left))"
  using assms
proof (cases rule: produce_cases)
  case (Pinned items)
  with produce_left [OF assms] show ?thesis by auto
next
  case (Ran resp s1 resp2)
  from retryFailed_twice [OF Ran(2)] runNode_once [OF Ran(1), unfolded gather_calls] Ran(3) show ?thesis by auto
qed

lemma addNode_calls:
  assumes "addNodeToBeExecuted eng p s = Inr s'" shows "node_calls s' = node_calls s"
proof -
  have place: "node_calls s1 = node_calls s" if "placePacket eng p s = Inr (i, w, s1)" for i w s1
    using placePacket_effect(2) [OF that] unfolding same_but_waiting_def by (metis exec_state.select_convs(14) exec_state.surjective exec_state.update_convs(2,3))
  have force: "node_calls t' = node_calls t" if "forceInput eng p outs n t = Inr t'" for outs n t t'
    using that
    by (auto simp: forceInput_def forceNode_def pushEntry_def js_simps Let_def split: if_splits option.splits)
  have forced: "node_calls t' = node_calls t" if inputs: "forceInputs eng p t = Inr t'" for t t'
  proof -
    from inputs obtain outs where
      "fold_result (forceInput eng p outs) (map conn_node (connections_in (dest_inputs eng (packet_node p)))) t = Inr t'"
      by (auto simp: forceInputs_def js_simps)
    then show ?thesis by (rule fold_result_inv [where P = "\<lambda>u. node_calls u = node_calls t"]) (auto dest: force)
  qed
  have keep: "node_calls t' = node_calls t" if "keepWaiting eng p i t = Inr t'" for i t t'
    using that by (auto simp: keepWaiting_def prepareWaitingToExecution_def Let_def split: option.splits)
  have enq: "node_calls t' = node_calls t" if "enqueueWaiting eng p i t = Inr t'" for i t t'
    using that by (auto simp: enqueueWaiting_def remove_waiting_def pushEntry_def Let_def split: option.splits)
  from assms show ?thesis
    by (auto simp: addNodeToBeExecuted_def enqueueSingle_def pushEntry_def js_simps
        dest!: place forced keep enq split: if_splits option.splits)
qed

lemma queue_all_calls: "queue_all eng ps s = (err, s') \<Longrightarrow> node_calls s' = node_calls s"
  by (induction ps arbitrary: s) (auto split: sum.splits dest!: addNode_calls)

lemma prepareRequested_calls:
  "prepareRequestedNodesForExecution eng q n r actions s = (err, ps, subs, s') \<Longrightarrow> node_calls s' = node_calls s"
  by (induction actions arbitrary: s err ps subs)
    (auto simp: requestNode_def Let_def split: if_splits prod.splits)

lemma handleEngineRequest_calls:
  "handleEngineRequest eng q r actions s = (err, s') \<Longrightarrow> node_calls s' = node_calls s"
  by (auto simp: handleEngineRequest_def handleRequest_def simp del: queue_all.simps
      split: option.splits prod.splits dest!: prepareRequested_calls queue_all_calls)

lemma finish_attempt_calls: "finish_attempt eng q d s = (x, s') \<Longrightarrow> node_calls s' = node_calls s"
  by (auto simp: finish_attempt_def Let_def split: sum.splits option.splits list.splits slot.splits if_splits)

text \<open>A call that throws after a failed one does not count as an attempt of its own, so up to two
  calls may happen per attempt.\<close>

lemma attempts_twice:
  "attempts eng q r left stale s = (x, s') \<Longrightarrow> node_calls s' \<le> node_calls s + 2 * left + 1"
proof (induction eng q r left stale s rule: attempts.induct)
  case (1 eng q r left stale s)
  obtain d left1 s1 where p: "produce eng q r left s = (d, left1, s1)" by (metis prod_cases3)
  note c1 = produce_twice [OF p] and l1 = produce_left [OF p]
  let ?fail = "\<lambda>t :: exec_state. t\<lparr>last_executed := Some (node_name (queued_node q))\<rparr>"
  note step = 1(4) [unfolded attempts.simps [of eng q r left stale s] p]
  show ?case
  proof (cases d)
    case (ProducedRequest actions)
    obtain err s2 where h: "handleEngineRequest eng q r actions s1 = (err, s2)" by force
    note c2 = handleEngineRequest_calls [OF h]
    show ?thesis
    proof (cases err)
      case None
      with step ProducedRequest h c1 c2 l1 show ?thesis by auto
    next
      case (Some e)
      have "left1 \<noteq> 0 \<Longrightarrow> attempts eng q r (left1 - 1) stale (?fail s2) = (x, s')"
        using step ProducedRequest h Some by simp
      with 1(1) [OF p [symmetric] ProducedRequest refl h [symmetric] Some refl] c1 c2 l1
        step ProducedRequest h Some show ?thesis by (cases "left1 = 0") auto
    qed
  next
    case (ProducedError err)
    have "left1 \<noteq> 0 \<Longrightarrow> attempts eng q r (left1 - 1) stale (?fail s1) = (x, s')"
      using step ProducedError by simp
    with 1(3) [OF p [symmetric] ProducedError refl refl] c1 l1 step ProducedError show ?thesis
      by (cases "left1 = 0") auto
  next
    case (ProducedData outputs)
    obtain res s2 where f: "finish_attempt eng q outputs s1 = (res, s2)" by force
    note c2 = finish_attempt_calls [OF f]
    show ?thesis
    proof (cases res)
      case (Inr result)
      with step ProducedData f c1 c2 l1 show ?thesis by auto
    next
      case (Inl e)
      have "left1 \<noteq> 0 \<Longrightarrow> attempts eng q r (left1 - 1) outputs (?fail s2) = (x, s')"
        using step ProducedData f Inl by simp
      with 1(2) [OF p [symmetric] ProducedData refl f [symmetric] Inl refl] c1 c2 l1 step ProducedData f Inl
      show ?thesis by (cases "left1 = 0") auto
    qed
  qed
qed

lemma reported_join:
  assumes "a \<le> b" and "b \<le> c" and "b + rest \<le> Suc (a + left + reported_failures eng a b)"
    and "c \<le> b + rest + reported_failures eng b c"
  shows "c \<le> Suc (a + left + reported_failures eng a c)"
  using assms reported_add [OF assms(1,2), of eng] by linarith

lemma attempts_calls:
  "attempts eng q r left stale s = (x, s') \<Longrightarrow> node_calls s \<le> node_calls s'
    \<and> node_calls s' \<le> Suc (node_calls s + left) + reported_failures eng (node_calls s) (node_calls s')"
proof (induction eng q r left stale s rule: attempts.induct)
  case (1 eng q r left stale s)
  obtain d left1 s1 where p: "produce eng q r left s = (d, left1, s1)" by (metis prod_cases3)
  note c1 = produce_calls [OF p] and l1 = produce_left [OF p]
  let ?fail = "\<lambda>t :: exec_state. t\<lparr>last_executed := Some (node_name (queued_node q))\<rparr>"
  note step = 1(4) [unfolded attempts.simps [of eng q r left stale s] p]
  show ?case
  proof (cases d)
    case (ProducedRequest actions)
    obtain err s2 where h: "handleEngineRequest eng q r actions s1 = (err, s2)" by force
    note c2 = handleEngineRequest_calls [OF h]
    show ?thesis
    proof (cases err)
      case None
      with step ProducedRequest h c1 c2 l1 show ?thesis by auto
    next
      case (Some e)
      have "left1 \<noteq> 0 \<Longrightarrow> attempts eng q r (left1 - 1) stale (?fail s2) = (x, s')"
        using step ProducedRequest h Some by simp
      with 1(1) [OF p [symmetric] ProducedRequest refl h [symmetric] Some refl] c1 c2 l1
        step ProducedRequest h Some show ?thesis by (cases "left1 = 0") (auto intro: reported_join)
    qed
  next
    case (ProducedError err)
    have "left1 \<noteq> 0 \<Longrightarrow> attempts eng q r (left1 - 1) stale (?fail s1) = (x, s')"
      using step ProducedError by simp
    with 1(3) [OF p [symmetric] ProducedError refl refl] c1 l1 step ProducedError show ?thesis
      by (cases "left1 = 0") (auto intro: reported_join)
  next
    case (ProducedData outputs)
    obtain res s2 where f: "finish_attempt eng q outputs s1 = (res, s2)" by force
    note c2 = finish_attempt_calls [OF f]
    show ?thesis
    proof (cases res)
      case (Inr result)
      with step ProducedData f c1 c2 l1 show ?thesis by auto
    next
      case (Inl e)
      have "left1 \<noteq> 0 \<Longrightarrow> attempts eng q r (left1 - 1) outputs (?fail s2) = (x, s')"
        using step ProducedData f Inl by simp
      with 1(2) [OF p [symmetric] ProducedData refl f [symmetric] Inl refl] c1 c2 l1 step ProducedData f Inl
      show ?thesis by (cases "left1 = 0") (auto intro: reported_join)
    qed
  qed
qed

lemma maxTries_of_bounds:
  "1 \<le> maxTries_of q"
  "maxTries_of q \<le> 5"
  "retryOnFail (queued_node q) \<noteq> Some True \<Longrightarrow> maxTries_of q = 1"
  by (auto simp: maxTries_of_def)

lemma tryNode_calls:
  assumes "tryNode eng q r s = (x, s')"
  shows "node_calls s' \<le> node_calls s + 2 * maxTries_of q - 1"
    and "node_calls s' \<le> node_calls s + maxTries_of q + reported_failures eng (node_calls s) (node_calls s')"
  using attempts_twice [OF assms [unfolded tryNode_def]] attempts_calls [OF assms [unfolded tryNode_def]]
    maxTries_of_bounds(1) [of q] by linarith+

section \<open>What a failure leaves behind\<close>

lemma record_task_lookup:
  "\<exists>runs u. map_of (record_task n r t rd) n = Some runs \<and> u \<in> set runs
     \<and> (u = t \<or> (\<exists>c. u = assign_task c t))"
proof (cases "r < length (entry_or rd n [])")
  case True
  let ?runs = "entry_or rd n []"
  have "assign_task (?runs ! r) t \<in> set (?runs[r := assign_task (?runs ! r) t])"
    using True by (intro set_update_memI)
  with True show ?thesis by (auto simp: record_task_def Let_def arr_get_def)
next
  case False
  then show ?thesis by (auto simp: record_task_def Let_def arr_get_def)
qed

lemma record_task_other: "m \<noteq> n \<Longrightarrow> map_of (record_task n r t rd) m = map_of rd m"
  by (simp add: record_task_def Let_def)

lemma stopOnError_records:
  "\<exists>task runs. map_of (exec_run_data (stopOnError q t r err s)) (queued_name q) = Some runs
     \<and> task \<in> set runs \<and> task_error task = Some err \<and> task_status task = Some StatusError
     \<and> execution_index task = execution_index t
     \<and> (\<forall>n. n \<noteq> queued_name q \<longrightarrow> map_of (exec_run_data (stopOnError q t r err s)) n = map_of (exec_run_data s) n)
     \<and> node_stack (stopOnError q t r err s) = q # node_stack s
     \<and> exec_error (stopOnError q t r err s) = exec_error s"
proof -
  obtain u where st: "stopOnError q t r err s = s\<lparr>exec_run_data := record_task (queued_name q) r u (exec_run_data s),
      node_stack := q # node_stack s\<rparr>"
    and u: "task_error u = Some err" "task_status u = Some StatusError" "execution_index u = execution_index t"
    by (rule that [of "case rewire_output_log_to (queued_node q) of
        None \<Rightarrow> t\<lparr>task_error := Some err, task_status := Some StatusError\<rparr>
      | Some type \<Rightarrow> t\<lparr>task_error := Some err, task_status := Some StatusError,
          task_input_override := Some (input_override (exec_run_data s) (node_name (queued_node q)) r),
          task_output := Some [(type, [Some [message_item err]])]\<rparr>"])
      (auto simp: stopOnError_def Let_def queued_name_def split: option.splits)
  from record_task_lookup [of "queued_name q" r u "exec_run_data s"] obtain runs task where
    "map_of (record_task (queued_name q) r u (exec_run_data s)) (queued_name q) = Some runs" "task \<in> set runs"
    "task = u \<or> (\<exists>c. task = assign_task c u)" by blast
  then show ?thesis
    using u by (intro exI [of _ task] exI [of _ runs]) (auto simp: st record_task_other assign_task_def)
qed

end
