(* ===== verification/Execution_Properties.thy ===== *)
theory Execution_Properties
  imports Execution_Termination Execution_Invariants Execution_Order Fixtures
begin

text \<open>
  The properties of the execution loop, with the small workflow on which their witnesses evaluate it:
  a trigger, the nodes \<open>A\<close> and \<open>B\<close> behind it, and \<open>Merge\<close> that takes the output of both.
\<close>

section \<open>A small workflow\<close>

definition merge_node :: inode where
  "merge_node = (sample_node 6 ''Merge'')\<lparr>position := (2, 0)\<rparr>"

definition placed_A :: inode where
  "placed_A = node_A\<lparr>position := (1, 0)\<rparr>"

definition placed_B :: inode where
  "placed_B = node_B\<lparr>position := (1, 1)\<rparr>"

abbreviation to_input :: "string \<Rightarrow> nat \<Rightarrow> iconnection" where
  "to_input n i \<equiv> \<lparr>conn_node = n, conn_type = Main_type, conn_index = i\<rparr>"

definition diamond_flow :: workflow where
  "diamond_flow = setConnections
     [(''Trigger'', [(Main_type, [Some [to_input ''A'' 0, to_input ''B'' 0]])]),
      (''A'', [(Main_type, [Some [to_input ''Merge'' 0]])]),
      (''B'', [(Main_type, [Some [to_input ''Merge'' 1]])])]
     (setNodes [node_T, placed_A, placed_B, merge_node]
       \<lparr>workflow_nodes = [], connectionsBySourceNode = [], connectionsByDestinationNode = [],
        workflow_pinData = None\<rparr>)"

definition plain_type :: engine_type where
  "plain_type = \<lparr>executes = True, polls = False, triggers = False, webhooks = False, supplies_data = False,
     is_declarative = False, custom_operations = None, described_inputs_of = InputList [Main_type, Main_type],
     required_inputs_of = None, main_outputs = 1\<rparr>"

text \<open>What a node returns is given by its name, its input and the number of the call.\<close>

definition small_engine :: "workflow \<Rightarrow> (string \<Rightarrow> node_items \<Rightarrow> nat \<Rightarrow> node_response) \<Rightarrow> engine" where
  "small_engine w answer =
     \<lparr>flow = w, order_v1 = True, manual_mode = True, engine_types = (\<lambda>_. Some plain_type),
      run_node_filter = None, destination_name = None, destination_inclusive = False,
      node_call = (\<lambda>args i. (answer (node_name (call_node args)) (call_connection_input args) i, False)),
      halted_at = (\<lambda>_. False), parameter_issues = (\<lambda>_. False), paired_lookup = (\<lambda>_ _. None)\<rparr>"

definition pass_on :: "string \<Rightarrow> node_items \<Rightarrow> nat \<Rightarrow> node_response" where
  "pass_on n items i = Returned (Some [Val items])"

definition pass_but :: "string \<Rightarrow> node_response \<Rightarrow> string \<Rightarrow> node_items \<Rightarrow> nat \<Rightarrow> node_response" where
  "pass_but silent answer n items i = (if n = silent then answer else pass_on n items i)"

abbreviation diamond_engine :: engine where
  "diamond_engine \<equiv> small_engine diamond_flow pass_on"

definition trigger_entry :: queued where
  "trigger_entry = \<lparr>queued_node = node_T, queued_data = [(Main_type, [Val [empty_item]])],
     queued_source = None, queued_run = None, queued_metadata = None\<rparr>"

definition diamond_start :: exec_state where
  "diamond_start = start_state [trigger_entry] [] []"

definition recorded :: "step_result option \<Rightarrow> (string \<times> nat) list" where
  "recorded r = (case r of None \<Rightarrow> []
     | Some result \<Rightarrow> map (\<lambda>(n, runs). (n, length runs)) (exec_run_data (result_state result)))"

lemma diamond_run:
  "recorded (executionLoop diamond_engine 4 diamond_start)
     = [(''Trigger'', 1), (''A'', 1), (''B'', 1), (''Merge'', 1)]"
  by code_simp

lemma diamond_names: "names_ok diamond_engine"
  by code_simp

lemma diamond_state_ok: "state_ok diamond_start"
  by code_simp

lemma diamond_loop_ok: "loop_ok diamond_start"
  by (simp add: loop_ok_def waiting_ok_def aligned_def all_incomplete_def diamond_start_def start_state_def
      waiting_main_def indices_below_def)

lemma diamond_no_requests: "no_requests diamond_engine"
  by (simp add: no_requests_def small_engine_def pass_on_def)

lemma acyclic_by_rank:
  assumes "list_all (\<lambda>n. list_all (\<lambda>(i, c). (rank :: string \<Rightarrow> nat) (conn_node c) < rank n) (output_connections eng n))
    (map_keys (connectionsBySourceNode (flow eng)))"
  shows "acyclic (flow_rel eng)"
proof -
  have "flow_rel eng \<subseteq> (measure rank)\<inverse>"
  proof (clarsimp simp: flow_rel_def)
    fix n i c assume c: "(i, c) \<in> set (output_connections eng n)"
    then have "n \<in> set (map_keys (connectionsBySourceNode (flow eng)))" by (intro output_connections_key) auto
    with assms c show "rank (conn_node c) < rank n" by (fastforce simp: list_all_iff)
  qed
  then show ?thesis
    by (meson acyclic_converse acyclic_subset wf_acyclic wf_measure)
qed

lemma diamond_acyclic: "acyclic (flow_rel diamond_engine)"
proof (rule acyclic_by_rank [where rank = "\<lambda>n. if n = ''Trigger'' then 2 else if n = ''Merge'' then 0 else 1"])
  show "list_all (\<lambda>n. list_all (\<lambda>(i, c). (if conn_node c = ''Trigger'' then 2 else if conn_node c = ''Merge'' then 0 else 1)
      < (if n = ''Trigger'' then 2 else if n = ''Merge'' then 0 else 1 :: nat)) (output_connections diamond_engine n))
    (map_keys (connectionsBySourceNode (flow diamond_engine)))"
    by code_simp
qed

section \<open>Termination\<close>

text \<open>C1: In the execution order \<open>v1\<close>, on a workflow without cycles whose nodes make no requests, the
  loop ends: as many iterations as the potential of the state are enough, and more of them give the
  same result.\<close>

theorem executionLoop_terminates:
  assumes "order_v1 eng" and "names_ok eng" and "no_requests eng" and "acyclic (flow_rel eng)"
    and "state_ok s" and "potential eng s \<le> fuel"
  shows "\<exists>result. executionLoop eng (potential eng s) s = Some result \<and> executionLoop eng fuel s = Some result"
proof -
  from executionLoop_ends [OF assms(1-5) order_refl] obtain result where
    r: "executionLoop eng (potential eng s) s = Some result" by blast
  with executionLoop_more [OF r assms(6)] show ?thesis by blast
qed

theorem executionLoop_terminates_witness:
  "\<exists>result. executionLoop diamond_engine (potential diamond_engine diamond_start) diamond_start = Some result
     \<and> executionLoop diamond_engine 7 diamond_start = Some result"
proof (rule executionLoop_terminates)
  show "order_v1 diamond_engine" by (simp add: small_engine_def)
  show "potential diamond_engine diamond_start \<le> 7" by code_simp
qed (fact diamond_names diamond_no_requests diamond_acyclic diamond_state_ok)+

section \<open>Packets\<close>

text \<open>C4: In the execution order \<open>v1\<close> (the legacy order also forces other inputs of the node), with nodes
  filed under their own names and no key twice among the waiting entries, a packet of items that is
  queued without an error arrives exactly once: what is on the stack and what waits holds every packet it
  held before and this one, provided that the index for a new entry (the number of entries) is free. Nothing but the stack and the waiting executions changes.\<close>

theorem addNodeToBeExecuted_delivers:
  assumes "order_v1 eng" and "names_ok eng" and "keys_ok (waiting_items s)"
    and "getNode (flow eng) (packet_node p) = Some node" and "delivered p = Val items"
    and "open_entry (entry_or (waiting_items s) (packet_node p) []) (packet_input p) \<noteq> None
      \<or> length (entry_or (waiting_items s) (packet_node p) [])
          \<notin> set (map_keys (entry_or (waiting_items s) (packet_node p) []))"
    and "addNodeToBeExecuted eng p s = Inr s'"
  shows "held_total packets_in s' = held_total packets_in s + {#(packet_node p, packet_input p, items)#}
    \<and> same_run s s'"
proof -
  have "overwritten packets_in eng p s = 0"
    using assms(6)
  proof
    assume "length (entry_or (waiting_items s) (packet_node p) []) \<notin> set (map_keys (entry_or (waiting_items s) (packet_node p) []))"
    then show ?thesis unfolding overwritten_def Let_def entry_total_entries
      by (simp only: map_of_eq_None_notin [symmetric] option.case if_cancel)
  qed (auto simp: overwritten_def Let_def)
  with packets.add_total [OF assms(1-5,7)] add_frame(1) [OF assms(1-3,7)] show ?thesis by simp
qed

definition sample_packet :: packet where
  "sample_packet = packet_of ''A'' [[sample_item ''a'']] 0 (0, to_input ''Merge'' 0)"

theorem addNodeToBeExecuted_delivers_witness:
  "\<exists>s'. addNodeToBeExecuted diamond_engine sample_packet diamond_start = Inr s'
     \<and> held_total packets_in s' = held_total packets_in diamond_start + {#(''Merge'', 0, [sample_item ''a''])#}"
proof -
  have "(case addNodeToBeExecuted diamond_engine sample_packet diamond_start of Inr s' \<Rightarrow> True | Inl e \<Rightarrow> False)"
    by code_simp
  then obtain s' where s': "addNodeToBeExecuted diamond_engine sample_packet diamond_start = Inr s'"
    by (auto split: sum.splits)
  have "held_total packets_in s' = held_total packets_in diamond_start
      + {#(packet_node sample_packet, packet_input sample_packet, [sample_item ''a''])#} \<and> same_run diamond_start s'"
  proof (rule addNodeToBeExecuted_delivers [OF _ diamond_names _ _ _ _ s'])
    show "order_v1 diamond_engine" by (simp add: small_engine_def)
    show "keys_ok (waiting_items diamond_start)" by code_simp
    show "getNode (flow diamond_engine) (packet_node sample_packet) = Some merge_node" by code_simp
    show "delivered sample_packet = Val [sample_item ''a'']" by code_simp
    show "open_entry (entry_or (waiting_items diamond_start) (packet_node sample_packet) []) (packet_input sample_packet) \<noteq> None
      \<or> length (entry_or (waiting_items diamond_start) (packet_node sample_packet) [])
          \<notin> set (map_keys (entry_or (waiting_items diamond_start) (packet_node sample_packet) []))" by code_simp
  qed
  moreover have "packet_node sample_packet = ''Merge''" "packet_input sample_packet = 0"
    by (simp_all add: sample_packet_def)
  ultimately show ?thesis using s' by auto
qed

section \<open>The invariant of the loop\<close>

text \<open>C5: However a run ends, in both execution orders and with requests of nodes for other nodes,
  every execution that still waits misses an input, has its sources filed where its items are, and
  every execution index in the run data is below the next one; so it was before the run.\<close>

theorem executionLoop_invariant:
  assumes "loop_ok s" and "executionLoop eng fuel s = Some result"
  shows "(\<forall>n i xs. waiting_main (waiting_items (result_state result)) n i = Some xs \<longrightarrow>
            Null \<in> set xs \<and> waiting_main (waiting_sources (result_state result)) n i \<noteq> None)
    \<and> indices_below (next_index (result_state result)) (exec_run_data (result_state result))"
proof -
  from executionLoop_ok [OF assms] have "loop_ok (result_state result)" .
  then have "aligned (result_state result)" "all_incomplete (result_state result)"
    "indices_below (next_index (result_state result)) (exec_run_data (result_state result))"
    by (simp_all add: loop_ok_def waiting_ok_def)
  then show ?thesis unfolding aligned_def all_incomplete_def by (metis option.distinct(1))
qed

theorem executionLoop_invariant_witness:
  "\<exists>t. executionLoop diamond_engine 4 diamond_start = Some t
     \<and> indices_below (next_index (result_state t)) (exec_run_data (result_state t))"
proof -
  from diamond_run obtain t where t: "executionLoop diamond_engine 4 diamond_start = Some t"
    by (cases "executionLoop diamond_engine 4 diamond_start") (auto simp: recorded_def)
  from executionLoop_invariant [OF diamond_loop_ok t] t show ?thesis by blast
qed

section \<open>The order of the nodes behind a node\<close>

text \<open>C6: In the execution order \<open>v1\<close>, with nodes filed under their own names, when the nodes behind a
  node have at most one input each and queueing them raises no error, they are put in front of the stack, one entry per connection, the topmost first and of
  those the leftmost; each entry holds the items of its output at the input of its connection.\<close>

theorem queueChildren_order:
  assumes "order_v1 eng" and "names_ok eng"
    and "list_all (\<lambda>c. length (dest_inputs eng (conn_node (snd c))) \<le> 1) (output_connections eng n)"
    and "queueChildren eng n outs r s = Inr s'"
  shows "\<exists>cs qs. mset cs = mset (filter (output_followed eng outs) (output_connections eng n))
    \<and> sorted_wrt (\<lambda>a b. above_or_left (node_position eng (snd a)) (node_position eng (snd b))) cs
    \<and> node_stack s' = qs @ node_stack s \<and> map queued_name qs = map (conn_node \<circ> snd) cs
    \<and> map queued_main qs = map (\<lambda>c. replicate (conn_index (snd c)) Null @ [Val (outs ! fst c)]) cs"
proof -
  let ?f = "\<lambda>c. node_position eng (snd c)" and ?cs = "output_connections eng n"
  let ?ds = "sort_by (\<lambda>a b. compare_positions (?f a) (?f b)) (filter (output_followed eng outs) ?cs)"
  from assms(1,4) obtain u where check: "fold_result (\<lambda>c u. check_destination eng n c) ?cs () = Inr u"
    and add: "fold_result (\<lambda>c. addNodeToBeExecuted eng (packet_of n outs r c)) ?ds s = Inr s'"
    by (auto simp: queueChildren_def Let_def js_simps)
  have one: "length (dest_inputs eng (conn_node (snd c))) \<le> 1" if "c \<in> set ?ds" for c
    using assms(3) that by (auto simp: list_all_iff)
  have known: "getNode (flow eng) (conn_node (snd c)) \<noteq> None" if "c \<in> set ?ds" for c
    using destinations_checked [OF check, of c] that by auto
  from add_singles [OF assms(1,2) one known add] obtain qs where
    qs: "node_stack s' = qs @ node_stack s" "map queued_name qs = map (conn_node \<circ> snd) (rev ?ds)"
    "map queued_main qs = map (\<lambda>c. replicate (conn_index (snd c)) Null @ [slot_get (map Val outs) (fst c)]) (rev ?ds)"
    by blast
  have "slot_get (map Val outs) (fst c) = Val (outs ! fst c)" if "c \<in> set ?ds" for c
    using that by (auto simp: output_followed_def slot_get_def split: prod.splits)
  then have "map (\<lambda>c. replicate (conn_index (snd c)) Null @ [slot_get (map Val outs) (fst c)]) (rev ?ds)
      = map (\<lambda>c. replicate (conn_index (snd c)) Null @ [Val (outs ! fst c)]) (rev ?ds)"
    by (intro map_cong) simp_all
  moreover have "sorted_wrt (\<lambda>a b. above_or_left (?f a) (?f b)) (rev ?ds)"
    unfolding sorted_wrt_rev by (rule sort_positions)
  ultimately show ?thesis
    using qs by (intro exI [of _ "rev ?ds"] exI [of _ qs]) (simp add: mset_filter)
qed

theorem queueChildren_order_witness:
  "\<exists>s'. queueChildren diamond_engine ''Trigger'' [[sample_item ''a'']] 0 diamond_start = Inr s'
     \<and> map queued_name (node_stack s') = [''A'', ''B'', ''Trigger'']
     \<and> (\<exists>cs. mset cs = mset (filter (output_followed diamond_engine [[sample_item ''a'']])
                              (output_connections diamond_engine ''Trigger''))
          \<and> sorted_wrt (\<lambda>a b. above_or_left (node_position diamond_engine (snd a))
                                            (node_position diamond_engine (snd b))) cs)"
proof -
  have "(case queueChildren diamond_engine ''Trigger'' [[sample_item ''a'']] 0 diamond_start of
      Inl e \<Rightarrow> False | Inr s' \<Rightarrow> map queued_name (node_stack s') = [''A'', ''B'', ''Trigger''])"
    by code_simp
  then obtain s' where s': "queueChildren diamond_engine ''Trigger'' [[sample_item ''a'']] 0 diamond_start = Inr s'"
    and st: "map queued_name (node_stack s') = [''A'', ''B'', ''Trigger'']" by (auto split: sum.splits)
  have "list_all (\<lambda>c. length (dest_inputs diamond_engine (conn_node (snd c))) \<le> 1)
      (output_connections diamond_engine ''Trigger'')" by code_simp
  from queueChildren_order [OF _ diamond_names this s'] s' st show ?thesis
    by (auto simp: small_engine_def)
qed

section \<open>Attempts\<close>

text \<open>C8: A node's implementation is called at most once per attempt and once more for each of these calls
  that may report a failure (the answer of the implementation to a call of that number has an error in
  its first item), and in any case at most \<open>2 * n - 1\<close> times for \<open>n\<close> attempts. There are one to five
  attempts, and one call at most when the node is not to be retried.\<close>

theorem tryNode_bounds:
  assumes "tryNode eng q r s = (x, s')"
  shows "node_calls s' \<le> node_calls s + maxTries_of q + reported_failures eng (node_calls s) (node_calls s')
    \<and> node_calls s' \<le> node_calls s + 2 * maxTries_of q - 1 \<and> maxTries_of q \<in> {1..5}
    \<and> (retryOnFail (queued_node q) \<noteq> Some True \<longrightarrow> node_calls s' \<le> Suc (node_calls s))"
  using tryNode_calls [OF assms] maxTries_of_bounds(1) [of q] maxTries_of_bounds(2) [of q]
    maxTries_of_bounds(3) [of q] by auto

theorem tryNode_bounds_witness:
  "node_calls (snd (tryNode (small_engine diamond_flow (\<lambda>_ _ _. Threw (Thrown None ''no access'')))
     (trigger_entry\<lparr>queued_node := node_T\<lparr>retryOnFail := Some True\<rparr>\<rparr>) 0 diamond_start)) \<le> 3"
proof -
  let ?eng = "small_engine diamond_flow (\<lambda>_ _ _. Threw (Thrown None ''no access''))"
    and ?q = "trigger_entry\<lparr>queued_node := node_T\<lparr>retryOnFail := Some True\<rparr>\<rparr>"
  have "reported_failures ?eng a b = 0" for a b
    by (rule reported_none) (simp add: reports_failure_def small_engine_def)
  moreover have "maxTries_of ?q = 3" "node_calls diamond_start = 0" by code_simp+
  moreover obtain x s' where "tryNode ?eng ?q 0 diamond_start = (x, s')" by force
  ultimately show ?thesis using tryNode_bounds [of ?eng ?q 0 diamond_start x s'] by simp
qed

section \<open>Failures\<close>

text \<open>C7: When a node fails and is not set to continue, the run stops with the status of the error, the
  node's entry is on top of the stack again, so that a later run can resume from it, the failed run is
  recorded under the node with the error, and the run data of every other node is unchanged. The status
  is \<open>canceled\<close> if the message of the error mentions it or its name is that of a cancellation, and
  \<open>error\<close> otherwise.\<close>

theorem failed_node_stops:
  assumes "\<not> continues_after (queued_node q)"
  shows "\<exists>t task. finishNode eng q k r (Some err) d s = Finished t
    \<and> finalStatus (Finished t) = error_status err \<and> exec_error t = Some err
    \<and> node_stack t = q # node_stack s
    \<and> (\<exists>runs. map_of (exec_run_data t) (queued_name q) = Some runs \<and> task \<in> set runs)
    \<and> task_error task = Some err \<and> task_status task = Some StatusError \<and> execution_index task = Some k
    \<and> (\<forall>n. n \<noteq> queued_name q \<longrightarrow> map_of (exec_run_data t) n = map_of (exec_run_data s) n)"
proof -
  let ?n = "queued_name q"
  let ?s1 = "ensure_runs ?n (s\<lparr>exec_error := Some err\<rparr>)"
  let ?task = "(started_task q k)\<lparr>task_status := Some (if wait_till ?s1 then StatusWaiting else StatusSuccess)\<rparr>"
  let ?t = "stopOnError q ?task r err ?s1"
  from assms have fin: "finishNode eng q k r (Some err) d s = Finished ?t"
    by (simp add: finishNode_def Let_def queued_name_def)
  from stopOnError_records [of q ?task r err ?s1] obtain task runs where
    "map_of (exec_run_data ?t) ?n = Some runs" "task \<in> set runs" "task_error task = Some err"
    "task_status task = Some StatusError" "execution_index task = execution_index ?task"
    "\<And>n. n \<noteq> ?n \<Longrightarrow> map_of (exec_run_data ?t) n = map_of (exec_run_data ?s1) n"
    "node_stack ?t = q # node_stack ?s1" "exec_error ?t = exec_error ?s1" by blast
  moreover have "execution_index ?task = Some k" by (simp add: started_task_def)
  moreover have "node_stack ?s1 = node_stack s" "exec_error ?s1 = Some err"
    "\<And>n. n \<noteq> ?n \<Longrightarrow> map_of (exec_run_data ?s1) n = map_of (exec_run_data s) n"
    by (simp_all add: ensure_runs_def)
  ultimately show ?thesis using fin by (intro exI [of _ ?t] exI [of _ task]) simp
qed

theorem failed_node_stops_witness:
  "\<exists>t. finishNode diamond_engine trigger_entry 0 0 (Some (Thrown None ''no access'')) None diamond_start = Finished t
     \<and> finalStatus (Finished t) = StatusError \<and> node_stack t = [trigger_entry, trigger_entry]"
proof -
  have "\<not> continues_after (queued_node trigger_entry)" by code_simp
  from failed_node_stops [OF this, of diamond_engine 0 0 "Thrown None ''no access''" None diamond_start] obtain t where
    "finishNode diamond_engine trigger_entry 0 0 (Some (Thrown None ''no access'')) None diamond_start = Finished t"
    "finalStatus (Finished t) = error_status (Thrown None ''no access'')"
    "node_stack t = trigger_entry # node_stack diamond_start" by blast
  moreover have "error_status (Thrown None ''no access'') = StatusError" by code_simp
  ultimately show ?thesis by (auto simp: diamond_start_def start_state_def)
qed

end
