(* ===== verification/Execution_Findings.thy ===== *)
theory Execution_Findings
  imports Execution_Properties
begin

text \<open>
  Runs of the model on small workflows in which the loop does something that its comments, or the
  settings of a node, do not lead one to expect.
\<close>

section \<open>An execution that waits is forgotten\<close>

text \<open>\<open>B\<close> is the last node on the stack. When it returns an empty output, \<open>Merge\<close> is released and runs
  with what \<open>A\<close> sent; when it returns \<open>null\<close>, the loop continues before it looks at what waits, and
  ends.\<close>

lemma empty_output_releases:
  "recorded (executionLoop (small_engine diamond_flow (pass_but ''B'' (Returned (Some [Val []])))) 9 diamond_start)
     = [(''Trigger'', 1), (''A'', 1), (''B'', 1), (''Merge'', 1)]"
  by code_simp

lemma null_output_forgets:
  "recorded (executionLoop (small_engine diamond_flow (pass_but ''B'' (Returned None))) 9 diamond_start)
     = [(''Trigger'', 1), (''A'', 1)]"
  by code_simp

section \<open>A packet is overwritten\<close>

text \<open>Two packets for the first input of \<open>Merge\<close> wait in the entries \<open>0\<close> and \<open>1\<close>. A packet for the
  second input completes entry \<open>0\<close>, which is removed. The next packet for the first input takes the
  number of entries as its index, \<open>1\<close>, and replaces the entry that waits there.\<close>

definition packet_to :: "string \<Rightarrow> string \<Rightarrow> nat \<Rightarrow> packet" where
  "packet_to n v i = packet_of n [[sample_item v]] 0 (0, to_input ''Merge'' i)"

definition four_packets :: "packet list" where
  "four_packets = [packet_to ''A'' ''first'' 0, packet_to ''A'' ''second'' 0, packet_to ''B'' ''b'' 1,
     packet_to ''A'' ''third'' 0]"

lemma packet_overwritten:
  "(case fold_result (addNodeToBeExecuted diamond_engine) four_packets diamond_start of
      Inl e \<Rightarrow> None
    | Inr s \<Rightarrow> Some (map (\<lambda>q. map slot_items (queued_main q)) (node_stack s),
        map (\<lambda>(n, es). (n, map (\<lambda>(i, xs). (i, map slot_items xs)) es)) (waiting_items s)))
   = Some ([[[sample_item ''first''], [sample_item ''b'']], [[empty_item]]],
       [(''Merge'', [(1, [[sample_item ''third''], []])])])"
  by code_simp

section \<open>Indices sorted as strings\<close>

lemma later_run_first: "first_run_index [(9, ''earlier''), (10, ''later'')] = Some 10"
  by code_simp

section \<open>More calls than attempts\<close>

text \<open>A node with three attempts whose calls report a failure and throw in turn is called five times.\<close>

definition failing_item :: node_execution_data where
  "failing_item = \<lparr>item_json = [(''error'', JStr ''failed'')], item_paired = None, item_error = None\<rparr>"

definition fail_in_turn :: "string \<Rightarrow> node_items \<Rightarrow> nat \<Rightarrow> node_response" where
  "fail_in_turn n items i = (if even i then Returned (Some [Val [failing_item]]) else Threw (Thrown None ''failed''))"

definition retried_entry :: queued where
  "retried_entry = trigger_entry\<lparr>queued_node := node_T\<lparr>retryOnFail := Some True, maxTries := Some 3\<rparr>\<rparr>"

lemma five_calls:
  "maxTries_of retried_entry = 3
   \<and> node_calls (snd (tryNode (small_engine diamond_flow fail_in_turn) retried_entry 0 diamond_start)) = 5"
  by code_simp

section \<open>The error of a node that continues\<close>

text \<open>The last node fails and is set to continue: every node has run, yet the run ends with an error.\<close>

definition single_flow :: workflow where
  "single_flow = setNodes [node_T]
     \<lparr>workflow_nodes = [], connectionsBySourceNode = [], connectionsByDestinationNode = [],
      workflow_pinData = None\<rparr>"

definition continuing_start :: "node_items slot list \<Rightarrow> exec_state" where
  "continuing_start inputs = start_state
     [trigger_entry\<lparr>queued_node := node_T\<lparr>continueOnFail := Some True\<rparr>,
                    queued_data := [(Main_type, inputs)]\<rparr>] [] []"

definition throwing :: "string \<Rightarrow> node_items \<Rightarrow> nat \<Rightarrow> node_response" where
  "throwing n items i = Threw (Thrown None ''failed'')"

lemma continued_run_ends_with_error:
  "map_option finalStatus (executionLoop (small_engine single_flow throwing) 2 (continuing_start [Val [empty_item]]))
     = Some StatusError"
  by code_simp

text \<open>When the first input is \<open>null\<close> and the items came at another input, there is nothing to hand on:
  the loop iterates over \<open>null\<close>, and the status of the run stays \<open>running\<close>.\<close>

lemma continued_without_first_input:
  "(case executionLoop (small_engine single_flow throwing) 2 (continuing_start [Null, Val [empty_item]]) of
      Some (Rejected e s) \<Rightarrow> e = TypeErrorUndefined \<and> finalStatus (Rejected e s) = StatusRunning
    | _ \<Rightarrow> False)"
  by code_simp

section \<open>A hole counts as data\<close>

text \<open>An entry that the partial execution stored has a hole at the first of three inputs. The packet for
  the third input makes it complete, as only \<open>null\<close> counts as missing.\<close>

definition three_inputs :: workflow where
  "three_inputs = setConnections
     [(''A'', [(Main_type, [Some [to_input ''Merge'' 0]])]),
      (''B'', [(Main_type, [Some [to_input ''Merge'' 1]])]),
      (''C'', [(Main_type, [Some [to_input ''Merge'' 2]])])]
     (setNodes [placed_A, placed_B, node_C, merge_node]
       \<lparr>workflow_nodes = [], connectionsBySourceNode = [], connectionsByDestinationNode = [],
        workflow_pinData = None\<rparr>)"

definition state_with_hole :: exec_state where
  "state_with_hole = (start_state [] [] [])\<lparr>
     waiting_items := [(''Merge'', [(0, [Undef, Val [sample_item ''b'']])])],
     waiting_sources := [(''Merge'', [(0, [Undef, Undef])])]\<rparr>"

lemma hole_counts_as_data:
  "(case addNodeToBeExecuted (small_engine three_inputs pass_on) (packet_to ''C'' ''c'' 2) state_with_hole of
      Inl e \<Rightarrow> None | Inr s \<Rightarrow> Some (map (\<lambda>q. map slot_items (queued_main q)) (node_stack s)))
   = Some [[[], [sample_item ''b''], [sample_item ''c'']]]"
  by code_simp

section \<open>Inputs described by an expression\<close>

text \<open>A node type whose inputs are an expression has as many inputs, for the release, as the expression
  has characters: the entry is padded to that length.\<close>

definition expression_type :: engine_type where
  "expression_type = plain_type\<lparr>described_inputs_of := InputExpression ''={{ inputs($parameter) }}''\<rparr>"

definition state_waiting :: exec_state where
  "state_waiting = (start_state [] [] [])\<lparr>
     waiting_items := [(''Merge'', [(0, [Val [sample_item ''a''], Null])])],
     waiting_sources := [(''Merge'', [(0, [Undef, Null])])]\<rparr>"

lemma padded_to_the_expression:
  "(case releaseWaiting ((small_engine diamond_flow pass_on)\<lparr>engine_types := (\<lambda>_. Some expression_type)\<rparr>)
          [''Merge''] [''Merge''] state_waiting of
      Inl e \<Rightarrow> None | Inr s \<Rightarrow> Some (map (\<lambda>q. length (queued_main q)) (node_stack s)))
   = Some [25]"
  by code_simp

end
