(* ===== verification/Partial_Run.thy ===== *)
theory Partial_Run
  imports Execution_Loop Subgraph Start_Nodes Disabled_Nodes
begin

text \<open>
  The start of a partial execution: \<open>find-trigger-for-partial-execution.ts\<close>, \<open>rewire-graph.ts\<close>, the
  test \<open>isTool\<close> of \<open>node-helpers.ts\<close>, and \<open>runPartialWorkflow2\<close> of \<open>workflow-execute.ts\<close>, which
  finds the trigger, cuts the subgraph, finds the start nodes, rebuilds the stack and enters the
  loop.

  Parameters: what the code reads of a node type (\<open>partial_types\<close>), the text that \<open>JSON.stringify\<close>
  makes of the query of an agent request, and the identity \<open>fresh\<close> of the node object that
  \<open>rewireGraph\<close> creates. A waiting entry that was filed under other connection types only has no
  \<open>main\<close> to read; it is left out.
\<close>

section \<open>What is read of a node type\<close>

text \<open>\<open>description.outputs\<close> is an array of names and objects, or the text of an expression.\<close>

datatype described_output = OutputName node_connection_type | OutputConfig node_connection_type

datatype described_outputs = OutputList "described_output list" | OutputExpression string

record partial_type =
  type_groups :: "string list"
  description_name :: string
  described_outputs_of :: described_outputs

fun has_tool_output :: "described_output list \<Rightarrow> bool" where
  "has_tool_output [] = False"
| "has_tool_output (OutputName t # outputs) = (t = AiTool_type)"
| "has_tool_output (OutputConfig t # outputs) = (t = AiTool_type \<or> has_tool_output outputs)"

definition isTool :: "partial_type \<Rightarrow> (string \<times> json) list \<Rightarrow> bool" where
  "isTool nodeTypeDescription params =
     (if string_includes (description_name nodeTypeDescription) ''vectorStore''
      then map_of params ''mode'' = Some (JStr ''retrieve-as-tool'')
      else (case described_outputs_of nodeTypeDescription of
              OutputList outputs \<Rightarrow> has_tool_output outputs
            | OutputExpression e \<Rightarrow> False))"

section \<open>The trigger\<close>

type_synonym partial_types = "inode \<Rightarrow> partial_type option"

definition isTriggerNode :: "partial_type \<Rightarrow> bool" where
  "isTriggerNode nodeType \<longleftrightarrow> ''trigger'' \<in> set (type_groups nodeType)"

fun parent_triggers :: "partial_types \<Rightarrow> workflow \<Rightarrow> string list \<Rightarrow> engine_error + inode list" where
  "parent_triggers types w [] = Inr []"
| "parent_triggers types w (n # ns) =
     (case getNode w n of
        None \<Rightarrow> Inl (UnknownNode n)
      | Some node \<Rightarrow> bind_result (parent_triggers types w ns) (\<lambda>rest.
          case types node of
            None \<Rightarrow> Inl TypeErrorUndefined
          | Some nodeType \<Rightarrow> Inr (if isTriggerNode nodeType then node # rest else rest)))"

definition findAllParentTriggers :: "partial_types \<Rightarrow> workflow \<Rightarrow> string \<Rightarrow> engine_error + inode list" where
  "findAllParentTriggers types w destinationNodeName =
     parent_triggers types w (workflow_getParentNodes w destinationNodeName (OneType Main_type) (- 1))"

definition ends_with :: "string \<Rightarrow> string \<Rightarrow> bool" where
  "ends_with s ending \<longleftrightarrow> length ending \<le> length s \<and> drop (length s - length ending) s = ending"

definition is_webhook :: "inode \<Rightarrow> bool" where
  "is_webhook node = ends_with (node_type node) ''webhook''"

text \<open>The comparator puts the webhooks first and reverses their order; it is not consistent, as
  two webhooks each compare below the other.\<close>

definition webhooks_first :: "inode \<Rightarrow> inode \<Rightarrow> int" where
  "webhooks_first a b = (if is_webhook a then -1 else if is_webhook b then 1 else 0)"

definition choose_trigger :: "workflow \<Rightarrow> run_data \<Rightarrow> inode list \<Rightarrow> inode option" where
  "choose_trigger w runData parentTriggers =
     (case find (\<lambda>n. map_has runData (node_name n)) parentTriggers of
        Some n \<Rightarrow> Some n
      | None \<Rightarrow>
          (case sort_by webhooks_first
                  (filter (\<lambda>n. getPinDataOfNode w (node_name n) \<noteq> None) parentTriggers) of
             n # _ \<Rightarrow> Some n
           | [] \<Rightarrow>
               (case filter is_webhook parentTriggers of
                  n # _ \<Rightarrow> Some n
                | [] \<Rightarrow> arr_get parentTriggers 0)))"

definition findTriggerForPartialExecution ::
  "partial_types \<Rightarrow> workflow \<Rightarrow> string \<Rightarrow> run_data \<Rightarrow> engine_error + inode option" where
  "findTriggerForPartialExecution types w destinationNodeName runData =
     (case getNode w destinationNodeName of
        None \<Rightarrow> Inr None
      | Some destinationNode \<Rightarrow>
          (case types destinationNode of
             None \<Rightarrow> Inl TypeErrorUndefined
           | Some nodeType \<Rightarrow>
               if isTriggerNode nodeType \<and> \<not> is_disabled destinationNode then Inr (Some destinationNode)
               else bind_result (findAllParentTriggers types w destinationNodeName)
                      (\<lambda>ts. Inr (choose_trigger w runData (filter (\<lambda>t. \<not> is_disabled t) ts)))))"

definition anyReachableRootHasRunData :: "directed_graph \<Rightarrow> string \<Rightarrow> run_data \<Rightarrow> engine_error + bool" where
  "anyReachableRootHasRunData g destinationNodeName runData =
     (case map_of (getNodes g) destinationNodeName of
        None \<Rightarrow> Inr False
      | Some destinationNode \<Rightarrow>
          bind_result (getParentConnections g destinationNode) (\<lambda>parentConnections.
            bind_result (fold_result (\<lambda>parentNode rootNodes.
                bind_result (getDirectParentConnections g parentNode) (\<lambda>cs.
                  Inr (if list_ex (\<lambda>c. connection_type c = Main_type) cs then rootNodes
                       else rootNodes @ [parentNode])))
              (set_from (map from_node parentConnections)) [])
            (\<lambda>rootNodes. Inr (list_ex (\<lambda>n. map_has runData (node_name n)) rootNodes))))"

text \<open>The fallback when no trigger is found: the closest parent that is enabled and has run.\<close>

definition closest_parent :: "workflow \<Rightarrow> string \<Rightarrow> run_data \<Rightarrow> inode option" where
  "closest_parent w destinationNodeName runData =
     Option.bind (find (\<lambda>n. (case getNode w n of None \<Rightarrow> False | Some node \<Rightarrow> \<not> is_disabled node)
                          \<and> map_has runData n)
                    (workflow_getParentNodes w destinationNodeName (OneType Main_type) (- 1)))
       (getNode w)"

section \<open>A tool as destination\<close>

record agent_request =
  query_text :: string
  tool_name :: string

definition TOOL_EXECUTOR_NODE_NAME :: string where
  "TOOL_EXECUTOR_NODE_NAME = ''PartialExecutionToolExecutor''"

definition tool_executor :: "nat \<Rightarrow> string \<Rightarrow> inode \<Rightarrow> agent_request option \<Rightarrow> inode" where
  "tool_executor fresh rootId tool agentRequest =
     \<lparr>node_ref = fresh, node_id = rootId, node_name = TOOL_EXECUTOR_NODE_NAME,
      node_type = ''@n8n/n8n-nodes-langchain.toolExecutor'', type_version = 0, disabled = Some False,
      parameters =
        [(''query'', JStr (case agentRequest of Some r \<Rightarrow> query_text r | None \<Rightarrow> ''{}'')),
         (''toolName'', JStr (case agentRequest of Some r \<Rightarrow> tool_name r | None \<Rightarrow> '''')),
         (''node'', JStr (node_name tool))],
      rewire_output_log_to = None, position = (0, 0), retryOnFail = None, maxTries = None,
      alwaysOutputData = None, executeOnce = None, onError = None, continueOnFail = None,
      forceCustomOperation = None\<rparr>"

text \<open>Assigning a field of a node object shows wherever the graph refers to it.\<close>

definition map_nodes :: "(inode \<Rightarrow> inode) \<Rightarrow> directed_graph \<Rightarrow> directed_graph" where
  "map_nodes f g =
     \<lparr>gnodes = map (\<lambda>(k, n). (k, f n)) (gnodes g),
      gconnections = map (\<lambda>(k, c). (k, c\<lparr>from_node := f (from_node c), to_node := f (to_node c)\<rparr>))
        (gconnections g)\<rparr>"

definition link_input :: "inode \<Rightarrow> inode \<Rightarrow> node_connection_type \<Rightarrow> connection_input" where
  "link_input a b t = \<lparr>ci_from = a, ci_to = b, ci_type = Some t, ci_output = None, ci_input = None\<rparr>"

definition rewireGraph ::
  "nat \<Rightarrow> inode \<Rightarrow> directed_graph \<Rightarrow> agent_request option \<Rightarrow> engine_error + directed_graph" where
  "rewireGraph fresh tool graph agentRequest =
     bind_result (clone graph) (\<lambda>modifiedGraph.
       bind_result (getChildren modifiedGraph tool) (\<lambda>children.
         if children = [] then Inr graph
         else
           (let rootNode = last children;
                toolExecutor = tool_executor fresh (node_id rootNode) tool agentRequest;
                tool1 = tool\<lparr>rewire_output_log_to := Some AiTool_type\<rparr>;
                subst = (\<lambda>n. if n = tool then tool1 else n)
            in bind_result (getDirectParentConnections modifiedGraph rootNode) (\<lambda>parents.
                 let allIncomingConnection = filter (\<lambda>cn. connection_type cn = Main_type) parents
                 in bind_result (addConnections
                      (link_input tool1 toolExecutor AiTool_type
                       # map (\<lambda>cn. link_input (subst (from_node cn)) toolExecutor (connection_type cn))
                           allIncomingConnection)
                      (addNode toolExecutor (map_nodes subst modifiedGraph)))
                    (\<lambda>g1. bind_result (removeNode (subst rootNode) False (\<lambda>_. False) g1) (\<lambda>(g2, _). Inr g2))))))"

section \<open>The whole partial run\<close>

text \<open>The entries of the rebuilt stack and of what waits, as the loop keeps them.\<close>

definition queued_of :: "execute_data \<Rightarrow> queued" where
  "queued_of e =
     \<lparr>queued_node = exec_node e,
      queued_data = map (\<lambda>(t, inputs). (t, map slot_or_hole inputs)) (exec_data e),
      queued_source = map_option (map (\<lambda>(t, sources). (t, map slot_or_hole sources))) (exec_source e),
      queued_run = None, queued_metadata = None\<rparr>"

definition waiting_of :: "'d waiting \<Rightarrow> 'd waiting_map" where
  "waiting_of = map (\<lambda>(n, entries). (n, List.map_filter (\<lambda>(i, byType).
     map_option (\<lambda>inputs. (i, map slot_or_hole inputs)) (map_of byType Main_type)) entries))"

record partial_engine =
  inner_engine :: engine
  partial_types_of :: partial_types
  info_types :: node_types
  default_params :: "node_type_info \<Rightarrow> inode \<Rightarrow> (string \<times> json) list option"
  locale_compare :: "string \<Rightarrow> string \<Rightarrow> int"
  fresh_ref :: nat

text \<open>The new workflow fills in default parameters on the node objects that it shares with the graph.\<close>

definition toWorkflow ::
  "partial_engine \<Rightarrow> workflow \<Rightarrow> directed_graph \<Rightarrow> engine_error + workflow \<times> directed_graph" where
  "toWorkflow p w g =
     bind_result (toIConnections g) (\<lambda>cs.
       Inr (new_workflow (info_types p) (default_params p) (map_values (gnodes g)) cs (workflow_pinData w),
            map_nodes (default_parameters (info_types p) (default_params p)) g))"

text \<open>The workflow, the graph and the destination of the run, rewired when the destination is a tool.\<close>

definition tool_target ::
  "partial_engine \<Rightarrow> workflow \<Rightarrow> directed_graph \<Rightarrow> inode \<Rightarrow> bool \<Rightarrow> agent_request option
   \<Rightarrow> engine_error + workflow \<times> directed_graph \<times> inode \<times> bool" where
  "tool_target p w g destination inclusive agentRequest =
     (case partial_types_of p destination of
        None \<Rightarrow> Inl TypeErrorUndefined
      | Some destinationNodeType \<Rightarrow>
          if isTool destinationNodeType (parameters destination) then
            bind_result (rewireGraph (fresh_ref p) destination g agentRequest) (\<lambda>g1.
              bind_result (toWorkflow p w g1) (\<lambda>(w1, g2).
                case getNode w1 TOOL_EXECUTOR_NODE_NAME of
                  None \<Rightarrow> Inl ToolExecutorMissing
                | Some toolExecutorNode \<Rightarrow> Inr (w1, g2, toolExecutorNode, True)))
          else Inr (w, g, destination, inclusive))"

definition start_point ::
  "partial_types \<Rightarrow> workflow \<Rightarrow> string \<Rightarrow> run_data \<Rightarrow> engine_error + inode" where
  "start_point types w destinationName runData =
     bind_result (findTriggerForPartialExecution types w destinationName runData) (\<lambda>trigger.
       case trigger of
         Some t \<Rightarrow> Inr t
       | None \<Rightarrow> (case closest_parent w destinationName runData of
             Some startNode \<Rightarrow> Inr startNode | None \<Rightarrow> Inl NoTriggerConnected))"

text \<open>Steps 2 to 7: the subgraph, the cleaned run data and the rebuilt stack.\<close>

definition partial_steps ::
  "(string \<Rightarrow> string \<Rightarrow> int) \<Rightarrow> directed_graph \<Rightarrow> inode \<Rightarrow> inode \<Rightarrow> run_data \<Rightarrow> pin_data \<Rightarrow> string list
   \<Rightarrow> engine_error + directed_graph \<times> run_data \<times> stack_state" where
  "partial_steps localeCompare g trigger destination runData pinData dirtyNodeNames =
     bind_result (filterDisabledNodes g) (\<lambda>filteredGraph.
       if is_disabled destination then Inl DisabledDestination
       else bind_result (findSubgraph filteredGraph destination trigger) (\<lambda>graph.
         bind_result (cleanRunData runData graph (getNodesByNames graph dirtyNodeNames)) (\<lambda>rd1.
           bind_result (findStartNodes graph trigger destination pinData rd1) (\<lambda>starts.
             bind_result (handleCycles graph starts trigger) (\<lambda>startNodes.
               bind_result (cleanRunData rd1 graph startNodes) (\<lambda>rd2.
                 bind_result (recreateNodeExecutionStack localeCompare graph startNodes rd2 pinData)
                   (\<lambda>stack. Inr (graph, rd2, stack))))))))"

definition partial_state :: "run_data \<Rightarrow> pin_data \<Rightarrow> stack_state \<Rightarrow> exec_state" where
  "partial_state runData pinData stack =
     (start_state (map queued_of (node_execution_stack stack)) runData pinData)
       \<lparr>waiting_items := waiting_of (waiting_execution stack),
        waiting_sources := waiting_of (waiting_execution_source stack),
        next_index := getNextExecutionIndex runData\<rparr>"

definition runPartialWorkflow2 ::
  "partial_engine \<Rightarrow> run_data \<Rightarrow> pin_data \<Rightarrow> string list \<Rightarrow> string \<times> bool \<Rightarrow> agent_request option \<Rightarrow> nat
   \<Rightarrow> engine_error + step_result option" where
  "runPartialWorkflow2 p runData pinData dirtyNodeNames destinationNode agentRequest fuel =
     (let eng = inner_engine p; w0 = flow eng; (destinationName, inclusive) = destinationNode
      in case getNode w0 destinationName of
           None \<Rightarrow> Inl (UnknownNode destinationName)
         | Some destination0 \<Rightarrow>
             bind_result (fromWorkflow (workflow_nodes w0) (connectionsBySourceNode w0)) (\<lambda>g0.
               bind_result (tool_target p w0 g0 destination0 inclusive agentRequest)
                 (\<lambda>(w, g, destination, included).
                   bind_result (start_point (partial_types_of p) w (node_name destination) runData) (\<lambda>trigger.
                     bind_result (partial_steps (locale_compare p) g trigger destination runData pinData dirtyNodeNames)
                       (\<lambda>(graph, rd, stack).
                         processRunExecutionData
                           (eng\<lparr>flow := w, destination_name := Some (node_name destination),
                                destination_inclusive := included,
                                run_node_filter := Some (map node_name (map_values (getNodes graph)))\<rparr>)
                           fuel (partial_state rd pinData stack))))))"

end
