(* ===== verification/Graph_Import.thy ===== *)
theory Graph_Import
  imports Directed_Graph Workflow_Class
begin

text \<open>
  What \<open>DirectedGraph.fromWorkflow\<close> makes of a workflow: the graph has the workflow's nodes and, for
  every stored connection, one connection between the nodes of these names. The reachability of nodes
  in the graph is that of names in the workflow, so the searches of the class \<open>Workflow\<close> and those of
  the graph agree.
\<close>

section \<open>The loops over the nested connections\<close>

lemma fold_result_concat: "fold_result f (concat xss) s = fold_result (fold_result f) xss s"
proof (induction xss arbitrary: s)
  case (Cons xs xss)
  then have "fold_result f (concat xss) = fold_result (fold_result f) xss" by (intro ext)
  then show ?case by (simp add: fold_result_append)
qed simp

lemma fold_result_map: "fold_result f (map h xs) s = fold_result (\<lambda>x. f (h x)) xs s"
proof (induction xs arbitrary: s)
  case (Cons x xs)
  then have "fold_result f (map h xs) = fold_result (\<lambda>x. f (h x)) xs" by (intro ext)
  then show ?case by simp
qed simp

definition add_stored ::
  "(string \<Rightarrow> inode option) \<Rightarrow> stored_connection \<Rightarrow> directed_graph \<Rightarrow> engine_error + directed_graph" where
  "add_stored lookup = (\<lambda>(s, t, i, c) g.
     case lookup s of
       None \<Rightarrow> Inl (UnknownNode s)
     | Some from \<Rightarrow>
         (case lookup (conn_node c) of
            None \<Rightarrow> Inl (UnknownNode (conn_node c))
          | Some to \<Rightarrow> addConnection \<lparr>ci_from = from, ci_to = to, ci_type = Some t,
                         ci_output = Some i, ci_input = Some (conn_index c)\<rparr> g))"

lemma addIConnections_stored:
  assumes "\<And>s byType. (s, byType) \<in> set (object_entries cs) \<Longrightarrow> lookup s \<noteq> None"
  shows "addIConnections lookup cs g = fold_result (add_stored lookup) (stored_connections cs) g"
proof -
  have outputs: "fold_result (\<lambda>(outputIndex, conns).
               fold_result (\<lambda>conn g.
                 case lookup (conn_node conn) of
                   None \<Rightarrow> Inl (UnknownNode (conn_node conn))
                 | Some to \<Rightarrow>
                     addConnection \<lparr>ci_from = src, ci_to = to, ci_type = Some t,
                       ci_output = Some outputIndex, ci_input = Some (conn_index conn)\<rparr> g)
                 (case conns of Some cs \<Rightarrow> cs | None \<Rightarrow> []))
               (List.enumerate 0 outs) g
      = fold_result (add_stored lookup) (stored_outputs s t outs) g"
    if "lookup s = Some src" for s t outs src g
    unfolding stored_outputs_def fold_result_concat fold_result_map
    using that by (intro fold_result_cong) (auto simp: fold_result_map add_stored_def split: prod.splits)
  show ?thesis
    unfolding addIConnections_def stored_connections_def fold_result_concat fold_result_map
  proof (intro fold_result_cong refl, clarify)
    fix s byType and g :: directed_graph
    assume "(s, byType) \<in> set (object_entries cs)"
    with assms obtain src where s: "lookup s = Some src" by blast
    show "(case lookup s of None \<Rightarrow> Inl (UnknownNode s)
       | Some from \<Rightarrow> fold_result (\<lambda>(outputType, outputs).
             fold_result (\<lambda>(outputIndex, conns).
               fold_result (\<lambda>conn g.
                 case lookup (conn_node conn) of
                   None \<Rightarrow> Inl (UnknownNode (conn_node conn))
                 | Some to \<Rightarrow>
                     addConnection \<lparr>ci_from = from, ci_to = to, ci_type = Some outputType,
                       ci_output = Some outputIndex, ci_input = Some (conn_index conn)\<rparr> g)
                 (case conns of Some cs \<Rightarrow> cs | None \<Rightarrow> []))
               (List.enumerate 0 outputs))
             (object_entries byType) g)
      = fold_result (add_stored lookup)
          (concat (map (\<lambda>(type, outputs). stored_outputs s type outputs) (object_entries byType))) g"
      unfolding s option.case fold_result_concat fold_result_map
      by (intro fold_result_cong) (auto simp: outputs [OF s] split: prod.splits)
  qed
qed

section \<open>The graph of a workflow\<close>

definition connection_at :: "(string \<times> inode) list \<Rightarrow> stored_connection \<Rightarrow> graph_connection" where
  "connection_at ns = (\<lambda>(s, t, i, c).
     \<lparr>from_node = the (map_of ns s), to_node = the (map_of ns (conn_node c)), connection_type = t,
      output_index = i, input_index = conn_index c\<rparr>)"

lemma add_stored_known:
  assumes "\<And>s t i c. (s, t, i, c) \<in> set xs \<Longrightarrow> map_of ns s \<noteq> None \<and> map_of ns (conn_node c) \<noteq> None"
  shows "fold_result (add_stored (map_of ns)) xs g
    = addConnections (map input_of_connection (map (connection_at ns) xs)) g"
  unfolding addConnections_def fold_result_map
proof (intro fold_result_cong refl)
  fix x and g :: directed_graph
  assume "x \<in> set xs"
  moreover obtain s t i c where x: "x = (s, t, i, c)" by (cases x)
  ultimately have "map_of ns s \<noteq> None \<and> map_of ns (conn_node c) \<noteq> None" using assms by blast
  then show "add_stored (map_of ns) x g = addConnection (input_of_connection (connection_at ns x)) g"
    by (auto simp: x add_stored_def connection_at_def input_of_connection_def)
qed

text \<open>Names and types without a dash, as the graph's keys need.\<close>

definition dash_free_workflow :: "workflow \<Rightarrow> bool" where
  "dash_free_workflow w \<longleftrightarrow> list_all (\<lambda>(n, node). CHR ''-'' \<notin> set n) (workflow_nodes w)
     \<and> list_all (\<lambda>(s, t, i, c). CHR ''-'' \<notin> set t) (stored_connections (connectionsBySourceNode w))"

lemma fromWorkflow_result:
  assumes wf: "wf_workflow w" and dash: "dash_free_workflow w"
  shows "\<exists>g. fromWorkflow (workflow_nodes w) (connectionsBySourceNode w) = Inr g \<and> wf_graph g
    \<and> dash_free g \<and> nodes_of g = set (map_values (workflow_nodes w))
    \<and> connections_of g = set (map (connection_at (workflow_nodes w))
         (stored_connections (connectionsBySourceNode w)))"
proof -
  let ?ns = "workflow_nodes w" and ?cs = "connectionsBySourceNode w"
  let ?start = "addNodes (object_values ?ns) empty_graph"
  let ?new = "map (connection_at ?ns) (stored_connections ?cs)"
  have ns: "distinct (map_keys ?ns)" "\<And>k n. (k, n) \<in> set ?ns \<Longrightarrow> node_name n = k"
    using wf by (auto simp: wf_workflow_def)
  have vals: "object_values ?ns = map_values (object_entries ?ns)"
    by (simp add: object_values_def object_entries_def)
  have keys: "distinct (map_keys (object_entries ?ns))" "set (object_entries ?ns) = set ?ns"
    using ns(1) by (simp_all add: set_object_entries distinct_own_keys)
  have g0: "?start = \<lparr>gnodes = object_entries ?ns, gconnections = []\<rparr>"
    using fold_map_set_values [of "object_entries ?ns" node_name] keys ns(2)
    by (auto simp: vals gnodes_addNodes empty_graph_def intro!: directed_graph.equality)
  have wf0: "wf_graph ?start" and nodes0: "nodes_of ?start = set (map_values ?ns)"
    using keys ns(2) by (auto simp: g0 wf_graph_def wf_nodes_def wf_connections_def)
  have stored: "map_of ?ns s \<noteq> None \<and> map_of ?ns (conn_node c) \<noteq> None"
    if "(s, t, i, c) \<in> set (stored_connections ?cs)" for s t i c
  proof -
    from that have "c \<in> set (conns_at ?cs s t i)"
      using wf by (simp add: wf_workflow_def set_stored_connections)
    then have "s \<in> set (map_keys ?cs)"
      by (cases "map_of ?cs s") (force simp: conns_at_def dest!: map_of_SomeD)+
    with wf have "s \<in> set (map_keys ?ns)" unfolding wf_workflow_def by blast
    moreover have "conn_node c \<in> set (map_keys ?ns)" using that wf unfolding wf_workflow_def by blast
    ultimately show ?thesis by (simp add: map_of_eq_None_iff)
  qed
  have found: "in_graph ?start (the (map_of ?ns s)) \<and> node_name (the (map_of ?ns s)) = s"
    if "map_of ?ns s \<noteq> None" for s
  proof -
    from that obtain n where n: "map_of ?ns s = Some n" by blast
    then have "(s, n) \<in> set ?ns" by (rule map_of_SomeD)
    then have "node_name n = s" "n \<in> nodes_of ?start" unfolding nodes0 using ns(2) by force+
    with n wf_graph_in_graph_iff [OF wf0] show ?thesis by simp
  qed
  have new: "in_graph ?start (from_node c) \<and> in_graph ?start (to_node c)
      \<and> CHR ''-'' \<notin> set (node_name (from_node c)) \<and> CHR ''-'' \<notin> set (connection_type c)"
    if "c \<in> set ?new" for c
  proof -
    from that obtain s t i d where d: "(s, t, i, d) \<in> set (stored_connections ?cs)"
      and c: "c = connection_at ?ns (s, t, i, d)" by auto
    from stored [OF d] have k: "map_of ?ns s \<noteq> None" "map_of ?ns (conn_node d) \<noteq> None" by simp_all
    then obtain n where "(s, n) \<in> set ?ns" by (auto dest: map_of_SomeD)
    with dash d have "CHR ''-'' \<notin> set s" "CHR ''-'' \<notin> set t"
      by (auto simp: dash_free_workflow_def list_all_iff)
    with found [OF k(1)] found [OF k(2)] show ?thesis by (simp add: c connection_at_def)
  qed
  let ?g = "?start\<lparr>gconnections := fold (\<lambda>c. map_set (makeKey c) c) ?new []\<rparr>"
  have "addConnections (map input_of_connection ?new) ?start = Inr ?g"
  proof -
    have "gconnections ?start = []" by (simp add: g0)
    with addConnections_input_of [of ?new ?start] new show ?thesis by metis
  qed
  moreover have "addIConnections (map_of ?ns) ?cs ?start = addConnections (map input_of_connection ?new) ?start"
  proof -
    have "map_of ?ns s \<noteq> None" if "(s, bt) \<in> set (object_entries ?cs)" for s bt
    proof -
      from that have "s \<in> set (own_keys ?cs)" by (auto simp: object_entries_def)
      with wf show ?thesis unfolding wf_workflow_def map_of_eq_None_iff by auto
    qed
    from addIConnections_stored [of ?cs "map_of ?ns" ?start, OF this]
      add_stored_known [of "stored_connections ?cs" ?ns ?start, OF stored]
    show ?thesis by (rule trans)
  qed
  ultimately have g: "fromWorkflow ?ns ?cs = Inr ?g" by (simp add: fromWorkflow_def)
  have conns: "connections_of ?g = set ?new"
    using values_fold_map_set [of ?start "[]" ?new] new by (simp add: wf_connections_def)
  have "wf_connections ?start (fold (\<lambda>c. map_set (makeKey c) c) ?new [])"
    using new by (intro wf_connections_fold_map_set) (auto simp: wf_connections_def)
  with wf0 have "wf_graph ?g" by (simp add: wf_graph_def)
  moreover have "dash_free ?g"
    using new ns(2) dash unfolding dash_free_def conns
    by (auto simp: dash_free_workflow_def list_all_iff keys(2) g0)
  ultimately show ?thesis using g conns nodes0 by (intro exI [of _ ?g]) simp
qed

end
