(* ===== verification/Partial_Composition.thy ===== *)
theory Partial_Composition
  imports Partial_Run Graph_Import Execution_Invariants Execution_Termination
begin

text \<open>
  The steps of a partial run fit together: what a step assumes of its graph and its nodes is what the
  steps before it deliver, so no assertion fails on the way from the workflow to the rebuilt stack.
\<close>

section \<open>Reachability by name and in the graph\<close>

text \<open>A connection is stored under its own type, and the connections by destination are those of the
  workflow.\<close>

definition typed_workflow :: "workflow \<Rightarrow> bool" where
  "typed_workflow w \<longleftrightarrow>
     list_all (\<lambda>(s, t, i, c). conn_type c = t) (stored_connections (connectionsBySourceNode w))
     \<and> connectionsByDestinationNode w = mapConnectionsByDestination (connectionsBySourceNode w)"

lemma items_at_iff: "x \<in> set (items_at outs i) \<longleftrightarrow> (\<exists>cs. i < length outs \<and> outs ! i = Some cs \<and> x \<in> set cs)"
  by (cases "arr_item outs i") (auto simp: items_at_def arr_item_def split: if_splits)

lemma set_connections_in: "x \<in> set (connections_in outs) \<longleftrightarrow> (\<exists>i. x \<in> set (items_at outs i))"
proof -
  have "x \<in> set (connections_in outs) \<longleftrightarrow> (\<exists>cs. Some cs \<in> set outs \<and> x \<in> set cs)"
    by (force simp: connections_in_def split: option.splits)
  then show ?thesis unfolding items_at_iff in_set_conv_nth [of "Some _"] by metis
qed

lemma hop_conns_at:
  "(n, m) \<in> hop (OneType t) cs \<longleftrightarrow> (\<exists>i c. c \<in> set (conns_at cs n t i) \<and> conn_node c = m)"
proof (cases "map_of cs n")
  case (Some byType)
  then show ?thesis
    by (cases "map_of byType t")
      (simp_all add: hop_def connected_targets_def connection_types_of_def conns_at_def image_iff Bex_def
        set_connections_in, metis)
qed (simp add: hop_def conns_at_def)

lemma hop_stored:
  assumes "wf_iconnections (connectionsBySourceNode w)" and "typed_workflow w"
  shows "(m, n) \<in> hop (OneType t) (connectionsByDestinationNode w)
    \<longleftrightarrow> (\<exists>i c. (n, t, i, c) \<in> set (stored_connections (connectionsBySourceNode w)) \<and> conn_node c = m)"
proof -
  let ?cs = "connectionsBySourceNode w"
  have typed: "conn_type c = u" if "c \<in> set (conns_at ?cs s u i)" for s u i c
    using that assms set_stored_connections [OF assms(1), of s u i c]
    by (auto simp: typed_workflow_def list_all_iff)
  have "(m, n) \<in> hop (OneType t) (connectionsByDestinationNode w) \<longleftrightarrow>
      (\<exists>j (e :: iconnection). \<lparr>conn_node = m, conn_type = t, conn_index = j\<rparr>
          \<in> set (conns_at ?cs (conn_node e) (conn_type e) (conn_index e)) \<and> conn_node e = n)"
    using assms(2) unfolding hop_conns_at typed_workflow_def
    by (simp only: mapConnectionsByDestination_mem [OF assms(1)])
  also have "\<dots> \<longleftrightarrow> (\<exists>i c. c \<in> set (conns_at ?cs n t i) \<and> conn_node c = m)"
  proof (intro iffI; elim exE conjE)
    fix j and e :: iconnection assume a: "\<lparr>conn_node = m, conn_type = t, conn_index = j\<rparr>
          \<in> set (conns_at ?cs (conn_node e) (conn_type e) (conn_index e))" "conn_node e = n"
    from typed [OF a(1)] a show "\<exists>i c. c \<in> set (conns_at ?cs n t i) \<and> conn_node c = m"
      by (intro exI [of _ "conn_index e"] exI [of _ "\<lparr>conn_node = m, conn_type = t, conn_index = j\<rparr>"]) auto
  next
    fix i c assume a: "c \<in> set (conns_at ?cs n t i)" "conn_node c = m"
    from typed [OF a(1)] a(2) have "\<lparr>conn_node = m, conn_type = t, conn_index = conn_index c\<rparr> = c" by simp
    with a(1) show "\<exists>j (e :: iconnection). \<lparr>conn_node = m, conn_type = t, conn_index = j\<rparr>
          \<in> set (conns_at ?cs (conn_node e) (conn_type e) (conn_index e)) \<and> conn_node e = n"
      by (intro exI [of _ "conn_index c"] exI [of _ "\<lparr>conn_node = n, conn_type = t, conn_index = i\<rparr>"]) simp
  qed
  finally show ?thesis by (simp add: set_stored_connections [OF assms(1)])
qed

text \<open>The graph of a workflow.\<close>

definition graph_of :: "workflow \<Rightarrow> directed_graph \<Rightarrow> bool" where
  "graph_of w g \<longleftrightarrow> wf_graph g \<and> dash_free g \<and> Directed_Graph.nodes_of g = set (map_values (workflow_nodes w))
     \<and> Directed_Graph.connections_of g
         = set (map (connection_at (workflow_nodes w)) (stored_connections (connectionsBySourceNode w)))"

lemma getNode_in:
  assumes "wf_workflow w" and "graph_of w g"
  shows "getNode w n = Some node \<longleftrightarrow> in_graph g node \<and> node_name node = n"
proof -
  have "distinct (map_keys (workflow_nodes w))" "\<And>k m. (k, m) \<in> set (workflow_nodes w) \<Longrightarrow> node_name m = k"
    using assms(1) by (auto simp: wf_workflow_def)
  then have "map_of (workflow_nodes w) n = Some node \<longleftrightarrow> node \<in> set (map_values (workflow_nodes w)) \<and> node_name node = n"
    by (force simp: map_of_set [symmetric])
  with assms(2) show ?thesis by (simp add: getNode_def graph_of_def wf_graph_in_graph_iff)
qed

lemma stored_known:
  assumes "wf_workflow w" and "(s, t, i, c) \<in> set (stored_connections (connectionsBySourceNode w))"
  shows "getNode w s \<noteq> None" and "getNode w (conn_node c) \<noteq> None"
proof -
  from assms have "c \<in> set (conns_at (connectionsBySourceNode w) s t i)"
    by (simp add: wf_workflow_def set_stored_connections)
  then have "s \<in> set (map_keys (connectionsBySourceNode w))"
    by (cases "map_of (connectionsBySourceNode w) s") (force simp: conns_at_def dest!: map_of_SomeD)+
  then have "s \<in> set (map_keys (workflow_nodes w))"
    using assms(1) unfolding wf_workflow_def by blast
  moreover have "conn_node c \<in> set (map_keys (workflow_nodes w))"
    using assms unfolding wf_workflow_def by blast
  ultimately show "getNode w s \<noteq> None" and "getNode w (conn_node c) \<noteq> None"
    by (simp_all add: getNode_def map_of_eq_None_iff)
qed

lemma main_edges_hop:
  assumes "wf_workflow w" and "typed_workflow w" and "graph_of w g" and "in_graph g a" and "in_graph g b"
  shows "(a, b) \<in> main_edges g
    \<longleftrightarrow> (node_name b, node_name a) \<in> hop (OneType Main_type) (connectionsByDestinationNode w)"
proof -
  have wf: "wf_iconnections (connectionsBySourceNode w)" using assms(1) by (simp add: wf_workflow_def)
  let ?st = "set (stored_connections (connectionsBySourceNode w))"
  have node: "the (map_of (workflow_nodes w) n) = x \<longleftrightarrow> node_name x = n"
    if "getNode w n \<noteq> None" "in_graph g x" for n x
  proof -
    from that(1) obtain m where m: "getNode w n = Some m" by blast
    with getNode_in [OF assms(1,3)] have "in_graph g m" "node_name m = n" by blast+
    with that(2) have "m = x \<longleftrightarrow> node_name x = n" using in_graph_name_eq by blast
    with m show ?thesis by (simp add: getNode_def)
  qed
  have conns: "Directed_Graph.connections_of g = connection_at (workflow_nodes w) ` ?st"
    using assms(3) by (simp add: graph_of_def)
  have "(a, b) \<in> main_edges g \<longleftrightarrow> (\<exists>s i c. (s, Main_type, i, c) \<in> ?st
      \<and> the (map_of (workflow_nodes w) s) = a \<and> the (map_of (workflow_nodes w) (conn_node c)) = b)"
    (is "_ \<longleftrightarrow> ?R")
  proof
    assume "(a, b) \<in> main_edges g"
    then obtain x where x: "x \<in> ?st" "connection_type (connection_at (workflow_nodes w) x) = Main_type"
      "a = from_node (connection_at (workflow_nodes w) x)" "b = to_node (connection_at (workflow_nodes w) x)"
      unfolding main_edges_iff conns by blast
    obtain s t i c where "x = (s, t, i, c)" by (cases x)
    with x have "(s, Main_type, i, c) \<in> ?st \<and> the (map_of (workflow_nodes w) s) = a
        \<and> the (map_of (workflow_nodes w) (conn_node c)) = b" by (simp add: connection_at_def)
    then show ?R by blast
  next
    assume ?R
    then obtain s i c where x: "(s, Main_type, i, c) \<in> ?st" "the (map_of (workflow_nodes w) s) = a"
      "the (map_of (workflow_nodes w) (conn_node c)) = b" by blast
    show "(a, b) \<in> main_edges g"
      unfolding main_edges_iff conns
      by (rule bexI [OF _ imageI [OF x(1)]]) (simp add: connection_at_def x(2,3))
  qed
  also have "\<dots> \<longleftrightarrow> (\<exists>s i c. (s, Main_type, i, c) \<in> ?st \<and> node_name a = s \<and> node_name b = conn_node c)"
    using stored_known [OF assms(1)] by (intro ex_cong1 conj_cong refl node assms(4,5)) blast+
  also have "\<dots> \<longleftrightarrow> (\<exists>i c. (node_name a, Main_type, i, c) \<in> ?st \<and> conn_node c = node_name b)"
    by metis
  finally show ?thesis unfolding hop_stored [OF wf assms(2)] .
qed

lemma getParentNodes_main:
  assumes "wf_workflow w" and "typed_workflow w" and "graph_of w g" and "in_graph g d"
  shows "set (workflow_getParentNodes w (node_name d) (OneType Main_type) (- 1))
    = node_name ` {n. (n, d) \<in> (main_edges g)\<^sup>+ \<and> n \<noteq> d}"
proof -
  let ?H = "hop (OneType Main_type) (connectionsByDestinationNode w)"
  have wf: "wf_iconnections (connectionsBySourceNode w)" and wg: "wf_graph g"
    using assms(1,3) by (simp_all add: wf_workflow_def graph_of_def)
  have known: "\<exists>y. in_graph g y \<and> node_name y = n" if "(m, n) \<in> ?H" for m n
    using that stored_known(1) [OF assms(1)] getNode_in [OF assms(1,3)]
    unfolding hop_stored [OF wf assms(2)] by blast
  have "\<exists>y. node_name y = n \<and> (y, d) \<in> (main_edges g)\<^sup>+" if "(node_name d, n) \<in> ?H\<^sup>+" for n
    using that
  proof (induction rule: trancl_induct)
    case (base n)
    with known obtain y where "in_graph g y" "node_name y = n" by blast
    with base main_edges_hop [OF assms(1-3) _ assms(4), of y] show ?case by blast
  next
    case (step m n)
    then obtain x where x: "node_name x = m" "(x, d) \<in> (main_edges g)\<^sup>+" by blast
    then have "in_graph g x"
      using wg edges_trancl_in_graph [OF wg] trancl_mono [OF _ main_edges_subset] by blast
    moreover obtain y where y: "in_graph g y" "node_name y = n" using known step.hyps by blast
    ultimately have "(y, x) \<in> main_edges g"
      using main_edges_hop [OF assms(1-3), of y x] step.hyps x(1) by blast
    with x(2) have "(y, d) \<in> (main_edges g)\<^sup>+" by (rule trancl_into_trancl2 [rotated])
    with y(2) show ?case by blast
  qed
  moreover have "(node_name d, node_name n) \<in> ?H\<^sup>+" if "(n, d) \<in> (main_edges g)\<^sup>+" for n
    using that
  proof (induction rule: converse_trancl_induct)
    case (base y)
    moreover from base have "in_graph g y" using edges_in_graph [OF wg] main_edges_subset by blast
    ultimately show ?case using main_edges_hop [OF assms(1-3), of y d] assms(4) by blast
  next
    case (step y z)
    moreover from step have "in_graph g y" "in_graph g z"
      using edges_in_graph [OF wg] main_edges_subset by blast+
    ultimately show ?case using main_edges_hop [OF assms(1-3), of y z] by (meson trancl.trancl_into_trancl)
  qed
  moreover have "node_name n \<noteq> node_name d" if "(n, d) \<in> (main_edges g)\<^sup>+" "n \<noteq> d" for n
    using that assms(4) edges_trancl_in_graph [OF wg, of n d] trancl_mono [OF that(1) main_edges_subset]
      in_graph_name_eq [of g n d] by blast
  ultimately have "n \<in> ?H\<^sup>+ `` {node_name d} - {node_name d}
      \<longleftrightarrow> n \<in> node_name ` {n. (n, d) \<in> (main_edges g)\<^sup>+ \<and> n \<noteq> d}" for n
    unfolding Diff_iff Image_singleton_iff singleton_iff image_iff mem_Collect_eq bex_simps by metis
  then have "?H\<^sup>+ `` {node_name d} - {node_name d} = node_name ` {n. (n, d) \<in> (main_edges g)\<^sup>+ \<and> n \<noteq> d}"
    by (rule set_eqI)
  then show ?thesis
    unfolding workflow_getParentNodes_def getParentNodes_def
    using getConnectedNodes_spec [of "connectionsByDestinationNode w" "node_name d" "OneType Main_type" "- 1"]
    by (simp add: hops_allowed_def reached_infinity)
qed

section \<open>The trigger\<close>

lemma parent_triggers_result:
  assumes "\<And>n. n \<in> set ns \<Longrightarrow> \<exists>node ty. getNode w n = Some node \<and> types node = Some ty"
  shows "parent_triggers types w ns = Inr (filter (\<lambda>n. case types n of None \<Rightarrow> False | Some ty \<Rightarrow> isTriggerNode ty)
    (map (\<lambda>n. the (getNode w n)) ns))"
  using assms by (induction ns) fastforce+

lemma choose_trigger_mem:
  assumes "choose_trigger w rd ts = Some t"
  shows "t \<in> set ts"
proof (cases "find (\<lambda>n. map_has rd (node_name n)) ts")
  case (Some n)
  with assms have "n = t" by (simp add: choose_trigger_def)
  with Some show ?thesis by (metis find_Some_iff nth_mem)
next
  case None
  let ?ps = "filter (\<lambda>n. getPinDataOfNode w (node_name n) \<noteq> None) ts"
  show ?thesis
  proof (cases "sort_by webhooks_first ?ps")
    case Nil
    with None assms have "t \<in> set (filter is_webhook ts) \<or> arr_get ts 0 = Some t"
      by (cases "filter is_webhook ts") (auto simp: choose_trigger_def)
    then show ?thesis by (auto simp: arr_get_def split: if_splits)
  next
    case (Cons n ns)
    with None assms have "n = t" by (simp add: choose_trigger_def)
    with Cons have "t \<in> set (sort_by webhooks_first ?ps)" by simp
    then show ?thesis by simp
  qed
qed

text \<open>Both the trigger and the fallback are enabled and lead to the destination.\<close>

lemma start_point_reaches:
  assumes "wf_workflow w" and "typed_workflow w" and "graph_of w g" and "in_graph g d"
    and "start_point types w (node_name d) rd = Inr t"
  shows "in_graph g t \<and> \<not> is_disabled t \<and> (t, d) \<in> (main_edges g)\<^sup>*"
proof -
  have node: "getNode w (node_name d) = Some d" using getNode_in [OF assms(1,3)] assms(4) by blast
  have parent: "in_graph g n \<and> (n, d) \<in> (main_edges g)\<^sup>*"
    if p: "m \<in> set (workflow_getParentNodes w (node_name d) (OneType Main_type) (- 1))"
      and n: "getNode w m = Some n" for m n
  proof -
    from p obtain x where x: "(x, d) \<in> (main_edges g)\<^sup>+" "node_name x = m"
      unfolding getParentNodes_main [OF assms(1-4)] by blast
    moreover have "in_graph g x"
      using x(1) assms(3) edges_trancl_in_graph trancl_mono [OF _ main_edges_subset] unfolding graph_of_def by blast
    moreover from n have "in_graph g n" "node_name n = m" using getNode_in [OF assms(1,3)] by blast+
    ultimately have "n = x" using in_graph_name_eq by blast
    with x(1) \<open>in_graph g x\<close> show ?thesis by (simp add: trancl_into_rtrancl)
  qed
  have triggers: "\<exists>m \<in> set ms. getNode w m = Some n"
    if "parent_triggers types w ms = Inr ts" "n \<in> set ts" for ms ts n
    using that
  proof (induction ms arbitrary: ts)
    case (Cons a ms)
    from Cons.prems(1) obtain node rest ty where "getNode w a = Some node"
      "parent_triggers types w ms = Inr rest" "types node = Some ty"
      "ts = (if isTriggerNode ty then node # rest else rest)"
      by (cases "getNode w a"; cases "types (the (getNode w a))") (auto simp: js_simps)
    with Cons.IH [of rest] Cons.prems(2) show ?case by (auto split: if_splits)
  qed simp
  consider (Found) "findTriggerForPartialExecution types w (node_name d) rd = Inr (Some t)"
    | (Fallback) "closest_parent w (node_name d) rd = Some t"
    using assms(5) by (auto simp: start_point_def js_simps split: option.splits)
  then show ?thesis
  proof cases
    case Found
    then have "t = d \<and> \<not> is_disabled t \<or> (\<exists>ts. parent_triggers types w
        (workflow_getParentNodes w (node_name d) (OneType Main_type) (- 1)) = Inr ts
        \<and> t \<in> set ts \<and> \<not> is_disabled t)"
      by (auto simp: findTriggerForPartialExecution_def findAllParentTriggers_def node js_simps
          split: option.splits if_splits dest!: choose_trigger_mem)
    with triggers parent assms(4) show ?thesis by blast
  next
    case Fallback
    then obtain m where m: "find (\<lambda>n. (case getNode w n of None \<Rightarrow> False | Some node \<Rightarrow> \<not> is_disabled node)
          \<and> map_has rd n) (workflow_getParentNodes w (node_name d) (OneType Main_type) (- 1)) = Some m"
      "getNode w m = Some t" by (auto simp: closest_parent_def Option.bind_eq_Some_conv)
    from m(1) have "m \<in> set (workflow_getParentNodes w (node_name d) (OneType Main_type) (- 1))"
      "case getNode w m of None \<Rightarrow> False | Some node \<Rightarrow> \<not> is_disabled node"
      by (auto simp: find_Some_iff)
    with m(2) parent show ?thesis by auto
  qed
qed

section \<open>The steps\<close>

lemma path_not_back:
  assumes "(x, d) \<in> (R - {t} \<times> UNIV)\<^sup>*" and "t \<noteq> d"
  shows "(x, d) \<in> (R - UNIV \<times> {t})\<^sup>*"
  using assms(1)
proof (induction rule: converse_rtrancl_induct)
  case (step x z)
  have "z \<noteq> t"
    using step.hyps(2) assms(2) by (auto elim: converse_rtranclE)
  with step show ?case by (blast intro: converse_rtrancl_into_rtrancl)
qed simp

lemma path_from_trigger:
  assumes "(t, d) \<in> R\<^sup>*"
  shows "(t, d) \<in> (R - UNIV \<times> {t})\<^sup>*"
proof (cases "t = d")
  case False
  with rtrancl_leave [OF assms] obtain y where y: "(t, y) \<in> R" "(y, d) \<in> (R - {t} \<times> UNIV)\<^sup>*" by blast
  with False have "y \<noteq> t" by (auto elim: converse_rtranclE)
  with y path_not_back [OF y(2) False] show ?thesis by (blast intro: converse_rtrancl_into_rtrancl)
qed simp

lemma path_to_destination:
  assumes "(t, d) \<in> R\<^sup>*"
  shows "(t, d) \<in> (R - {d} \<times> UNIV)\<^sup>*"
proof -
  have conv: "((R - {d} \<times> UNIV)\<inverse>) = R\<inverse> - UNIV \<times> {d}" by auto
  from assms have "(d, t) \<in> (R\<inverse>)\<^sup>*" by (simp add: rtrancl_converse)
  from path_from_trigger [OF this] show ?thesis by (metis conv converse_iff rtrancl_converse)
qed

lemma findSubgraph_ends:
  assumes "wf_graph g" and "in_graph g d" and "in_graph g t" and "(t, d) \<in> (main_edges g)\<^sup>*"
  shows "\<exists>s. findSubgraph g d t = Inr s \<and> subgraph_of s g \<and> in_graph s t \<and> in_graph s d"
proof -
  let ?N = "ends (kept_from g d t d []) \<union> (if d = t then {t} else {})"
  from findSubgraph_result [OF assms(1-3)] obtain s where s: "findSubgraph g d t = Inr s" "subgraph_of s g"
    and "Directed_Graph.nodes_of s = ?N \<union> ends (utility_connections g ?N)" by blast
  then have nodes: "n \<in> Directed_Graph.nodes_of s" if "n \<in> ?N" for n using that by simp
  have "t \<in> Directed_Graph.nodes_of s"
    by (rule nodes, rule kept_complete [OF rtrancl_refl path_from_trigger [OF assms(4)]])
  moreover have "d \<in> Directed_Graph.nodes_of s"
    by (rule nodes, rule kept_complete [OF path_to_destination [OF assms(4)] rtrancl_refl])
  ultimately show ?thesis using s by (auto simp: subgraph_of_def wf_graph_in_graph_iff)
qed

lemma getNodesByNames_in:
  assumes "wf_graph g" and "n \<in> set (getNodesByNames g names)"
  shows "in_graph g n"
proof -
  have "set (fold (\<lambda>name nodes. case map_of (gnodes g) name of None \<Rightarrow> nodes
      | Some node \<Rightarrow> set_add node nodes) names acc) \<subseteq> set acc \<union> Directed_Graph.nodes_of g" for acc
  proof (induction names arbitrary: acc)
    case (Cons a names)
    show ?case
    proof (cases "map_of (gnodes g) a")
      case (Some m)
      then have "m \<in> Directed_Graph.nodes_of g" by (force dest: map_of_SomeD)
      with Cons.IH [of "set_add m acc"] Some show ?thesis by auto
    qed (use Cons.IH [of acc] in simp)
  qed simp
  with assms show ?thesis by (fastforce simp: wf_graph_in_graph_iff)
qed

lemma reachable_in_graph: "wf_graph g \<Longrightarrow> in_graph g a \<Longrightarrow> (a, b) \<in> (edges g)\<^sup>* \<Longrightarrow> in_graph g b"
  by (metis edges_trancl_in_graph rtranclD)

lemma partial_steps_result:
  assumes g: "wf_graph g" "dash_free g"
    and chains: "acyclic (main_edges g \<inter> {n. is_disabled n} \<times> {n. is_disabled n})"
    and d: "in_graph g d" "\<not> is_disabled d" and t: "in_graph g t" "\<not> is_disabled t"
    and reach: "(t, d) \<in> (main_edges g)\<^sup>*"
  shows "\<exists>s rd' starts stack. partial_steps lc g t d rd pd dirty = Inr (s, rd', stack)
    \<and> wf_graph s \<and> Directed_Graph.nodes_of s \<subseteq> {n \<in> Directed_Graph.nodes_of g. \<not> is_disabled n}
    \<and> in_graph s t \<and> in_graph s d
    \<and> set starts \<subseteq> (edges s)\<^sup>* `` {t}
    \<and> (\<forall>k. map_of rd' k = None \<or> map_of rd' k = map_of rd k \<and> hasNode s k)
    \<and> node_execution_stack stack = concat (map (entries_of_start lc s rd' pd) starts)
    \<and> recreateNodeExecutionStack lc s starts rd' pd = Inr stack"
proof -
  from filterDisabledNodes_result [OF g chains] obtain g' where g': "filterDisabledNodes g = Inr g'" "wf_graph g'"
    "Directed_Graph.nodes_of g' = {n \<in> Directed_Graph.nodes_of g. \<not> is_disabled n}"
    "(main_edges g')\<^sup>+ = {(a, b) \<in> (main_edges g)\<^sup>+. \<not> is_disabled a \<and> \<not> is_disabled b}" by blast
  have in': "in_graph g' d" "in_graph g' t"
    using g' g d t by (simp_all add: wf_graph_in_graph_iff)
  have "(t, d) \<in> (main_edges g')\<^sup>*"
    using reach g'(4) d(2) t(2) by (auto simp: rtrancl_eq_or_trancl)
  from findSubgraph_ends [OF g'(2) in' this] obtain s where s: "findSubgraph g' d t = Inr s" "wf_graph s"
    "Directed_Graph.nodes_of s \<subseteq> Directed_Graph.nodes_of g'" "in_graph s t" "in_graph s d"
    by (auto simp: subgraph_of_def)
  obtain rd1 where rd1: "cleanRunData rd s (getNodesByNames s dirty) = Inr rd1" and rd1': "\<exists>K. map_of rd1 = without rd (K \<union> {k. \<not> hasNode s k})"
    using cleanRunData_result [OF s(2), of "getNodesByNames s dirty" rd] getNodesByNames_in [OF s(2)] by blast
  obtain st where st: "findStartNodes s t d pd rd1 = Inr st" "distinct st"
    "set st = {n. starts_here s d rd1 pd n \<and> (t, n) \<in> (clean_edges s d rd1 pd)\<^sup>*}"
    using findStartNodes_result [OF s(2,4)] by blast
  have st_reach: "set st \<subseteq> (edges s)\<^sup>* `` {t}"
    using st(3) rtrancl_mono [OF clean_edges_subset] by blast
  from handleCycles_result [OF s(2,4) st(2) st_reach] obtain cs starts F where hc: "handleCycles s st t = Inr starts"
    and F: "\<forall>c \<in> set cs. set c \<inter> set st \<noteq> {} \<longrightarrow> F c \<in> set c
          \<and> depthFirstSearch s t (\<lambda>n. n \<in> set c) = Inr (Some (F c))"
    and starts: "set starts = (set st - set (concat cs)) \<union> F ` {c \<in> set cs. set c \<inter> set st \<noteq> {}}" by blast
  have "(t, F c) \<in> (edges s)\<^sup>*" if "c \<in> set cs" "set c \<inter> set st \<noteq> {}" for c
    using depthFirstSearch_spec [OF s(2,4), of "\<lambda>n. n \<in> set c"] F that by auto
  with starts st_reach have reach': "set starts \<subseteq> (edges s)\<^sup>* `` {t}" by blast
  then have starts_in: "in_graph s n" if "n \<in> set starts" for n
    using that reachable_in_graph [OF s(2,4)] by blast
  obtain rd2 where rd2: "cleanRunData rd1 s starts = Inr rd2" and rd2': "\<exists>K. map_of rd2 = without rd1 (K \<union> {k. \<not> hasNode s k})"
    using cleanRunData_result [OF s(2), of starts rd1] starts_in by blast
  have enabled: "\<not> is_disabled n" if "n \<in> Directed_Graph.nodes_of s" for n using that s(3) g'(3) by blast
  obtain stack where stack: "recreateNodeExecutionStack lc s starts rd2 pd = Inr stack"
    "node_execution_stack stack = concat (map (entries_of_start lc s rd2 pd) starts)"
    using recreateNodeExecutionStack_result [of s starts lc rd2 pd] enabled starts_in by blast
  have "map_of rd2 k = None \<or> map_of rd2 k = map_of rd k \<and> hasNode s k" for k
    using rd1' rd2' by (auto simp: restrict_map_def split: if_splits)
  moreover have "partial_steps lc g t d rd pd dirty = Inr (s, rd2, stack)"
    using d(2) by (simp add: partial_steps_def g'(1) s(1) rd1 st(1) hc rd2 stack(1) del: getNodesByNames.simps)
  ultimately show ?thesis
    using s g'(3) reach' stack by (intro exI [of _ s] exI [of _ rd2] exI [of _ starts] exI [of _ stack]) auto
qed

end
