(* ===== verification/Partial_Start.thy ===== *)
theory Partial_Start
  imports Partial_Composition Partial_Execution_Properties
begin

text \<open>
  The state in which a partial run enters the loop: its maps have one entry per key, every entry of
  the stack has input data, and the next execution index is above those in the run data. With the
  termination of the loop this makes a partial run end.
\<close>

section \<open>The rebuilt stack as a state of the loop\<close>

definition waiting_keys_ok :: "'d waiting \<Rightarrow> bool" where
  "waiting_keys_ok w \<longleftrightarrow> distinct (map_keys w) \<and> list_all (\<lambda>(n, es). distinct (map_keys es)) w"

lemma waiting_keys_set:
  assumes "waiting_keys_ok w"
  shows "waiting_keys_ok (map_set n (map_set r x (entry_or w n [])) w)"
proof -
  have "distinct (map_keys (entry_or w n []))"
    using assms by (auto simp: waiting_keys_ok_def list_all_iff dest!: map_of_SomeD split: option.splits)
  then have "distinct (map_keys (map_set r x (entry_or w n [])))" by (rule AList.distinct_update)
  with assms show ?thesis
    by (auto simp: waiting_keys_ok_def list_all_iff AList.distinct_update set_map_set)
qed

lemma addWaiting_keys:
  assumes "waiting_keys_ok (waiting_execution s)"
  shows "waiting_keys_ok (waiting_execution (addWaiting rd n r c s))"
proof -
  have "waiting_keys_ok (addWaitingExecution w m r t i x)" if "waiting_keys_ok w" for w m r t i x
    unfolding addWaitingExecution_def Let_def using that by (rule waiting_keys_set)
  with assms show ?thesis by (auto simp: addWaiting_def split: option.splits)
qed

lemma addSourceGroup_keys:
  assumes "addSourceGroup rd pd n grp s = Inr s'" and "waiting_keys_ok (waiting_execution s)"
  shows "waiting_keys_ok (waiting_execution s')"
proof -
  have "waiting_keys_ok (waiting_execution (fold (addWaiting rd m r) cs s))" for m r cs
    using assms(2) by (induction cs arbitrary: s) (simp_all add: addWaiting_keys)
  with assms show ?thesis
    by (auto simp: addSourceGroup_def Let_def js_simps split: if_splits)
qed

lemma recreate_keys:
  assumes "recreateNodeExecutionStack lc g starts rd pd = Inr stack"
  shows "waiting_keys_ok (waiting_execution stack)"
proof -
  let ?P = "\<lambda>s. waiting_keys_ok (waiting_execution s)"
  from assms have "fold_result (addStartNode lc g rd pd) starts
      \<lparr>node_execution_stack = [], waiting_execution = [], waiting_execution_source = []\<rparr> = Inr stack"
    by (simp add: recreateNodeExecutionStack_def split: option.splits)
  moreover have "?P \<lparr>node_execution_stack = [], waiting_execution = [], waiting_execution_source = []\<rparr>"
    by (simp add: waiting_keys_ok_def)
  moreover have "?P s'" if "addStartNode lc g rd pd n s = Inr s'" "?P s" for n s s'
  proof -
    from that(1) consider "waiting_execution s' = waiting_execution s"
      | grps where "fold_result (addSourceGroup rd pd n) grps s = Inr s'"
      by (auto simp: addStartNode_def js_simps split: if_splits)
    then show ?thesis
    proof cases
      case 2
      then show ?thesis using that(2) addSourceGroup_keys by (rule fold_result_inv)
    qed (use that(2) in simp)
  qed
  ultimately show ?thesis by (rule fold_result_inv)
qed

lemma waiting_of_keys:
  assumes "waiting_keys_ok w"
  shows "keys_ok (waiting_of w)"
proof -
  have "distinct (map fst (List.map_filter (\<lambda>(i, b). map_option (\<lambda>x. (i, h x)) (map_of b t)) es))"
    if "distinct (map_keys es)" for es :: "(nat \<times> (string \<times> 'b) list) list" and h :: "'b \<Rightarrow> 'c" and t
    using that
  proof (induction es)
    case (Cons p es)
    obtain i b where p: "p = (i, b)" by (cases p)
    have "set (map fst (List.map_filter (\<lambda>(i, b). map_option (\<lambda>x. (i, h x)) (map_of b t)) es)) \<subseteq> set (map_keys es)"
      by (induction es) (auto simp: List.map_filter_simps split: option.splits)
    with Cons show ?case by (auto simp: p List.map_filter_simps split: option.splits)
  qed (simp add: List.map_filter_simps)
  with assms show ?thesis
    by (auto simp: keys_ok_def waiting_of_def waiting_keys_ok_def list_all_iff comp_def case_prod_beta)
qed

lemma partial_state_ok:
  assumes "recreateNodeExecutionStack lc g starts rd pd = Inr stack"
    and "node_execution_stack stack = concat (map (entries_of_start lc g rd pd) starts)"
  shows "state_ok (partial_state rd pd stack)"
proof -
  have "has_main (queued_of e)" if "e \<in> set (node_execution_stack stack)" for e
    using that unfolding assms(2)
    by (auto simp: entries_of_start_def initialExecuteData_def entry_of_group_def has_main_def queued_of_def
        map_has_def split: if_splits)
  with waiting_of_keys [OF recreate_keys [OF assms(1)]] show ?thesis
    by (simp add: state_ok_def partial_state_def start_state_def list_all_iff)
qed

section \<open>The whole run\<close>

abbreviation partial_workflow :: "partial_engine \<Rightarrow> workflow" where
  "partial_workflow p \<equiv> flow (inner_engine p)"

abbreviation partial_loop :: "partial_engine \<Rightarrow> string \<Rightarrow> bool \<Rightarrow> directed_graph \<Rightarrow> engine" where
  "partial_loop p d inclusive s \<equiv> (inner_engine p)\<lparr>destination_name := Some d,
     destination_inclusive := inclusive, run_node_filter := Some (map node_name (map_values (getNodes s)))\<rparr>"

text \<open>Connections between two disabled nodes.\<close>

definition disabled_hops :: "workflow \<Rightarrow> string rel" where
  "disabled_hops w = {(n, m) \<in> hop (OneType Main_type) (connectionsByDestinationNode w).
     (\<exists>a. getNode w n = Some a \<and> is_disabled a) \<and> (\<exists>b. getNode w m = Some b \<and> is_disabled b)}"

lemma acyclic_disabled:
  assumes "wf_workflow w" and "typed_workflow w" and "graph_of w g" and "acyclic (disabled_hops w)"
  shows "acyclic (main_edges g \<inter> {n. is_disabled n} \<times> {n. is_disabled n})"
proof -
  have wg: "wf_graph g" using assms(3) by (simp add: graph_of_def)
  have hop: "(node_name b, node_name a) \<in> disabled_hops w"
    if "(a, b) \<in> main_edges g \<inter> {n. is_disabled n} \<times> {n. is_disabled n}" for a b
  proof -
    from that wg have ab: "in_graph g a" "in_graph g b" using edges_in_graph main_edges_subset by blast+
    then have "getNode w (node_name a) = Some a" "getNode w (node_name b) = Some b"
      by (simp_all add: getNode_in [OF assms(1,3)])
    with that main_edges_hop [OF assms(1-3) ab] show ?thesis by (auto simp: disabled_hops_def)
  qed
  have "(node_name b, node_name a) \<in> (disabled_hops w)\<^sup>+"
    if "(a, b) \<in> (main_edges g \<inter> {n. is_disabled n} \<times> {n. is_disabled n})\<^sup>+" for a b
    using that
  proof (induction rule: trancl_induct)
    case (base b)
    then show ?case using hop [of a b] by simp
  next
    case (step b c)
    then show ?case using hop [of b c] by (simp add: trancl_into_trancl2)
  qed
  with assms(4) show ?thesis unfolding acyclic_def by blast
qed

lemma fromWorkflow_graph:
  assumes "wf_workflow w" and "dash_free_workflow w"
  obtains g where "fromWorkflow (workflow_nodes w) (connectionsBySourceNode w) = Inr g" "graph_of w g"
  using fromWorkflow_result [OF assms] unfolding graph_of_def by blast

lemma runPartialWorkflow2_eq:
  assumes "fromWorkflow (workflow_nodes (partial_workflow p)) (connectionsBySourceNode (partial_workflow p)) = Inr g"
    and "getNode (partial_workflow p) d = Some dest" and "node_name dest = d"
    and "partial_types_of p dest = Some ty" and "\<not> isTool ty (parameters dest)"
  shows "runPartialWorkflow2 p rd pins dirty (d, inclusive) req fuel
    = bind_result (start_point (partial_types_of p) (partial_workflow p) d rd) (\<lambda>t.
        bind_result (partial_steps (locale_compare p) g t dest rd pins dirty) (\<lambda>(s, rd', stack).
          processRunExecutionData (partial_loop p d inclusive s) fuel (partial_state rd' pins stack)))"
  using assms by (simp add: runPartialWorkflow2_def tool_target_def Let_def)

end
