(* ===== verification/Partial_Run_Properties.thy ===== *)
theory Partial_Run_Properties
  imports Partial_Start Execution_Properties
begin

text \<open>
  The properties of the start of a partial run and of the run as a whole, with a small workflow on
  which the witnesses evaluate it.
\<close>

section \<open>A small workflow\<close>

definition sample_partial_type :: "inode \<Rightarrow> partial_type option" where
  "sample_partial_type node = Some
     \<lparr>type_groups = (if node_name node = ''Trigger'' then [''trigger''] else [''transform'']),
      description_name = ''sample'', described_outputs_of = OutputList [OutputName Main_type]\<rparr>"

definition diamond_partial :: partial_engine where
  "diamond_partial = \<lparr>inner_engine = diamond_engine, partial_types_of = sample_partial_type,
     info_types = (\<lambda>_ _. None), default_params = (\<lambda>_ _. None), locale_compare = code_unit_compare,
     fresh_ref = 99\<rparr>"

lemma diamond_workflow:
  "wf_workflow diamond_flow" "typed_workflow diamond_flow" "dash_free_workflow diamond_flow"
  by code_simp+

section \<open>Where the run starts\<close>

text \<open>C15: Importing a well-formed workflow whose names hold no dash and whose connections are filed under
  their own type gives a graph with the workflow's nodes and its stored connections, and the searches
  agree: the parents that the class Workflow finds for a node are the nodes of the graph that lead to it
  by Main connections. With dashes in the names connections can be lost: see \<open>makeKey_collision\<close>.\<close>

theorem fromWorkflow_agrees:
  assumes "wf_workflow w" and "dash_free_workflow w" and "typed_workflow w"
  shows "\<exists>g. fromWorkflow (workflow_nodes w) (connectionsBySourceNode w) = Inr g \<and> wf_graph g
    \<and> Directed_Graph.nodes_of g = set (map_values (workflow_nodes w))
    \<and> Directed_Graph.connections_of g
        = set (map (connection_at (workflow_nodes w)) (stored_connections (connectionsBySourceNode w)))
    \<and> (\<forall>d. in_graph g d \<longrightarrow> set (workflow_getParentNodes w (node_name d) (OneType Main_type) (- 1))
          = node_name ` {n. (n, d) \<in> (main_edges g)\<^sup>+ \<and> n \<noteq> d})"
proof -
  obtain g where g: "fromWorkflow (workflow_nodes w) (connectionsBySourceNode w) = Inr g" "graph_of w g"
    using assms(1,2) by (rule fromWorkflow_graph)
  with getParentNodes_main [OF assms(1,3) g(2)] show ?thesis unfolding graph_of_def by blast
qed

theorem fromWorkflow_agrees_witness:
  "\<exists>g. fromWorkflow (workflow_nodes diamond_flow) (connectionsBySourceNode diamond_flow) = Inr g
     \<and> wf_graph g \<and> node_T \<in> Directed_Graph.nodes_of g"
proof -
  have "node_T \<in> set (map_values (workflow_nodes diamond_flow))" by code_simp
  moreover obtain g where "fromWorkflow (workflow_nodes diamond_flow) (connectionsBySourceNode diamond_flow) = Inr g"
    "wf_graph g" "Directed_Graph.nodes_of g = set (map_values (workflow_nodes diamond_flow))"
    using fromWorkflow_agrees [OF diamond_workflow(1,3,2)] by blast
  ultimately show ?thesis by blast
qed

text \<open>What may serve as a trigger: an enabled trigger that leads to the destination.\<close>

definition trigger_candidate :: "partial_types \<Rightarrow> workflow \<Rightarrow> string \<Rightarrow> inode \<Rightarrow> bool" where
  "trigger_candidate types w d t \<longleftrightarrow> \<not> is_disabled t
     \<and> (case types t of None \<Rightarrow> False | Some ty \<Rightarrow> isTriggerNode ty)
     \<and> (\<exists>m \<in> set (workflow_getParentNodes w d (OneType Main_type) (- 1)). getNode w m = Some t)"

definition has_run :: "run_data \<Rightarrow> inode \<Rightarrow> bool" where
  "has_run rd t \<longleftrightarrow> map_has rd (node_name t)"

definition has_pin :: "workflow \<Rightarrow> inode \<Rightarrow> bool" where
  "has_pin w t \<longleftrightarrow> getPinDataOfNode w (node_name t) \<noteq> None"

text \<open>Of some triggers, one that has run data is preferred; without any, one with pinned data, of these a
  webhook; without any, a webhook.\<close>

definition preferred_trigger :: "workflow \<Rightarrow> run_data \<Rightarrow> inode set \<Rightarrow> inode \<Rightarrow> bool" where
  "preferred_trigger w rd C t \<longleftrightarrow> t \<in> C
     \<and> (if \<exists>c \<in> C. has_run rd c then has_run rd t
        else if \<exists>c \<in> C. has_pin w c then has_pin w t \<and> ((\<exists>c \<in> C. has_pin w c \<and> is_webhook c) \<longrightarrow> is_webhook t)
        else (\<exists>c \<in> C. is_webhook c) \<longrightarrow> is_webhook t)"

lemma webhook_first:
  assumes "z \<in> set xs" and "is_webhook z"
  shows "sort_by webhooks_first xs \<noteq> [] \<and> is_webhook (hd (sort_by webhooks_first xs))"
proof -
  have ins: "(\<exists>z \<in> set (insert_by webhooks_first x ys). is_webhook z)
      \<longrightarrow> is_webhook (hd (insert_by webhooks_first x ys))"
    if "(\<exists>z \<in> set ys. is_webhook z) \<longrightarrow> is_webhook (hd ys)" for x ys
  proof -
    have "set (insert_by webhooks_first x zs) = insert x (set zs)" for zs
      using mset_insert_by [of webhooks_first x zs] by (metis set_mset_add_mset_insert set_mset_mset)
    with that show ?thesis by (cases ys) (auto simp: webhooks_first_def)
  qed
  have "(\<exists>z \<in> set (fold (insert_by webhooks_first) xs acc). is_webhook z)
      \<longrightarrow> is_webhook (hd (fold (insert_by webhooks_first) xs acc))"
    if "(\<exists>z \<in> set acc. is_webhook z) \<longrightarrow> is_webhook (hd acc)" for acc
    using that by (induction xs arbitrary: acc) (use ins in simp_all)
  from this [of "[]"] assms have "is_webhook (hd (sort_by webhooks_first xs))"
    using set_sort_by [of webhooks_first xs] by (auto simp: sort_by_def)
  moreover have "sort_by webhooks_first xs \<noteq> []"
    using assms(1) length_sort_by [of webhooks_first xs] by force
  ultimately show ?thesis by blast
qed

lemma choose_trigger_prefers:
  "case choose_trigger w rd ts of None \<Rightarrow> ts = [] | Some t \<Rightarrow> preferred_trigger w rd (set ts) t"
proof (cases "find (has_run rd) ts")
  case (Some n)
  then have "choose_trigger w rd ts = Some n" by (simp add: choose_trigger_def has_run_def [abs_def])
  moreover from Some have "n \<in> set ts" "has_run rd n" by (auto simp: find_Some_iff)
  ultimately show ?thesis by (auto simp: preferred_trigger_def)
next
  case None
  then have no_run: "\<not> has_run rd c" if "c \<in> set ts" for c using that by (auto simp: find_None_iff)
  let ?ps = "filter (has_pin w) ts"
  show ?thesis
  proof (cases "sort_by webhooks_first ?ps")
    case Nil
    then have "?ps = []" by (metis length_0_conv length_sort_by)
    then have no_pin: "\<not> has_pin w c" if "c \<in> set ts" for c using that by (auto simp: filter_empty_conv)
    have "choose_trigger w rd ts = (case filter is_webhook ts of n # _ \<Rightarrow> Some n | [] \<Rightarrow> arr_get ts 0)"
      using None Nil by (simp add: choose_trigger_def has_run_def [abs_def] has_pin_def [abs_def])
    then have choice: "choose_trigger w rd ts = (case filter is_webhook ts of n # _ \<Rightarrow> Some n | [] \<Rightarrow> arr_get ts 0)" .
    show ?thesis
    proof (cases "filter is_webhook ts")
      case Nil
      then have "\<not> is_webhook c" if "c \<in> set ts" for c using that by (auto simp: filter_empty_conv)
      with choice Nil no_run no_pin show ?thesis
        by (cases ts) (simp_all add: arr_get_def preferred_trigger_def)
    next
      case (Cons n ns)
      then have "n \<in> set ts" "is_webhook n" by (auto simp: filter_eq_Cons_iff)
      with choice Cons no_run no_pin show ?thesis by (simp add: preferred_trigger_def)
    qed
  next
    case (Cons n ns)
    then have "n \<in> set (sort_by webhooks_first ?ps)" by simp
    then have "n \<in> set ts" "has_pin w n" by simp_all
    moreover have "choose_trigger w rd ts = Some n"
      using None Cons by (simp add: choose_trigger_def has_run_def [abs_def] has_pin_def [abs_def])
    moreover have "is_webhook n" if "c \<in> set ts" "has_pin w c" "is_webhook c" for c
      using webhook_first [of c ?ps] that Cons by simp
    ultimately show ?thesis using no_run by (auto simp: preferred_trigger_def)
  qed
qed

text \<open>C14: On a workflow whose node types are known the search for a trigger throws nothing. It takes the
  destination if that is an enabled trigger, and otherwise an enabled trigger that leads to it, none only
  if there is none; one that has run data is preferred, then one with pinned data, of these a webhook,
  then a webhook.\<close>

theorem findTriggerForPartialExecution_correct:
  assumes "getNode w d = Some dest" and "types dest = Some ty"
    and "list_all (\<lambda>m. case getNode w m of None \<Rightarrow> False | Some node \<Rightarrow> types node \<noteq> None)
      (workflow_getParentNodes w d (OneType Main_type) (- 1))"
  shows "\<exists>r. findTriggerForPartialExecution types w d rd = Inr r \<and>
    (if isTriggerNode ty \<and> \<not> is_disabled dest then r = Some dest
     else (case r of
         None \<Rightarrow> Collect (trigger_candidate types w d) = {}
       | Some t \<Rightarrow> preferred_trigger w rd (Collect (trigger_candidate types w d)) t))"
proof -
  let ?ms = "workflow_getParentNodes w d (OneType Main_type) (- 1)"
  let ?T = "\<lambda>n. case types n of None \<Rightarrow> False | Some ty \<Rightarrow> isTriggerNode ty"
  let ?ts = "filter (\<lambda>t. \<not> is_disabled t) (filter ?T (map (\<lambda>n. the (getNode w n)) ?ms))"
  have known: "\<exists>node ty. getNode w m = Some node \<and> types node = Some ty" if "m \<in> set ?ms" for m
    using that assms(3) by (auto simp: list_all_iff split: option.splits)
  from parent_triggers_result [of ?ms w types] known
  have "findAllParentTriggers types w d = Inr (filter ?T (map (\<lambda>n. the (getNode w n)) ?ms))"
    by (simp add: findAllParentTriggers_def)
  then have find: "findTriggerForPartialExecution types w d rd
      = Inr (if isTriggerNode ty \<and> \<not> is_disabled dest then Some dest else choose_trigger w rd ?ts)"
    using assms(1,2) by (simp add: findTriggerForPartialExecution_def)
  have "trigger_candidate types w d c \<longleftrightarrow> c \<in> set ?ts" for c
    unfolding trigger_candidate_def using known by force
  then have cand: "Collect (trigger_candidate types w d) = set ?ts" by blast
  show ?thesis
  proof (cases "isTriggerNode ty \<and> \<not> is_disabled dest")
    case False
    define ts where "ts = ?ts"
    have found: "findTriggerForPartialExecution types w d rd = Inr (choose_trigger w rd ts)"
      and C: "Collect (trigger_candidate types w d) = set ts"
      unfolding find cand ts_def using False by (simp_all only: if_False)
    from choose_trigger_prefers [where w = w and rd = rd and ts = ts] False show ?thesis
      unfolding found C by (cases "choose_trigger w rd ts") auto
  qed (simp add: find)
qed

theorem findTriggerForPartialExecution_correct_witness:
  "findTriggerForPartialExecution sample_partial_type diamond_flow ''Merge'' [] = Inr (Some node_T)
   \<and> trigger_candidate sample_partial_type diamond_flow ''Merge'' node_T"
proof -
  have "getNode diamond_flow ''Merge'' = Some merge_node"
    "sample_partial_type merge_node = Some \<lparr>type_groups = [''transform''], description_name = ''sample'',
       described_outputs_of = OutputList [OutputName Main_type]\<rparr>"
    "list_all (\<lambda>m. case getNode diamond_flow m of None \<Rightarrow> False | Some node \<Rightarrow> sample_partial_type node \<noteq> None)
      (workflow_getParentNodes diamond_flow ''Merge'' (OneType Main_type) (- 1))"
    "findTriggerForPartialExecution sample_partial_type diamond_flow ''Merge'' [] = Inr (Some node_T)"
    by code_simp+
  from findTriggerForPartialExecution_correct [OF this(1-3), of "[]"] this(4) show ?thesis
    by (auto simp: isTriggerNode_def preferred_trigger_def)
qed

section \<open>The whole run\<close>








lemma diamond_partial_parts:
  "partial_workflow diamond_partial = diamond_flow" "partial_types_of diamond_partial = sample_partial_type"
  by (simp_all add: diamond_partial_def small_engine_def)

lemma sample_not_tool:
  "sample_partial_type merge_node = Some \<lparr>type_groups = [''transform''], description_name = ''sample'',
     described_outputs_of = OutputList [OutputName Main_type]\<rparr>"
  "\<not> isTool \<lparr>type_groups = [''transform''], description_name = ''sample'',
     described_outputs_of = OutputList [OutputName Main_type]\<rparr> (parameters merge_node)"
  "getNode diamond_flow ''Merge'' = Some merge_node" "\<not> is_disabled merge_node"
  "start_point sample_partial_type diamond_flow ''Merge'' [] = Inr node_T"
  by code_simp+


text \<open>The relation along which the weights of the termination argument fall is that of the searches.\<close>

lemma set_output_connections:
  "(i, c) \<in> set (output_connections eng n)
     \<longleftrightarrow> c \<in> set (conns_at (connectionsBySourceNode (flow eng)) n Main_type i)"
proof -
  have "conns_at (connectionsBySourceNode (flow eng)) n Main_type i
      = items_at (inputs_at (connectionsBySourceNode (flow eng)) n Main_type) i"
    by (auto simp: conns_at_def inputs_at_def items_at_def arr_item_def split: option.splits)
  moreover have "(i, c) \<in> set (concat (map_index (\<lambda>outputIndex connections.
         map (Pair outputIndex) (case connections of None \<Rightarrow> [] | Some cs \<Rightarrow> cs)) outs))
      \<longleftrightarrow> c \<in> set (items_at outs i)" for outs
    by (force simp: map_index_def items_at_iff in_set_enumerate_eq split: option.splits)
  ultimately show ?thesis by (simp add: output_connections_def)
qed

lemma flow_rel_hop:
  assumes "wf_workflow (flow eng)" and "typed_workflow (flow eng)"
  shows "flow_rel eng = (hop (OneType Main_type) (connectionsByDestinationNode (flow eng)))\<inverse>"
proof -
  have wf: "wf_iconnections (connectionsBySourceNode (flow eng))" using assms(1) by (simp add: wf_workflow_def)
  have "(n, m) \<in> flow_rel eng \<longleftrightarrow> (\<exists>i c. (n, Main_type, i, c)
      \<in> set (stored_connections (connectionsBySourceNode (flow eng))) \<and> conn_node c = m)" for n m
    unfolding set_stored_connections [OF wf] flow_rel_def using set_output_connections [of _ _ eng n] by blast
  then show ?thesis by (auto simp: hop_stored [OF wf assms(2)])
qed

lemma acyclic_flow_disabled:
  assumes "wf_workflow (flow eng)" and "typed_workflow (flow eng)" and "acyclic (flow_rel eng)"
  shows "acyclic (disabled_hops (flow eng))"
proof -
  have "acyclic (hop (OneType Main_type) (connectionsByDestinationNode (flow eng)))"
    using assms(3) unfolding flow_rel_hop [OF assms(1,2)] by (simp add: acyclic_converse)
  then show ?thesis by (rule acyclic_subset) (auto simp: disabled_hops_def)
qed

lemma processRunExecutionData_ends:
  assumes "order_v1 eng" and "names_ok eng" and "no_requests eng" and "acyclic (flow_rel eng)"
    and "state_ok s" and "\<not> wait_till s"
  obtains result where "\<And>fuel. potential eng s \<le> fuel \<Longrightarrow> processRunExecutionData eng fuel s = result"
    "result \<noteq> Inr None"
proof (cases "checkForWorkflowIssues eng s")
  case (Inl e)
  then show ?thesis by (intro that [of "Inl e"]) (simp_all add: processRunExecutionData_def)
next
  case (Inr u)
  have loop: "processRunExecutionData eng fuel s = Inr (executionLoop eng fuel s)" for fuel
    using Inr assms(6) by (simp add: processRunExecutionData_def handleWaitingState_def)
  obtain r where r: "executionLoop eng (potential eng s) s = Some r"
    using executionLoop_ends [OF assms(1-5) order_refl] by blast
  show ?thesis
    by (rule that [of "Inr (Some r)"]) (simp_all add: loop executionLoop_more [OF r])
qed

text \<open>C3: A partial run to a node that is not a tool returns: on a well-formed workflow without cycles,
  whose connections are filed under their own type and whose names hold no dash, in the execution order
  v1, to a destination of known type and with nodes that make no requests, there is a number of
  iterations from which on the run gives one result, which is an error before the loop or the end of the
  loop.\<close>

theorem runPartialWorkflow2_returns:
  assumes "wf_workflow (partial_workflow p)" and "dash_free_workflow (partial_workflow p)"
    and "typed_workflow (partial_workflow p)" and "acyclic (flow_rel (inner_engine p))"
    and "getNode (partial_workflow p) d = Some dest"
    and "partial_types_of p dest = Some ty" and "\<not> isTool ty (parameters dest)"
    and "order_v1 (inner_engine p)" and "no_requests (inner_engine p)"
  shows "\<exists>bound result. result \<noteq> Inr None
    \<and> (\<forall>fuel \<ge> bound. runPartialWorkflow2 p rd pins dirty (d, inclusive) req fuel = result)"
proof -
  obtain g where g: "fromWorkflow (workflow_nodes (partial_workflow p)) (connectionsBySourceNode (partial_workflow p)) = Inr g"
    "graph_of (partial_workflow p) g" using assms(1,2) by (rule fromWorkflow_graph)
  have wg: "wf_graph g" "dash_free g" using g(2) by (simp_all add: graph_of_def)
  have dest: "in_graph g dest" "node_name dest = d" using getNode_in [OF assms(1) g(2)] assms(5) by simp_all
  have chains: "acyclic (main_edges g \<inter> {n. is_disabled n} \<times> {n. is_disabled n})"
    using acyclic_disabled [OF assms(1,3) g(2) acyclic_flow_disabled [OF assms(1,3,4)]] .
  note eq = runPartialWorkflow2_eq [OF g(1) assms(5) dest(2) assms(6,7), of rd pins dirty inclusive req]
  let ?steps = "\<lambda>t. partial_steps (locale_compare p) g t dest rd pins dirty"
  consider (Before) e where "\<And>fuel. runPartialWorkflow2 p rd pins dirty (d, inclusive) req fuel = Inl e"
    | (Loop) t s rd' stack where "start_point (partial_types_of p) (partial_workflow p) d rd = Inr t"
        "?steps t = Inr (s, rd', stack)" "\<not> is_disabled dest"
  proof (cases "start_point (partial_types_of p) (partial_workflow p) d rd")
    case (Inl e)
    then show ?thesis by (intro that(1) [of e]) (simp add: eq)
  next
    case (Inr t)
    show ?thesis
    proof (cases "?steps t")
      case (Inl e)
      with Inr show ?thesis by (intro that(1) [of e]) (simp add: eq)
    next
      case steps: (Inr r)
      then have "\<not> is_disabled dest" by (auto simp: partial_steps_def js_simps)
      with Inr steps show ?thesis by (cases r) (auto intro: that(2))
    qed
  qed
  then show ?thesis
  proof cases
    case Before
    then show ?thesis by blast
  next
    case Loop
    from start_point_reaches [OF assms(1,3) g(2) dest(1)] Loop(1) dest(2)
    have t: "in_graph g t" "\<not> is_disabled t" "(t, dest) \<in> (main_edges g)\<^sup>*" by blast+
    from partial_steps_result [OF wg chains dest(1) Loop(3) t, of "locale_compare p" rd pins dirty] Loop(2)
    obtain starts where "node_execution_stack stack = concat (map (entries_of_start (locale_compare p) s rd' pins) starts)"
      "recreateNodeExecutionStack (locale_compare p) s starts rd' pins = Inr stack" by auto
    then have ok: "state_ok (partial_state rd' pins stack)" by (intro partial_state_ok)
    let ?eng = "partial_loop p d inclusive s"
    have eng: "order_v1 ?eng" "names_ok ?eng" "no_requests ?eng" "acyclic (flow_rel ?eng)"
      using assms(1,4,8,9)
      by (auto simp: names_ok_def wf_workflow_def list_all_iff no_requests_def flow_rel_def output_connections_def)
    have "\<not> wait_till (partial_state rd' pins stack)" by (simp add: partial_state_def start_state_def)
    with processRunExecutionData_ends [OF eng ok] obtain result where
      "\<And>fuel. potential ?eng (partial_state rd' pins stack) \<le> fuel \<Longrightarrow>
         processRunExecutionData ?eng fuel (partial_state rd' pins stack) = result" "result \<noteq> Inr None" by blast
    then show ?thesis
      by (intro exI [of _ "potential ?eng (partial_state rd' pins stack)"] exI [of _ result]) (simp add: eq Loop(1,2))
  qed
qed

theorem runPartialWorkflow2_returns_witness:
  "\<exists>fuel. runPartialWorkflow2 diamond_partial [] [] [] (''Merge'', True) None fuel \<noteq> Inr None"
proof -
  have "acyclic (flow_rel (inner_engine diamond_partial))" "order_v1 (inner_engine diamond_partial)"
    "no_requests (inner_engine diamond_partial)"
    using diamond_acyclic diamond_no_requests by (simp_all add: diamond_partial_def small_engine_def)
  with runPartialWorkflow2_returns [where p = diamond_partial and dest = merge_node, unfolded diamond_partial_parts,
      OF diamond_workflow(1,3,2) _ sample_not_tool(3,1,2)] show ?thesis by blast
qed

section \<open>A tool whose agent has a successor\<close>

text \<open>The last child of the tool in the order of the search is the end of the branch behind the agent
  \<open>A\<close>: the node \<open>B\<close> behind it is replaced by the executor, and the agent stays and leads to it.\<close>

definition agent_with_successor :: directed_graph where
  "agent_with_successor = build_graph [node_T, node_A, node_B, node_M]
     [link node_T node_A, link node_A node_B, (ai_link node_M node_A)\<lparr>connection_type := AiTool_type\<rparr>]"

lemma rewireGraph_replaces_last_child:
  "(case rewireGraph 99 node_M agent_with_successor None of
      Inl e \<Rightarrow> None
    | Inr g \<Rightarrow> Some (map_keys (gnodes g),
        map (\<lambda>c. (node_name (from_node c), connection_type c, node_name (to_node c))) (map_values (gconnections g))))
   = Some ([''Trigger'', ''A'', ''Model'', TOOL_EXECUTOR_NODE_NAME],
       [(''Trigger'', Main_type, ''A''), (''Model'', AiTool_type, ''A''),
        (''Model'', AiTool_type, TOOL_EXECUTOR_NODE_NAME), (''A'', Main_type, TOOL_EXECUTOR_NODE_NAME)])"
  by code_simp

text \<open>A tool that no agent uses has nothing to rewire to; the executor is then looked up in vain.\<close>

definition lone_tool :: partial_engine where
  "lone_tool = diamond_partial\<lparr>partial_types_of := (\<lambda>node. Some
     \<lparr>type_groups = [], description_name = ''sample'', described_outputs_of = OutputList [OutputName AiTool_type]\<rparr>)\<rparr>"

lemma lone_tool_fails:
  "runPartialWorkflow2 lone_tool [] [] [] (''Merge'', True) None 1 = Inl ToolExecutorMissing"
  by code_simp

end
