(* ===== verification/Structure_Validation.thy ===== *)
theory Structure_Validation
  imports Workflow_Class
begin

text \<open>
  \<open>packages/workflow/src/workflow-structure-validation.ts\<close>: the checks that a payload passes before
  it is saved or imported as a workflow. The schema check is the library \<open>zod\<close>'s; it is the argument
  \<open>safe_parse\<close>, which gives the parsed data or the library's issues. The checks of the graph, the
  text of the issues and the error are the code's.
\<close>

section \<open>Issues\<close>

datatype path_segment = KeySegment string | IndexSegment nat

datatype structure_issue_code =
    SchemaIssue string
  | DuplicateNodeName
  | UnknownConnectionSource
  | UnknownConnectionTarget

record structure_issue =
  issue_path :: "path_segment list"
  issue_message :: string
  issue_code :: structure_issue_code

definition quoted :: "string \<Rightarrow> string" where
  "quoted s = CHR 0x22 # s @ [CHR 0x22]"

definition formatWorkflowStructureIssuePath :: "path_segment list \<Rightarrow> string" where
  "formatWorkflowStructureIssuePath path =
     (if length path = 0 then ''workflow''
      else fold (\<lambda>segment acc. case segment of
                   IndexSegment n \<Rightarrow> acc @ ''['' @ show_nat n @ '']''
                 | KeySegment k \<Rightarrow> if acc \<noteq> [] then acc @ ''.'' @ k else k) path [])"

fun join_strings :: "string \<Rightarrow> string list \<Rightarrow> string" where
  "join_strings separator [] = []"
| "join_strings separator [s] = s"
| "join_strings separator (s # t # ss) = s @ separator @ join_strings separator (t # ss)"

definition formatIssuesDescription :: "structure_issue list \<Rightarrow> string" where
  "formatIssuesDescription issues =
     join_strings [CHR 0x0A]
       (map (\<lambda>issue. formatWorkflowStructureIssuePath (issue_path issue) @ '': '' @ issue_message issue) issues)"

record structure_error =
  error_text :: string
  error_issues :: "structure_issue list"
  error_description :: string

definition WorkflowStructureValidationError :: "structure_issue list \<Rightarrow> structure_error" where
  "WorkflowStructureValidationError issues =
     \<lparr>error_text = ''Invalid workflow structure'', error_issues = issues,
      error_description = formatIssuesDescription issues\<rparr>"

section \<open>The parsed payload\<close>

text \<open>What the schema lets through; keys that it does not name are kept with a node.\<close>

record structure_node =
  structure_name :: string
  structure_type :: string
  structure_position :: "rat \<times> rat"
  structure_parameters :: "(string \<times> json) list option"
  structure_id :: "string option"
  structure_type_version :: "rat option"
  structure_disabled :: "bool option"
  structure_rest :: "(string \<times> json) list"

record structure_data =
  structure_nodes :: "structure_node list"
  structure_connections :: iconnections

section \<open>The checks of the graph\<close>

definition duplicate_issue :: "nat \<Rightarrow> structure_node \<Rightarrow> structure_issue" where
  "duplicate_issue index node =
     \<lparr>issue_path = [KeySegment ''nodes'', IndexSegment index, KeySegment ''name''],
      issue_message = ''Duplicate node name '' @ quoted (structure_name node),
      issue_code = DuplicateNodeName\<rparr>"

definition check_names :: "structure_node list \<Rightarrow> structure_issue list \<times> string list" where
  "check_names nodes =
     fold (\<lambda>(index, node) (issues, nodeNames).
             if structure_name node \<in> set nodeNames then (issues @ [duplicate_issue index node], nodeNames)
             else (issues, set_add (structure_name node) nodeNames))
       (List.enumerate 0 nodes) ([], [])"

definition source_issue :: "string \<Rightarrow> structure_issue" where
  "source_issue sourceNodeName =
     \<lparr>issue_path = [KeySegment ''connections'', KeySegment sourceNodeName],
      issue_message = ''Connection source '' @ quoted sourceNodeName @ '' does not reference an existing node'',
      issue_code = UnknownConnectionSource\<rparr>"

definition target_issue :: "string \<Rightarrow> node_connection_type \<Rightarrow> nat \<Rightarrow> nat \<Rightarrow> iconnection \<Rightarrow> structure_issue" where
  "target_issue sourceNodeName connectionType sourceIndex targetIndex connection =
     \<lparr>issue_path = [KeySegment ''connections'', KeySegment sourceNodeName, KeySegment connectionType,
                    IndexSegment sourceIndex, IndexSegment targetIndex, KeySegment ''node''],
      issue_message = ''Connection target '' @ quoted (conn_node connection)
                      @ '' does not reference an existing node'',
      issue_code = UnknownConnectionTarget\<rparr>"

definition check_buckets ::
  "string list \<Rightarrow> string \<Rightarrow> node_connection_type \<Rightarrow> node_input_connections \<Rightarrow> structure_issue list" where
  "check_buckets nodeNames sourceNodeName connectionType buckets =
     concat (map (\<lambda>(sourceIndex, bucket).
       concat (map (\<lambda>(targetIndex, connection).
           if conn_node connection \<in> set nodeNames then []
           else [target_issue sourceNodeName connectionType sourceIndex targetIndex connection])
         (List.enumerate 0 (case bucket of Some cs \<Rightarrow> cs | None \<Rightarrow> []))))
       (List.enumerate 0 buckets))"

definition check_connections :: "string list \<Rightarrow> iconnections \<Rightarrow> structure_issue list" where
  "check_connections nodeNames connections =
     concat (map (\<lambda>(sourceNodeName, connectionTypes).
       (if sourceNodeName \<in> set nodeNames then [] else [source_issue sourceNodeName])
       @ concat (map (\<lambda>(connectionType, buckets).
           check_buckets nodeNames sourceNodeName connectionType buckets) (object_entries connectionTypes)))
       (object_entries connections))"

definition safeParseWorkflowStructure ::
  "('v \<Rightarrow> structure_issue list + structure_data) \<Rightarrow> 'v \<Rightarrow> structure_issue list + structure_data" where
  "safeParseWorkflowStructure safe_parse input =
     bind_result (safe_parse input) (\<lambda>data.
       let (issues, nodeNames) = check_names (structure_nodes data);
           issues = issues @ check_connections nodeNames (structure_connections data)
       in if length issues > 0 then Inl issues else Inr data)"

definition parseWorkflowStructure ::
  "('v \<Rightarrow> structure_issue list + structure_data) \<Rightarrow> 'v \<Rightarrow> structure_error + structure_data" where
  "parseWorkflowStructure safe_parse input =
     (case safeParseWorkflowStructure safe_parse input of
        Inl issues \<Rightarrow> Inl (WorkflowStructureValidationError issues)
      | Inr data \<Rightarrow> Inr data)"

section \<open>Which issues are found\<close>

abbreviation names_in :: "structure_data \<Rightarrow> string set" where
  "names_in data \<equiv> structure_name ` set (structure_nodes data)"

text \<open>The place of a node whose name an earlier node has.\<close>

definition repeats :: "structure_node list \<Rightarrow> nat \<Rightarrow> bool" where
  "repeats ns i \<longleftrightarrow> i < length ns \<and> structure_name (ns ! i) \<in> structure_name ` set (take i ns)"

lemma repeats_snoc:
  "repeats (ns @ [n]) i \<longleftrightarrow>
     repeats ns i \<or> i = length ns \<and> structure_name n \<in> structure_name ` set ns"
  by (cases "i < length ns") (auto simp: repeats_def nth_append less_Suc_eq)

lemma repeats_nth: "repeats ns i \<Longrightarrow> (ns @ [n]) ! i = ns ! i"
  by (simp add: repeats_def nth_append)

lemma no_repeats: "(\<forall>i. \<not> repeats ns i) \<longleftrightarrow> distinct (map structure_name ns)"
proof (induction ns rule: rev_induct)
  case (snoc n ns)
  then show ?case by (auto simp: repeats_snoc)
qed (simp add: repeats_def)

lemma check_names_spec:
  "set (snd (check_names ns)) = structure_name ` set ns
   \<and> set (fst (check_names ns)) = (\<lambda>i. duplicate_issue i (ns ! i)) ` {i. repeats ns i}"
proof (induction ns rule: rev_induct)
  case (snoc n ns)
  obtain issues names where s: "check_names ns = (issues, names)" by (cases "check_names ns")
  from s have step: "check_names (ns @ [n]) =
      (if structure_name n \<in> set names then (issues @ [duplicate_issue (length ns) n], names)
       else (issues, set_add (structure_name n) names))"
    unfolding check_names_def by (simp add: enumerate_append_eq)
  have names: "set names = structure_name ` set ns"
    and issues: "set issues = (\<lambda>i. duplicate_issue i (ns ! i)) ` {i. repeats ns i}"
    using snoc.IH s by simp_all
  have "(\<lambda>i. duplicate_issue i ((ns @ [n]) ! i)) ` {i. repeats ns i} = set issues"
    unfolding issues by (rule image_cong) (simp_all add: repeats_nth)
  moreover have "{i. repeats (ns @ [n]) i} = {i. repeats ns i}
      \<union> (if structure_name n \<in> structure_name ` set ns then {length ns} else {})"
    by (auto simp: repeats_snoc)
  ultimately show ?case unfolding step using names by (auto simp: image_Un)
qed (simp add: check_names_def repeats_def)

lemma set_concat_enumerate:
  "x \<in> set (concat (map (\<lambda>(i, y). f i y) (List.enumerate 0 ys)))
     \<longleftrightarrow> (\<exists>i y. arr_get ys i = Some y \<and> x \<in> set (f i y))"
proof -
  have "x \<in> set (concat (map (\<lambda>(i, y). f i y) (List.enumerate 0 ys)))
      \<longleftrightarrow> (\<exists>p \<in> set (List.enumerate 0 ys). x \<in> set (f (fst p) (snd p)))"
    by (simp add: split_beta)
  also have "\<dots> \<longleftrightarrow> (\<exists>i y. (i, y) \<in> set (List.enumerate 0 ys) \<and> x \<in> set (f i y))" by force
  finally show ?thesis by (simp add: in_set_enumerate_eq arr_get_def) metis
qed

lemma ex_bucket:
  assumes "\<And>i. \<not> P i []"
  shows "(\<exists>i b. arr_get buckets i = Some b \<and> P i (case b of Some cs \<Rightarrow> cs | None \<Rightarrow> []))
     \<longleftrightarrow> (\<exists>i. P i (items_at buckets i))"
proof -
  have "(\<exists>b. arr_get buckets i = Some b \<and> P i (case b of Some cs \<Rightarrow> cs | None \<Rightarrow> []))
      \<longleftrightarrow> P i (items_at buckets i)" for i
    using assms by (auto simp: items_at_def arr_item_def arr_get_def split: option.splits)
  then show ?thesis by simp
qed

lemma set_check_buckets:
  "x \<in> set (check_buckets names s t buckets) \<longleftrightarrow> (\<exists>i j c. arr_get (items_at buckets i) j = Some c
     \<and> conn_node c \<notin> set names \<and> x = target_issue s t i j c)"
proof -
  let ?P = "\<lambda>i cs. \<exists>j c. arr_get cs j = Some c
      \<and> x \<in> set (if conn_node c \<in> set names then [] else [target_issue s t i j c])"
  have "x \<in> set (check_buckets names s t buckets) \<longleftrightarrow> (\<exists>i. ?P i (items_at buckets i))"
    unfolding check_buckets_def set_concat_enumerate
    by (rule ex_bucket) (simp add: arr_get_def)
  then show ?thesis by auto
qed

lemma set_check_connections:
  assumes wf: "wf_iconnections cs"
  shows "set (check_connections names cs) =
     source_issue ` (set (map_keys cs) - set names)
     \<union> {target_issue s t i j c | s t i j c. arr_get (conns_at cs s t i) j = Some c \<and> conn_node c \<notin> set names}"
proof (rule set_eqI)
  fix x
  have d: "distinct (map_keys cs)" using wf by (simp add: wf_iconnections_def)
  have e: "set (object_entries bt) = set bt" if "(s, bt) \<in> set cs" for s bt
    using wf that by (auto simp: wf_iconnections_def intro!: set_object_entries)
  have at: "(\<exists>bt. (s, bt) \<in> set cs \<and> (\<exists>outs. (t, outs) \<in> set bt \<and> P (items_at outs i)))
      \<longleftrightarrow> P (conns_at cs s t i)" if "\<not> P []" for s t i and P :: "iconnection list \<Rightarrow> bool"
  proof (cases "map_of cs s")
    case None
    then show ?thesis using that by (auto simp: conns_at_def map_of_set [OF d])
  next
    case (Some bt)
    then have "distinct (map_keys bt)" using wf by (auto simp: wf_iconnections_def dest!: map_of_SomeD)
    then have "(t, outs) \<in> set bt \<longleftrightarrow> map_of bt t = Some outs" for outs by (rule map_of_set)
    moreover have "(s, bt') \<in> set cs \<longleftrightarrow> bt' = bt" for bt' using Some by (auto simp: map_of_set [OF d])
    ultimately show ?thesis using Some that by (cases "map_of bt t") (simp_all add: conns_at_def)
  qed
  let ?P = "\<lambda>s t i cs. \<exists>j c. arr_get cs j = Some c \<and> conn_node c \<notin> set names \<and> x = target_issue s t i j c"
  have "x \<in> set (check_connections names cs) \<longleftrightarrow>
      (\<exists>s bt. (s, bt) \<in> set cs \<and> (s \<notin> set names \<and> x = source_issue s
        \<or> (\<exists>t outs. (t, outs) \<in> set bt \<and> x \<in> set (check_buckets names s t outs))))"
    unfolding check_connections_def set_concat set_map set_object_entries [OF d]
    using e by (fastforce split: if_splits)
  also have "\<dots> \<longleftrightarrow> (\<exists>s. s \<in> set (map_keys cs) \<and> s \<notin> set names \<and> x = source_issue s)
      \<or> (\<exists>s t i. \<exists>bt. (s, bt) \<in> set cs \<and> (\<exists>outs. (t, outs) \<in> set bt \<and> ?P s t i (items_at outs i)))"
    unfolding set_check_buckets by (force simp: image_iff)
  also have "\<dots> \<longleftrightarrow> (\<exists>s. s \<in> set (map_keys cs) \<and> s \<notin> set names \<and> x = source_issue s)
      \<or> (\<exists>s t i. ?P s t i (conns_at cs s t i))"
    by (subst at) (auto simp: arr_get_def)
  finally show "x \<in> set (check_connections names cs) \<longleftrightarrow> x \<in> source_issue ` (set (map_keys cs) - set names)
     \<union> {target_issue s t i j c | s t i j c. arr_get (conns_at cs s t i) j = Some c \<and> conn_node c \<notin> set names}"
    unfolding Un_iff image_iff Diff_iff mem_Collect_eq by blast
qed

section \<open>What is accepted\<close>

text \<open>The issues of the payload's graph: a node whose name an earlier node has, the connections of an
  unknown source, a connection to an unknown target.\<close>

definition structure_problems :: "structure_data \<Rightarrow> structure_issue set" where
  "structure_problems data =
     (\<lambda>i. duplicate_issue i (structure_nodes data ! i)) ` {i. repeats (structure_nodes data) i}
     \<union> source_issue ` (set (map_keys (structure_connections data)) - names_in data)
     \<union> {target_issue s t i j c | s t i j c.
          arr_get (conns_at (structure_connections data) s t i) j = Some c \<and> conn_node c \<notin> names_in data}"

lemma safeParseWorkflowStructure_cases:
  assumes parsed: "safe_parse input = Inr data" and wf: "wf_iconnections (structure_connections data)"
  obtains issues where "set issues = structure_problems data"
    and "safeParseWorkflowStructure safe_parse input = (if issues = [] then Inr data else Inl issues)"
proof -
  obtain dups names where s: "check_names (structure_nodes data) = (dups, names)"
    by (cases "check_names (structure_nodes data)")
  let ?issues = "dups @ check_connections names (structure_connections data)"
  have names: "set names = names_in data" using check_names_spec [of "structure_nodes data"] s by simp
  have "set ?issues = structure_problems data"
    using check_names_spec [of "structure_nodes data"] s
    unfolding structure_problems_def set_append set_check_connections [OF wf] names by (simp add: Un_assoc)
  then show ?thesis
    by (rule that) (simp add: safeParseWorkflowStructure_def parsed s)
qed

lemma safeParseWorkflowStructure_parsed:
  "safeParseWorkflowStructure safe_parse input = Inr data \<Longrightarrow> safe_parse input = Inr data"
  by (cases "safe_parse input")
    (auto simp: safeParseWorkflowStructure_def Let_def split: prod.splits if_splits)

lemma ball_stored:
  assumes "\<And>s t i c. (s, t, i, c) \<in> S \<longleftrightarrow> Q s t i c"
  shows "(\<forall>(s, t, i, c) \<in> S. P c) \<longleftrightarrow> (\<forall>s t i c. Q s t i c \<longrightarrow> P c)"
  unfolding Ball_def split_paired_All prod.case assms ..

lemma no_instances:
  "{f s t i j c | s t i j c. A s t i j c \<and> g c \<notin> N} = {}
     \<longleftrightarrow> (\<forall>s t i j c. A s t i j c \<longrightarrow> g c \<in> N)"
  unfolding Collect_empty_eq by metis

lemma no_structure_problems:
  assumes wf: "wf_iconnections (structure_connections data)"
  shows "structure_problems data = {} \<longleftrightarrow> distinct (map structure_name (structure_nodes data))
     \<and> set (map_keys (structure_connections data)) \<subseteq> names_in data
     \<and> (\<forall>(s, t, i, c) \<in> set (stored_connections (structure_connections data)). conn_node c \<in> names_in data)"
proof -
  let ?cs = "structure_connections data"
  have get: "c \<in> set cs \<longleftrightarrow> (\<exists>j. arr_get cs j = Some c)" for c and cs :: "iconnection list"
    by (auto simp: in_set_conv_nth arr_get_def)
  have "(\<forall>(s, t, i, c) \<in> set (stored_connections ?cs). conn_node c \<in> names_in data)
     \<longleftrightarrow> (\<forall>s t i c. c \<in> set (conns_at ?cs s t i) \<longrightarrow> conn_node c \<in> names_in data)"
    using set_stored_connections [OF wf] by (rule ball_stored)
  also have "\<dots> \<longleftrightarrow> (\<forall>s t i j c. arr_get (conns_at ?cs s t i) j = Some c \<longrightarrow> conn_node c \<in> names_in data)"
    using get by meson
  also have "\<dots> \<longleftrightarrow> {target_issue s t i j c | s t i j c.
      arr_get (conns_at ?cs s t i) j = Some c \<and> conn_node c \<notin> names_in data} = {}"
    by (rule no_instances [symmetric])
  finally show ?thesis unfolding structure_problems_def Un_empty
    by (simp only: no_repeats [symmetric] image_is_empty Collect_empty_eq Diff_eq_empty_iff conj_assoc)
qed

section \<open>The workflow of an accepted payload\<close>

lemma workflow_nodes_new_workflow:
  assumes "distinct (map node_name ns)"
  shows "workflow_nodes (new_workflow types getNodeParameters ns cs pins)
    = map (\<lambda>n. (node_name n, default_parameters types getNodeParameters n)) ns"
proof -
  let ?d = "default_parameters types getNodeParameters"
  have name: "node_name (?d n) = node_name n" for n
    by (simp add: default_parameters_def split: option.splits)
  have "fold (\<lambda>node nodes. map_set (node_name node) node nodes) (map ?d ns) []
      = fold (\<lambda>(k, v). map_set k v) (map (\<lambda>n. (node_name n, ?d n)) ns) []"
    by (simp add: fold_map comp_def name)
  also have "\<dots> = map (\<lambda>n. (node_name n, ?d n)) ns"
    using assms by (subst fold_map_set_rebuild) (simp_all add: comp_def)
  finally show ?thesis
    by (simp add: new_workflow_def setNodes_def setConnections_def setPinData_def)
qed

section \<open>Fixtures\<close>

definition plain_structure_node :: "string \<Rightarrow> structure_node" where
  "plain_structure_node name =
     \<lparr>structure_name = name, structure_type = ''x'', structure_position = (0, 0),
      structure_parameters = None, structure_id = Some name, structure_type_version = Some 1,
      structure_disabled = None, structure_rest = []\<rparr>"

definition loaded_node :: "string \<Rightarrow> inode" where
  "loaded_node name =
     \<lparr>node_ref = 0, node_id = name, node_name = name, node_type = ''x'', type_version = 1,
      disabled = None, parameters = [], rewire_output_log_to = None, position = (0, 0),
      retryOnFail = None, maxTries = None, alwaysOutputData = None, executeOnce = None, onError = None,
      continueOnFail = None, forceCustomOperation = None\<rparr>"

section \<open>Properties\<close>

text \<open>C27: the issues of a payload that the schema refuses are those of the schema. On a payload that it
  lets through (whose connections are an object: no two entries have one key) the issues are exactly the
  violations of the graph rules: one for each node whose name an earlier node has, one for each source
  that is no node and one for each connection to a target that is no node, each with the path to the
  offending entry. The payload is returned as it was parsed if there is no issue, and
  \<open>parseWorkflowStructure\<close> throws the issues if there is one.\<close>

theorem safeParseWorkflowStructure_reports:
  assumes wf: "case safe_parse input of Inl issues \<Rightarrow> True | Inr data \<Rightarrow> wf_iconnections (structure_connections data)"
  shows "case safe_parse input of
      Inl issues \<Rightarrow> safeParseWorkflowStructure safe_parse input = Inl issues
        \<and> parseWorkflowStructure safe_parse input = Inl (WorkflowStructureValidationError issues)
    | Inr data \<Rightarrow> (case safeParseWorkflowStructure safe_parse input of
            Inl issues \<Rightarrow> set issues = structure_problems data \<and> structure_problems data \<noteq> {}
              \<and> parseWorkflowStructure safe_parse input = Inl (WorkflowStructureValidationError issues)
          | Inr d \<Rightarrow> d = data \<and> structure_problems data = {}
              \<and> parseWorkflowStructure safe_parse input = Inr data)"
proof (cases "safe_parse input")
  case (Inl issues)
  then show ?thesis by (simp add: parseWorkflowStructure_def safeParseWorkflowStructure_def)
next
  case (Inr data)
  with wf have "wf_iconnections (structure_connections data)" by simp
  from Inr this obtain issues where "set issues = structure_problems data"
    and "safeParseWorkflowStructure safe_parse input = (if issues = [] then Inr data else Inl issues)"
    by (rule safeParseWorkflowStructure_cases)
  with Inr show ?thesis by (cases issues) (auto simp: parseWorkflowStructure_def)
qed

definition bad_structure :: structure_data where
  "bad_structure =
     \<lparr>structure_nodes = [plain_structure_node ''A'', plain_structure_node ''B'', plain_structure_node ''A''],
      structure_connections =
        [(''C'', [(Main_type, [None, Some [\<lparr>conn_node = ''D'', conn_type = Main_type, conn_index = 0\<rparr>]])])]\<rparr>"

theorem safeParseWorkflowStructure_reports_witness:
  "structure_problems bad_structure =
      {duplicate_issue 2 (plain_structure_node ''A''), source_issue ''C'',
       target_issue ''C'' Main_type 1 0 \<lparr>conn_node = ''D'', conn_type = Main_type, conn_index = 0\<rparr>}"
proof -
  have "safeParseWorkflowStructure Inr bad_structure =
      Inl [duplicate_issue 2 (plain_structure_node ''A''), source_issue ''C'',
           target_issue ''C'' Main_type 1 0 \<lparr>conn_node = ''D'', conn_type = Main_type, conn_index = 0\<rparr>]"
    by code_simp
  moreover have "wf_iconnections (structure_connections bad_structure)" by code_simp
  ultimately show ?thesis
    using safeParseWorkflowStructure_reports [of Inr bad_structure] by simp
qed

text \<open>C28: an accepted payload loads as a well-formed workflow: its nodes are stored under their own
  names in the payload's order, none is lost, and every connection starts and ends at a node. The
  methods of the class \<open>Workflow\<close> and the searches over it rely on that.\<close>

theorem accepted_payload_loads:
  assumes ok: "safeParseWorkflowStructure safe_parse input = Inr data"
    and wf: "wf_iconnections (structure_connections data)"
    and names: "map node_name ns = map structure_name (structure_nodes data)"
  shows "wf_workflow (new_workflow types getNodeParameters ns (structure_connections data) pins)
    \<and> map_keys (workflow_nodes (new_workflow types getNodeParameters ns (structure_connections data) pins))
       = map structure_name (structure_nodes data)"
proof -
  let ?w = "new_workflow types getNodeParameters ns (structure_connections data) pins"
  have "structure_problems data = {}"
  proof (rule safeParseWorkflowStructure_cases [of safe_parse input data])
    show "safe_parse input = Inr data" using safeParseWorkflowStructure_parsed [OF ok] .
    show "wf_iconnections (structure_connections data)" by (rule wf)
    fix issues assume "set issues = structure_problems data"
      and "safeParseWorkflowStructure safe_parse input = (if issues = [] then Inr data else Inl issues)"
    with ok show "structure_problems data = {}" by (cases issues) auto
  qed
  with no_structure_problems [OF wf] have d: "distinct (map structure_name (structure_nodes data))"
    and keys: "set (map_keys (structure_connections data)) \<subseteq> names_in data"
    and targets: "\<forall>(s, t, i, c) \<in> set (stored_connections (structure_connections data)). conn_node c \<in> names_in data"
    by blast+
  from d names have dn: "distinct (map node_name ns)" by simp
  from workflow_nodes_new_workflow [OF dn] have nodes: "workflow_nodes ?w
      = map (\<lambda>n. (node_name n, default_parameters types getNodeParameters n)) ns" .
  have set_names: "node_name ` set ns = names_in data" using arg_cong [OF names, of set] by simp
  have cs: "connectionsBySourceNode ?w = structure_connections data"
    by (simp add: new_workflow_def setConnections_def setPinData_def setNodes_def)
  have "node_name (default_parameters types getNodeParameters n) = node_name n" for n
    by (simp add: default_parameters_def split: option.splits)
  with dn keys targets have "wf_workflow ?w"
    unfolding wf_workflow_def nodes cs by (simp add: comp_def wf set_names [symmetric] image_image)
  with names show ?thesis by (simp add: nodes comp_def)
qed

definition good_structure :: structure_data where
  "good_structure =
     \<lparr>structure_nodes = [plain_structure_node ''A'', plain_structure_node ''B''],
      structure_connections =
        [(''A'', [(Main_type, [Some [\<lparr>conn_node = ''B'', conn_type = Main_type, conn_index = 0\<rparr>]])])]\<rparr>"

theorem accepted_payload_loads_witness:
  "wf_workflow (new_workflow (\<lambda>t v. None) (\<lambda>t n. None)
     [loaded_node ''A'', loaded_node ''B''] (structure_connections good_structure) None)"
proof -
  have "safeParseWorkflowStructure Inr good_structure = Inr good_structure"
    and "wf_iconnections (structure_connections good_structure)"
    and "map node_name [loaded_node ''A'', loaded_node ''B''] = map structure_name (structure_nodes good_structure)"
    by code_simp+
  from accepted_payload_loads [OF this] show ?thesis by blast
qed

end
