(* ===== verification/Node_Grouping.thy ===== *)
theory Node_Grouping
  imports Extractable Partial_Run Structure_Validation
begin

text \<open>
  \<open>packages/workflow/src/node-grouping-validation.ts\<close>: whether a selection of nodes can be extracted
  into a workflow of its own or made a group, and whether the groups of a workflow can be saved.

  What the code reads of a node type is its groups and its declared inputs and outputs. A workflow
  group is an object that the code compares by identity; \<open>group_ref\<close> is that identity.
\<close>

section \<open>Data\<close>

record grouping_type = partial_type +
  described_inputs_of :: described_outputs

record workflow_group =
  group_ref :: nat
  group_id :: string
  group_name :: string
  group_node_ids :: "string list"
  group_description :: "string option"

record grouping_input =
  selection_nodes :: "inode list"
  selection_connections :: iconnections
  selection_types :: "inode \<Rightarrow> grouping_type option"
  existing_groups :: "workflow_group list option"
  selection_inputs :: "(inode \<Rightarrow> grouping_type \<Rightarrow> described_output list) option"
  selection_outputs :: "(inode \<Rightarrow> grouping_type \<Rightarrow> described_output list) option"

datatype grouping_failure =
    TriggerSelected "string list"
  | InvalidSubgraph "extractable_error list"
  | MultipleInputBranches string
  | MultipleOutputBranches string
  | NodeAlreadyGrouped "string list"
  | NonMainBoundary string string node_connection_type

type_synonym subgraph_data = "string option \<times> string option"

type_synonym grouping_result = "grouping_failure + inode list \<times> subgraph_data"

definition STICKY_NODE_TYPE :: string where
  "STICKY_NODE_TYPE = ''n8n-nodes-base.stickyNote''"

section \<open>The description of a group\<close>

definition GROUP_DESCRIPTION_MAX_LENGTH :: nat where
  "GROUP_DESCRIPTION_MAX_LENGTH = 145"

definition normalizeGroupDescription :: "json option \<Rightarrow> string option" where
  "normalizeGroupDescription description =
     (case description of
        Some (JStr s) \<Rightarrow>
          (let capped = take GROUP_DESCRIPTION_MAX_LENGTH s in if length capped > 0 then Some capped else None)
      | _ \<Rightarrow> None)"

section \<open>Connected selections\<close>

definition grouping_neighbors :: "(string \<times> string list) list \<Rightarrow> string \<Rightarrow> string list" where
  "grouping_neighbors m n = (case map_of m n of Some ns \<Rightarrow> ns | None \<Rightarrow> [])"

definition add_neighbor :: "string \<Rightarrow> string \<Rightarrow> (string \<times> string list) list \<Rightarrow> (string \<times> string list) list" where
  "add_neighbor a b m = (case map_of m a of None \<Rightarrow> m | Some ns \<Rightarrow> map_set a (set_add b ns) m)"

definition connect_source ::
  "string list \<Rightarrow> string \<times> iconnection list \<Rightarrow> (string \<times> string list) list \<Rightarrow> (string \<times> string list) list" where
  "connect_source nodeNames = (\<lambda>(sourceNodeName, connections) m.
     if sourceNodeName \<notin> set nodeNames \<or> \<not> map_has m sourceNodeName then m
     else fold (\<lambda>connection m.
            let targetNodeName = conn_node connection in
            if targetNodeName \<notin> set nodeNames \<or> targetNodeName = sourceNodeName then m
            else add_neighbor targetNodeName sourceNodeName (add_neighbor sourceNodeName targetNodeName m))
          connections m)"

definition neighborsByNodeName :: "string list \<Rightarrow> adjacency_list \<Rightarrow> (string \<times> string list) list" where
  "neighborsByNodeName nodeNames adj =
     fold (connect_source nodeNames) adj (fold (\<lambda>nodeName. map_set nodeName []) nodeNames [])"

text \<open>The body of the search for one node: each neighbour that was not visited is visited and
  queued. A node without a name is taken from the queue and not searched.\<close>

definition visit_neighbors :: "string list \<Rightarrow> string list \<times> string list \<Rightarrow> string list \<times> string list" where
  "visit_neighbors = fold (\<lambda>n (seen, queue).
     if n \<in> set seen then (seen, queue) else (seen @ [n], queue @ [n]))"

function visit_connected ::
  "(string \<times> string list) list \<Rightarrow> string list \<Rightarrow> string list \<Rightarrow> string list" where
  "visit_connected m seen [] = seen"
| "visit_connected m seen (current # queue) =
     (if current = [] then visit_connected m seen queue
      else (let (seen', queue') = visit_neighbors (grouping_neighbors m current) (seen, queue)
            in visit_connected m seen' queue'))"
  by pat_completeness auto

lemma visit_neighbors_spec:
  "\<exists>new. visit_neighbors ns (seen, queue) = (seen @ new, queue @ new)
     \<and> set new = set ns - set seen \<and> distinct new"
proof (induction ns arbitrary: seen queue)
  case (Cons n ns)
  show ?case
  proof (cases "n \<in> set seen")
    case True
    with Cons.IH [of seen queue] show ?thesis by (auto simp: visit_neighbors_def insert_absorb)
  next
    case False
    obtain new where "visit_neighbors ns (seen @ [n], queue @ [n]) = ((seen @ [n]) @ new, (queue @ [n]) @ new)"
      and "set new = set ns - set (seen @ [n])" and "distinct new"
      using Cons.IH by blast
    with False show ?thesis
      by (intro exI [of _ "n # new"]) (auto simp: visit_neighbors_def)
  qed
qed (simp add: visit_neighbors_def)

abbreviation all_neighbors :: "(string \<times> string list) list \<Rightarrow> string set" where
  "all_neighbors m \<equiv> \<Union>(set ` snd ` set m)"

lemma grouping_neighbors_subset: "set (grouping_neighbors m n) \<subseteq> all_neighbors m"
proof (cases "map_of m n")
  case (Some ns)
  then have "(n, ns) \<in> set m" by (rule map_of_SomeD)
  with Some show ?thesis by (force simp: grouping_neighbors_def)
qed (simp add: grouping_neighbors_def)

termination visit_connected
proof (relation "measures
    [\<lambda>(m, seen, queue). card (all_neighbors m - set seen), \<lambda>(m, seen, queue). length queue]",
    goal_cases)
  case (3 m seen current queue z seen' queue')
  obtain new where v: "seen' = seen @ new" "queue' = queue @ new"
    and new: "set new = set (grouping_neighbors m current) - set seen"
    using visit_neighbors_spec [of "grouping_neighbors m current" seen queue] 3(2,3) by fastforce
  show ?case
  proof (cases new)
    case (Cons x xs)
    then have "x \<in> all_neighbors m - set seen"
      using new grouping_neighbors_subset [of m current] by auto
    then have "all_neighbors m - set seen' \<subset> all_neighbors m - set seen" using Cons v by auto
    then have "card (all_neighbors m - set seen') < card (all_neighbors m - set seen)"
      by (intro psubset_card_mono) auto
    then show ?thesis by simp
  qed (simp add: v)
qed auto

definition findDisconnectedSelectionError :: "string list \<Rightarrow> adjacency_list \<Rightarrow> extractable_error option" where
  "findDisconnectedSelectionError nodeNames adj =
     (if length nodeNames \<le> 1 then None
      else if hd nodeNames = [] then None
      else (let seen = visit_connected (neighborsByNodeName nodeNames adj) [hd nodeNames] [hd nodeNames] in
            if length seen = length nodeNames then None
            else (case find (\<lambda>n. n \<notin> set seen) nodeNames of
                    None \<Rightarrow> None
                  | Some n \<Rightarrow> if n = [] then None
                              else Some (NoContinuousPathFromRootToLeaf (hd nodeNames) n))))"

section \<open>A selection of nodes\<close>

definition findAlreadyGroupedNodeIds :: "string list \<Rightarrow> workflow_group list \<Rightarrow> string list" where
  "findAlreadyGroupedNodeIds selectionNodeIds existingNodeGroups =
     (let groupedNodeIds = set_from (concat (map group_node_ids existingNodeGroups))
      in filter (\<lambda>nodeId. nodeId \<in> set groupedNodeIds) selectionNodeIds)"

fun isMainIo :: "described_output \<Rightarrow> bool" where
  "isMainIo (OutputName t) = (t = Main_type)"
| "isMainIo (OutputConfig t) = (t = Main_type)"

datatype io_direction = Inputs | Outputs

definition hasSingleMainIO :: "string \<Rightarrow> io_direction \<Rightarrow> (string \<times> inode) list \<Rightarrow> grouping_input \<Rightarrow> bool" where
  "hasSingleMainIO nodeName direction nodesByName input =
     (case map_of nodesByName nodeName of
        None \<Rightarrow> True
      | Some node \<Rightarrow>
          (case selection_types input node of
             None \<Rightarrow> True
           | Some nodeType \<Rightarrow>
               let ios = (case direction of
                   Inputs \<Rightarrow> (case selection_inputs input of
                                Some getNodeInputs \<Rightarrow> OutputList (getNodeInputs node nodeType)
                              | None \<Rightarrow> described_inputs_of nodeType)
                 | Outputs \<Rightarrow> (case selection_outputs input of
                                Some getNodeOutputs \<Rightarrow> OutputList (getNodeOutputs node nodeType)
                              | None \<Rightarrow> described_outputs_of nodeType))
               in (case ios of
                     OutputExpression e \<Rightarrow> True
                   | OutputList list \<Rightarrow> length (filter isMainIo list) \<le> 1)))"

definition findNonMainBoundaryConnection ::
  "string list \<Rightarrow> iconnections \<Rightarrow> (string \<times> string \<times> node_connection_type) option" where
  "findNonMainBoundaryConnection nodeNames connectionsBySource =
     map_option (\<lambda>(sourceNodeName, type, i, connection). (sourceNodeName, conn_node connection, type))
       (find (\<lambda>(sourceNodeName, type, i, connection). type \<noteq> Main_type
                \<and> (sourceNodeName \<in> set nodeNames) \<noteq> (conn_node connection \<in> set nodeNames))
         (stored_connections connectionsBySource))"

definition is_trigger_in :: "grouping_input \<Rightarrow> inode \<Rightarrow> bool" where
  "is_trigger_in input node =
     (case selection_types input node of
        Some nodeType \<Rightarrow> isTriggerNode (partial_type.truncate nodeType)
      | None \<Rightarrow> False)"

definition validateNodeSelectionSubgraph :: "grouping_input \<Rightarrow> grouping_result" where
  "validateNodeSelectionSubgraph input =
     (let nodes = selection_nodes input;
          triggers = filter (is_trigger_in input) nodes in
      if length triggers > 0 then Inl (TriggerSelected (map node_name triggers))
      else
        let adjacencyList = buildAdjacencyList (selection_connections input);
            selectedNodeNames = set_from (map node_name nodes) in
        (case parseExtractableSubgraphSelection selectedNodeNames adjacencyList of
           Inl errors \<Rightarrow> Inl (InvalidSubgraph errors)
         | Inr selection \<Rightarrow>
             (case findDisconnectedSelectionError selectedNodeNames adjacencyList of
                Some error \<Rightarrow> Inl (InvalidSubgraph [error])
              | None \<Rightarrow> Inr (nodes, selection))))"

definition named_option :: "string option \<Rightarrow> string option" where
  "named_option n = (case n of Some s \<Rightarrow> if s = [] then None else Some s | None \<Rightarrow> None)"

definition validateNodeSelectionForExtraction :: "grouping_input \<Rightarrow> grouping_result" where
  "validateNodeSelectionForExtraction input =
     bind_result (validateNodeSelectionSubgraph input) (\<lambda>(subGraph, start, end_node).
       let nodesByName = fold (\<lambda>node. map_set (node_name node) node) (selection_nodes input) [] in
       case named_option start of
         Some s \<Rightarrow>
           if \<not> hasSingleMainIO s Inputs nodesByName input then Inl (MultipleInputBranches s)
           else (case named_option end_node of
                   Some e \<Rightarrow> if \<not> hasSingleMainIO e Outputs nodesByName input then Inl (MultipleOutputBranches e)
                             else Inr (subGraph, start, end_node)
                 | None \<Rightarrow> Inr (subGraph, start, end_node))
       | None \<Rightarrow>
           (case named_option end_node of
              Some e \<Rightarrow> if \<not> hasSingleMainIO e Outputs nodesByName input then Inl (MultipleOutputBranches e)
                        else Inr (subGraph, start, end_node)
            | None \<Rightarrow> Inr (subGraph, start, end_node)))"

definition connectable_nodes :: "inode list \<Rightarrow> inode list" where
  "connectable_nodes nodes = filter (\<lambda>node. node_type node \<noteq> STICKY_NODE_TYPE) nodes"

definition validateNodeSelectionForGrouping :: "grouping_input \<Rightarrow> grouping_result" where
  "validateNodeSelectionForGrouping input =
     (let alreadyGroupedNodeIds = findAlreadyGroupedNodeIds (map node_id (selection_nodes input))
            (case existing_groups input of Some gs \<Rightarrow> gs | None \<Rightarrow> []) in
      if length alreadyGroupedNodeIds > 0 then Inl (NodeAlreadyGrouped alreadyGroupedNodeIds)
      else
        let connectableNodes = connectable_nodes (selection_nodes input) in
        if length connectableNodes = 0 then Inr (selection_nodes input, None, None)
        else bind_result (validateNodeSelectionSubgraph (input\<lparr>selection_nodes := connectableNodes\<rparr>))
          (\<lambda>(subGraph, subGraphData).
             case findNonMainBoundaryConnection (set_from (map node_name subGraph)) (selection_connections input) of
               Some (source, target, type) \<Rightarrow> Inl (NonMainBoundary source target type)
             | None \<Rightarrow> Inr (selection_nodes input, subGraphData)))"

section \<open>What the search visits\<close>

definition neighbor_rel :: "(string \<times> string list) list \<Rightarrow> string rel" where
  "neighbor_rel m = {(a, b). b \<in> set (grouping_neighbors m a)}"

text \<open>The undirected edges inside a selection.\<close>

definition links :: "string set \<Rightarrow> adjacency_list \<Rightarrow> string rel" where
  "links N adj = {(a, b). a \<in> N \<and> b \<in> N \<and> a \<noteq> b \<and> (\<exists>c \<in> set (adjacent adj a). conn_node c = b)}"

lemma neighbor_rel_add:
  "map_has m a \<Longrightarrow> neighbor_rel (add_neighbor a b m) = insert (a, b) (neighbor_rel m)"
  by (auto simp: neighbor_rel_def add_neighbor_def grouping_neighbors_def map_has_def
      split: option.splits if_splits)

lemma map_has_add: "map_has (add_neighbor a b m) n \<longleftrightarrow> map_has m n"
  by (auto simp: add_neighbor_def map_has_def split: option.splits)

definition source_links :: "string set \<Rightarrow> string \<Rightarrow> iconnection list \<Rightarrow> string rel" where
  "source_links N a cs = {(a, b) | b. a \<in> N \<and> b \<in> N \<and> a \<noteq> b \<and> (\<exists>c \<in> set cs. conn_node c = b)}"

lemma connect_source_spec:
  assumes "\<And>n. map_has m n \<longleftrightarrow> n \<in> set names"
  shows "(\<forall>n. map_has (connect_source names (a, cs) m) n \<longleftrightarrow> n \<in> set names)
    \<and> neighbor_rel (connect_source names (a, cs) m)
       = neighbor_rel m \<union> source_links (set names) a cs \<union> (source_links (set names) a cs)\<inverse>"
proof (cases "a \<in> set names")
  case True
  let ?f = "\<lambda>connection m. let targetNodeName = conn_node connection in
      if targetNodeName \<notin> set names \<or> targetNodeName = a then m
      else add_neighbor targetNodeName a (add_neighbor a targetNodeName m)"
  have "(\<forall>n. map_has (fold ?f cs m) n \<longleftrightarrow> n \<in> set names)
    \<and> neighbor_rel (fold ?f cs m)
       = neighbor_rel m \<union> source_links (set names) a cs \<union> (source_links (set names) a cs)\<inverse>"
    using assms
  proof (induction cs arbitrary: m)
    case (Cons c cs)
    let ?t = "conn_node c" and ?m = "?f c m"
    have has: "map_has ?m n \<longleftrightarrow> n \<in> set names" for n
      by (simp add: Let_def map_has_add Cons.prems)
    have rel: "neighbor_rel ?m = neighbor_rel m
        \<union> (if ?t \<in> set names \<and> ?t \<noteq> a then {(a, ?t), (?t, a)} else {})"
      using True Cons.prems by (simp add: Let_def neighbor_rel_add map_has_add insert_commute)
    have "source_links (set names) a (c # cs) = source_links (set names) a cs
        \<union> (if ?t \<in> set names \<and> ?t \<noteq> a then {(a, ?t)} else {})"
      using True by (auto simp: source_links_def)
    with Cons.IH [of ?m, OF has] rel show ?case by auto
  qed (simp add: source_links_def)
  with True assms show ?thesis by (simp add: connect_source_def)
qed (use assms in \<open>simp add: connect_source_def source_links_def\<close>)

lemma neighborsByNodeName_spec:
  assumes "distinct (map_keys adj)"
  shows "neighbor_rel (neighborsByNodeName names adj) = links (set names) adj \<union> (links (set names) adj)\<inverse>"
proof -
  have start: "map_of (fold (\<lambda>n. map_set n []) names m) n = (if n \<in> set names then Some [] else map_of m n)"
    for n and m :: "(string \<times> string list) list"
    by (induction names arbitrary: m) auto
  let ?m = "fold (\<lambda>n. map_set n []) names [] :: (string \<times> string list) list"
  have "(\<forall>n. map_has (fold (connect_source names) es m) n \<longleftrightarrow> n \<in> set names)
      \<and> neighbor_rel (fold (connect_source names) es m) = neighbor_rel m
         \<union> (\<Union>(a, cs) \<in> set es. source_links (set names) a cs \<union> (source_links (set names) a cs)\<inverse>)"
    if "\<And>n. map_has m n \<longleftrightarrow> n \<in> set names" for es :: adjacency_list and m
    using that
  proof (induction es arbitrary: m)
    case (Cons e es)
    obtain a cs where e: "e = (a, cs)" by (cases e)
    from Cons.IH [of "connect_source names e m"] connect_source_spec [OF Cons.prems, where a = a and cs = cs]
    show ?case by (auto simp: e)
  qed simp
  from this [of ?m adj] have "neighbor_rel (neighborsByNodeName names adj) = neighbor_rel ?m
      \<union> (\<Union>(a, cs) \<in> set adj. source_links (set names) a cs \<union> (source_links (set names) a cs)\<inverse>)"
    by (simp add: neighborsByNodeName_def map_has_def start)
  moreover have "neighbor_rel ?m = {}"
    by (auto simp: neighbor_rel_def grouping_neighbors_def start)
  moreover have "(\<Union>(a, cs) \<in> set adj. source_links (set names) a cs) = links (set names) adj"
    unfolding links_def source_links_def mem_adjacent [OF assms] Bex_def by blast
  ultimately show ?thesis by blast
qed

lemma visit_connected_spec:
  assumes "distinct seen" and "set queue \<subseteq> set seen" and "[] \<notin> set seen" and "[] \<notin> Range (neighbor_rel m)"
    and "\<And>x. x \<in> set seen \<Longrightarrow> x \<notin> set queue \<Longrightarrow> neighbor_rel m `` {x} \<subseteq> set seen"
  shows "distinct (visit_connected m seen queue)
     \<and> set (visit_connected m seen queue) = (neighbor_rel m)\<^sup>* `` set seen"
  using assms
proof (induction m seen queue rule: visit_connected.induct)
  case (1 m seen)
  have "y \<in> set seen" if "(x, y) \<in> (neighbor_rel m)\<^sup>*" "x \<in> set seen" for x y
    using that by (induction rule: rtrancl_induct) (use 1(5) in auto)
  with 1(1) show ?case by auto
next
  case (2 m seen n queue)
  from 2(4,5) have "n \<noteq> []" by auto
  obtain new where v: "visit_neighbors (grouping_neighbors m n) (seen, queue) = (seen @ new, queue @ new)"
    and new: "set new = set (grouping_neighbors m n) - set seen" "distinct new"
    using visit_neighbors_spec by blast
  have succ: "neighbor_rel m `` {n} = set (grouping_neighbors m n)" by (auto simp: neighbor_rel_def)
  have nonempty: "[] \<notin> set new" using 2(6) new(1) succ by auto
  have closed: "neighbor_rel m `` {x} \<subseteq> set (seen @ new)" if "x \<in> set (seen @ new)" "x \<notin> set (queue @ new)" for x
  proof (cases "x = n")
    case False
    with that 2(7) [of x] show ?thesis by auto
  qed (use succ new in auto)
  have "distinct (visit_connected m (seen @ new) (queue @ new))
     \<and> set (visit_connected m (seen @ new) (queue @ new)) = (neighbor_rel m)\<^sup>* `` set (seen @ new)"
  proof (rule 2(2) [OF \<open>n \<noteq> []\<close> v [symmetric] refl])
    show "distinct (seen @ new)" using 2(3) new by auto
    show "set (queue @ new) \<subseteq> set (seen @ new)" using 2(4) by auto
    show "[] \<notin> set (seen @ new)" using 2(5) nonempty by simp
  qed (use 2(6) closed in blast)+
  moreover have "(neighbor_rel m)\<^sup>* `` set (seen @ new) = (neighbor_rel m)\<^sup>* `` set seen"
  proof -
    have "x \<in> (neighbor_rel m)\<^sup>* `` set seen" if "x \<in> set new" for x
      using that new(1) succ 2(4) by auto
    then have "(x, y) \<in> (neighbor_rel m)\<^sup>* \<Longrightarrow> y \<in> (neighbor_rel m)\<^sup>* `` set seen" if "x \<in> set new" for x y
      using that by (metis ImageE ImageI rtrancl_trans)
    then show ?thesis by auto
  qed
  ultimately show ?case using \<open>n \<noteq> []\<close> v by simp
qed

section \<open>Connectivity\<close>

abbreviation connected_in :: "string set \<Rightarrow> adjacency_list \<Rightarrow> string rel" where
  "connected_in N adj \<equiv> (links N adj \<union> (links N adj)\<inverse>)\<^sup>*"

lemma connected_in_sym: "(a, b) \<in> connected_in N adj \<Longrightarrow> (b, a) \<in> connected_in N adj"
proof -
  have "sym (links N adj \<union> (links N adj)\<inverse>)" by (auto simp: sym_def)
  then show "(a, b) \<in> connected_in N adj \<Longrightarrow> (b, a) \<in> connected_in N adj"
    using sym_rtrancl symD by metis
qed

lemma connected_in_subset: "a \<in> N \<Longrightarrow> (a, b) \<in> connected_in N adj \<Longrightarrow> b \<in> N"
  by (erule (1) closed_rtrancl [rotated 2]) (auto simp: links_def)

lemma findDisconnectedSelectionError_spec:
  assumes d: "distinct names" and e: "[] \<notin> set names" and adj: "distinct (map_keys adj)"
  shows "case findDisconnectedSelectionError names adj of
      None \<Rightarrow> set names \<times> set names \<subseteq> connected_in (set names) adj
    | Some err \<Rightarrow> \<exists>b \<in> set names. err = NoContinuousPathFromRootToLeaf (hd names) b
        \<and> (hd names, b) \<notin> connected_in (set names) adj"
proof (cases "length names \<le> 1")
  case True
  then have "names = [] \<or> (\<exists>a. names = [a])" by (cases names) auto
  with True show ?thesis by (auto simp: findDisconnectedSelectionError_def)
next
  case False
  then obtain a rest where names: "names = a # rest" by (cases names) auto
  with e have "a \<noteq> []" by auto
  let ?m = "neighborsByNodeName names adj" and ?R = "connected_in (set names) adj"
  define v where "v = visit_connected ?m [a] [a]"
  note rel = neighborsByNodeName_spec [OF adj, of names]
  have "[] \<notin> Range (neighbor_rel ?m)" unfolding rel using e by (auto simp: links_def)
  then have v: "distinct v" "set v = ?R `` {a}"
    using visit_connected_spec [of "[a]" "[a]" ?m] \<open>a \<noteq> []\<close> unfolding v_def rel by auto
  have sub: "set v \<subseteq> set names" unfolding v(2) using connected_in_subset [of a "set names"] names by (meson Image_singleton_iff list.set_intros(1) subsetI)
  have full: "length v = length names \<longleftrightarrow> set v = set names"
    using sub d v(1) by (metis List.finite_set card_subset_eq distinct_card)
  show ?thesis
  proof (cases "set v = set names")
    case True
    have "(x, y) \<in> ?R" if "x \<in> set names" "y \<in> set names" for x y
    proof -
      have "(a, x) \<in> ?R" "(a, y) \<in> ?R" using that v(2) unfolding True by blast+
      from connected_in_sym [OF this(1)] this(2) show ?thesis by (rule rtrancl_trans)
    qed
    then show ?thesis
      using False full True \<open>a \<noteq> []\<close> unfolding findDisconnectedSelectionError_def
      by (auto simp: names v_def Let_def)
  next
    case notall: False
    then obtain b where b: "find (\<lambda>n. n \<notin> set v) names = Some b"
      using sub by (cases "find (\<lambda>n. n \<notin> set v) names") (auto simp: find_None_iff)
    then have "b \<in> set names" "b \<notin> set v" by (auto simp: find_Some_iff)
    moreover from this e have "b \<noteq> []" by auto
    moreover have "length v \<noteq> length names" using full notall by blast
    ultimately have "findDisconnectedSelectionError names adj = Some (NoContinuousPathFromRootToLeaf (hd names) b)"
      using False \<open>a \<noteq> []\<close> b
      unfolding findDisconnectedSelectionError_def names list.sel Let_def v_def [unfolded names, symmetric]
      by simp
    moreover have "(a, b) \<notin> ?R" using \<open>b \<notin> set v\<close> v(2) by blast
    ultimately show ?thesis using \<open>b \<in> set names\<close> by (simp add: names)
  qed
qed

section \<open>What an accepted selection looks like\<close>

lemma set_findAlreadyGroupedNodeIds:
  "set (findAlreadyGroupedNodeIds ns gs) = set ns \<inter> set (concat (map group_node_ids gs))"
  by (auto simp: findAlreadyGroupedNodeIds_def)

lemma findNonMainBoundaryConnection_None:
  "findNonMainBoundaryConnection names cs = None \<longleftrightarrow>
     (\<forall>(s, t, i, c) \<in> set (stored_connections cs). t \<noteq> Main_type \<longrightarrow>
        (s \<in> set names) = (conn_node c \<in> set names))"
  unfolding findNonMainBoundaryConnection_def option.map_disc_iff find_None_iff by fastforce

lemma findNonMainBoundaryConnection_Some:
  assumes "findNonMainBoundaryConnection names cs = Some (source, target, type)"
  shows "\<exists>i c. (source, type, i, c) \<in> set (stored_connections cs) \<and> conn_node c = target
    \<and> type \<noteq> Main_type \<and> (source \<in> set names) \<noteq> (target \<in> set names)"
proof -
  from assms obtain i c where f: "find (\<lambda>(s, t, i, c). t \<noteq> Main_type
      \<and> (s \<in> set names) \<noteq> (conn_node c \<in> set names)) (stored_connections cs) = Some (source, type, i, c)"
    and target: "conn_node c = target"
    unfolding findNonMainBoundaryConnection_def by auto
  from f have "(source, type, i, c) \<in> set (stored_connections cs)"
    and "type \<noteq> Main_type \<and> (source \<in> set names) \<noteq> (conn_node c \<in> set names)"
    unfolding find_Some_iff by (metis nth_mem, auto)
  with target show ?thesis by blast
qed

abbreviation connectable_names :: "grouping_input \<Rightarrow> string set" where
  "connectable_names input \<equiv> node_name ` set (connectable_nodes (selection_nodes input))"

text \<open>What the code enforces for a group, over the connections by source: no member is a trigger; the
  \<open>main\<close> connections that come from outside all enter one member, and those that go out all leave one
  member, however many there are; any two members are connected inside; and no connection crosses the
  boundary that is filed under a type other than \<open>main\<close>.\<close>

definition grouping_rules :: "grouping_input \<Rightarrow> subgraph_data \<Rightarrow> bool" where
  "grouping_rules input entry_exit \<longleftrightarrow>
     (let N = connectable_names input; adj = buildAdjacencyList (selection_connections input) in
       list_all (\<lambda>node. \<not> is_trigger_in input node) (connectable_nodes (selection_nodes input))
       \<and> input_nodes N adj = set_option (fst entry_exit) \<and> output_nodes N adj = set_option (snd entry_exit)
       \<and> N \<times> N \<subseteq> connected_in N adj
       \<and> list_all (\<lambda>(s, t, i, c). t \<noteq> Main_type \<longrightarrow> (s \<in> N) = (conn_node c \<in> N))
           (stored_connections (selection_connections input)))"

definition grouped_ids :: "grouping_input \<Rightarrow> string set" where
  "grouped_ids input = set (concat (map group_node_ids
     (case existing_groups input of Some gs \<Rightarrow> gs | None \<Rightarrow> [])))"

lemma validateNodeSelectionSubgraph_accepts:
  assumes ok: "validateNodeSelectionSubgraph input = Inr (sub, start, end_node)"
    and named: "[] \<notin> node_name ` set (selection_nodes input)"
  shows "sub = selection_nodes input \<and> list_all (\<lambda>node. \<not> is_trigger_in input node) (selection_nodes input)
    \<and> input_nodes (node_name ` set (selection_nodes input)) (buildAdjacencyList (selection_connections input))
        = set_option start
    \<and> output_nodes (node_name ` set (selection_nodes input)) (buildAdjacencyList (selection_connections input))
        = set_option end_node
    \<and> node_name ` set (selection_nodes input) \<times> node_name ` set (selection_nodes input)
       \<subseteq> connected_in (node_name ` set (selection_nodes input)) (buildAdjacencyList (selection_connections input))"
proof -
  let ?names = "set_from (map node_name (selection_nodes input))"
  let ?adj = "buildAdjacencyList (selection_connections input)"
  have d: "distinct (map_keys ?adj)" using buildAdjacencyList_spec by blast
  from ok have no: "filter (is_trigger_in input) (selection_nodes input) = []"
    and sub: "sub = selection_nodes input"
    and parse: "parseExtractableSubgraphSelection ?names ?adj = Inr (start, end_node)"
    and conn: "findDisconnectedSelectionError ?names ?adj = None"
    unfolding validateNodeSelectionSubgraph_def Let_def
    by (auto split: if_splits sum.splits option.splits)
  from parseExtractableSubgraphSelection_accepts [OF d parse]
  have ends: "input_nodes (set ?names) ?adj = set_option start" "output_nodes (set ?names) ?adj = set_option end_node"
    by blast+
  have "distinct ?names" "[] \<notin> set ?names" using named by auto
  from findDisconnectedSelectionError_spec [OF this d] conn
  have "set ?names \<times> set ?names \<subseteq> connected_in (set ?names) ?adj" by simp
  with ends sub no show ?thesis by (simp add: filter_empty_conv list_all_iff)
qed

lemma grouping_accepts:
  assumes ok: "validateNodeSelectionForGrouping input = Inr (sub, entry_exit)"
    and named: "[] \<notin> connectable_names input"
  shows "sub = selection_nodes input \<and> node_id ` set (selection_nodes input) \<inter> grouped_ids input = {}
    \<and> grouping_rules input entry_exit"
proof -
  let ?C = "connectable_nodes (selection_nodes input)"
  let ?cs = "selection_connections input" and ?adj = "buildAdjacencyList (selection_connections input)"
  from ok have "findAlreadyGroupedNodeIds (map node_id (selection_nodes input))
      (case existing_groups input of Some gs \<Rightarrow> gs | None \<Rightarrow> []) = []"
    unfolding validateNodeSelectionForGrouping_def Let_def by (auto split: if_splits)
  then have ids: "node_id ` set (selection_nodes input) \<inter> grouped_ids input = {}"
    using set_findAlreadyGroupedNodeIds unfolding grouped_ids_def by (metis list.set(1) list.set_map)
  show ?thesis
  proof (cases "?C = []")
    case True
    with ok ids show ?thesis
      unfolding validateNodeSelectionForGrouping_def Let_def
      by (auto simp: grouping_rules_def Let_def input_nodes_def output_nodes_def list_all_iff split: if_splits)
  next
    case False
    let ?in = "input\<lparr>selection_nodes := ?C\<rparr>"
    from ok False obtain sub' where inner: "validateNodeSelectionSubgraph ?in = Inr (sub', entry_exit)"
      and none: "findNonMainBoundaryConnection (set_from (map node_name sub')) ?cs = None"
      and sub: "sub = selection_nodes input"
      unfolding validateNodeSelectionForGrouping_def Let_def
      by (auto simp: bind_result_Inr_iff split: if_splits option.splits)
    obtain start end_node where ends: "entry_exit = (start, end_node)" by (cases entry_exit)
    have "is_trigger_in ?in = is_trigger_in input" by (rule ext) (simp add: is_trigger_in_def)
    with validateNodeSelectionSubgraph_accepts [of ?in sub' start end_node] inner named ends
    have "sub' = ?C" and graph: "list_all (\<lambda>node. \<not> is_trigger_in input node) ?C"
      "input_nodes (node_name ` set ?C) ?adj = set_option start" "output_nodes (node_name ` set ?C) ?adj = set_option end_node"
      "node_name ` set ?C \<times> node_name ` set ?C \<subseteq> connected_in (node_name ` set ?C) ?adj" by simp_all
    from none \<open>sub' = ?C\<close> have "list_all (\<lambda>(s, t, i, c). t \<noteq> Main_type \<longrightarrow>
        (s \<in> node_name ` set ?C) = (conn_node c \<in> node_name ` set ?C)) (stored_connections ?cs)"
      unfolding findNonMainBoundaryConnection_None list_all_iff by simp
    with graph ids sub ends show ?thesis by (simp add: grouping_rules_def Let_def)
  qed
qed

section \<open>What a refused selection looks like\<close>

text \<open>What each error of \<open>parseExtractableSubgraphSelection\<close> and of the search for connected members
  says of the selection \<open>N\<close>.\<close>

fun names_violation :: "string set \<Rightarrow> adjacency_list \<Rightarrow> extractable_error \<Rightarrow> bool" where
  "names_violation N adj (InputEdgeToNonRootNode n) \<longleftrightarrow>
     n \<in> input_nodes N adj \<and> (\<exists>m \<in> N. m \<noteq> n \<and> (m, n) \<in> main_rel adj)"
| "names_violation N adj (OutputEdgeFromNonLeafNode n) \<longleftrightarrow>
     n \<in> output_nodes N adj \<and> (\<exists>m \<in> N. m \<noteq> n \<and> (n, m) \<in> main_rel adj)"
| "names_violation N adj (MultipleInputNodes ns) \<longleftrightarrow>
     1 < length ns \<and> distinct ns \<and> set ns \<subseteq> input_nodes N adj"
| "names_violation N adj (MultipleOutputNodes ns) \<longleftrightarrow>
     1 < length ns \<and> distinct ns \<and> set ns \<subseteq> output_nodes N adj"
| "names_violation N adj (NoContinuousPathFromRootToLeaf a b) \<longleftrightarrow> a \<in> N \<and> b \<in> N
     \<and> (a \<in> input_nodes N adj \<and> b \<in> output_nodes N adj \<and> (a, b) \<notin> (main_rel adj)\<^sup>*
        \<or> (a, b) \<notin> connected_in N adj)"

lemma otherMainTargets_spec:
  "m \<in> set (otherMainTargets adj n) \<longleftrightarrow> m \<noteq> n \<and> (n, m) \<in> main_rel adj"
  by (auto simp: otherMainTargets_def main_rel_def)

lemma mem_getRootNodes:
  "n \<in> set (getRootNodes G adj) \<longleftrightarrow> n \<in> set G \<and> \<not> (\<exists>m \<in> set G. m \<noteq> n \<and> (m, n) \<in> main_rel adj)"
proof -
  have "x \<in> set (fold (\<lambda>nodeId innerNodes. set_union innerNodes (otherMainTargets adj nodeId)) ms acc)
      \<longleftrightarrow> x \<in> set acc \<or> (\<exists>m \<in> set ms. x \<in> set (otherMainTargets adj m))" for x ms acc
    by (induction ms arbitrary: acc) auto
  from this [of n G "[]"] show ?thesis by (auto simp: getRootNodes_def otherMainTargets_spec)
qed

lemma intersection_empty: "length (intersection a b) = 0 \<longleftrightarrow> set a \<inter> set b = {}"
  by (metis length_0_conv set_empty2 set_intersection)

lemma set_fold_kept: "set (fold (\<lambda>x result. if P x then set_add x result else result) ms acc) = set acc \<union> {x \<in> set ms. P x}"
  by (induction ms arbitrary: acc) auto

lemma mem_getLeafNodes:
  "n \<in> set (getLeafNodes G adj) \<longleftrightarrow> n \<in> set G \<and> \<not> (\<exists>m \<in> set G. m \<noteq> n \<and> (n, m) \<in> main_rel adj)"
proof -
  have "n \<in> set (getLeafNodes G adj) \<longleftrightarrow> n \<in> set G \<and> set (otherMainTargets adj n) \<inter> set G = {}"
    unfolding getLeafNodes_def set_fold_kept intersection_empty by simp
  then show ?thesis by (auto simp: otherMainTargets_spec)
qed

lemma set_inputs:
  assumes "distinct (map_keys adj)"
  shows "set (set_from (map (\<lambda>x. conn_node (snd x))
      (filter (\<lambda>x. conn_type (snd x) = Main_type) (getInputEdges G adj)))) = input_nodes (set G) adj" (is "set ?ins = _")
proof -
  have "m \<in> set ?ins \<longleftrightarrow> m \<in> input_nodes (set G) adj" for m
    unfolding input_nodes_def main_rel_def set_set_from set_map set_filter image_iff
    by (simp add: set_getInputEdges [OF assms] split_beta) blast
  then show ?thesis by blast
qed

lemma set_outputs:
  assumes "distinct (map_keys adj)"
  shows "set (set_from (map fst
      (filter (\<lambda>x. conn_type (snd x) = Main_type) (getOutputEdges G adj)))) = output_nodes (set G) adj" (is "set ?outs = _")
proof -
  have "m \<in> set ?outs \<longleftrightarrow> m \<in> output_nodes (set G) adj" for m
    unfolding output_nodes_def main_rel_def set_set_from set_map set_filter image_iff
    by (simp add: set_getOutputEdges [OF assms] split_beta) blast
  then show ?thesis by blast
qed

lemma first_of_mem: "first_of xs = Some x \<Longrightarrow> x \<in> set xs"
  by (auto simp: first_of_def split: list.splits)

lemma parse_refuses:
  assumes adj: "distinct (map_keys adj)"
    and no: "parseExtractableSubgraphSelection G adj = Inl errors"
  shows "errors \<noteq> [] \<and> list_all (names_violation (set G) adj) errors"
proof -
  define ins where "ins = set_from (map (\<lambda>x. conn_node (snd x))
            (filter (\<lambda>x. conn_type (snd x) = Main_type) (getInputEdges G adj)))"
  define outs where "outs = set_from (map fst
            (filter (\<lambda>x. conn_type (snd x) = Main_type) (getOutputEdges G adj)))"
  define roots where "roots = (if length (getRootNodes G adj) = 0 \<and> length ins = 1 then ins else getRootNodes G adj)"
  define leaves where "leaves = (if length (getLeafNodes G adj) = 0 \<and> length outs = 1 then outs else getLeafNodes G adj)"
  have ins: "set ins = input_nodes (set G) adj" and outs: "set outs = output_nodes (set G) adj"
    unfolding ins_def outs_def by (rule set_inputs [OF adj], rule set_outputs [OF adj])
  have into: "\<exists>m \<in> set G. m \<noteq> n \<and> (m, n) \<in> main_rel adj" if "n \<in> set ins" "n \<notin> set roots" for n
    using that ins mem_getRootNodes [of n G adj] by (auto simp: roots_def input_nodes_def split: if_splits)
  have out_of: "\<exists>m \<in> set G. m \<noteq> n \<and> (n, m) \<in> main_rel adj" if "n \<in> set outs" "n \<notin> set leaves" for n
    using that outs mem_getLeafNodes [of n G adj] by (auto simp: leaves_def output_nodes_def split: if_splits)
  have path: "names_violation (set G) adj (NoContinuousPathFromRootToLeaf s e)"
    if "first_of (intersection roots ins) = Some s" "first_of (intersection leaves outs) = Some e"
      and "\<not> hasPath s e adj" for s e
  proof -
    have "s \<in> input_nodes (set G) adj" "e \<in> output_nodes (set G) adj"
      using first_of_mem [OF that(1)] first_of_mem [OF that(2)] ins outs by simp_all
    with that(3) show ?thesis by (simp add: hasPath_spec input_nodes_def output_nodes_def)
  qed
  from no have "errors \<noteq> [] \<and> (\<forall>x \<in> set errors. x \<in> InputEdgeToNonRootNode ` (set ins - set roots)
      \<or> (x = MultipleInputNodes (intersection roots ins) \<and> 1 < length (intersection roots ins))
      \<or> x \<in> OutputEdgeFromNonLeafNode ` (set outs - set leaves)
      \<or> (x = MultipleOutputNodes (intersection leaves outs) \<and> 1 < length (intersection leaves outs))
      \<or> (\<exists>s e. x = NoContinuousPathFromRootToLeaf s e \<and> first_of (intersection roots ins) = Some s
            \<and> first_of (intersection leaves outs) = Some e \<and> \<not> hasPath s e adj))"
    unfolding parseExtractableSubgraphSelection_def Let_def
      ins_def [symmetric] outs_def [symmetric] roots_def [symmetric] leaves_def [symmetric]
    by (auto split: if_splits option.splits)
  moreover have "names_violation (set G) adj (InputEdgeToNonRootNode n)" if "n \<in> set ins - set roots" for n
    using that into ins by simp
  moreover have "names_violation (set G) adj (OutputEdgeFromNonLeafNode n)" if "n \<in> set outs - set leaves" for n
    using that out_of outs by simp
  moreover have "1 < length (intersection roots ins) \<Longrightarrow> names_violation (set G) adj (MultipleInputNodes (intersection roots ins))"
    and "1 < length (intersection leaves outs) \<Longrightarrow> names_violation (set G) adj (MultipleOutputNodes (intersection leaves outs))"
    using ins outs by (simp_all add: distinct_intersection)
  ultimately have "names_violation (set G) adj x" if "x \<in> set errors" for x
    using that path by (elim conjE ballE [of _ _ x] disjE imageE exE) (simp_all only:, blast)
  moreover from \<open>errors \<noteq> [] \<and> _\<close> have "errors \<noteq> []" by (rule conjunct1)
  ultimately show ?thesis by (simp add: list_all_iff)
qed

text \<open>Why a selection is refused.\<close>

fun refusal_justified :: "grouping_input \<Rightarrow> grouping_failure \<Rightarrow> bool" where
  "refusal_justified input (NodeAlreadyGrouped nodeIds) \<longleftrightarrow>
     nodeIds \<noteq> [] \<and> set nodeIds = node_id ` set (selection_nodes input) \<inter> grouped_ids input"
| "refusal_justified input (TriggerSelected names) \<longleftrightarrow>
     names \<noteq> [] \<and> names = map node_name (filter (is_trigger_in input) (connectable_nodes (selection_nodes input)))"
| "refusal_justified input (InvalidSubgraph errors) \<longleftrightarrow>
     errors \<noteq> []
     \<and> list_all (names_violation (connectable_names input) (buildAdjacencyList (selection_connections input))) errors"
| "refusal_justified input (NonMainBoundary source target type) \<longleftrightarrow>
     type \<noteq> Main_type \<and> (source \<in> connectable_names input) \<noteq> (target \<in> connectable_names input)
     \<and> (\<exists>i c. (source, type, i, c) \<in> set (stored_connections (selection_connections input)) \<and> conn_node c = target)"
| "refusal_justified input (MultipleInputBranches node) \<longleftrightarrow> False"
| "refusal_justified input (MultipleOutputBranches node) \<longleftrightarrow> False"

lemma subgraph_refuses:
  assumes no: "validateNodeSelectionSubgraph (input\<lparr>selection_nodes := connectable_nodes (selection_nodes input)\<rparr>)
      = Inl failure"
    and named: "[] \<notin> connectable_names input"
  shows "refusal_justified input failure"
proof -
  let ?C = "connectable_nodes (selection_nodes input)"
  let ?in = "input\<lparr>selection_nodes := ?C\<rparr>"
  let ?names = "set_from (map node_name ?C)" and ?adj = "buildAdjacencyList (selection_connections input)"
  have trig: "is_trigger_in ?in = is_trigger_in input" by (rule ext) (simp add: is_trigger_in_def)
  show ?thesis
  proof (cases "filter (is_trigger_in input) ?C = []")
    case False
    with no trig show ?thesis unfolding validateNodeSelectionSubgraph_def Let_def by auto
  next
    case none: True
    show ?thesis
    proof (cases "parseExtractableSubgraphSelection ?names ?adj")
      case (Inl errors)
      have d: "distinct (map_keys ?adj)" using buildAdjacencyList_spec by blast
      from Inl no none trig have "failure = InvalidSubgraph errors"
        unfolding validateNodeSelectionSubgraph_def Let_def by auto
      with parse_refuses [OF d Inl] show ?thesis by simp
    next
      case (Inr selection)
      with no none trig obtain err where failure: "failure = InvalidSubgraph [err]"
        and err: "findDisconnectedSelectionError ?names ?adj = Some err"
        unfolding validateNodeSelectionSubgraph_def Let_def by (auto split: option.splits)
      have d: "distinct (map_keys ?adj)" using buildAdjacencyList_spec by blast
      have "distinct ?names" "[] \<notin> set ?names" using named by auto
      from findDisconnectedSelectionError_spec [OF this d] err obtain b where
        b: "b \<in> set ?names" "err = NoContinuousPathFromRootToLeaf (hd ?names) b"
          "(hd ?names, b) \<notin> connected_in (set ?names) ?adj" by auto
      from b(1) have "hd ?names \<in> set ?names" by (cases ?names) auto
      with b failure show ?thesis by simp
    qed
  qed
qed

lemma grouping_refuses:
  assumes no: "validateNodeSelectionForGrouping input = Inl failure"
    and named: "[] \<notin> connectable_names input"
  shows "refusal_justified input failure"
proof -
  let ?ids = "findAlreadyGroupedNodeIds (map node_id (selection_nodes input))
      (case existing_groups input of Some gs \<Rightarrow> gs | None \<Rightarrow> [])"
  let ?C = "connectable_nodes (selection_nodes input)"
  have gids: "set ?ids = node_id ` set (selection_nodes input) \<inter> grouped_ids input"
    unfolding set_findAlreadyGroupedNodeIds grouped_ids_def by simp
  show ?thesis
  proof (cases "?ids = []")
    case False
    with no gids show ?thesis unfolding validateNodeSelectionForGrouping_def Let_def by auto
  next
    case True
    then have "?C \<noteq> []"
      using no unfolding validateNodeSelectionForGrouping_def Let_def by auto
    show ?thesis
    proof (cases "validateNodeSelectionSubgraph (input\<lparr>selection_nodes := ?C\<rparr>)")
      case (Inl f)
      with no True \<open>?C \<noteq> []\<close> have "f = failure"
        unfolding validateNodeSelectionForGrouping_def Let_def by simp
      with subgraph_refuses [OF Inl named] show ?thesis by simp
    next
      case (Inr r)
      obtain sub start end_node where r: "r = (sub, start, end_node)" by (cases r)
      with Inr named have sub: "sub = ?C"
        using validateNodeSelectionSubgraph_accepts [of "input\<lparr>selection_nodes := ?C\<rparr>" sub start end_node] by simp
      from no True \<open>?C \<noteq> []\<close> Inr r sub obtain s t ty where failure: "failure = NonMainBoundary s t ty"
        and b: "findNonMainBoundaryConnection (set_from (map node_name ?C)) (selection_connections input) = Some (s, t, ty)"
        unfolding validateNodeSelectionForGrouping_def Let_def by (auto split: option.splits)
      from findNonMainBoundaryConnection_Some [OF b] failure show ?thesis by auto
    qed
  qed
qed

end
