(* ===== verification/Group_Validation.thy ===== *)
theory Group_Validation
  imports Node_Grouping
begin

text \<open>
  The groups of a workflow: \<open>validateWorkflowGroups\<close> of \<open>node-grouping-validation.ts\<close> collects the
  violations of the basic rules in one pass over the groups, and then those of the graph rules for the
  groups without a basic violation.
\<close>

section \<open>Violations\<close>

datatype violation_code =
    DuplicateGroupId
  | DuplicateGroupName
  | EmptyGroup
  | UnknownNodeId
  | NodeInMultipleGroups
  | ReasonTriggerSelected
  | ReasonInvalidSubgraph
  | ReasonMultipleInputBranches
  | ReasonMultipleOutputBranches
  | ReasonNodeAlreadyGrouped
  | ReasonNonMainBoundary

record group_violation =
  violation_group_id :: string
  violation_group_name :: string
  violation_code_of :: violation_code
  violation_message :: string

fun reason_of :: "grouping_failure \<Rightarrow> violation_code" where
  "reason_of (TriggerSelected names) = ReasonTriggerSelected"
| "reason_of (InvalidSubgraph errors) = ReasonInvalidSubgraph"
| "reason_of (MultipleInputBranches node) = ReasonMultipleInputBranches"
| "reason_of (MultipleOutputBranches node) = ReasonMultipleOutputBranches"
| "reason_of (NodeAlreadyGrouped nodeIds) = ReasonNodeAlreadyGrouped"
| "reason_of (NonMainBoundary source target type) = ReasonNonMainBoundary"

fun groupRuleViolationMessage :: "workflow_group \<Rightarrow> (string \<Rightarrow> string) \<Rightarrow> grouping_failure \<Rightarrow> string" where
  "groupRuleViolationMessage grp nodeLabel (TriggerSelected triggerNames) =
     ''Node group '' @ quoted (group_name grp) @ '' cannot contain trigger nodes: ''
       @ join_strings '', '' triggerNames @ ''.''"
| "groupRuleViolationMessage grp nodeLabel (InvalidSubgraph errors) =
     ''Node group '' @ quoted (group_name grp)
       @ '' must form a single connected subgraph with a single entry and exit.''"
| "groupRuleViolationMessage grp nodeLabel (NodeAlreadyGrouped nodeIds) =
     ''Node group '' @ quoted (group_name grp) @ '' contains nodes that already belong to another group: ''
       @ join_strings '', '' (map nodeLabel nodeIds) @ ''.''"
| "groupRuleViolationMessage grp nodeLabel (NonMainBoundary source target type) =
     ''Node group '' @ quoted (group_name grp) @ '' cannot cross the '' @ quoted type
       @ '' connection between '' @ quoted source @ '' and '' @ quoted target @ ''.''"
| "groupRuleViolationMessage grp nodeLabel (MultipleInputBranches node) =
     ''Node group '' @ quoted (group_name grp) @ '' has multiple input branches at node '' @ quoted node @ ''.''"
| "groupRuleViolationMessage grp nodeLabel (MultipleOutputBranches node) =
     ''Node group '' @ quoted (group_name grp) @ '' has multiple output branches at node '' @ quoted node @ ''.''"

section \<open>The basic rules\<close>

record basic_state =
  found :: "group_violation list"
  with_basic :: "nat list"
  seen_group_ids :: "string list"
  seen_group_names :: "string list"
  node_to_group :: "(string \<times> string) list"

definition group_violation_of :: "workflow_group \<Rightarrow> violation_code \<Rightarrow> string \<Rightarrow> group_violation" where
  "group_violation_of grp code message =
     \<lparr>violation_group_id = group_id grp, violation_group_name = group_name grp,
      violation_code_of = code, violation_message = message\<rparr>"

definition addBasicViolation ::
  "workflow_group \<Rightarrow> violation_code \<Rightarrow> string \<Rightarrow> basic_state \<Rightarrow> basic_state" where
  "addBasicViolation grp code message st =
     st\<lparr>found := found st @ [group_violation_of grp code message],
        with_basic := set_add (group_ref grp) (with_basic st)\<rparr>"

definition index_by_id :: "inode list \<Rightarrow> (string \<times> inode) list" where
  "index_by_id nodes = fold (\<lambda>node. map_set (node_id node) node) (filter (\<lambda>node. node_id node \<noteq> []) nodes) []"

definition node_label :: "(string \<times> inode) list \<Rightarrow> string \<Rightarrow> string" where
  "node_label nodeById nodeId =
     (case map_of nodeById nodeId of
        Some node \<Rightarrow> if node_name node = [] then nodeId else node_name node
      | None \<Rightarrow> nodeId)"

definition check_member :: "(string \<times> inode) list \<Rightarrow> workflow_group \<Rightarrow> string \<Rightarrow> basic_state \<Rightarrow> basic_state" where
  "check_member nodeById grp nodeId st =
     (if \<not> map_has nodeById nodeId
      then addBasicViolation grp UnknownNodeId
             (''Group '' @ quoted (group_name grp) @ '' references node ID '' @ quoted nodeId
              @ '' that does not exist in the workflow.'') st
      else (case named_option (map_of (node_to_group st) nodeId) of
              Some existingGroup \<Rightarrow>
                addBasicViolation grp NodeInMultipleGroups
                  (''Node '' @ quoted (node_label nodeById nodeId) @ '' belongs to multiple groups: ''
                   @ quoted existingGroup @ '' and '' @ quoted (group_name grp) @ ''.'') st
            | None \<Rightarrow> st\<lparr>node_to_group := map_set nodeId (group_name grp) (node_to_group st)\<rparr>))"

definition check_basic :: "(string \<times> inode) list \<Rightarrow> workflow_group \<Rightarrow> basic_state \<Rightarrow> basic_state" where
  "check_basic nodeById grp st =
     (let st = (if group_id grp \<in> set (seen_group_ids st)
                then addBasicViolation grp DuplicateGroupId
                       (''Duplicate node group ID '' @ quoted (group_id grp) @ ''.'') st
                else st);
          st = st\<lparr>seen_group_ids := set_add (group_id grp) (seen_group_ids st)\<rparr>;
          st = (if group_name grp \<in> set (seen_group_names st)
                then addBasicViolation grp DuplicateGroupName
                       (''Duplicate node group name '' @ quoted (group_name grp) @ ''.'') st
                else st);
          st = st\<lparr>seen_group_names := set_add (group_name grp) (seen_group_names st)\<rparr>;
          st = (if length (group_node_ids grp) = 0
                then addBasicViolation grp EmptyGroup
                       (''Group '' @ quoted (group_name grp) @ '' has no members.'') st
                else st)
      in fold (check_member nodeById grp) (group_node_ids grp) st)"

definition no_groups_seen :: basic_state where
  "no_groups_seen =
     \<lparr>found = [], with_basic = [], seen_group_ids = [], seen_group_names = [], node_to_group = []\<rparr>"

section \<open>The graph rules\<close>

definition group_selection ::
  "(string \<times> inode) list \<Rightarrow> iconnections \<Rightarrow> workflow_group list \<Rightarrow> (inode \<Rightarrow> grouping_type option)
   \<Rightarrow> workflow_group \<Rightarrow> grouping_input" where
  "group_selection nodeById connections nodeGroups getNodeType grp =
     \<lparr>selection_nodes = List.map_filter (map_of nodeById) (group_node_ids grp),
      selection_connections = connections,
      selection_types = getNodeType,
      existing_groups = Some (filter (\<lambda>other. group_id other \<noteq> group_id grp) nodeGroups),
      selection_inputs = None, selection_outputs = None\<rparr>"

definition check_graph ::
  "(string \<times> inode) list \<Rightarrow> iconnections \<Rightarrow> workflow_group list \<Rightarrow> (inode \<Rightarrow> grouping_type option)
   \<Rightarrow> nat list \<Rightarrow> workflow_group \<Rightarrow> group_violation list" where
  "check_graph nodeById connections nodeGroups getNodeType groupsWithBasicViolations grp =
     (if group_ref grp \<in> set groupsWithBasicViolations then []
      else (case validateNodeSelectionForGrouping
                   (group_selection nodeById connections nodeGroups getNodeType grp) of
              Inl failure \<Rightarrow> [group_violation_of grp (reason_of failure)
                               (groupRuleViolationMessage grp (node_label nodeById) failure)]
            | Inr accepted \<Rightarrow> []))"

definition validateWorkflowGroups ::
  "inode list \<Rightarrow> iconnections option \<Rightarrow> workflow_group list option \<Rightarrow> (inode \<Rightarrow> grouping_type option) option
   \<Rightarrow> group_violation list + unit" where
  "validateWorkflowGroups nodes connectionsBySource nodeGroups getNodeType =
     (case nodeGroups of
        None \<Rightarrow> Inr ()
      | Some groups \<Rightarrow>
          if length groups = 0 then Inr ()
          else
            let nodeById = index_by_id nodes;
                st = fold (check_basic nodeById) groups no_groups_seen;
                connections = (case connectionsBySource of Some cs \<Rightarrow> cs | None \<Rightarrow> []);
                violations = found st @
                  (case getNodeType of
                     None \<Rightarrow> []
                   | Some types \<Rightarrow> concat (map (check_graph nodeById connections groups types (with_basic st)) groups))
            in if length violations > 0 then Inl violations else Inr ())"

section \<open>When the basic rules hold\<close>

definition basic_inv :: "basic_state \<Rightarrow> bool" where
  "basic_inv st \<longleftrightarrow> (found st = [] \<longrightarrow> with_basic st = []) \<and> [] \<notin> snd ` set (node_to_group st)"

lemma basic_inv_add [simp]: "basic_inv st \<Longrightarrow> basic_inv (addBasicViolation g code m st)"
  by (simp add: basic_inv_def addBasicViolation_def)

lemma addBasicViolation_frame [simp]:
  "found (addBasicViolation g code m st) = found st @ [group_violation_of g code m]"
  "seen_group_ids (addBasicViolation g code m st) = seen_group_ids st"
  "seen_group_names (addBasicViolation g code m st) = seen_group_names st"
  "node_to_group (addBasicViolation g code m st) = node_to_group st"
  by (simp_all add: addBasicViolation_def)

lemma named_lookup:
  assumes "[] \<notin> snd ` set m"
  shows "named_option (map_of m k) = map_of m k"
proof (cases "map_of m k")
  case (Some v)
  then have "(k, v) \<in> set m" by (rule map_of_SomeD)
  with assms have "v \<noteq> []" by force
  with Some show ?thesis by (simp add: named_option_def)
qed (simp add: named_option_def)

lemma map_set_values: "snd ` set (map_set k v m) \<subseteq> insert v (snd ` set m)"
  by (induction m) auto

lemma check_member_spec:
  assumes inv: "basic_inv st" and name: "group_name g \<noteq> []"
  shows "basic_inv (check_member nb g nid st)"
    and "seen_group_ids (check_member nb g nid st) = seen_group_ids st"
    and "seen_group_names (check_member nb g nid st) = seen_group_names st"
    and "found (check_member nb g nid st) = []
       \<longleftrightarrow> found st = [] \<and> map_has nb nid \<and> nid \<notin> set (map_keys (node_to_group st))"
    and "found (check_member nb g nid st) = [] \<Longrightarrow>
       set (map_keys (node_to_group (check_member nb g nid st))) = insert nid (set (map_keys (node_to_group st)))"
proof -
  have lookup: "named_option (map_of (node_to_group st) nid) = map_of (node_to_group st) nid"
    using inv by (intro named_lookup) (simp add: basic_inv_def)
  have "[] \<notin> snd ` set (map_set nid (group_name g) (node_to_group st))"
  proof
    assume "[] \<in> snd ` set (map_set nid (group_name g) (node_to_group st))"
    with map_set_values have "[] \<in> insert (group_name g) (snd ` set (node_to_group st))" by (rule subsetD)
    with inv name show False by (simp add: basic_inv_def)
  qed
  with inv have "basic_inv (st\<lparr>node_to_group := map_set nid (group_name g) (node_to_group st)\<rparr>)"
    by (simp add: basic_inv_def)
  with inv show "basic_inv (check_member nb g nid st)"
    unfolding check_member_def by (simp split: option.splits)
  show "seen_group_ids (check_member nb g nid st) = seen_group_ids st"
    "seen_group_names (check_member nb g nid st) = seen_group_names st"
    by (auto simp: check_member_def split: option.splits)
  show "found (check_member nb g nid st) = []
       \<longleftrightarrow> found st = [] \<and> map_has nb nid \<and> nid \<notin> set (map_keys (node_to_group st))"
    unfolding check_member_def lookup js_map.keys_lookup by (auto split: option.splits)
  show "set (map_keys (node_to_group (check_member nb g nid st))) = insert nid (set (map_keys (node_to_group st)))"
    if "found (check_member nb g nid st) = []"
    using that js_map.keys_store [of nid "group_name g" "node_to_group st"]
    unfolding check_member_def lookup by (auto split: if_splits option.splits)
qed

lemma check_members_spec:
  assumes "basic_inv st" and name: "group_name g \<noteq> []"
  shows "basic_inv (fold (check_member nb g) members st)
    \<and> seen_group_ids (fold (check_member nb g) members st) = seen_group_ids st
    \<and> seen_group_names (fold (check_member nb g) members st) = seen_group_names st
    \<and> (found (fold (check_member nb g) members st) = []
       \<longleftrightarrow> found st = [] \<and> list_all (map_has nb) members \<and> distinct members
          \<and> set members \<inter> set (map_keys (node_to_group st)) = {})
    \<and> (found (fold (check_member nb g) members st) = [] \<longrightarrow>
       set (map_keys (node_to_group (fold (check_member nb g) members st))) = set members \<union> set (map_keys (node_to_group st)))"
  using assms(1)
proof (induction members arbitrary: st)
  case (Cons nid members)
  let ?st = "check_member nb g nid st"
  note step = check_member_spec [OF Cons.prems name, of nb nid]
  note IH = Cons.IH [OF step(1)]
  have clean: "found (fold (check_member nb g) members ?st) = [] \<Longrightarrow> found ?st = []" using IH by blast
  have "found (fold (check_member nb g) members ?st) = []
      \<longleftrightarrow> found st = [] \<and> list_all (map_has nb) (nid # members) \<and> distinct (nid # members)
          \<and> set (nid # members) \<inter> set (map_keys (node_to_group st)) = {}" (is "?L \<longleftrightarrow> ?R")
  proof
    assume ?L
    with clean have c: "found ?st = []" .
    from \<open>?L\<close> IH have "list_all (map_has nb) members" "distinct members"
      "set members \<inter> set (map_keys (node_to_group ?st)) = {}" by blast+
    with c step(4,5) show ?R by auto
  next
    assume r: ?R
    with step(4) have c: "found ?st = []" by auto
    from r step(5) [OF c] have "set members \<inter> set (map_keys (node_to_group ?st)) = {}" by auto
    with r c IH show ?L by auto
  qed
  moreover have "set (map_keys (node_to_group (fold (check_member nb g) members ?st)))
      = set (nid # members) \<union> set (map_keys (node_to_group st))"
    if "found (fold (check_member nb g) members ?st) = []"
    using IH that step(5) [OF clean [OF that]] by auto
  ultimately show ?case using IH step(2,3) by simp
qed simp

definition basic_rules :: "(string \<times> inode) list \<Rightarrow> workflow_group list \<Rightarrow> bool" where
  "basic_rules nb gs \<longleftrightarrow> distinct (map group_id gs) \<and> distinct (map group_name gs)
     \<and> [] \<notin> group_node_ids ` set gs
     \<and> list_all (map_has nb) (concat (map group_node_ids gs))
     \<and> distinct (concat (map group_node_ids gs))"

lemma check_basic_spec:
  assumes inv: "basic_inv st" and name: "group_name g \<noteq> []"
  shows "basic_inv (check_basic nb g st)
    \<and> set (seen_group_ids (check_basic nb g st)) = insert (group_id g) (set (seen_group_ids st))
    \<and> set (seen_group_names (check_basic nb g st)) = insert (group_name g) (set (seen_group_names st))
    \<and> (found (check_basic nb g st) = [] \<longleftrightarrow> found st = []
         \<and> group_id g \<notin> set (seen_group_ids st) \<and> group_name g \<notin> set (seen_group_names st)
         \<and> group_node_ids g \<noteq> [] \<and> list_all (map_has nb) (group_node_ids g) \<and> distinct (group_node_ids g)
         \<and> set (group_node_ids g) \<inter> set (map_keys (node_to_group st)) = {})
    \<and> (found (check_basic nb g st) = [] \<longrightarrow>
         set (map_keys (node_to_group (check_basic nb g st)))
           = set (group_node_ids g) \<union> set (map_keys (node_to_group st)))"
proof -
  have inv_ids: "basic_inv (s\<lparr>seen_group_ids := x\<rparr>) = basic_inv s" 
    and inv_names: "basic_inv (s\<lparr>seen_group_names := x\<rparr>) = basic_inv s" for s x
    by (simp_all add: basic_inv_def)
  define s1 where "s1 = (if group_id g \<in> set (seen_group_ids st) then addBasicViolation g DuplicateGroupId
      (''Duplicate node group ID '' @ quoted (group_id g) @ ''.'') st else st)"
  define s2 where "s2 = s1\<lparr>seen_group_ids := set_add (group_id g) (seen_group_ids s1)\<rparr>"
  define s3 where "s3 = (if group_name g \<in> set (seen_group_names s2) then addBasicViolation g DuplicateGroupName
      (''Duplicate node group name '' @ quoted (group_name g) @ ''.'') s2 else s2)"
  define s4 where "s4 = s3\<lparr>seen_group_names := set_add (group_name g) (seen_group_names s3)\<rparr>"
  define s5 where "s5 = (if length (group_node_ids g) = 0 then addBasicViolation g EmptyGroup
      (''Group '' @ quoted (group_name g) @ '' has no members.'') s4 else s4)"
  have eq: "check_basic nb g st = fold (check_member nb g) (group_node_ids g) s5"
    unfolding check_basic_def Let_def s1_def s2_def s3_def s4_def s5_def ..
  have "basic_inv s5" using inv by (simp add: s1_def s2_def s3_def s4_def s5_def inv_ids inv_names)
  note members = check_members_spec [OF this name, of nb "group_node_ids g"]
  have f1: "found s1 = [] \<longleftrightarrow> found st = [] \<and> group_id g \<notin> set (seen_group_ids st)" by (simp add: s1_def)
  have f3: "found s3 = [] \<longleftrightarrow> found s1 = [] \<and> group_name g \<notin> set (seen_group_names st)"
    by (simp add: s3_def s2_def s1_def)
  have f5: "found s5 = [] \<longleftrightarrow> found s3 = [] \<and> group_node_ids g \<noteq> []" by (simp add: s5_def s4_def)
  have ids: "set (seen_group_ids s5) = insert (group_id g) (set (seen_group_ids st))"
    and names: "set (seen_group_names s5) = insert (group_name g) (set (seen_group_names st))"
    and "node_to_group s5 = node_to_group st"
    by (simp_all add: s1_def s2_def s3_def s4_def s5_def)
  with members f1 f3 f5 show ?thesis unfolding eq by (simp add: conj_ac)
qed

lemma basic_pass_spec:
  assumes "[] \<notin> group_name ` set gs"
  shows "basic_inv (fold (check_basic nb) gs no_groups_seen)
    \<and> set (seen_group_ids (fold (check_basic nb) gs no_groups_seen)) = group_id ` set gs
    \<and> set (seen_group_names (fold (check_basic nb) gs no_groups_seen)) = group_name ` set gs
    \<and> (found (fold (check_basic nb) gs no_groups_seen) = [] \<longleftrightarrow> basic_rules nb gs)
    \<and> (found (fold (check_basic nb) gs no_groups_seen) = [] \<longrightarrow>
         set (map_keys (node_to_group (fold (check_basic nb) gs no_groups_seen)))
           = set (concat (map group_node_ids gs)))"
  using assms
proof (induction gs rule: rev_induct)
  case (snoc g gs)
  let ?st = "fold (check_basic nb) gs no_groups_seen"
  have name: "group_name g \<noteq> []" and rest: "[] \<notin> group_name ` set gs" using snoc.prems by auto
  note IH = snoc.IH [OF rest]
  note step = check_basic_spec [OF conjunct1 [OF IH] name, of nb]
  have "basic_rules nb (gs @ [g]) \<longleftrightarrow> basic_rules nb gs
     \<and> group_id g \<notin> group_id ` set gs \<and> group_name g \<notin> group_name ` set gs
     \<and> group_node_ids g \<noteq> [] \<and> list_all (map_has nb) (group_node_ids g) \<and> distinct (group_node_ids g)
     \<and> set (group_node_ids g) \<inter> set (concat (map group_node_ids gs)) = {}"
    by (auto simp: basic_rules_def)
  note rules = this
  let ?st' = "check_basic nb g ?st"
  have ids: "set (seen_group_ids ?st) = group_id ` set gs"
    and names: "set (seen_group_names ?st) = group_name ` set gs"
    and found: "found ?st = [] \<longleftrightarrow> basic_rules nb gs"
    and keys: "found ?st = [] \<Longrightarrow> set (map_keys (node_to_group ?st)) = set (concat (map group_node_ids gs))"
    using IH by blast+
  have found': "found ?st' = [] \<longleftrightarrow> basic_rules nb (gs @ [g])"
  proof (cases "found ?st = []")
    case True
    with keys step found ids names show ?thesis unfolding rules by simp
  next
    case False
    with step found show ?thesis unfolding rules by simp
  qed
  have keys': "set (map_keys (node_to_group ?st')) = set (concat (map group_node_ids (gs @ [g])))"
    if "found ?st' = []"
  proof -
    from step that have "found ?st = []" by blast
    with step that keys show ?thesis by (simp add: Un_commute)
  qed
  have "basic_inv ?st'" "set (seen_group_ids ?st') = group_id ` set (gs @ [g])"
    "set (seen_group_names ?st') = group_name ` set (gs @ [g])"
    using step ids names by simp_all
  with found' keys' show ?case unfolding fold_append comp_apply fold_simps by blast
qed (simp add: no_groups_seen_def basic_inv_def basic_rules_def)

section \<open>When a workflow's groups are valid\<close>

lemma map_has_index: "map_has (index_by_id nodes) i \<longleftrightarrow> i \<in> node_id ` set nodes - {[]}"
proof -
  have "map_has (fold (\<lambda>node. map_set (node_id node) node) ns m) i \<longleftrightarrow> i \<in> node_id ` set ns \<or> map_has m i"
    for ns :: "inode list" and m
    by (induction ns arbitrary: m) (auto simp: map_has_def)
  then show ?thesis by (auto simp: index_by_id_def map_has_def)
qed

definition group_accepted ::
  "inode list \<Rightarrow> iconnections \<Rightarrow> workflow_group list \<Rightarrow> (inode \<Rightarrow> grouping_type option) \<Rightarrow> workflow_group \<Rightarrow> bool" where
  "group_accepted nodes cs gs types g \<longleftrightarrow>
     (case validateNodeSelectionForGrouping (group_selection (index_by_id nodes) cs gs types g) of
        Inl failure \<Rightarrow> False
      | Inr accepted \<Rightarrow> True)"

lemma no_graph_violation:
  "concat (map (check_graph (index_by_id nodes) cs gs types []) gs) = []
     \<longleftrightarrow> list_all (group_accepted nodes cs gs types) gs"
  by (auto simp: check_graph_def group_accepted_def list_all_iff split: sum.splits)

lemma basic_rules_index:
  "basic_rules (index_by_id nodes) gs \<longleftrightarrow>
     distinct (map group_id gs) \<and> distinct (map group_name gs)
     \<and> [] \<notin> group_node_ids ` set gs
     \<and> set (concat (map group_node_ids gs)) \<subseteq> node_id ` set nodes - {[]}
     \<and> distinct (concat (map group_node_ids gs))"
  unfolding basic_rules_def list_all_iff map_has_index subset_eq ..

lemma valid_iff:
  assumes "[] \<notin> group_name ` set gs"
  shows "validateWorkflowGroups nodes (Some cs) (Some gs) types = Inr () \<longleftrightarrow>
     basic_rules (index_by_id nodes) gs
     \<and> (case types of None \<Rightarrow> True | Some ts \<Rightarrow> list_all (group_accepted nodes cs gs ts) gs)"
proof -
  let ?st = "fold (check_basic (index_by_id nodes)) gs no_groups_seen"
  note pass = basic_pass_spec [OF assms, of "index_by_id nodes"]
  have clean: "with_basic ?st = []" if "found ?st = []" using pass that by (simp add: basic_inv_def)
  show ?thesis
  proof (cases "gs = []")
    case True
    then show ?thesis by (simp add: validateWorkflowGroups_def basic_rules_def split: option.splits)
  next
    case False
    let ?graph = "\<lambda>basic. case types of None \<Rightarrow> []
        | Some ts \<Rightarrow> concat (map (check_graph (index_by_id nodes) cs gs ts basic) gs)"
    from False have "validateWorkflowGroups nodes (Some cs) (Some gs) types = Inr ()
        \<longleftrightarrow> found ?st @ ?graph (with_basic ?st) = []"
      unfolding validateWorkflowGroups_def Let_def by (cases types) simp_all
    also have "\<dots> \<longleftrightarrow> found ?st = [] \<and> ?graph [] = []"
      using clean by (cases "found ?st"; cases types) simp_all
    also have "?graph [] = [] \<longleftrightarrow> (case types of None \<Rightarrow> True
        | Some ts \<Rightarrow> list_all (group_accepted nodes cs gs ts) gs)"
      by (cases types) (simp_all only: option.case no_graph_violation simp_thms)
    finally show ?thesis using pass by blast
  qed
qed

end
