(* ===== verification/Grouping_Properties.thy ===== *)
theory Grouping_Properties
  imports Group_Validation
begin

text \<open>The properties of node groups, each with a witness where it has a hypothesis, and the lemmas
  behind the findings about them.\<close>

section \<open>Fixtures\<close>

definition group_node :: "string \<Rightarrow> string \<Rightarrow> inode" where
  "group_node name type = (loaded_node name)\<lparr>node_type := type\<rparr>"

definition group_types :: "inode \<Rightarrow> grouping_type option" where
  "group_types node = Some \<lparr>type_groups = (if node_type node = ''t'' then [''trigger''] else []),
     description_name = node_type node, described_outputs_of = OutputList [OutputName Main_type],
     described_inputs_of = OutputList [OutputName Main_type]\<rparr>"

definition group_link :: "string \<Rightarrow> node_connection_type \<Rightarrow> iconnection" where
  "group_link target type = \<lparr>conn_node = target, conn_type = type, conn_index = 0\<rparr>"

text \<open>A trigger \<open>T\<close>, a chain \<open>A\<close>, \<open>B\<close>, \<open>C\<close>, a model \<open>M\<close> of \<open>B\<close> and a sticky note \<open>S\<close>.\<close>

definition group_nodes :: "inode list" where
  "group_nodes = [group_node ''T'' ''t'', group_node ''A'' ''x'', group_node ''B'' ''x'',
     group_node ''C'' ''x'', group_node ''M'' ''m'', group_node ''S'' STICKY_NODE_TYPE]"

definition group_connections :: iconnections where
  "group_connections =
     [(''T'', [(Main_type, [Some [group_link ''A'' Main_type]])]),
      (''A'', [(Main_type, [Some [group_link ''B'' Main_type]])]),
      (''B'', [(Main_type, [None, Some [group_link ''C'' Main_type]])]),
      (''M'', [(''ai_languageModel'', [Some [group_link ''B'' ''ai_languageModel'']])])]"

definition node_group :: "nat \<Rightarrow> string \<Rightarrow> string list \<Rightarrow> workflow_group" where
  "node_group ref name members =
     \<lparr>group_ref = ref, group_id = name, group_name = name, group_node_ids = members, group_description = None\<rparr>"

definition selection_of :: "string list \<Rightarrow> grouping_input" where
  "selection_of members =
     \<lparr>selection_nodes = filter (\<lambda>n. node_id n \<in> set members) group_nodes,
      selection_connections = group_connections, selection_types = group_types,
      existing_groups = Some [node_group 9 ''Other'' [''C'']],
      selection_inputs = None, selection_outputs = None\<rparr>"

section \<open>Connected selections\<close>

text \<open>The search over the undirected edges inside a selection reports no error exactly if every
  two selected nodes are connected inside the selection; the error it reports names the first node of
  the selection and a selected node that it does not reach.\<close>

lemma findDisconnectedSelectionError_correct:
  assumes "distinct names" and "[] \<notin> set names" and "distinct (map_keys adj)"
  shows "(findDisconnectedSelectionError names adj = None \<longleftrightarrow> set names \<times> set names \<subseteq> connected_in (set names) adj)
    \<and> (case findDisconnectedSelectionError names adj of
         None \<Rightarrow> True
       | Some err \<Rightarrow> \<exists>b. b \<in> set names \<and> err = NoContinuousPathFromRootToLeaf (hd names) b
           \<and> (hd names, b) \<notin> connected_in (set names) adj)"
proof (cases "findDisconnectedSelectionError names adj")
  case None
  with findDisconnectedSelectionError_spec [OF assms] show ?thesis by simp
next
  case (Some err)
  with findDisconnectedSelectionError_spec [OF assms] obtain b where b: "b \<in> set names"
    "err = NoContinuousPathFromRootToLeaf (hd names) b" "(hd names, b) \<notin> connected_in (set names) adj"
    by auto
  from b(1) have "hd names \<in> set names" by (cases names) auto
  with b Some show ?thesis by auto
qed

lemma findDisconnectedSelectionError_correct_example:
  "(''A'', ''M'') \<in> connected_in {''A'', ''B'', ''M''} (buildAdjacencyList group_connections)"
proof -
  have "findDisconnectedSelectionError [''A'', ''B'', ''M''] (buildAdjacencyList group_connections) = None"
    by code_simp
  then show ?thesis
    using findDisconnectedSelectionError_correct [of "[''A'', ''B'', ''M'']" "buildAdjacencyList group_connections"]
      buildAdjacencyList_spec by auto
qed

section \<open>Groupable selections\<close>

text \<open>C25: of a selection whose connectable nodes (all but sticky notes) have names. One that is accepted
  as a group is accepted whole: none of its nodes is in another group, none of its connectable nodes has
  the type of a trigger, at most one of them is entered and at most one is left by connections of the type \<open>main\<close>
  (by any number of them), every two are connected inside, and no connection crosses the boundary that
  is filed under a type other than \<open>main\<close>. One that is refused breaks what the reason names: the ids are
  those of members that are in another group; the names are those of its triggers; each error of an
  invalid subgraph names an entered node that another member leads to, a left node that leads to another
  member, two or more entered or left nodes, an entered and a left node without a path between them, or
  two nodes that are not connected inside; or the connection that is named crosses the boundary and is
  filed under a type other than \<open>main\<close>. The two reasons that belong to extraction are never given.\<close>

theorem validateNodeSelectionForGrouping_correct:
  assumes "[] \<notin> connectable_names input"
  shows "case validateNodeSelectionForGrouping input of
      Inl failure \<Rightarrow> refusal_justified input failure
    | Inr (sub, entry_exit) \<Rightarrow> sub = selection_nodes input
        \<and> node_id ` set (selection_nodes input) \<inter> grouped_ids input = {}
        \<and> grouping_rules input entry_exit"
proof (cases "validateNodeSelectionForGrouping input")
  case (Inl failure)
  with grouping_refuses [OF _ assms] show ?thesis by simp
next
  case (Inr r)
  then show ?thesis using grouping_accepts [OF _ assms] by (cases r) simp
qed

theorem validateNodeSelectionForGrouping_correct_witness:
  "grouping_rules (selection_of [''A'', ''B'', ''M'', ''S'']) (Some ''A'', Some ''B'')
   \<and> refusal_justified (selection_of [''A'', ''B'']) (NonMainBoundary ''M'' ''B'' ''ai_languageModel'')
   \<and> refusal_justified (selection_of [''A'', ''M'']) (InvalidSubgraph [NoContinuousPathFromRootToLeaf ''A'' ''M''])"
proof -
  have "validateNodeSelectionForGrouping (selection_of [''A'', ''B'', ''M'', ''S'']) =
      Inr (filter (\<lambda>n. node_id n \<in> {''A'', ''B'', ''M'', ''S''}) group_nodes, Some ''A'', Some ''B'')"
    and "validateNodeSelectionForGrouping (selection_of [''A'', ''B'']) =
      Inl (NonMainBoundary ''M'' ''B'' ''ai_languageModel'')"
    and "validateNodeSelectionForGrouping (selection_of [''A'', ''M'']) =
      Inl (InvalidSubgraph [NoContinuousPathFromRootToLeaf ''A'' ''M''])"
    by code_simp+
  moreover have "[] \<notin> connectable_names (selection_of [''A'', ''B'', ''M'', ''S''])"
    and "[] \<notin> connectable_names (selection_of [''A'', ''B''])"
    and "[] \<notin> connectable_names (selection_of [''A'', ''M''])" by code_simp+
  ultimately show ?thesis
    using validateNodeSelectionForGrouping_correct [of "selection_of [''A'', ''B'', ''M'', ''S'']"]
      validateNodeSelectionForGrouping_correct [of "selection_of [''A'', ''B'']"]
      validateNodeSelectionForGrouping_correct [of "selection_of [''A'', ''M'']"] by (simp del: refusal_justified.simps)
qed

section \<open>The groups of a workflow\<close>

text \<open>C26: groups with a name are valid exactly if their ids and names differ, none is empty, every
  member is a node with an id, no node is a member twice, and, if the node types are known, every group
  is accepted by the graph rules against the others.\<close>

theorem validateWorkflowGroups_correct:
  assumes "[] \<notin> group_name ` set gs"
  shows "validateWorkflowGroups nodes (Some cs) (Some gs) types = Inr () \<longleftrightarrow>
     distinct (map group_id gs) \<and> distinct (map group_name gs)
     \<and> [] \<notin> group_node_ids ` set gs
     \<and> set (concat (map group_node_ids gs)) \<subseteq> node_id ` set nodes - {[]}
     \<and> distinct (concat (map group_node_ids gs))
     \<and> (case types of None \<Rightarrow> True | Some ts \<Rightarrow> list_all (group_accepted nodes cs gs ts) gs)"
  unfolding valid_iff [OF assms] basic_rules_index conj_assoc ..

theorem validateWorkflowGroups_correct_witness:
  "validateWorkflowGroups group_nodes (Some group_connections)
     (Some [node_group 1 ''G'' [''A'', ''B'', ''M''], node_group 2 ''H'' [''C'', ''S'']]) (Some group_types) = Inr ()
   \<and> list_all (group_accepted group_nodes group_connections
        [node_group 1 ''G'' [''A'', ''B'', ''M''], node_group 2 ''H'' [''C'', ''S'']] group_types)
       [node_group 1 ''G'' [''A'', ''B'', ''M''], node_group 2 ''H'' [''C'', ''S'']]"
proof -
  have "validateWorkflowGroups group_nodes (Some group_connections)
     (Some [node_group 1 ''G'' [''A'', ''B'', ''M''], node_group 2 ''H'' [''C'', ''S'']]) (Some group_types) = Inr ()"
    by code_simp
  moreover have "[] \<notin> group_name ` set [node_group 1 ''G'' [''A'', ''B'', ''M''], node_group 2 ''H'' [''C'', ''S'']]"
    by code_simp
  ultimately show ?thesis
    using validateWorkflowGroups_correct [of "[node_group 1 ''G'' [''A'', ''B'', ''M''], node_group 2 ''H'' [''C'', ''S'']]"
      group_nodes group_connections "Some group_types"] by simp
qed

lemma index_by_id_node: "map_of (index_by_id nodes) i = Some n \<Longrightarrow> n \<in> set nodes"
proof -
  have "map_of (fold (\<lambda>node. map_set (node_id node) node) ns m) i = Some n \<Longrightarrow>
      n \<in> set ns \<or> map_of m i = Some n" for ns :: "inode list" and m
  proof (induction ns arbitrary: m)
    case (Cons a ns)
    from Cons.IH [of "map_set (node_id a) a m"] Cons.prems
    have "n \<in> set ns \<or> map_of (map_set (node_id a) a m) i = Some n" by (simp del: AList.update_conv')
    then show ?case by (auto split: if_splits)
  qed simp
  from this [of "filter (\<lambda>node. node_id node \<noteq> []) nodes" "[]"]
  show "map_of (index_by_id nodes) i = Some n \<Longrightarrow> n \<in> set nodes" by (auto simp: index_by_id_def)
qed

lemma group_members_resolve:
  assumes "set members \<subseteq> node_id ` set nodes - {[]}"
  shows "length (List.map_filter (map_of (index_by_id nodes)) members) = length members"
proof -
  have "map_of (index_by_id nodes) i \<noteq> None" if "i \<in> set members" for i
    using that assms map_has_index [of nodes i] by (auto simp: map_has_def)
  then show ?thesis by (induction members) (auto simp: List.map_filter_simps split: option.splits)
qed

lemma distinct_concat_disjoint:
  "distinct (concat (map f xs)) \<Longrightarrow> x \<in> set xs \<Longrightarrow> y \<in> set xs \<Longrightarrow> x \<noteq> y \<Longrightarrow> set (f x) \<inter> set (f y) = {}"
proof (induction xs)
  case (Cons a xs)
  from Cons.prems(1) have apart: "set (f a) \<inter> set (f z) = {}" if "z \<in> set xs" for z using that by auto
  from Cons.prems Cons.IH apart [of x] apart [of y] show ?case by auto
qed simp

text \<open>C24: when the groups of a workflow pass the check with known node types, and every group and every
  node has a name, then every member of a group is a node of the workflow and belongs to no other group,
  and the members obey what the code enforces: no member has the type of a
  trigger, they are connected inside, the \<open>main\<close> connections from
  outside enter one member and those to the outside leave one member, and no connection crosses the
  boundary that is filed under a type other than \<open>main\<close>.\<close>

theorem saved_groups_are_sound:
  assumes valid: "validateWorkflowGroups nodes (Some cs) (Some gs) (Some types) = Inr ()"
    and named: "[] \<notin> group_name ` set gs" "[] \<notin> node_name ` set nodes"
    and g: "g \<in> set gs"
  shows "length (selection_nodes (group_selection (index_by_id nodes) cs gs types g)) = length (group_node_ids g)
    \<and> (\<exists>entry_exit. grouping_rules (group_selection (index_by_id nodes) cs gs types g) entry_exit)
    \<and> \<Union>(set ` group_node_ids ` (set gs - {g})) \<inter> set (group_node_ids g) = {}"
proof -
  let ?sel = "group_selection (index_by_id nodes) cs gs types g"
  from valid have basic: "basic_rules (index_by_id nodes) gs" and "list_all (group_accepted nodes cs gs types) gs"
    using valid_iff [OF named(1), of nodes cs "Some types"] by simp_all
  with g have "group_accepted nodes cs gs types g" by (simp add: list_all_iff)
  then obtain sub entry_exit where ok: "validateNodeSelectionForGrouping ?sel = Inr (sub, entry_exit)"
    unfolding group_accepted_def by (auto split: sum.splits)
  have "set (selection_nodes ?sel) \<subseteq> set nodes"
  proof
    fix n assume "n \<in> set (selection_nodes ?sel)"
    then obtain i where "map_of (index_by_id nodes) i = Some n"
      by (auto simp: group_selection_def List.map_filter_def)
    then show "n \<in> set nodes" by (rule index_by_id_node)
  qed
  with named(2) have "[] \<notin> connectable_names ?sel" by (auto simp: connectable_nodes_def)
  from grouping_accepts [OF ok this] have rules: "\<exists>entry_exit. grouping_rules ?sel entry_exit" by blast
  have "set (group_node_ids g) \<subseteq> node_id ` set nodes - {[]}"
    using basic g unfolding basic_rules_index by auto
  then have len: "length (selection_nodes ?sel) = length (group_node_ids g)"
    by (simp add: group_selection_def group_members_resolve)
  have "distinct (concat (map group_node_ids gs))" using basic by (simp add: basic_rules_def)
  from distinct_concat_disjoint [OF this _ g] have "\<Union>(set ` group_node_ids ` (set gs - {g})) \<inter> set (group_node_ids g) = {}"
    by blast
  with len rules show ?thesis by blast
qed

theorem saved_groups_are_sound_witness:
  "\<exists>entry_exit. grouping_rules (group_selection (index_by_id group_nodes) group_connections
     [node_group 1 ''G'' [''A'', ''B'', ''M''], node_group 2 ''H'' [''C'', ''S'']] group_types
     (node_group 2 ''H'' [''C'', ''S''])) entry_exit"
proof -
  let ?gs = "[node_group 1 ''G'' [''A'', ''B'', ''M''], node_group 2 ''H'' [''C'', ''S'']]"
  have "validateWorkflowGroups group_nodes (Some group_connections) (Some ?gs) (Some group_types) = Inr ()"
    and "[] \<notin> group_name ` set ?gs" and "[] \<notin> node_name ` set group_nodes" by code_simp+
  from saved_groups_are_sound [OF this, of "node_group 2 ''H'' [''C'', ''S'']"] show ?thesis by simp
qed

section \<open>Extraction\<close>

text \<open>What grouping accepts, extraction refuses only for a second \<open>main\<close> input of the entry's type or
  a second \<open>main\<close> output of the exit's type.\<close>

lemma extraction_of_groupable:
  assumes ok: "validateNodeSelectionForGrouping input = Inr (sub, start, end_node)"
    and all: "connectable_nodes (selection_nodes input) = selection_nodes input" "selection_nodes input \<noteq> []"
  shows "validateNodeSelectionForExtraction input = Inr (sub, start, end_node)
    \<or> (\<exists>s. start = Some s \<and> validateNodeSelectionForExtraction input = Inl (MultipleInputBranches s))
    \<or> (\<exists>e. end_node = Some e \<and> validateNodeSelectionForExtraction input = Inl (MultipleOutputBranches e))"
proof -
  have same: "input\<lparr>selection_nodes := selection_nodes input\<rparr> = input" by simp
  from ok all have inner: "validateNodeSelectionSubgraph input = Inr (selection_nodes input, start, end_node)"
    and "sub = selection_nodes input"
    unfolding validateNodeSelectionForGrouping_def Let_def all(1) same
    by (auto simp: bind_result_Inr_iff validateNodeSelectionSubgraph_def Let_def split: if_splits option.splits sum.splits)
  then show ?thesis
    by (cases start; cases end_node)
      (auto simp: validateNodeSelectionForExtraction_def named_option_def Let_def)
qed

section \<open>Findings\<close>

text \<open>The rules as they are stated to users allow at most one incoming and one outgoing \<open>main\<close> connection
  across the boundary. The code counts the nodes that are entered and left: two connections from outside
  to \<open>A\<close>, and two from \<open>A\<close> to the outside, are accepted.\<close>

lemma two_connections_enter:
  "validateNodeSelectionForGrouping
     ((selection_of [''A''])\<lparr>selection_connections :=
        [(''T'', [(Main_type, [Some [group_link ''A'' Main_type]])]),
         (''B'', [(Main_type, [Some [group_link ''A'' Main_type]])]),
         (''A'', [(Main_type, [Some [group_link ''C'' Main_type, group_link ''M'' Main_type]])])]\<rparr>)
   = Inr ([group_node ''A'' ''x''], Some ''A'', Some ''A'')"
  by code_simp

text \<open>A group with an empty name does not count as the group that a node belongs to.\<close>

lemma unnamed_group_shares_member:
  "validateWorkflowGroups group_nodes None
     (Some [(node_group 1 ''G'' [''A''])\<lparr>group_name := []\<rparr>, node_group 2 ''H'' [''A'']]) None = Inr ()"
  by code_simp

text \<open>A group that lists a member twice is reported as two groups of the same name.\<close>

lemma repeated_member_reported_as_two_groups:
  "validateWorkflowGroups group_nodes None (Some [node_group 1 ''G'' [''A'', ''A'']]) None =
     Inl [group_violation_of (node_group 1 ''G'' [''A'', ''A'']) NodeInMultipleGroups
       (''Node '' @ quoted ''A'' @ '' belongs to multiple groups: '' @ quoted ''G'' @ '' and '' @ quoted ''G'' @ ''.'')]"
  by code_simp

text \<open>A connection that is filed under \<open>main\<close> and names another type crosses the boundary unseen: the
  entry test reads the connection's type, the boundary test the key it is filed under.\<close>

lemma mixed_connection_crosses:
  "validateNodeSelectionForGrouping
     ((selection_of [''B''])\<lparr>selection_connections :=
        [(''M'', [(Main_type, [Some [group_link ''B'' ''ai_languageModel'']])])]\<rparr>)
   = Inr ([group_node ''B'' ''x''], None, None)"
  by code_simp

end
