(* ===== verification/Workflow_Diff.thy ===== *)
theory Workflow_Diff
  imports Node_Grouping "HOL-Library.Sublist"
begin

text \<open>
  \<open>packages/workflow/src/workflow-diff.ts\<close>: the difference of two versions of a workflow, and whether
  the older of them can be dropped because the newer one only adds to it.

  The library \<open>lodash\<close> is a parameter: \<open>pick\<close> and \<open>isEqual\<close>. A node is its id and the plain object of
  its other fields. A version carries its identity, as the code compares versions with \<open>===\<close>.
\<close>

section \<open>Data\<close>

record lodash =
  lodash_pick :: "(string \<times> json) list \<Rightarrow> string list \<Rightarrow> (string \<times> json) list"
  lodash_isEqual :: "json \<Rightarrow> json \<Rightarrow> bool"

record diff_node =
  diff_id :: string
  diff_fields :: "(string \<times> json) list"

record version =
  version_ref :: nat
  version_nodes :: "diff_node list"
  version_connections :: iconnections
  created_at :: int
  version_authors :: "string option"
  version_groups :: "workflow_group list option"
  version_id :: string
  version_name :: "string option"
  version_description :: "string option"

datatype node_diff_status = NodeEq | NodeModified | NodeAdded | NodeDeleted

record node_diff =
  diff_status :: node_diff_status
  diff_node_of :: diff_node

type_synonym workflow_diff = "(string \<times> node_diff) list"

record change_set =
  change_nodes :: workflow_diff
  change_connections :: connections_diff

section \<open>The difference of two versions\<close>

definition props_to_compare :: "string list" where
  "props_to_compare = [''name'', ''type'', ''typeVersion'', ''webhookId'', ''credentials'', ''parameters'']"

definition compareNodes :: "lodash \<Rightarrow> diff_node option \<Rightarrow> diff_node option \<Rightarrow> bool" where
  "compareNodes lib base target =
     (let object = (\<lambda>n. case n of Some node \<Rightarrow> diff_fields node | None \<Rightarrow> []);
          baseNode = lodash_pick lib (object base) props_to_compare;
          targetNode = lodash_pick lib (object target) props_to_compare
      in lodash_isEqual lib (JObj baseNode) (JObj targetNode))"

definition nodes_by_id :: "diff_node list \<Rightarrow> (string \<times> diff_node) list" where
  "nodes_by_id nodes = fold (\<lambda>node acc. map_set (diff_id node) node acc) nodes []"

definition compareWorkflowsNodes ::
  "(diff_node option \<Rightarrow> diff_node option \<Rightarrow> bool) \<Rightarrow> diff_node list \<Rightarrow> diff_node list \<Rightarrow> workflow_diff" where
  "compareWorkflowsNodes nodesEqual base target =
     (let baseNodes = nodes_by_id base;
          targetNodes = nodes_by_id target;
          diff = fold (\<lambda>(i, node) diff.
              if \<not> map_has targetNodes i
              then map_set i \<lparr>diff_status = NodeDeleted, diff_node_of = node\<rparr> diff
              else if \<not> nodesEqual (map_of baseNodes i) (map_of targetNodes i)
              then map_set i \<lparr>diff_status = NodeModified, diff_node_of = node\<rparr> diff
              else map_set i \<lparr>diff_status = NodeEq, diff_node_of = node\<rparr> diff) baseNodes []
      in fold (\<lambda>(i, node) diff.
           if \<not> map_has baseNodes i
           then map_set i \<lparr>diff_status = NodeAdded, diff_node_of = node\<rparr> diff
           else diff) targetNodes diff)"

definition new_change_set :: "lodash \<Rightarrow> version \<Rightarrow> version \<Rightarrow> change_set" where
  "new_change_set lib older newer =
     (if version_ref older = version_ref newer
      then \<lparr>change_nodes = fold (\<lambda>node acc. map_set (diff_id node) \<lparr>diff_status = NodeEq, diff_node_of = node\<rparr> acc)
                             (version_nodes older) [],
            change_connections = \<lparr>diff_added = [], diff_removed = []\<rparr>\<rparr>
      else \<lparr>change_nodes = compareWorkflowsNodes (compareNodes lib) (version_nodes older) (version_nodes newer),
            change_connections = compareConnections (version_connections older) (version_connections newer)\<rparr>)"

section \<open>Additive changes\<close>

text \<open>The loop over the characters of \<open>s\<close>, with the number of characters read and found so far;
  \<open>None\<close> is the early return.\<close>

fun contains_loop :: "string \<Rightarrow> nat \<Rightarrow> nat \<Rightarrow> nat \<Rightarrow> string \<Rightarrow> nat option" where
  "contains_loop substr diffSize i marker [] = Some marker"
| "contains_loop substr diffSize i marker (c # s) =
     (let marker' = (if marker < length substr \<and> substr ! marker = c then Suc marker else marker) in
      if i > marker' + diffSize then None
      else contains_loop substr diffSize (Suc i) marker' s)"

definition stringContainsParts :: "string \<Rightarrow> string \<Rightarrow> bool" where
  "stringContainsParts s substr =
     (if length substr > length s then False
      else (case contains_loop substr (length s - length substr) 0 0 s of
              None \<Rightarrow> False
            | Some marker \<Rightarrow> marker \<ge> length substr))"

text \<open>The own keys of an array are its indices.\<close>

fun object_like :: "json \<Rightarrow> (string \<times> json) list option" where
  "object_like (JObj m) = Some m"
| "object_like (JArr xs) = Some (map (\<lambda>(i, x). (show_nat i, x)) (List.enumerate 0 xs))"
| "object_like _ = None"

function (sequential) parametersAreSuperset :: "json \<Rightarrow> json \<Rightarrow> bool" where
  "parametersAreSuperset (JStr p) (JStr n) = stringContainsParts n p"
| "parametersAreSuperset (JArr ps) (JArr ns) =
     (length ps = length ns \<and> list_all (\<lambda>(p, n). parametersAreSuperset p n) (zip ps ns))"
| "parametersAreSuperset (JArr ps) n = False"
| "parametersAreSuperset (JObj ps) n =
     (case object_like n of
        None \<Rightarrow> False
      | Some ns \<Rightarrow>
          length ps = length ns \<and> list_all (\<lambda>(k, v). map_has ns k) ps
          \<and> list_all (\<lambda>(k, p). case map_of ns k of
                               Some v \<Rightarrow> parametersAreSuperset p v
                             | None \<Rightarrow> False) ps)"
| "parametersAreSuperset p n = (p = n)"
  by pat_completeness auto

lemma size_json_member:
  "p \<in> set ps \<Longrightarrow> size p < size (JArr ps)"
  "(k, v) \<in> set kvs \<Longrightarrow> size v < size (JObj kvs)"
proof -
  show "p \<in> set ps \<Longrightarrow> size p < size (JArr ps)" by (simp add: size_list_estimation' less_Suc_eq_le)
  show "(k, v) \<in> set kvs \<Longrightarrow> size v < size (JObj kvs)"
    by (induction kvs) auto
qed

termination parametersAreSuperset
proof (relation "measure (\<lambda>(p, n). size p)", goal_cases)
  case (2 ps ns x a b)
  then show ?case using size_json_member(1) [of a ps] by (auto dest: set_zip_leftD)
next
  case (3 ps n ns x k p v)
  then show ?case using size_json_member(2) [of k p ps] by auto
qed simp

definition superset_option :: "json option \<Rightarrow> json option \<Rightarrow> bool" where
  "superset_option prev nxt =
     (case (prev, nxt) of
        (Some p, Some n) \<Rightarrow> parametersAreSuperset p n
      | (None, None) \<Rightarrow> True
      | _ \<Rightarrow> False)"

definition without_parameters :: "diff_node \<Rightarrow> diff_node" where
  "without_parameters node =
     node\<lparr>diff_fields := map_set ''parameters'' (JObj []) (map_delete ''parameters'' (diff_fields node))\<rparr>"

definition nodeIsSuperset :: "lodash \<Rightarrow> diff_node \<Rightarrow> diff_node \<Rightarrow> bool" where
  "nodeIsSuperset lib prevNode nextNode =
     (if \<not> compareNodes lib (Some (without_parameters prevNode)) (Some (without_parameters nextNode)) then False
      else superset_option (map_of (diff_fields prevNode) ''parameters'') (map_of (diff_fields nextNode) ''parameters''))"

definition groups_of :: "version \<Rightarrow> workflow_group list" where
  "groups_of v = (case version_groups v of Some gs \<Rightarrow> gs | None \<Rightarrow> [])"

definition nodeGroupChangesAreAdditive :: "version \<Rightarrow> version \<Rightarrow> bool" where
  "nodeGroupChangesAreAdditive prev nxt =
     (let nextGroupsById = fold (\<lambda>g. map_set (group_id g) g) (groups_of nxt) []
      in list_all (\<lambda>prevGroup.
           case map_of nextGroupsById (group_id prevGroup) of
             None \<Rightarrow> False
           | Some nextGroup \<Rightarrow>
               group_name nextGroup = group_name prevGroup
               \<and> group_description nextGroup = group_description prevGroup
               \<and> list_all (\<lambda>i. i \<in> set (group_node_ids nextGroup)) (group_node_ids prevGroup))
         (groups_of prev))"

text \<open>The loop over the differences of the nodes; \<open>Inl\<close> is the error that the code throws.\<close>

fun merge_nodes :: "lodash \<Rightarrow> version \<Rightarrow> node_diff list \<Rightarrow> string + bool" where
  "merge_nodes lib nxt [] = Inr True"
| "merge_nodes lib nxt (d # ds) =
     (if diff_status d = NodeDeleted then Inr False
      else if diff_status d = NodeAdded then merge_nodes lib nxt ds
      else (case find (\<lambda>x. diff_id x = diff_id (diff_node_of d)) (version_nodes nxt) of
              None \<Rightarrow> Inl ''invariant broken - no next node''
            | Some nextNode \<Rightarrow>
                if diff_status d = NodeModified \<and> \<not> nodeIsSuperset lib (diff_node_of d) nextNode then Inr False
                else merge_nodes lib nxt ds))"

type_synonym diff_rule = "version \<Rightarrow> version \<Rightarrow> change_set \<Rightarrow> nat option \<Rightarrow> string + bool"

definition mergeAdditiveChanges :: "lodash \<Rightarrow> diff_rule" where
  "mergeAdditiveChanges lib prev nxt diff metaData =
     bind_result (merge_nodes lib nxt (map_values (change_nodes diff))) (\<lambda>mergeable.
       Inr (mergeable \<and> length (own_keys (diff_removed (change_connections diff))) = 0
            \<and> nodeGroupChangesAreAdditive prev nxt))"

section \<open>The search for a subsequence\<close>

lemma contains_loop_spec:
  assumes "marker \<le> length substr" and "i + length s = length substr + diffSize" and "i \<le> marker + diffSize + 1"
  shows "(\<exists>m \<ge> length substr. contains_loop substr diffSize i marker s = Some m) \<longleftrightarrow> subseq (drop marker substr) s"
  using assms
proof (induction s arbitrary: i marker)
  case Nil
  then show ?case by (auto dest!: list_emb_Nil2)
next
  case (Cons c s)
  define marker' where "marker' = (if marker < length substr \<and> substr ! marker = c then Suc marker else marker)"
  have m': "marker' \<le> length substr" using Cons.prems(1) by (simp add: marker'_def Suc_le_eq)
  have sub: "subseq (drop marker substr) (c # s) \<longleftrightarrow> subseq (drop marker' substr) s"
  proof (cases "marker < length substr")
    case True
    then show ?thesis
      by (simp add: marker'_def Cons_nth_drop_Suc [OF True, symmetric] del: Cons_nth_drop_Suc)
  qed (simp add: marker'_def)
  show ?case
  proof (cases "i > marker' + diffSize")
    case True
    then have "length s < length (drop marker' substr)" using Cons.prems(2) by simp
    then have "\<not> subseq (drop marker' substr) s" by (metis list_emb_length not_less)
    with True sub show ?thesis by (simp add: marker'_def [symmetric] Let_def)
  next
    case False
    then have "(\<exists>m \<ge> length substr. contains_loop substr diffSize (Suc i) marker' s = Some m)
        \<longleftrightarrow> subseq (drop marker' substr) s"
      using Cons.prems(2) by (intro Cons.IH m') auto
    with False sub show ?thesis by (simp add: marker'_def [symmetric] Let_def)
  qed
qed

lemma stringContainsParts_spec: "stringContainsParts s substr \<longleftrightarrow> subseq substr s"
proof (cases "length substr > length s")
  case True
  then have "\<not> subseq substr s" by (metis list_emb_length not_less)
  with True show ?thesis by (simp add: stringContainsParts_def)
next
  case False
  with contains_loop_spec [of 0 substr 0 s "length s - length substr"]
  have "(\<exists>m \<ge> length substr. contains_loop substr (length s - length substr) 0 0 s = Some m) \<longleftrightarrow> subseq substr s"
    by simp
  with False show ?thesis by (auto simp: stringContainsParts_def split: option.splits)
qed

section \<open>Lookups in the difference\<close>

lemma fold_map_set_if:
  assumes "distinct (map_keys kvs)"
  shows "map_of (fold (\<lambda>(k, v) m. if P k then map_set k (f k v) m else m) kvs m) i =
    (case map_of kvs i of
       Some v \<Rightarrow> if P i then Some (f i v) else map_of m i
     | None \<Rightarrow> map_of m i)"
  using assms
proof (induction kvs arbitrary: m)
  case (Cons kv kvs)
  obtain k v where kv: "kv = (k, v)" by (cases kv)
  with Cons.prems have "map_of kvs k = None" by (simp add: map_of_eq_None_iff)
  with Cons kv show ?case by (auto split: option.splits)
qed simp

lemma distinct_fold_map_set_if:
  "distinct (map_keys m) \<Longrightarrow> distinct (map_keys (fold (\<lambda>(k, v) m. if P k then map_set k (f k v) m else m) kvs m))"
  by (induction kvs arbitrary: m) (auto simp: AList.distinct_update)

lemma nodes_by_id_lookup: "map_of (nodes_by_id ns) i = find (\<lambda>n. diff_id n = i) (rev ns)"
proof (induction ns rule: rev_induct)
  case (snoc n ns)
  then show ?case by (simp add: nodes_by_id_def)
qed (simp add: nodes_by_id_def)

lemma distinct_nodes_by_id: "distinct (map_keys (nodes_by_id ns))"
proof -
  have "distinct (map_keys m) \<Longrightarrow> distinct (map_keys (fold (\<lambda>n acc. map_set (diff_id n) n acc) ns m))" for m
    by (induction ns arbitrary: m) (simp_all add: AList.distinct_update)
  then show ?thesis by (simp add: nodes_by_id_def)
qed

lemma nodes_by_id_Some:
  assumes "map_of (nodes_by_id ns) i = Some n"
  shows "n \<in> set ns \<and> diff_id n = i"
  using assms unfolding nodes_by_id_lookup find_Some_iff by (metis nth_mem set_rev)

lemma nodes_by_id_None: "map_of (nodes_by_id ns) i = None \<longleftrightarrow> i \<notin> diff_id ` set ns"
  unfolding nodes_by_id_lookup find_None_iff by auto

lemma nodes_by_id_distinct:
  assumes "distinct (map diff_id ns)" and "n \<in> set ns"
  shows "map_of (nodes_by_id ns) (diff_id n) = Some n"
proof -
  obtain m where m: "map_of (nodes_by_id ns) (diff_id n) = Some m"
    using assms(2) nodes_by_id_None [of ns "diff_id n"] by (cases "map_of (nodes_by_id ns) (diff_id n)") auto
  from nodes_by_id_Some [OF m] assms have "m = n" by (meson distinct_map inj_on_def)
  with m show ?thesis by simp
qed

text \<open>What the difference says of an id.\<close>

definition diff_at ::
  "(diff_node option \<Rightarrow> diff_node option \<Rightarrow> bool) \<Rightarrow> diff_node option \<Rightarrow> diff_node option \<Rightarrow> node_diff option" where
  "diff_at nodesEqual b t =
     (case (b, t) of
        (Some node, None) \<Rightarrow> Some \<lparr>diff_status = NodeDeleted, diff_node_of = node\<rparr>
      | (Some node, Some node') \<Rightarrow>
          Some \<lparr>diff_status = (if nodesEqual b t then NodeEq else NodeModified), diff_node_of = node\<rparr>
      | (None, Some node) \<Rightarrow> Some \<lparr>diff_status = NodeAdded, diff_node_of = node\<rparr>
      | (None, None) \<Rightarrow> None)"

lemma compareWorkflowsNodes_spec:
  "map_of (compareWorkflowsNodes eq base target) i = diff_at eq (map_of (nodes_by_id base) i) (map_of (nodes_by_id target) i)
   \<and> distinct (map_keys (compareWorkflowsNodes eq base target))"
proof -
  let ?b = "nodes_by_id base" and ?t = "nodes_by_id target"
  let ?f = "\<lambda>i node. \<lparr>diff_status = (if \<not> map_has ?t i then NodeDeleted
      else if \<not> eq (map_of ?b i) (map_of ?t i) then NodeModified else NodeEq), diff_node_of = node\<rparr>"
  let ?first = "fold (\<lambda>(k, v) m. if True then map_set k (?f k v) m else m) ?b []"
  have "(\<lambda>(i, node) diff.
        if \<not> map_has ?t i then map_set i \<lparr>diff_status = NodeDeleted, diff_node_of = node\<rparr> diff
        else if \<not> eq (map_of ?b i) (map_of ?t i) then map_set i \<lparr>diff_status = NodeModified, diff_node_of = node\<rparr> diff
        else map_set i \<lparr>diff_status = NodeEq, diff_node_of = node\<rparr> diff)
      = (\<lambda>(k, v) m. if True then map_set k (?f k v) m else m)" by (intro ext) auto
  then have def: "compareWorkflowsNodes eq base target = fold (\<lambda>(k, v) m. if \<not> map_has ?b k
      then map_set k ((\<lambda>i node. \<lparr>diff_status = NodeAdded, diff_node_of = node\<rparr>) k v) m else m) ?t ?first"
    unfolding compareWorkflowsNodes_def Let_def by simp
  have "map_of (compareWorkflowsNodes eq base target) i = diff_at eq (map_of ?b i) (map_of ?t i)"
    unfolding def fold_map_set_if [OF distinct_nodes_by_id]
    by (auto simp: diff_at_def map_has_def split: option.splits)
  moreover have "distinct (map_keys (compareWorkflowsNodes eq base target))"
    unfolding def by (intro distinct_fold_map_set_if) simp
  ultimately show ?thesis by blast
qed

section \<open>What an additive change keeps\<close>

text \<open>What \<open>lodash\<close> documents: equal objects have equal members, and \<open>pick\<close> keeps the listed keys.\<close>

definition lodash_laws :: "lodash \<Rightarrow> bool" where
  "lodash_laws lib \<longleftrightarrow>
     (\<forall>x y k. lodash_isEqual lib (JObj x) (JObj y) \<longrightarrow> rel_option (lodash_isEqual lib) (map_of x k) (map_of y k))
     \<and> (\<forall>x ks k. map_of (lodash_pick lib x ks) k = (if k \<in> set ks then map_of x k else None))"

definition node_kept :: "lodash \<Rightarrow> diff_node \<Rightarrow> diff_node \<Rightarrow> bool" where
  "node_kept lib a b \<longleftrightarrow> diff_id a = diff_id b
     \<and> (\<forall>k \<in> {''name'', ''type'', ''typeVersion'', ''webhookId'', ''credentials''}.
          rel_option (lodash_isEqual lib) (map_of (diff_fields a) k) (map_of (diff_fields b) k))
     \<and> (rel_option (lodash_isEqual lib) (map_of (diff_fields a) ''parameters'') (map_of (diff_fields b) ''parameters'')
        \<or> superset_option (map_of (diff_fields a) ''parameters'') (map_of (diff_fields b) ''parameters''))"

definition group_kept :: "workflow_group \<Rightarrow> workflow_group \<Rightarrow> bool" where
  "group_kept g h \<longleftrightarrow> group_id h = group_id g \<and> group_name h = group_name g
     \<and> group_description h = group_description g \<and> set (group_node_ids g) \<subseteq> set (group_node_ids h)"

definition nothing_lost :: "lodash \<Rightarrow> version \<Rightarrow> version \<Rightarrow> bool" where
  "nothing_lost lib p r \<longleftrightarrow>
     (\<forall>a \<in> set (version_nodes p). \<exists>b \<in> set (version_nodes r). node_kept lib a b)
     \<and> (\<forall>n t i. set (conns_at (version_connections p) n t i) \<subseteq> set (conns_at (version_connections r) n t i))
     \<and> (\<forall>g \<in> set (groups_of p). \<exists>h \<in> set (groups_of r). group_kept g h)"

lemma compareNodes_fields:
  assumes "lodash_laws lib" and "compareNodes lib (Some a) (Some b)" and "k \<in> set props_to_compare"
  shows "rel_option (lodash_isEqual lib) (map_of (diff_fields a) k) (map_of (diff_fields b) k)"
proof -
  let ?pick = "\<lambda>n. lodash_pick lib (diff_fields n) props_to_compare"
  from assms(2) have "lodash_isEqual lib (JObj (?pick a)) (JObj (?pick b))"
    by (simp add: compareNodes_def)
  with assms(1) have "rel_option (lodash_isEqual lib) (map_of (?pick a) k) (map_of (?pick b) k)"
    unfolding lodash_laws_def by blast
  moreover have "map_of (?pick n) k = map_of (diff_fields n) k" for n :: diff_node
    using assms(1,3) unfolding lodash_laws_def by simp
  ultimately show ?thesis by simp
qed

lemma compareNodes_kept:
  assumes "lodash_laws lib" and "compareNodes lib (Some a) (Some b)" and "diff_id a = diff_id b"
  shows "node_kept lib a b"
proof -
  have "{''name'', ''type'', ''typeVersion'', ''webhookId'', ''credentials'', ''parameters''} = set props_to_compare"
    by (simp add: props_to_compare_def)
  with compareNodes_fields [OF assms(1,2)] assms(3) show ?thesis unfolding node_kept_def by blast
qed

lemma nodeIsSuperset_kept:
  assumes laws: "lodash_laws lib" and sup: "nodeIsSuperset lib a b" and "diff_id a = diff_id b"
  shows "node_kept lib a b"
proof -
  let ?w = "without_parameters"
  from sup have c: "compareNodes lib (Some (?w a)) (Some (?w b))"
    and p: "superset_option (map_of (diff_fields a) ''parameters'') (map_of (diff_fields b) ''parameters'')"
    by (auto simp: nodeIsSuperset_def split: if_splits)
  have same: "map_of (diff_fields (?w n)) k = map_of (diff_fields n) k" if "k \<noteq> ''parameters''" for n :: diff_node and k
    using that by (simp add: without_parameters_def)
  have "rel_option (lodash_isEqual lib) (map_of (diff_fields a) k) (map_of (diff_fields b) k)"
    if "k \<in> {''name'', ''type'', ''typeVersion'', ''webhookId'', ''credentials''}" for k
  proof -
    from that have k: "k \<noteq> ''parameters''" "k \<in> set props_to_compare" by (auto simp: props_to_compare_def)
    from compareNodes_fields [OF laws c k(2)] show ?thesis unfolding same [OF k(1)] .
  qed
  with p assms(3) show ?thesis unfolding node_kept_def by blast
qed

lemma groups_kept:
  assumes "nodeGroupChangesAreAdditive p r" and g: "g \<in> set (groups_of p)"
  shows "\<exists>h \<in> set (groups_of r). group_kept g h"
proof -
  let ?m = "fold (\<lambda>g. map_set (group_id g) g) (groups_of r) []"
  have mem: "map_of (fold (\<lambda>g. map_set (group_id g) g) gs m) i = Some h \<Longrightarrow>
      (h \<in> set gs \<and> group_id h = i) \<or> map_of m i = Some h" for gs :: "workflow_group list" and m i h
  proof (induction gs arbitrary: m)
    case (Cons a gs)
    from Cons.IH [of "map_set (group_id a) a m"] Cons.prems
    have "(h \<in> set gs \<and> group_id h = i) \<or> map_of (map_set (group_id a) a m) i = Some h"
      by (simp del: AList.update_conv')
    then show ?case by (auto split: if_splits)
  qed simp
  from assms have "case map_of ?m (group_id g) of
      None \<Rightarrow> False
    | Some h \<Rightarrow> group_name h = group_name g \<and> group_description h = group_description g
        \<and> list_all (\<lambda>i. i \<in> set (group_node_ids h)) (group_node_ids g)"
    unfolding nodeGroupChangesAreAdditive_def Let_def list_all_iff [of _ "groups_of p"] by blast
  then obtain h where h: "map_of ?m (group_id g) = Some h"
    and kept: "group_name h = group_name g" "group_description h = group_description g"
      "set (group_node_ids g) \<subseteq> set (group_node_ids h)"
    by (cases "map_of ?m (group_id g)") (auto simp: list_all_iff)
  from mem [OF h] have "h \<in> set (groups_of r)" "group_id h = group_id g" by simp_all
  with kept show ?thesis by (auto simp: group_kept_def)
qed

lemma merge_nodes_True:
  assumes "merge_nodes lib r ds = Inr True" and "d \<in> set ds"
  shows "diff_status d = NodeAdded \<or> diff_status d = NodeEq
    \<or> (diff_status d = NodeModified \<and> (\<exists>b \<in> set (version_nodes r). diff_id b = diff_id (diff_node_of d)
         \<and> nodeIsSuperset lib (diff_node_of d) b))"
  using assms
proof (induction ds)
  case (Cons e ds)
  let ?find = "find (\<lambda>x. diff_id x = diff_id (diff_node_of e)) (version_nodes r)"
  have rest: "merge_nodes lib r ds = Inr True"
    using Cons.prems(1) by (simp split: if_splits option.splits)
  have "diff_status e = NodeAdded \<or> diff_status e = NodeEq
      \<or> (diff_status e = NodeModified \<and> (\<exists>b. ?find = Some b \<and> nodeIsSuperset lib (diff_node_of e) b))"
    using Cons.prems(1) by (cases "diff_status e") (simp_all split: if_splits option.splits)
  moreover have "b \<in> set (version_nodes r) \<and> diff_id b = diff_id (diff_node_of e)" if "?find = Some b" for b
    using that unfolding find_Some_iff by (metis nth_mem)
  ultimately show ?case using Cons.IH [OF rest] Cons.prems(2) by (metis set_ConsD)
qed simp

lemma merge_nodes_returns:
  assumes "\<And>d. d \<in> set ds \<Longrightarrow> diff_status d \<noteq> NodeAdded \<Longrightarrow> diff_status d \<noteq> NodeDeleted \<Longrightarrow>
      diff_id (diff_node_of d) \<in> diff_id ` set (version_nodes r)"
  shows "\<exists>ok. merge_nodes lib r ds = Inr ok"
  using assms
proof (induction ds)
  case (Cons d ds)
  then obtain ok where "merge_nodes lib r ds = Inr ok" by auto
  moreover have "find (\<lambda>x. diff_id x = diff_id (diff_node_of d)) (version_nodes r) \<noteq> None"
    if "diff_status d \<noteq> NodeAdded" "diff_status d \<noteq> NodeDeleted"
    using Cons.prems [of d] that by (auto simp: find_None_iff)
  ultimately show ?case by (cases "diff_status d") (auto split: option.splits intro: exI [of _ True])
qed (auto intro: exI [of _ True])

lemma change_nodes_kept:
  assumes ref: "version_ref p \<noteq> version_ref r" and d: "d \<in> set (map_values (change_nodes (new_change_set lib p r)))"
    and "diff_status d \<noteq> NodeAdded" and "diff_status d \<noteq> NodeDeleted"
  shows "diff_id (diff_node_of d) \<in> diff_id ` set (version_nodes r)"
proof -
  let ?d = "compareWorkflowsNodes (compareNodes lib) (version_nodes p) (version_nodes r)"
  from d ref obtain i where "(i, d) \<in> set ?d" by (auto simp: new_change_set_def)
  then have "map_of ?d i = Some d"
    using compareWorkflowsNodes_spec [of "compareNodes lib" "version_nodes p" "version_nodes r" i]
    by (blast intro: map_of_is_SomeI)
  then have "diff_at (compareNodes lib) (map_of (nodes_by_id (version_nodes p)) i)
      (map_of (nodes_by_id (version_nodes r)) i) = Some d"
    by (simp only: compareWorkflowsNodes_spec)
  with assms(3,4) obtain a b where a: "map_of (nodes_by_id (version_nodes p)) i = Some a" "diff_node_of d = a"
    and b: "map_of (nodes_by_id (version_nodes r)) i = Some b"
    by (auto simp: diff_at_def split: option.splits)
  from nodes_by_id_Some [OF a(1)] nodes_by_id_Some [OF b] a(2)
  have "diff_id (diff_node_of d) = diff_id b" "b \<in> set (version_nodes r)" by simp_all
  then show ?thesis by simp
qed

lemma mergeAdditiveChanges_returns:
  assumes "version_ref p \<noteq> version_ref r"
  shows "\<exists>ok. mergeAdditiveChanges lib p r (new_change_set lib p r) metaData = Inr ok"
proof -
  have "\<exists>ok. merge_nodes lib r (map_values (change_nodes (new_change_set lib p r))) = Inr ok"
    by (rule merge_nodes_returns) (rule change_nodes_kept [OF assms])
  then show ?thesis by (auto simp: mergeAdditiveChanges_def)
qed

lemma mergeAdditiveChanges_keeps:
  assumes laws: "lodash_laws lib" and ref: "version_ref p \<noteq> version_ref r"
    and d: "distinct (map diff_id (version_nodes p))"
    and ok: "mergeAdditiveChanges lib p r (new_change_set lib p r) metaData = Inr True"
  shows "nothing_lost lib p r"
proof -
  let ?d = "compareWorkflowsNodes (compareNodes lib) (version_nodes p) (version_nodes r)"
  let ?c = "compareConnections (version_connections p) (version_connections r)"
  have cs: "change_nodes (new_change_set lib p r) = ?d" "change_connections (new_change_set lib p r) = ?c"
    using ref by (simp_all add: new_change_set_def)
  from ok have nodes: "merge_nodes lib r (map_values ?d) = Inr True" and conns: "own_keys (diff_removed ?c) = []"
    and groups: "nodeGroupChangesAreAdditive p r"
    unfolding mergeAdditiveChanges_def cs by (auto simp: bind_result_Inr_iff)
  have "\<exists>b \<in> set (version_nodes r). node_kept lib a b" if a: "a \<in> set (version_nodes p)" for a
  proof -
    have lookup: "map_of (nodes_by_id (version_nodes p)) (diff_id a) = Some a"
      using nodes_by_id_distinct [OF d a] .
    have "diff_at (compareNodes lib) (Some a) t \<noteq> None" for t by (auto simp: diff_at_def split: option.splits)
    then obtain e where e: "map_of ?d (diff_id a) = Some e"
      and at: "diff_at (compareNodes lib) (Some a) (map_of (nodes_by_id (version_nodes r)) (diff_id a)) = Some e"
      using compareWorkflowsNodes_spec [of "compareNodes lib" "version_nodes p" "version_nodes r" "diff_id a"] lookup
      by (metis not_Some_eq)
    from map_of_SomeD [OF e] have "e \<in> set (map_values ?d)" by force
    note kept = merge_nodes_True [OF nodes this]
    show ?thesis
    proof (cases "map_of (nodes_by_id (version_nodes r)) (diff_id a)")
      case None
      with at have "diff_status e = NodeDeleted" by (auto simp: diff_at_def)
      with kept show ?thesis by simp
    next
      case (Some b)
      with at have st: "diff_status e = (if compareNodes lib (Some a) (Some b) then NodeEq else NodeModified)"
        and e': "diff_node_of e = a" by (auto simp: diff_at_def)
      from nodes_by_id_Some [OF Some] have b: "b \<in> set (version_nodes r)" "diff_id a = diff_id b" by simp_all
      show ?thesis
      proof (cases "compareNodes lib (Some a) (Some b)")
        case True
        from compareNodes_kept [OF laws this b(2)] b(1) show ?thesis by blast
      next
        case False
        with kept st e' obtain c where "c \<in> set (version_nodes r)" "diff_id c = diff_id a" "nodeIsSuperset lib a c"
          by auto
        with nodeIsSuperset_kept [OF laws] show ?thesis by metis
      qed
    qed
  qed
  moreover have "set (conns_at (version_connections p) n t i) \<subseteq> set (conns_at (version_connections r) n t i)" for n t i
  proof -
    have "diff_removed ?c = []" using conns set_own_keys [of "diff_removed ?c"] by (cases "diff_removed ?c") auto
    then have "entries_at (diff_removed ?c) n t = []" by (simp add: entries_at_def)
    then have "all_missing (inputs_at (version_connections p) n t) (inputs_at (version_connections r) n t) = []"
      by (simp add: compareConnections_spec)
    with mem_all_missing [of "inputs_at (version_connections p) n t" "inputs_at (version_connections r) n t" i]
    have "set (items_at (inputs_at (version_connections p) n t) i)
        \<subseteq> set (items_at (inputs_at (version_connections r) n t) i)" by auto
    moreover have "items_at (inputs_at cs n t) i = conns_at cs n t i" for cs
      by (simp add: inputs_at_def conns_at_def items_at_def arr_item_def split: option.split)
    ultimately show ?thesis by simp
  qed
  ultimately show ?thesis using groups_kept [OF groups] unfolding nothing_lost_def by blast
qed

end
