(* ===== verification/Version_History.thy ===== *)
theory Version_History
  imports Workflow_Diff
begin

text \<open>
  Which versions of a workflow's history are dropped: the rules and \<open>groupWorkflows\<close> of
  \<open>packages/workflow/src/workflow-diff.ts\<close>, \<open>pruneHistory\<close> of the repository of the history
  (\<open>packages/@n8n/db\<close>), and the rules that the compaction service of \<open>packages/cli\<close> passes to it.

  The rows of the database are an argument, as are the ids of the published versions; the result of
  \<open>pruneHistory\<close> holds the ids that it deletes. Times are milliseconds.
\<close>

section \<open>Rules\<close>

definition makeSkipTimeDifference :: "int \<Rightarrow> diff_rule" where
  "makeSkipTimeDifference timeDiffMs prev nxt diff metaData =
     Inr (\<bar>created_at nxt - created_at prev\<bar> > timeDiffMs)"

definition makeMergeShortTimeSpan :: "int \<Rightarrow> version \<Rightarrow> version \<Rightarrow> bool" where
  "makeMergeShortTimeSpan timeDiffMs prev nxt \<longleftrightarrow> \<bar>created_at nxt - created_at prev\<bar> < timeDiffMs"

definition size_pairs :: "(nat \<times> int) list \<Rightarrow> (nat \<times> int) list" where
  "size_pairs mapping = sort_by (\<lambda>a b. int (fst b) - int (fst a)) mapping"

definition makeMergeDependingOnSizeRule :: "(nat \<times> int) list \<Rightarrow> diff_rule" where
  "makeMergeDependingOnSizeRule mapping prev nxt diff metaData =
     (case metaData of
        None \<Rightarrow> Inr False
      | Some workflowSizeScore \<Rightarrow>
          (case find (\<lambda>(minimum, time). workflowSizeScore > minimum) (size_pairs mapping) of
             Some (minimum, time) \<Rightarrow> Inr (makeMergeShortTimeSpan time prev nxt)
           | None \<Rightarrow> Inr False))"

definition skipDifferentUsers :: diff_rule where
  "skipDifferentUsers prev nxt diff metaData = Inr (version_authors nxt \<noteq> version_authors prev)"

fun determineNodeSize :: "json \<Rightarrow> nat" where
  "determineNodeSize (JStr s) = (if s = [] then 1 else length s)"
| "determineNodeSize (JArr xs) = fold (+) (map determineNodeSize xs) 1"
| "determineNodeSize (JObj m) = fold (+) (map (\<lambda>(k, v). determineNodeSize v) m) 1"
| "determineNodeSize JNull = 1"
| "determineNodeSize (JBool b) = 1"
| "determineNodeSize (JNum n) = 1"

definition determineNodeParametersSize :: "version \<Rightarrow> nat" where
  "determineNodeParametersSize workflow =
     fold (\<lambda>x acc. acc + (case map_of (diff_fields x) ''parameters'' of
                            Some v \<Rightarrow> determineNodeSize v
                          | None \<Rightarrow> 1)) (version_nodes workflow) 0"

section \<open>Grouping the versions\<close>

text \<open>Whether one of the rules says yes; a rule behind it is not asked.\<close>

fun any_rule :: "diff_rule list \<Rightarrow> version \<Rightarrow> version \<Rightarrow> change_set \<Rightarrow> nat option \<Rightarrow> string + bool" where
  "any_rule [] prev nxt wcs metaData = Inr False"
| "any_rule (rule # rules) prev nxt wcs metaData =
     bind_result (rule prev nxt wcs metaData) (\<lambda>yes.
       if yes then Inr True else any_rule rules prev nxt wcs metaData)"

text \<open>The loop from the last version to the first; its argument is the index \<open>i\<close>.\<close>

fun diff_loop ::
  "lodash \<Rightarrow> diff_rule list \<Rightarrow> diff_rule list \<Rightarrow> nat option \<Rightarrow> nat \<Rightarrow> version list \<Rightarrow> version list
   \<Rightarrow> string + version list \<times> version list" where
  "diff_loop lib rules skipRules metaData 0 remaining removed = Inr (removed, remaining)"
| "diff_loop lib rules skipRules metaData (Suc k) remaining removed =
     (let prev = remaining ! k; nxt = remaining ! Suc k; wcs = new_change_set lib prev nxt in
      bind_result (any_rule skipRules prev nxt wcs metaData) (\<lambda>skip.
        if skip then diff_loop lib rules skipRules metaData k remaining removed
        else bind_result (any_rule rules prev nxt wcs metaData) (\<lambda>shouldMerge.
          if shouldMerge then diff_loop lib rules skipRules metaData k (splice1 k remaining) (removed @ [prev])
          else diff_loop lib rules skipRules metaData k remaining removed)))"

definition size_score :: "bool \<Rightarrow> version list \<Rightarrow> nat option" where
  "size_score wanted workflows =
     (if wanted
      then Some (max (determineNodeParametersSize (workflows ! (length workflows div 2)))
                     (determineNodeParametersSize (workflows ! (length workflows - 1))))
      else None)"

definition groupWorkflows ::
  "lodash \<Rightarrow> version list \<Rightarrow> diff_rule list \<Rightarrow> diff_rule list \<Rightarrow> bool
   \<Rightarrow> string + version list \<times> version list" where
  "groupWorkflows lib workflows rules skipRules workflowSizeScore =
     (if length workflows = 0 then Inr ([], [])
      else if length workflows = 1 then Inr ([], workflows)
      else diff_loop lib rules skipRules (size_score workflowSizeScore workflows)
             (length workflows - 1) workflows [])"

section \<open>Pruning a history\<close>

definition makeSkipActiveAndNamedVersionsRule :: "string list \<Rightarrow> diff_rule" where
  "makeSkipActiveAndNamedVersionsRule activeVersions prev nxt diff metaData =
     Inr (version_name prev \<noteq> None \<or> version_description prev \<noteq> None \<or> version_id prev \<in> set activeVersions)"

record pruned =
  pruned_seen :: nat
  pruned_deleted :: nat
  pruned_versions :: "string list"

definition pruneHistory ::
  "lodash \<Rightarrow> version list \<Rightarrow> string option list \<Rightarrow> diff_rule list \<Rightarrow> diff_rule list \<Rightarrow> bool \<Rightarrow> string + pruned" where
  "pruneHistory lib workflows publishedVersions rules skipRules metaData =
     bind_result
       (groupWorkflows lib workflows rules
          ([makeSkipActiveAndNamedVersionsRule (set_from (List.map_filter (\<lambda>v. v) publishedVersions)),
            skipDifferentUsers] @ skipRules) metaData)
       (\<lambda>(removed, remaining).
          Inr \<lparr>pruned_seen = length workflows, pruned_deleted = length removed,
               pruned_versions = map version_id removed\<rparr>)"

definition optimizeHistory :: "lodash \<Rightarrow> version list \<Rightarrow> string option list \<Rightarrow> string + pruned" where
  "optimizeHistory lib workflows publishedVersions =
     pruneHistory lib workflows publishedVersions [mergeAdditiveChanges lib]
       [makeSkipTimeDifference (20 * 60 * 1000)] False"

definition trim_limits :: "(nat \<times> int) list" where
  "trim_limits =
     [(0, 60 * 1000), (100, 10 * 60 * 1000), (1000, 2 * 60 * 60 * 1000), (5000, 5 * 60 * 60 * 1000),
      (10000, 10 * 60 * 60 * 1000)]"

definition trimHistory :: "lodash \<Rightarrow> version list \<Rightarrow> string option list \<Rightarrow> string + pruned" where
  "trimHistory lib workflows publishedVersions =
     pruneHistory lib workflows publishedVersions
       [makeMergeDependingOnSizeRule trim_limits]
       [] True"

section \<open>Changes of a workflow\<close>

text \<open>\<open>lodash\<close>'s \<open>isEqual\<close> on connections is an argument of its own.\<close>

definition hasNonPositionalChanges ::
  "lodash \<Rightarrow> (iconnections \<Rightarrow> iconnections \<Rightarrow> bool) \<Rightarrow> diff_node list \<Rightarrow> diff_node list
   \<Rightarrow> iconnections \<Rightarrow> iconnections \<Rightarrow> bool" where
  "hasNonPositionalChanges lib isEqualConnections oldNodes newNodes oldConnections newConnections =
     (if list_ex (\<lambda>diff. diff_status diff \<noteq> NodeEq)
           (map_values (compareWorkflowsNodes (compareNodes lib) oldNodes newNodes)) then True
      else if \<not> isEqualConnections oldConnections newConnections then True
      else False)"

definition credentials_of :: "diff_node \<Rightarrow> (string \<times> json) list" where
  "credentials_of node = (case map_of (diff_fields node) ''credentials'' of Some (JObj m) \<Rightarrow> m | _ \<Rightarrow> [])"

definition credential_id :: "(string \<times> json) list \<Rightarrow> string \<Rightarrow> json option" where
  "credential_id creds credType =
     (case map_of creds credType of Some (JObj m) \<Rightarrow> map_of m ''id'' | _ \<Rightarrow> None)"

definition hasCredentialChanges :: "diff_node list \<Rightarrow> diff_node list \<Rightarrow> bool" where
  "hasCredentialChanges oldNodes newNodes =
     (let newNodesMap = nodes_by_id newNodes in
      list_ex (\<lambda>oldNode.
        case map_of newNodesMap (diff_id oldNode) of
          None \<Rightarrow> False
        | Some newNode \<Rightarrow>
            (let oldCreds = credentials_of oldNode; newCreds = credentials_of newNode in
             list_ex (\<lambda>credType. \<not> map_has newCreds credType
                        \<or> credential_id oldCreds credType \<noteq> credential_id newCreds credType) (own_keys oldCreds)
             \<or> list_ex (\<lambda>credType. \<not> map_has oldCreds credType) (own_keys newCreds)))
        oldNodes)"

section \<open>What the loop removes\<close>

text \<open>A version is removed for a later one that stays, and only removed ones lie between them.\<close>

definition removed_for :: "version list \<Rightarrow> version list \<Rightarrow> (version \<Rightarrow> version \<Rightarrow> bool) \<Rightarrow> version list \<Rightarrow> version \<Rightarrow> bool" where
  "removed_for workflows removed merges remaining p \<longleftrightarrow>
     (\<exists>us vs r ws. workflows = us @ p # vs @ r # ws \<and> set vs \<subseteq> set removed \<and> r \<in> set remaining \<and> merges p r)"

definition merges ::
  "lodash \<Rightarrow> diff_rule list \<Rightarrow> diff_rule list \<Rightarrow> nat option \<Rightarrow> version \<Rightarrow> version \<Rightarrow> bool" where
  "merges lib rules skipRules metaData p r \<longleftrightarrow>
     any_rule skipRules p r (new_change_set lib p r) metaData = Inr False
     \<and> any_rule rules p r (new_change_set lib p r) metaData = Inr True"

lemma removed_for_insert:
  assumes "removed_for (xs @ [q]) rem m (stay @ [q]) p'" and "set rem \<subseteq> set rem'" and "p \<in> set rem'"
  shows "removed_for (xs @ [p, q]) rem' m (stay @ [q]) p'"
proof -
  from assms(1) obtain us vs r ws where eq: "xs @ [q] = us @ p' # vs @ r # ws" and vs: "set vs \<subseteq> set rem"
    and r: "r \<in> set (stay @ [q])" "m p' r" unfolding removed_for_def by blast
  show ?thesis
  proof (cases ws rule: rev_cases)
    case Nil
    with eq have "xs = us @ p' # vs" "r = q" by simp_all
    then have "xs @ [p, q] = us @ p' # (vs @ [p]) @ r # []" by simp
    moreover have "set (vs @ [p]) \<subseteq> set rem'" using vs assms(2,3) by auto
    ultimately show ?thesis using r unfolding removed_for_def by blast
  next
    case (snoc ws' w)
    with eq have "xs = us @ p' # vs @ r # ws'" "w = q" by simp_all
    then have "xs @ [p, q] = us @ p' # vs @ r # (ws' @ [p, q])" by simp
    moreover have "set vs \<subseteq> set rem'" using vs assms(2) by auto
    ultimately show ?thesis using r unfolding removed_for_def by blast
  qed
qed

lemma removed_for_extend:
  assumes "removed_for (xs @ [p]) rem m (stay @ [p]) p'"
  shows "removed_for (xs @ p # ys) rem m (stay @ p # ys) p'"
proof -
  from assms obtain us vs r ws where "xs @ [p] = us @ p' # vs @ r # ws" "set vs \<subseteq> set rem"
    "r \<in> set (stay @ [p])" "m p' r" unfolding removed_for_def by blast
  moreover from this(1) have "xs @ p # ys = us @ p' # vs @ r # (ws @ ys)" by (metis append.assoc append_Cons append_Nil)
  ultimately show ?thesis unfolding removed_for_def by fastforce
qed

lemma diff_loop_spec:
  assumes "diff_loop lib rules skips md (length xs) (xs @ q # ys) removed = Inr (removed', remaining)"
  shows "\<exists>stay rem. removed' = removed @ rem \<and> remaining = stay @ q # ys \<and> subseq stay xs
    \<and> mset xs = mset stay + mset rem
    \<and> (\<forall>p \<in> set rem. removed_for (xs @ [q]) rem (merges lib rules skips md) (stay @ [q]) p)"
  using assms
proof (induction xs arbitrary: q ys removed rule: rev_induct)
  case (snoc p xs)
  let ?m = "merges lib rules skips md" and ?wcs = "new_change_set lib p q"
  have nth: "(xs @ p # q # ys) ! length xs = p" "(xs @ p # q # ys) ! Suc (length xs) = q"
    by (simp_all add: nth_append)
  have spl: "splice1 (length xs) (xs @ p # q # ys) = xs @ q # ys" by (simp add: splice1_def)
  have step: "diff_loop lib rules skips md (length (xs @ [p])) ((xs @ [p]) @ q # ys) removed =
      bind_result (any_rule skips p q ?wcs md) (\<lambda>skip.
        if skip then diff_loop lib rules skips md (length xs) (xs @ p # q # ys) removed
        else bind_result (any_rule rules p q ?wcs md) (\<lambda>merge.
          if merge then diff_loop lib rules skips md (length xs) (xs @ q # ys) (removed @ [p])
          else diff_loop lib rules skips md (length xs) (xs @ p # q # ys) removed))"
    by (simp add: nth spl Let_def cong: if_cong)
  show ?case
  proof (cases "?m p q")
    case True
    with snoc.prems step have "diff_loop lib rules skips md (length xs) (xs @ q # ys) (removed @ [p]) = Inr (removed', remaining)"
      by (simp add: merges_def)
    from snoc.IH [OF this] obtain stay rem where ih: "removed' = (removed @ [p]) @ rem" "remaining = stay @ q # ys"
      "subseq stay xs" "mset xs = mset stay + mset rem"
      "\<forall>p' \<in> set rem. removed_for (xs @ [q]) rem ?m (stay @ [q]) p'" by blast
    have "removed_for ((xs @ [p]) @ [q]) (p # rem) ?m (stay @ [q]) p'" if "p' \<in> set rem" for p'
      using removed_for_insert [of xs q rem ?m stay p' "p # rem" p] ih(5) that by auto
    moreover have "removed_for ((xs @ [p]) @ [q]) (p # rem) ?m (stay @ [q]) p"
    proof -
      have "(xs @ [p]) @ [q] = xs @ p # [] @ q # []" by simp
      with True show ?thesis unfolding removed_for_def by fastforce
    qed
    ultimately have "\<forall>p' \<in> set (p # rem). removed_for ((xs @ [p]) @ [q]) (p # rem) ?m (stay @ [q]) p'" by simp
    moreover have "subseq stay (xs @ [p])" using ih(3) by (rule subseq_rev_drop_many)
    moreover have "removed' = removed @ (p # rem)" "mset (xs @ [p]) = mset stay + mset (p # rem)" using ih by simp_all
    ultimately show ?thesis using ih(2) by blast
  next
    case False
    note run = snoc.prems [unfolded step bind_result_Inr_iff]
    from run False have "diff_loop lib rules skips md (length xs) (xs @ p # q # ys) removed = Inr (removed', remaining)"
      unfolding merges_def bind_result_Inr_iff by (auto simp: bind_result_Inr_iff split: if_splits)
    from snoc.IH [OF this] obtain stay rem where ih: "removed' = removed @ rem" "remaining = stay @ p # q # ys"
      "subseq stay xs" "mset xs = mset stay + mset rem"
      "\<forall>p' \<in> set rem. removed_for (xs @ [p]) rem ?m (stay @ [p]) p'" by blast
    have "removed_for ((xs @ [p]) @ [q]) rem ?m ((stay @ [p]) @ [q]) p'" if "p' \<in> set rem" for p'
      using removed_for_extend [of xs p rem ?m stay p' "[q]"] ih(5) that by auto
    moreover have "remaining = (stay @ [p]) @ q # ys" "subseq (stay @ [p]) (xs @ [p])" using ih by simp_all
    moreover have "mset (xs @ [p]) = mset (stay @ [p]) + mset rem" using ih by simp
    ultimately show ?thesis using ih(1) by blast
  qed
qed simp

lemma groupWorkflows_spec:
  assumes "groupWorkflows lib workflows rules skips wanted = Inr (removed, remaining)"
  shows "mset workflows = mset remaining + mset removed \<and> subseq remaining workflows
    \<and> (workflows \<noteq> [] \<longrightarrow> remaining \<noteq> [] \<and> last remaining = last workflows)
    \<and> (\<forall>p \<in> set removed. removed_for workflows removed
         (merges lib rules skips (size_score wanted workflows)) remaining p)"
proof (cases workflows rule: rev_cases)
  case Nil
  with assms show ?thesis by (simp add: groupWorkflows_def)
next
  case (snoc xs q)
  show ?thesis
  proof (cases "xs = []")
    case True
    with snoc assms show ?thesis by (simp add: groupWorkflows_def)
  next
    case False
    with snoc assms have "diff_loop lib rules skips (size_score wanted workflows) (length xs) (xs @ q # []) []
        = Inr (removed, remaining)" by (simp add: groupWorkflows_def)
    from diff_loop_spec [OF this] obtain stay where "remaining = stay @ [q]" "subseq stay xs"
      "mset xs = mset stay + mset removed"
      "\<forall>p \<in> set removed. removed_for (xs @ [q]) removed
         (merges lib rules skips (size_score wanted workflows)) (stay @ [q]) p" by auto
    with snoc show ?thesis by simp
  qed
qed

end
