(* ===== verification/Version_Properties.thy ===== *)
theory Version_Properties
  imports Version_History
begin

text \<open>The properties of the history of a workflow: which versions the compaction drops and what stays of
  them, each with a witness where it has a hypothesis, and the lemmas behind the findings.\<close>

section \<open>Shared steps\<close>

lemma diff_loop_returns:
  assumes rules: "\<And>p q. version_ref p \<noteq> version_ref q \<Longrightarrow>
      (\<exists>yes. any_rule skips p q (new_change_set lib p q) md = Inr yes)
      \<and> (\<exists>yes. any_rule rules p q (new_change_set lib p q) md = Inr yes)"
    and "distinct (map version_ref remaining)" and "k < length remaining"
  shows "\<exists>res. diff_loop lib rules skips md k remaining removed = Inr res"
  using assms(2,3)
proof (induction k arbitrary: remaining removed)
  case (Suc k)
  let ?p = "remaining ! k" and ?q = "remaining ! Suc k"
  have "version_ref ?p \<noteq> version_ref ?q"
    using Suc.prems nth_eq_iff_index_eq [OF Suc.prems(1), of k "Suc k"] by simp
  then obtain skip merge where "any_rule skips ?p ?q (new_change_set lib ?p ?q) md = Inr skip"
    and "any_rule rules ?p ?q (new_change_set lib ?p ?q) md = Inr merge" using rules by blast
  moreover have "\<exists>res. diff_loop lib rules skips md k (splice1 k remaining) (removed @ [?p]) = Inr res"
  proof (rule Suc.IH)
    have "map version_ref (splice1 k remaining) = splice1 k (map version_ref remaining)"
      by (simp add: splice1_def take_map drop_map)
    moreover have "distinct (splice1 k (map version_ref remaining))"
      using Suc.prems(1) set_take_disj_set_drop_if_distinct [OF Suc.prems(1), of k "Suc k"]
      by (auto simp: splice1_def)
    ultimately show "distinct (map version_ref (splice1 k remaining))" by simp
    show "k < length (splice1 k remaining)" using Suc.prems(2) by (simp add: length_splice1)
  qed
  moreover have "\<exists>res. diff_loop lib rules skips md k remaining removed = Inr res"
    using Suc.prems by (intro Suc.IH) simp_all
  ultimately show ?case by (simp add: Let_def)
qed simp

lemma groupWorkflows_returns:
  assumes "\<And>p q md. version_ref p \<noteq> version_ref q \<Longrightarrow>
      (\<exists>yes. any_rule skips p q (new_change_set lib p q) md = Inr yes)
      \<and> (\<exists>yes. any_rule rules p q (new_change_set lib p q) md = Inr yes)"
    and "distinct (map version_ref workflows)"
  shows "\<exists>res. groupWorkflows lib workflows rules skips wanted = Inr res"
  unfolding groupWorkflows_def using diff_loop_returns [OF assms, of "length workflows - 1"] by (cases workflows) auto

text \<open>The versions that a compaction deletes and those that stay.\<close>

definition compacted :: "version list \<Rightarrow> pruned \<Rightarrow> version list \<Rightarrow> version list \<Rightarrow> bool" where
  "compacted workflows out removed remaining \<longleftrightarrow>
     pruned_versions out = map version_id removed \<and> pruned_deleted out = length removed
     \<and> pruned_seen out = length workflows
     \<and> mset workflows = mset remaining + mset removed \<and> subseq remaining workflows
     \<and> (workflows \<noteq> [] \<longrightarrow> remaining \<noteq> [] \<and> last remaining = last workflows)"

definition protected_version :: "string option list \<Rightarrow> version \<Rightarrow> bool" where
  "protected_version publishedVersions v \<longleftrightarrow>
     version_name v \<noteq> None \<or> version_description v \<noteq> None \<or> Some (version_id v) \<in> set publishedVersions"

lemma published_ids: "i \<in> set (List.map_filter (\<lambda>v. v) vs) \<longleftrightarrow> Some i \<in> set vs"
  by (induction vs) (auto simp: List.map_filter_simps split: option.splits)

lemma standard_skips:
  "any_rule ([makeSkipActiveAndNamedVersionsRule (set_from (List.map_filter (\<lambda>v. v) pub)), skipDifferentUsers] @ skips)
     p r wcs md =
   (if protected_version pub p \<or> version_authors p \<noteq> version_authors r then Inr True else any_rule skips p r wcs md)"
  by (auto simp: makeSkipActiveAndNamedVersionsRule_def skipDifferentUsers_def protected_version_def published_ids)

lemma removed_for_mono:
  assumes "removed_for ws removed m remaining p" and "distinct (map version_ref ws)"
    and "\<And>r. p \<in> set ws \<Longrightarrow> r \<in> set ws \<Longrightarrow> version_ref p \<noteq> version_ref r \<Longrightarrow> m p r \<Longrightarrow> m' p r"
  shows "removed_for ws removed m' remaining p"
proof -
  from assms(1) obtain us vs r ws' where eq: "ws = us @ p # vs @ r # ws'" and rest: "set vs \<subseteq> set removed"
    "r \<in> set remaining" "m p r" unfolding removed_for_def by blast
  with assms(2) have "version_ref p \<noteq> version_ref r" by auto
  with eq rest assms(3) have "m' p r" by auto
  with eq rest show ?thesis unfolding removed_for_def by blast
qed

lemma pruneHistory_spec:
  assumes returns: "\<And>p q md. version_ref p \<noteq> version_ref q \<Longrightarrow>
      (\<exists>yes. any_rule skips p q (new_change_set lib p q) md = Inr yes)
      \<and> (\<exists>yes. any_rule rules p q (new_change_set lib p q) md = Inr yes)"
    and refs: "distinct (map version_ref workflows)"
  shows "\<exists>out removed remaining. pruneHistory lib workflows pub rules skips wanted = Inr out
    \<and> compacted workflows out removed remaining
    \<and> (\<forall>p \<in> set removed. removed_for workflows removed
         (\<lambda>p r. \<not> protected_version pub p \<and> version_authors p = version_authors r
            \<and> any_rule skips p r (new_change_set lib p r) (size_score wanted workflows) = Inr False
            \<and> any_rule rules p r (new_change_set lib p r) (size_score wanted workflows) = Inr True) remaining p)"
proof -
  let ?skips = "[makeSkipActiveAndNamedVersionsRule (set_from (List.map_filter (\<lambda>v. v) pub)), skipDifferentUsers] @ skips"
  have "\<exists>res. groupWorkflows lib workflows rules ?skips wanted = Inr res"
    by (rule groupWorkflows_returns) (use returns refs in \<open>simp_all only: standard_skips split: if_split\<close>, blast)
  then obtain removed remaining where run: "groupWorkflows lib workflows rules ?skips wanted = Inr (removed, remaining)"
    by auto
  note spec = groupWorkflows_spec [OF run]
  let ?out = "\<lparr>pruned_seen = length workflows, pruned_deleted = length removed, pruned_versions = map version_id removed\<rparr>"
  have "pruneHistory lib workflows pub rules skips wanted = Inr ?out" unfolding pruneHistory_def run by simp
  moreover have "compacted workflows ?out removed remaining" using spec by (simp add: compacted_def)
  moreover have "\<forall>p \<in> set removed. removed_for workflows removed
      (\<lambda>p r. \<not> protected_version pub p \<and> version_authors p = version_authors r
            \<and> any_rule skips p r (new_change_set lib p r) (size_score wanted workflows) = Inr False
            \<and> any_rule rules p r (new_change_set lib p r) (size_score wanted workflows) = Inr True) remaining p"
  proof
    fix p assume "p \<in> set removed"
    with spec have "removed_for workflows removed (merges lib rules ?skips (size_score wanted workflows)) remaining p"
      by blast
    then show "removed_for workflows removed
      (\<lambda>p r. \<not> protected_version pub p \<and> version_authors p = version_authors r
            \<and> any_rule skips p r (new_change_set lib p r) (size_score wanted workflows) = Inr False
            \<and> any_rule rules p r (new_change_set lib p r) (size_score wanted workflows) = Inr True) remaining p"
      by (rule removed_for_mono) (use refs in \<open>auto simp only: merges_def standard_skips split: if_splits\<close>)
  qed
  ultimately show ?thesis by blast
qed

text \<open>The thresholds of the size rule are tried from the largest.\<close>

interpretation size_order: comparison "\<lambda>a b :: nat \<times> int. int (fst b) - int (fst a)"
  by unfold_locales auto

lemma size_rule_True:
  assumes "makeMergeDependingOnSizeRule mapping p r d (Some score) = Inr True"
  shows "\<exists>minimum limit. (minimum, limit) \<in> set mapping \<and> minimum < score
    \<and> \<bar>created_at r - created_at p\<bar> < limit
    \<and> (\<forall>(m, l) \<in> set mapping. m < score \<longrightarrow> m \<le> minimum)"
proof -
  let ?pairs = "size_pairs mapping"
  have mem: "set ?pairs = set mapping" by (simp add: size_pairs_def)
  have sorted: "sorted_wrt (\<lambda>a b. fst b \<le> fst a) ?pairs"
    using size_order.sorted_sort_by [of mapping] by (simp add: size_pairs_def)
  from assms obtain minimum limit where f: "find (\<lambda>(m, l). score > m) ?pairs = Some (minimum, limit)"
    and near: "makeMergeShortTimeSpan limit p r"
    by (auto simp: makeMergeDependingOnSizeRule_def split: option.splits)
  have split: "(\<lambda>(m, l). score > m) = (\<lambda>p :: nat \<times> int. fst p < score)" by (rule ext) (simp add: split_beta)
  from f obtain i where i: "i < length ?pairs" "?pairs ! i = (minimum, limit)" "minimum < score"
    and before: "\<And>j. j < i \<Longrightarrow> \<not> fst (?pairs ! j) < score"
    unfolding split find_Some_iff by (metis fst_conv)
  have "m \<le> minimum" if "(m, l) \<in> set mapping" "m < score" for m l
  proof -
    from that(1) mem obtain j where j: "j < length ?pairs" "?pairs ! j = (m, l)" by (metis in_set_conv_nth)
    with before [of j] that(2) have "i \<le> j" by (cases "j < i") auto
    then show "m \<le> minimum"
      using sorted_wrt_nth_less [OF sorted, of i j] i j by (cases "i = j") auto
  qed
  moreover have "(minimum, limit) \<in> set mapping" using i(1,2) mem by (metis nth_mem)
  ultimately show ?thesis using i(3) near by (auto simp: makeMergeShortTimeSpan_def)
qed

section \<open>Fixtures\<close>

definition plain_lodash :: lodash where
  "plain_lodash = \<lparr>lodash_pick = (\<lambda>m ks. filter (\<lambda>p. fst p \<in> set ks) m), lodash_isEqual = (=)\<rparr>"

lemma plain_lodash_laws: "lodash_laws plain_lodash"
proof -
  have "map_of (filter (\<lambda>p. fst p \<in> set ks) m) k = (if k \<in> set ks then map_of m k else None)"
    for m :: "(string \<times> json) list" and ks k
    using map_of_filter_fst [of "\<lambda>k. k \<in> set ks" m k] by simp
  then show ?thesis by (simp add: lodash_laws_def plain_lodash_def option.rel_refl)
qed

definition text_node :: "string \<Rightarrow> string \<Rightarrow> diff_node" where
  "text_node name txt = \<lparr>diff_id = name, diff_fields =
     [(''name'', JStr name), (''type'', JStr ''x''), (''parameters'', JObj [(''text'', JStr txt)])]\<rparr>"

definition version_of :: "nat \<Rightarrow> string \<Rightarrow> int \<Rightarrow> diff_node list \<Rightarrow> version" where
  "version_of ref i ms nodes =
     \<lparr>version_ref = ref, version_nodes = nodes, version_connections = [], created_at = ms,
      version_authors = None, version_groups = None, version_id = i, version_name = None,
      version_description = None\<rparr>"

abbreviation "old_version \<equiv> version_of 1 ''v1'' 0 [text_node ''A'' ''ac'']"
abbreviation "new_version \<equiv> version_of 2 ''v2'' 1000 [text_node ''A'' ''abc'', text_node ''B'' ''b'']"

section \<open>Properties\<close>

text \<open>C23: the scan with its early exit decides whether the second string is a subsequence of the
  first. That is the first sentence of the code's own comment; one of the examples behind it
  contradicts it, see \<open>commented_example_is_contained\<close>.\<close>

theorem stringContainsParts_correct: "stringContainsParts s substr \<longleftrightarrow> subseq substr s"
  by (rule stringContainsParts_spec)

text \<open>The comment gives \<open>'abcd'\<close> as an example that \<open>'abcde'\<close> does not contain; it does.\<close>

lemma commented_example_is_contained:
  "stringContainsParts ''abcde'' ''abcd'' \<and> \<not> stringContainsParts ''abcde'' ''abced''"
  by code_simp

text \<open>C21: the optimization of a history throws no error. The latest version stays, the versions that
  stay keep their order, and none is deleted that has a name or a description or is published. Each
  deleted version is followed by a version that stays, with deleted ones at most between them, by
  the same author and at most twenty minutes apart, which holds all its nodes with the compared fields
  and at least their parameters, all its connections and all its groups.\<close>

theorem optimizeHistory_keeps:
  assumes laws: "lodash_laws lib" and refs: "distinct (map version_ref workflows)"
    and ids: "list_all (\<lambda>v. distinct (map diff_id (version_nodes v))) workflows"
  shows "\<exists>out removed remaining. optimizeHistory lib workflows pub = Inr out
    \<and> compacted workflows out removed remaining
    \<and> list_all (removed_for workflows removed
         (\<lambda>p r. \<not> protected_version pub p \<and> version_authors p = version_authors r
            \<and> \<bar>created_at r - created_at p\<bar> \<le> 20 * 60 * 1000 \<and> nothing_lost lib p r) remaining) removed"
proof -
  let ?skips = "[makeSkipTimeDifference (20 * 60 * 1000)]" and ?rules = "[mergeAdditiveChanges lib]"
  have "(\<exists>yes. any_rule ?skips p q (new_change_set lib p q) md = Inr yes)
      \<and> (\<exists>yes. any_rule ?rules p q (new_change_set lib p q) md = Inr yes)"
    if "version_ref p \<noteq> version_ref q" for p q md
    using mergeAdditiveChanges_returns [OF that, of lib md] by (auto simp: makeSkipTimeDifference_def)
  from pruneHistory_spec [of ?skips lib ?rules, OF this refs, where pub = pub and wanted = False]
  obtain out removed remaining where out: "optimizeHistory lib workflows pub = Inr out"
    "compacted workflows out removed remaining"
    and gone: "\<And>p. p \<in> set removed \<Longrightarrow> removed_for workflows removed
         (\<lambda>p r. \<not> protected_version pub p \<and> version_authors p = version_authors r
            \<and> any_rule ?skips p r (new_change_set lib p r) (size_score False workflows) = Inr False
            \<and> any_rule ?rules p r (new_change_set lib p r) (size_score False workflows) = Inr True) remaining p"
    unfolding optimizeHistory_def by blast
  have "removed_for workflows removed
         (\<lambda>p r. \<not> protected_version pub p \<and> version_authors p = version_authors r
            \<and> \<bar>created_at r - created_at p\<bar> \<le> 20 * 60 * 1000 \<and> nothing_lost lib p r) remaining p"
    if "p \<in> set removed" for p
    using gone [OF that] refs
  proof (rule removed_for_mono, goal_cases)
    case (1 r)
    have "distinct (map diff_id (version_nodes p))" using ids 1(1) by (simp add: list_all_iff)
    with 1(3,4) mergeAdditiveChanges_keeps [OF laws 1(3), of "size_score False workflows"]
    show ?case by (auto simp: makeSkipTimeDifference_def bind_result_Inr_iff split: if_splits)
  qed
  with out show ?thesis by (auto simp: list_all_iff)
qed

theorem optimizeHistory_keeps_witness: "nothing_lost plain_lodash old_version new_version"
proof -
  have "distinct (map version_ref [old_version, new_version])"
    and "list_all (\<lambda>v. distinct (map diff_id (version_nodes v))) [old_version, new_version]"
    by code_simp+
  from optimizeHistory_keeps [OF plain_lodash_laws this, of "[]"] obtain out removed remaining where
    run: "optimizeHistory plain_lodash [old_version, new_version] [] = Inr out"
    and c: "compacted [old_version, new_version] out removed remaining"
    and gone: "list_all (removed_for [old_version, new_version] removed
         (\<lambda>p r. \<not> protected_version [] p \<and> version_authors p = version_authors r
            \<and> \<bar>created_at r - created_at p\<bar> \<le> 20 * 60 * 1000 \<and> nothing_lost plain_lodash p r) remaining) removed"
    by blast
  have "optimizeHistory plain_lodash [old_version, new_version] [] =
      Inr \<lparr>pruned_seen = 2, pruned_deleted = 1, pruned_versions = [''v1'']\<rparr>" by code_simp
  with run c have "map version_id removed = [''v1'']" by (simp add: compacted_def)
  then obtain p where p: "removed = [p]" "version_id p = ''v1''" by auto
  with gone obtain us vs r ws where eq: "[old_version, new_version] = us @ p # vs @ r # ws"
    and "nothing_lost plain_lodash p r" by (auto simp: removed_for_def)
  moreover from eq have "us = []" "p = old_version" "vs = []" "r = new_version"
    by (auto simp: Cons_eq_append_conv)
  ultimately show ?thesis by simp
qed

text \<open>C22: the trimming of old histories throws no error and never deletes a version that has a name or
  a description or is published, nor the latest. A deleted version is followed by one that stays, by
  the same author, and the two are closer than the limit of the largest threshold below the size
  of the workflow; with the largest threshold that is ten hours.\<close>

theorem trimHistory_bounds:
  assumes refs: "distinct (map version_ref workflows)"
  shows "\<exists>out removed remaining. trimHistory lib workflows pub = Inr out
    \<and> compacted workflows out removed remaining
    \<and> list_all (removed_for workflows removed
         (\<lambda>p r. \<not> protected_version pub p \<and> version_authors p = version_authors r
            \<and> \<bar>created_at r - created_at p\<bar> < 10 * 60 * 60 * 1000
            \<and> (\<exists>minimum limit. (minimum, limit) \<in> set trim_limits
                 \<and> minimum < the (size_score True workflows) \<and> \<bar>created_at r - created_at p\<bar> < limit
                 \<and> list_all (\<lambda>(m, l). m < the (size_score True workflows) \<longrightarrow> m \<le> minimum) trim_limits))
         remaining) removed"
proof -
  let ?rules = "[makeMergeDependingOnSizeRule trim_limits]"
  have "(\<exists>yes. any_rule [] p q (new_change_set lib p q) md = Inr yes)
      \<and> (\<exists>yes. any_rule ?rules p q (new_change_set lib p q) md = Inr yes)" for p q md
    by (auto simp: makeMergeDependingOnSizeRule_def split: option.splits)
  from pruneHistory_spec [of "[]" lib ?rules, OF this refs, where pub = pub and wanted = True]
  obtain out removed remaining where out: "trimHistory lib workflows pub = Inr out"
    "compacted workflows out removed remaining"
    and gone: "\<And>p. p \<in> set removed \<Longrightarrow> removed_for workflows removed
         (\<lambda>p r. \<not> protected_version pub p \<and> version_authors p = version_authors r
            \<and> any_rule [] p r (new_change_set lib p r) (size_score True workflows) = Inr False
            \<and> any_rule ?rules p r (new_change_set lib p r) (size_score True workflows) = Inr True) remaining p"
    unfolding trimHistory_def by blast
  obtain score where score: "size_score True workflows = Some score" by (simp add: size_score_def)
  have ten: "limit \<le> 10 * 60 * 60 * 1000" if "(minimum, limit) \<in> set trim_limits" for minimum limit
    using that by (auto simp: trim_limits_def)
  have "removed_for workflows removed
         (\<lambda>p r. \<not> protected_version pub p \<and> version_authors p = version_authors r
            \<and> \<bar>created_at r - created_at p\<bar> < 10 * 60 * 60 * 1000
            \<and> (\<exists>minimum limit. (minimum, limit) \<in> set trim_limits
                 \<and> minimum < the (size_score True workflows) \<and> \<bar>created_at r - created_at p\<bar> < limit
                 \<and> list_all (\<lambda>(m, l). m < the (size_score True workflows) \<longrightarrow> m \<le> minimum) trim_limits)) remaining p"
    if "p \<in> set removed" for p
    using gone [OF that] refs
  proof (rule removed_for_mono, goal_cases)
    case (1 r)
    then have "makeMergeDependingOnSizeRule trim_limits p r (new_change_set lib p r) (Some score) = Inr True"
      by (auto simp: score bind_result_Inr_iff split: if_splits)
    from size_rule_True [OF this] obtain minimum limit where m: "(minimum, limit) \<in> set trim_limits"
      "minimum < score" "\<bar>created_at r - created_at p\<bar> < limit"
      "list_all (\<lambda>(m, l). m < score \<longrightarrow> m \<le> minimum) trim_limits"
      unfolding list_all_iff by blast
    from m(3) ten [OF m(1)] have "\<bar>created_at r - created_at p\<bar> < 10 * 60 * 60 * 1000" by linarith
    with m 1(4) show ?case unfolding score option.sel by blast
  qed
  with out show ?thesis by (auto simp: list_all_iff)
qed

theorem trimHistory_bounds_witness:
  "\<exists>removed remaining. compacted [old_version, new_version]
      \<lparr>pruned_seen = 2, pruned_deleted = 1, pruned_versions = [''v1'']\<rparr> removed remaining
    \<and> list_all (removed_for [old_version, new_version] removed
         (\<lambda>p r. \<bar>created_at r - created_at p\<bar> < 10 * 60 * 60 * 1000) remaining) removed"
proof -
  let ?ws = "[old_version, new_version]"
  have refs: "distinct (map version_ref ?ws)" by code_simp
  have run: "trimHistory plain_lodash ?ws [] =
      Inr \<lparr>pruned_seen = 2, pruned_deleted = 1, pruned_versions = [''v1'']\<rparr>" by code_simp
  have weaken: "list_all (removed_for ?ws removed (\<lambda>p r. A p r \<and> B p r \<and> C p r \<and> D p r) remaining) removed
      \<Longrightarrow> list_all (removed_for ?ws removed C remaining) removed" for A B C D removed remaining
    unfolding list_all_iff by (blast intro: removed_for_mono [OF _ refs])
  from trimHistory_bounds [OF refs, of plain_lodash "[]"] obtain out removed remaining where
    "trimHistory plain_lodash ?ws [] = Inr out" and c: "compacted ?ws out removed remaining"
    and gone: "list_all (removed_for ?ws removed (\<lambda>p r. \<not> protected_version [] p \<and> version_authors p = version_authors r
            \<and> \<bar>created_at r - created_at p\<bar> < 10 * 60 * 60 * 1000
            \<and> (\<exists>minimum limit. (minimum, limit) \<in> set trim_limits
                 \<and> minimum < the (size_score True ?ws) \<and> \<bar>created_at r - created_at p\<bar> < limit
                 \<and> list_all (\<lambda>(m, l). m < the (size_score True ?ws) \<longrightarrow> m \<le> minimum) trim_limits)) remaining) removed"
    by blast
  with run have "out = \<lparr>pruned_seen = 2, pruned_deleted = 1, pruned_versions = [''v1'']\<rparr>" by simp
  with c weaken [OF gone] show ?thesis by blast
qed

section \<open>Findings\<close>

text \<open>Fields that \<open>compareNodes\<close> does not list count for nothing: a version in which a node is disabled
  is dropped for one in which it is not, and switching a node off is no change.\<close>

abbreviation "disabled_text_node \<equiv>
  (text_node ''A'' ''a'')\<lparr>diff_fields := diff_fields (text_node ''A'' ''a'') @ [(''disabled'', JBool True)]\<rparr>"

lemma disabled_version_dropped:
  "optimizeHistory plain_lodash
     [version_of 1 ''v1'' 0 [disabled_text_node], version_of 2 ''v2'' 1 [text_node ''A'' ''a'']] []
   = Inr \<lparr>pruned_seen = 2, pruned_deleted = 1, pruned_versions = [''v1'']\<rparr>"
  by code_simp

lemma disabling_is_no_change:
  "\<not> hasNonPositionalChanges plain_lodash (=) [text_node ''A'' ''a''] [disabled_text_node] [] []"
  by code_simp

text \<open>An object counts as contained in an array whose elements contain its values under their
  indices.\<close>

lemma array_replaces_object:
  "parametersAreSuperset (JObj []) (JArr []) \<and> parametersAreSuperset (JObj [(''0'', JStr ''a'')]) (JArr [JStr ''ab''])
   \<and> \<not> parametersAreSuperset (JArr []) (JObj [])"
  by code_simp

end
