(* ===== verification/Parameter_Order.thy ===== *)
theory Parameter_Order
  imports Workflow_Diff
begin

text \<open>
  \<open>getParameterDependencies\<close> and \<open>getParameterResolveOrder\<close> of \<open>packages/workflow/src/node-helpers.ts\<close>:
  on which other parameters the display of a node's parameter depends, and in which order the
  parameters are resolved.
\<close>

section \<open>The code\<close>

record node_property =
  property_name :: string
  display_options :: "(string \<times> json) list option"

type_synonym parameter_dependencies = "(string \<times> string list) list"

definition starts_with_char :: "char \<Rightarrow> string \<Rightarrow> bool" where
  "starts_with_char c s \<longleftrightarrow> s \<noteq> [] \<and> hd s = c"

definition rule_keys :: "json \<Rightarrow> string list" where
  "rule_keys displayRule = (case object_like displayRule of Some m \<Rightarrow> own_keys m | None \<Rightarrow> [])"

definition add_dependency :: "string \<Rightarrow> string \<Rightarrow> parameter_dependencies \<Rightarrow> parameter_dependencies" where
  "add_dependency name parameterName dependencies =
     (let known = the (map_of dependencies name) in
      if parameterName \<in> set known then dependencies
      else if starts_with_char CHR ''@'' parameterName then dependencies
      else map_set name (known @ [parameterName]) dependencies)"

definition add_property :: "node_property \<Rightarrow> parameter_dependencies \<Rightarrow> parameter_dependencies" where
  "add_property nodeProperties dependencies =
     (let name = property_name nodeProperties;
          dependencies = (if map_has dependencies name then dependencies else map_set name [] dependencies) in
      case display_options nodeProperties of
        None \<Rightarrow> dependencies
      | Some displayOptions \<Rightarrow>
          fold (\<lambda>displayRule. fold (add_dependency name) (rule_keys displayRule))
            (object_values displayOptions) dependencies)"

definition getParameterDependencies :: "node_property list \<Rightarrow> parameter_dependencies" where
  "getParameterDependencies nodePropertiesArray = fold add_property nodePropertiesArray []"

datatype order_error = DependenciesUndefined | MaxIterationsReached

record order_state =
  execution_order :: "nat list"
  index_to_resolve :: "nat list"
  resolved_parameters :: "string list"
  last_index_length :: nat
  last_index_reduction :: int
  order_iterations :: nat

text \<open>The dependencies that are still missing; for each of them the index is put back.\<close>

definition missing_dependencies :: "string list \<Rightarrow> string list \<Rightarrow> string list" where
  "missing_dependencies resolved dependencies =
     filter (\<lambda>d. d \<notin> set resolved \<and> \<not> starts_with_char CHR ''/'' d) dependencies"

definition name_at :: "node_property list \<Rightarrow> nat \<Rightarrow> string" where
  "name_at props i = property_name (props ! i)"

text \<open>One iteration on the index taken from the queue, and the loop.\<close>

definition resolve_index ::
  "node_property list \<Rightarrow> parameter_dependencies \<Rightarrow> nat \<Rightarrow> nat list \<Rightarrow> order_state \<Rightarrow> order_error + order_state" where
  "resolve_index props dependencies index queue st =
     (case map_of dependencies (name_at props index) of
        None \<Rightarrow> Inl DependenciesUndefined
      | Some ds \<Rightarrow>
          (let missing = missing_dependencies (resolved_parameters st) ds;
               queue' = queue @ map (\<lambda>d. index) missing;
               st = st\<lparr>order_iterations := order_iterations st + 1,
                       execution_order := execution_order st @ [index],
                       resolved_parameters := resolved_parameters st @ [name_at props index]\<rparr>;
               reduction = (if length queue' < last_index_length st then int (order_iterations st)
                            else last_index_reduction st) in
           if length ds = 0 then Inr (st\<lparr>index_to_resolve := queue\<rparr>)
           else if int (order_iterations st) > reduction + int (length props) then Inl MaxIterationsReached
           else Inr (st\<lparr>index_to_resolve := queue', last_index_reduction := reduction,
                        last_index_length := length queue'\<rparr>)))"

function resolve_order ::
  "node_property list \<Rightarrow> parameter_dependencies \<Rightarrow> order_state \<Rightarrow> order_error + nat list" where
  "resolve_order props dependencies st =
     (case index_to_resolve st of
        [] \<Rightarrow> Inr (execution_order st)
      | index # queue \<Rightarrow>
          bind_result (resolve_index props dependencies index queue st) (resolve_order props dependencies))"
  by pat_completeness auto

definition initial_order :: "nat \<Rightarrow> order_state" where
  "initial_order n =
     \<lparr>execution_order = [], index_to_resolve = [0..<n], resolved_parameters = [],
      last_index_length = n, last_index_reduction = - 1, order_iterations = 0\<rparr>"

text \<open>An iteration that resolves no new name either takes an index with no missing dependency from
  the queue, or puts only indices back and then uses up one of the iterations that are left.\<close>

definition names_open :: "node_property list \<Rightarrow> order_state \<Rightarrow> nat" where
  "names_open props st = card (name_at props ` set (index_to_resolve st) - set (resolved_parameters st))"

definition is_ready :: "node_property list \<Rightarrow> parameter_dependencies \<Rightarrow> string list \<Rightarrow> nat \<Rightarrow> bool" where
  "is_ready props deps resolved i \<longleftrightarrow>
     (case map_of deps (name_at props i) of Some ds \<Rightarrow> missing_dependencies resolved ds = [] | None \<Rightarrow> True)"

definition ready_count :: "node_property list \<Rightarrow> parameter_dependencies \<Rightarrow> order_state \<Rightarrow> nat" where
  "ready_count props deps st =
     length (filter (is_ready props deps (resolved_parameters st)) (index_to_resolve st))"

definition iterations_left :: "node_property list \<Rightarrow> order_state \<Rightarrow> nat" where
  "iterations_left props st =
     nat (last_index_reduction st + int (length props) + 1 - int (order_iterations st))"

definition order_rel :: "node_property list \<Rightarrow> parameter_dependencies \<Rightarrow> (order_state \<times> order_state) set" where
  "order_rel props deps = measures
     [names_open props, ready_count props deps,
      \<lambda>st. if length (index_to_resolve st) < last_index_length st then 1 else 0,
      iterations_left props]"

lemma resolve_index_state:
  assumes "resolve_index props deps i queue st = Inr st'"
  obtains ds where "map_of deps (name_at props i) = Some ds"
    and "execution_order st' = execution_order st @ [i]"
    and "resolved_parameters st' = resolved_parameters st @ [name_at props i]"
    and "order_iterations st' = order_iterations st + 1"
    and "index_to_resolve st' = queue @ map (\<lambda>d. i) (missing_dependencies (resolved_parameters st) ds)"
    and "if ds = [] then last_index_length st' = last_index_length st
           \<and> last_index_reduction st' = last_index_reduction st
         else last_index_length st' = length (index_to_resolve st')
           \<and> last_index_reduction st' = (if length (index_to_resolve st') < last_index_length st
                then int (order_iterations st') else last_index_reduction st)
           \<and> int (order_iterations st') \<le> last_index_reduction st' + int (length props)"
  using assms
  by (auto simp: resolve_index_def Let_def missing_dependencies_def split: option.splits if_splits)

lemma resolve_index_decreases:
  assumes q: "index_to_resolve st = i # queue" and step: "resolve_index props deps i queue st = Inr st'"
  shows "(st', st) \<in> order_rel props deps"
proof -
  let ?r = "resolved_parameters st"
  from step obtain ds where ds: "map_of deps (name_at props i) = Some ds"
    and r': "resolved_parameters st' = ?r @ [name_at props i]"
    and it: "order_iterations st' = order_iterations st + 1"
    and q': "index_to_resolve st' = queue @ map (\<lambda>d. i) (missing_dependencies ?r ds)"
    and rest: "if ds = [] then last_index_length st' = last_index_length st
           \<and> last_index_reduction st' = last_index_reduction st
         else last_index_length st' = length (index_to_resolve st')
           \<and> last_index_reduction st' = (if length (index_to_resolve st') < last_index_length st
                then int (order_iterations st') else last_index_reduction st)
           \<and> int (order_iterations st') \<le> last_index_reduction st' + int (length props)"
    by (rule resolve_index_state)
  have sub: "name_at props ` set (index_to_resolve st') - set (resolved_parameters st')
      \<subseteq> name_at props ` set (index_to_resolve st) - set ?r"
    unfolding q q' r' by auto
  show ?thesis
  proof (cases "name_at props i \<in> set ?r")
    case False
    then have "name_at props ` set (index_to_resolve st') - set (resolved_parameters st')
        \<subset> name_at props ` set (index_to_resolve st) - set ?r"
      using sub unfolding q r' by auto
    then have "names_open props st' < names_open props st"
      unfolding names_open_def by (intro psubset_card_mono) auto
    then show ?thesis by (simp add: order_rel_def)
  next
    case True
    have le: "names_open props st' \<le> names_open props st"
      unfolding names_open_def using sub by (intro card_mono) auto
    have same: "is_ready props deps (resolved_parameters st') = is_ready props deps ?r"
    proof -
      have "missing_dependencies (resolved_parameters st') = missing_dependencies ?r"
        using True unfolding r' by (intro ext) (auto simp: missing_dependencies_def insert_absorb)
      then show ?thesis by (intro ext) (simp add: is_ready_def split: option.split)
    qed
    show ?thesis
    proof (cases "missing_dependencies ?r ds = []")
      case ready: True
      then have "is_ready props deps ?r i" by (simp add: is_ready_def ds)
      then have "ready_count props deps st' < ready_count props deps st"
        unfolding ready_count_def same q q' ready by simp
      with le show ?thesis by (auto simp: order_rel_def)
    next
      case bad: False
      then have "\<not> is_ready props deps ?r i" by (simp add: is_ready_def ds)
      then have "ready_count props deps st' = ready_count props deps st"
        unfolding ready_count_def same q q' by (simp add: filter_empty_conv)
      moreover have len: "length (index_to_resolve st') \<ge> length (index_to_resolve st)"
        using bad unfolding q q' by (cases "missing_dependencies ?r ds") auto
      moreover from bad rest have "last_index_length st' = length (index_to_resolve st')"
        and "last_index_reduction st' = (if length (index_to_resolve st') < last_index_length st
                then int (order_iterations st') else last_index_reduction st)"
        and "int (order_iterations st') \<le> last_index_reduction st' + int (length props)"
        by (auto simp: missing_dependencies_def split: if_splits)
      ultimately show ?thesis using le it by (auto simp: order_rel_def iterations_left_def)
    qed
  qed
qed

termination resolve_order
proof (relation "measures
    [\<lambda>(props, deps, st). names_open props st, \<lambda>(props, deps, st). ready_count props deps st,
     \<lambda>(props, deps, st). if length (index_to_resolve st) < last_index_length st then 1 else 0,
     \<lambda>(props, deps, st). iterations_left props st]", goal_cases)
  case (2 props deps st i queue st')
  from resolve_index_decreases [OF 2] show ?case by (simp add: order_rel_def)
qed simp

declare resolve_order.simps [simp del]

definition getParameterResolveOrder ::
  "node_property list \<Rightarrow> parameter_dependencies \<Rightarrow> order_error + nat list" where
  "getParameterResolveOrder nodePropertiesArray parameterDependencies =
     resolve_order nodePropertiesArray parameterDependencies (initial_order (length nodePropertiesArray))"

section \<open>The order that is returned\<close>

text \<open>The dependencies of the index that are not at the root level.\<close>

definition level_dependencies :: "node_property list \<Rightarrow> parameter_dependencies \<Rightarrow> nat \<Rightarrow> string set" where
  "level_dependencies props deps i =
     {d. \<exists>ds. map_of deps (name_at props i) = Some ds \<and> d \<in> set ds \<and> \<not> starts_with_char CHR ''/'' d}"

lemma missing_level:
  "map_of deps (name_at props i) = Some ds \<Longrightarrow>
   missing_dependencies resolved ds = [] \<longleftrightarrow> level_dependencies props deps i \<subseteq> set resolved"
  by (auto simp: missing_dependencies_def level_dependencies_def filter_empty_conv)

text \<open>The index stands somewhere behind all it depends on.\<close>

definition behind_dependencies :: "node_property list \<Rightarrow> parameter_dependencies \<Rightarrow> nat list \<Rightarrow> nat \<Rightarrow> bool" where
  "behind_dependencies props deps order i \<longleftrightarrow>
     (\<exists>us vs. order = us @ i # vs \<and> level_dependencies props deps i \<subseteq> name_at props ` set us)"

lemma behind_append: "behind_dependencies props deps order i \<Longrightarrow> behind_dependencies props deps (order @ xs) i"
  unfolding behind_dependencies_def by (metis append.assoc append_Cons)

definition order_inv :: "node_property list \<Rightarrow> parameter_dependencies \<Rightarrow> order_state \<Rightarrow> bool" where
  "order_inv props deps st \<longleftrightarrow>
     resolved_parameters st = map (name_at props) (execution_order st)
     \<and> set (execution_order st) \<union> set (index_to_resolve st) = {..<length props}
     \<and> (\<forall>i < length props. i \<in> set (index_to_resolve st) \<or> behind_dependencies props deps (execution_order st) i)"

lemma order_inv_step:
  assumes inv: "order_inv props deps st" and q: "index_to_resolve st = i # queue"
    and step: "resolve_index props deps i queue st = Inr st'"
  shows "order_inv props deps st'"
proof -
  let ?r = "resolved_parameters st"
  from step obtain ds where ds: "map_of deps (name_at props i) = Some ds"
    and e': "execution_order st' = execution_order st @ [i]" and r': "resolved_parameters st' = ?r @ [name_at props i]"
    and q': "index_to_resolve st' = queue @ map (\<lambda>d. i) (missing_dependencies ?r ds)"
    by (rule resolve_index_state)
  have "j \<in> set (index_to_resolve st') \<or> behind_dependencies props deps (execution_order st') j"
    if "j < length props" for j
  proof (cases "j = i")
    case True
    show ?thesis
    proof (cases "missing_dependencies ?r ds")
      case Nil
      with missing_level [OF ds] inv have "level_dependencies props deps i \<subseteq> name_at props ` set (execution_order st)"
        by (simp add: order_inv_def)
      then show ?thesis using True unfolding e' behind_dependencies_def by blast
    next
      case (Cons d rest)
      with True q' show ?thesis by simp
    qed
  next
    case False
    with inv that q have "j \<in> set queue \<or> behind_dependencies props deps (execution_order st) j"
      by (auto simp: order_inv_def)
    then show ?thesis using behind_append unfolding e' q' by auto
  qed
  moreover have "set (execution_order st') \<union> set (index_to_resolve st') = {..<length props}"
    using inv q unfolding order_inv_def e' q' by (auto split: if_splits)
  ultimately show ?thesis using inv e' r' by (simp add: order_inv_def)
qed

lemma resolve_order_inv:
  assumes "order_inv props deps st" and "resolve_order props deps st = Inr order"
  shows "set order = {..<length props} \<and> (\<forall>i < length props. behind_dependencies props deps order i)"
  using assms
proof (induction props deps st rule: resolve_order.induct)
  case (1 props deps st)
  show ?case
  proof (cases "index_to_resolve st")
    case Nil
    with 1(2,3) show ?thesis by (auto simp: resolve_order.simps [of props deps st] order_inv_def)
  next
    case (Cons i queue)
    with 1(3) obtain st' where step: "resolve_index props deps i queue st = Inr st'"
      and rest: "resolve_order props deps st' = Inr order"
      by (auto simp: resolve_order.simps [of props deps st] bind_result_Inr_iff)
    from 1(1) [OF Cons step order_inv_step [OF 1(2) Cons step] rest] show ?thesis .
  qed
qed

lemma order_inv_initial: "order_inv props deps (initial_order (length props))"
  by (auto simp: order_inv_def initial_order_def)

section \<open>When an order is returned\<close>

definition unknown_dependency :: "node_property list \<Rightarrow> parameter_dependencies \<Rightarrow> nat \<Rightarrow> bool" where
  "unknown_dependency props deps i \<longleftrightarrow> \<not> level_dependencies props deps i \<subseteq> property_name ` set props"

lemma name_at_props: "name_at props ` {..<length props} = property_name ` set props"
  by (force simp: name_at_def in_set_conv_nth image_iff)

text \<open>A parameter that depends on an unknown one is put back forever, until the loop gives up.\<close>

lemma unknown_dependency_no_order:
  assumes "order_inv props deps st" and "i < length props" and "unknown_dependency props deps i"
  shows "resolve_order props deps st \<noteq> Inr order"
proof
  assume "resolve_order props deps st = Inr order"
  from resolve_order_inv [OF assms(1) this] assms(2) obtain us vs where "order = us @ i # vs"
    and sub: "level_dependencies props deps i \<subseteq> name_at props ` set us" and "set order = {..<length props}"
    unfolding behind_dependencies_def by blast
  then have "set us \<subseteq> {..<length props}" by auto
  with sub have "level_dependencies props deps i \<subseteq> property_name ` set props"
    unfolding name_at_props [symmetric] by blast
  with assms(3) show False by (simp add: unknown_dependency_def)
qed

text \<open>Where every parameter depends on other parameters only, the first pass resolves every name and
  the second takes out what was put back.\<close>

definition pass_inv :: "node_property list \<Rightarrow> order_state \<Rightarrow> bool" where
  "pass_inv props st \<longleftrightarrow>
     (\<exists>j extra. j \<le> length props \<and> index_to_resolve st = [j..<length props] @ extra
        \<and> set extra \<subseteq> {..<length props}
        \<and> name_at props ` {..<j} \<subseteq> set (resolved_parameters st)
        \<and> (j < length props \<longrightarrow> order_iterations st = j))
     \<and> - 1 \<le> last_index_reduction st \<and> length (index_to_resolve st) \<le> last_index_length st"

lemma pass_step:
  assumes known: "\<And>i. i < length props \<Longrightarrow> map_of deps (name_at props i) \<noteq> None
      \<and> level_dependencies props deps i \<subseteq> property_name ` set props - {name_at props i}"
    and inv: "pass_inv props st" and q: "index_to_resolve st = i # queue"
  shows "\<exists>st'. resolve_index props deps i queue st = Inr st' \<and> pass_inv props st'"
proof -
  let ?n = "length props" and ?r = "resolved_parameters st"
  obtain j extra where j: "j \<le> ?n" "index_to_resolve st = [j..<?n] @ extra" "set extra \<subseteq> {..<?n}"
    and names: "name_at props ` {..<j} \<subseteq> set ?r" and it: "j < ?n \<Longrightarrow> order_iterations st = j"
    and red: "- 1 \<le> last_index_reduction st" and len: "length (index_to_resolve st) \<le> last_index_length st"
    using inv unfolding pass_inv_def by blast
  have first: "i = j \<and> queue = [Suc j..<?n] @ extra" if "j < ?n"
    using j(2) q upt_conv_Cons [OF that] by simp
  have later: "extra = i # queue" if "j = ?n" using j(2) q that by simp
  have i: "i < ?n"
  proof (cases "j < ?n")
    case False
    with j(1) later have "extra = i # queue" by simp
    with j(3) show ?thesis by simp
  qed (use first in simp)
  from known [OF i] obtain ds where ds: "map_of deps (name_at props i) = Some ds"
    and sub: "level_dependencies props deps i \<subseteq> property_name ` set props - {name_at props i}" by auto
  define missing where "missing = missing_dependencies ?r ds"
  have none: "missing = []" if "Suc j \<ge> ?n"
  proof -
    have "property_name ` set props - {name_at props i} \<subseteq> set ?r"
    proof (cases "j = ?n")
      case True
      then show ?thesis using names name_at_props [of props] by auto
    next
      case False
      with that j(1) first have "{..<?n} = insert i {..<j}" by auto
      then have "property_name ` set props = insert (name_at props i) (name_at props ` {..<j})"
        unfolding name_at_props [symmetric] by simp
      with names show ?thesis by blast
    qed
    with sub missing_level [OF ds, of ?r] show ?thesis unfolding missing_def by blast
  qed
  let ?queue = "queue @ map (\<lambda>d. i) missing"
  let ?it = "order_iterations st + 1"
  let ?red = "if length ?queue < last_index_length st then int ?it else last_index_reduction st"
  have fits: "int ?it \<le> ?red + int ?n"
  proof (cases "missing = []")
    case True
    then have "length ?queue < last_index_length st" using len q by simp
    then show ?thesis by simp
  next
    case False
    with none have "Suc j < ?n" by (meson not_le)
    with it red show ?thesis by auto
  qed
  have returns: "\<exists>st'. resolve_index props deps i queue st = Inr st'"
    using ds fits by (auto simp: resolve_index_def Let_def missing_def [symmetric])
  then obtain st' where step: "resolve_index props deps i queue st = Inr st'" by blast
  from step obtain ds' where ds': "map_of deps (name_at props i) = Some ds'"
    and r': "resolved_parameters st' = ?r @ [name_at props i]" and it': "order_iterations st' = ?it"
    and q': "index_to_resolve st' = queue @ map (\<lambda>d. i) (missing_dependencies ?r ds')"
    and rest: "if ds' = [] then last_index_length st' = last_index_length st
           \<and> last_index_reduction st' = last_index_reduction st
         else last_index_length st' = length (index_to_resolve st')
           \<and> last_index_reduction st' = (if length (index_to_resolve st') < last_index_length st
                then int (order_iterations st') else last_index_reduction st)
           \<and> int (order_iterations st') \<le> last_index_reduction st' + int ?n"
    by (rule resolve_index_state)
  have "ds' = ds" using ds ds' by simp
  have red': "- 1 \<le> last_index_reduction st'" using rest red by (auto split: if_splits)
  have len': "length (index_to_resolve st') \<le> last_index_length st'"
  proof (cases "ds' = []")
    case True
    then have "index_to_resolve st' = queue" using q' by (simp add: missing_dependencies_def)
    with True rest len q show ?thesis by simp
  qed (use rest in simp)
  define j' where "j' = (if j < ?n then Suc j else j)"
  define extra' where "extra' = (if j < ?n then extra else queue) @ map (\<lambda>d. i) missing"
  have "j' \<le> ?n" using j(1) by (simp add: j'_def)
  moreover have "index_to_resolve st' = [j'..<?n] @ extra'"
    using first j(1) q' by (simp add: j'_def extra'_def missing_def \<open>ds' = ds\<close>)
  moreover have "set extra' \<subseteq> {..<?n}"
    using j(1,3) later i by (cases "j < ?n") (auto simp: extra'_def)
  moreover have "name_at props ` {..<j'} \<subseteq> set (resolved_parameters st')"
    using names first unfolding r' j'_def by (auto simp: lessThan_Suc)
  moreover have "j' < ?n \<longrightarrow> order_iterations st' = j'" using it it' j(1) by (auto simp: j'_def)
  ultimately have "pass_inv props st'" using red' len' unfolding pass_inv_def by blast
  with step show ?thesis by blast
qed

lemma resolve_order_returns:
  assumes "\<And>i. i < length props \<Longrightarrow> map_of deps (name_at props i) \<noteq> None
      \<and> level_dependencies props deps i \<subseteq> property_name ` set props - {name_at props i}"
    and "pass_inv props st"
  shows "\<exists>order. resolve_order props deps st = Inr order"
  using assms
proof (induction props deps st rule: resolve_order.induct)
  case (1 props deps st)
  show ?case
  proof (cases "index_to_resolve st")
    case Nil
    then show ?thesis by (simp add: resolve_order.simps [of props deps st])
  next
    case (Cons i queue)
    from pass_step [OF 1(2,3) Cons] obtain st' where step: "resolve_index props deps i queue st = Inr st'"
      and inv: "pass_inv props st'" by blast
    from 1(1) [OF Cons step 1(2) inv] step Cons show ?thesis by (simp add: resolve_order.simps [of props deps st])
  qed
qed

lemma pass_inv_initial: "pass_inv props (initial_order (length props))"
  unfolding pass_inv_def initial_order_def by (auto intro: exI [of _ 0])

lemma resolve_order_error:
  assumes "order_inv props deps st" and "resolve_order props deps st = Inl error"
    and "\<And>i. i < length props \<Longrightarrow> map_of deps (name_at props i) \<noteq> None"
  shows "error = MaxIterationsReached"
  using assms
proof (induction props deps st rule: resolve_order.induct)
  case (1 props deps st)
  show ?case
  proof (cases "index_to_resolve st")
    case Nil
    with 1(3) show ?thesis by (simp add: resolve_order.simps [of props deps st])
  next
    case (Cons i queue)
    with 1(2) have "i < length props" by (auto simp: order_inv_def)
    with 1(4) obtain ds where ds: "map_of deps (name_at props i) = Some ds" by blast
    show ?thesis
    proof (cases "resolve_index props deps i queue st")
      case (Inl e)
      with ds have "e = MaxIterationsReached" by (auto simp: resolve_index_def Let_def split: if_splits)
      with 1(3) Cons Inl show ?thesis by (simp add: resolve_order.simps [of props deps st])
    next
      case (Inr st')
      with 1(3) Cons have "resolve_order props deps st' = Inl error"
        by (simp add: resolve_order.simps [of props deps st])
      from 1(1) [OF Cons Inr order_inv_step [OF 1(2) Cons Inr] this 1(4)] show ?thesis .
    qed
  qed
qed

section \<open>The dependencies\<close>

lemma dependencies_of_properties:
  "map_of (getParameterDependencies props) n \<noteq> None \<longleftrightarrow> n \<in> property_name ` set props"
proof -
  have one: "map_of (add_dependency name p m) n \<noteq> None \<longleftrightarrow> n = name \<or> map_of m n \<noteq> None"
    if "map_of m name \<noteq> None" for name p m
    using that by (auto simp: add_dependency_def Let_def)
  have keys: "map_of (fold (add_dependency name) ps m) n \<noteq> None \<longleftrightarrow> map_of m n \<noteq> None"
    "map_of (fold (add_dependency name) ps m) name \<noteq> None"
    if "map_of m name \<noteq> None" for name ps m n
    using that
  proof (induction ps arbitrary: m)
    case (Cons p ps)
    {
      case 1
      with Cons.IH(1) [of "add_dependency name p m"] show ?case
        by (auto simp: add_dependency_def Let_def)
    next
      case 2
      with Cons.IH(2) [of "add_dependency name p m"] show ?case
        by (auto simp: add_dependency_def Let_def)
    }
  qed simp_all
  have rules: "(map_of (fold (\<lambda>r. fold (add_dependency name) (rule_keys r)) rs m) n \<noteq> None \<longleftrightarrow> map_of m n \<noteq> None)
      \<and> map_of (fold (\<lambda>r. fold (add_dependency name) (rule_keys r)) rs m) name \<noteq> None"
    if "map_of m name \<noteq> None" for name rs m n
    using that
  proof (induction rs arbitrary: m)
    case (Cons r rs)
    from keys(2) [OF Cons.prems] have "map_of (fold (add_dependency name) (rule_keys r) m) name \<noteq> None" .
    from Cons.IH [OF this] keys(1) [OF Cons.prems, of "rule_keys r" n] show ?case by simp
  qed simp
  have added: "map_of (add_property p m) n \<noteq> None \<longleftrightarrow> n = property_name p \<or> map_of m n \<noteq> None" for p m n
  proof -
    let ?m = "if map_has m (property_name p) then m else map_set (property_name p) [] m"
    have has: "map_of ?m (property_name p) \<noteq> None" by (simp add: map_has_def)
    have "map_of ?m n \<noteq> None \<longleftrightarrow> n = property_name p \<or> map_of m n \<noteq> None" by (auto simp: map_has_def)
    with rules [OF has, of _ n] show ?thesis
      by (cases "display_options p") (simp_all add: add_property_def Let_def)
  qed
  have "map_of (fold add_property props m) n \<noteq> None \<longleftrightarrow> n \<in> property_name ` set props \<or> map_of m n \<noteq> None" for m
    by (induction props arbitrary: m) (auto simp: added simp del: not_None_eq)
  then show ?thesis by (simp add: getParameterDependencies_def)
qed

section \<open>What is returned\<close>

text \<open>The loop ends. The order that it returns holds exactly the places of the parameters, and
  each of them stands, at least once, behind parameters of all the names that it depends on. No order is
  returned if a parameter depends on an unknown name; an error is thrown only in that case or where a
  parameter depends on its own name.\<close>

lemma getParameterResolveOrder_correct:
  "case getParameterResolveOrder props (getParameterDependencies props) of
      Inl error \<Rightarrow> error = MaxIterationsReached
        \<and> (\<exists>i < length props. unknown_dependency props (getParameterDependencies props) i
             \<or> name_at props i \<in> level_dependencies props (getParameterDependencies props) i)
    | Inr order \<Rightarrow> set order = {..<length props}
        \<and> (\<forall>i < length props. behind_dependencies props (getParameterDependencies props) order i
             \<and> \<not> unknown_dependency props (getParameterDependencies props) i)"
proof -
  let ?deps = "getParameterDependencies props" and ?st = "initial_order (length props)"
  have present: "map_of ?deps (name_at props i) \<noteq> None" if "i < length props" for i
    using dependencies_of_properties [of props "name_at props i"] that by (simp add: name_at_def)
  show ?thesis
  proof (cases "resolve_order props ?deps ?st")
    case (Inr order)
    have "\<not> unknown_dependency props ?deps i" if "i < length props" for i
      using unknown_dependency_no_order [OF order_inv_initial that] Inr by blast
    with resolve_order_inv [OF order_inv_initial Inr] Inr show ?thesis
      by (simp add: getParameterResolveOrder_def)
  next
    case (Inl error)
    have "\<exists>i < length props. unknown_dependency props ?deps i \<or> name_at props i \<in> level_dependencies props ?deps i"
    proof (rule ccontr)
      assume none: "\<not> ?thesis"
      have "\<exists>order. resolve_order props ?deps ?st = Inr order"
      proof (rule resolve_order_returns [OF _ pass_inv_initial])
        fix i assume i: "i < length props"
        with none have "level_dependencies props ?deps i \<subseteq> property_name ` set props - {name_at props i}"
          unfolding unknown_dependency_def by blast
        with present [OF i] show "map_of ?deps (name_at props i) \<noteq> None
            \<and> level_dependencies props ?deps i \<subseteq> property_name ` set props - {name_at props i}" by blast
      qed
      with Inl show False by simp
    qed
    moreover have "error = MaxIterationsReached"
      using resolve_order_error [OF order_inv_initial Inl] present by blast
    ultimately show ?thesis using Inl by (simp add: getParameterResolveOrder_def)
  qed
qed

definition shown_for :: "string \<Rightarrow> string \<Rightarrow> node_property" where
  "shown_for name other = \<lparr>property_name = name,
     display_options = Some [(''show'', JObj [(other, JArr [JBool True]), (''@version'', JArr [JNum 1])])]\<rparr>"

definition shown_always :: "string \<Rightarrow> node_property" where
  "shown_always name = \<lparr>property_name = name, display_options = None\<rparr>"

lemma getParameterResolveOrder_correct_example:
  "behind_dependencies [shown_for ''a'' ''b'', shown_always ''b'']
     (getParameterDependencies [shown_for ''a'' ''b'', shown_always ''b'']) [0, 1, 0] 0"
proof -
  let ?props = "[shown_for ''a'' ''b'', shown_always ''b'']"
  have "getParameterResolveOrder ?props (getParameterDependencies ?props) = Inr [0, 1, 0]" by code_simp
  with getParameterResolveOrder_correct [of ?props] show ?thesis by simp
qed

section \<open>Findings\<close>

text \<open>The \<open>continue\<close> for a missing dependency is that of the inner loop: the parameter is put back
  and added to the order all the same, before what it depends on.\<close>

lemma added_before_its_dependency:
  "getParameterResolveOrder [shown_for ''a'' ''b'', shown_always ''b'']
     (getParameterDependencies [shown_for ''a'' ''b'', shown_always ''b'']) = Inr [0, 1, 0]"
  by code_simp

text \<open>As its name then counts as resolved, a parameter that depends on itself is resolved if another
  stands behind it, and so are two that depend on each other.\<close>

lemma cycles_are_resolved:
  "getParameterResolveOrder [shown_for ''a'' ''b'', shown_for ''b'' ''a'']
     (getParameterDependencies [shown_for ''a'' ''b'', shown_for ''b'' ''a'']) = Inr [0, 1, 0]"
  "getParameterResolveOrder [shown_for ''a'' ''a'']
     (getParameterDependencies [shown_for ''a'' ''a'']) = Inl MaxIterationsReached"
  by code_simp+

end
