(* ===== verification/Machines.thy ===== *)
theory Machines
  imports Prelude
begin

text \<open>
  State machines driven by calls. A component whose state its callers change through its operations
  is given by a guard \<open>ok\<close>, the calls its callers may make in a state, and by \<open>exec\<close>, what a call
  does and the outputs it emits. The interfaces \<open>invariant_machine\<close> and \<open>refinement_machine\<close> carry an
  invariant and an abstract specification from single calls to runs; each stateful component
  interprets them on its own operations.
\<close>

inductive runs ::
  "('c \<Rightarrow> 's \<Rightarrow> bool) \<Rightarrow> ('c \<Rightarrow> 's \<Rightarrow> 's \<times> 'o list) \<Rightarrow> 's \<Rightarrow> 'c list \<Rightarrow> 'o list \<Rightarrow> 's \<Rightarrow> bool"
  for ok :: "'c \<Rightarrow> 's \<Rightarrow> bool" and exec :: "'c \<Rightarrow> 's \<Rightarrow> 's \<times> 'o list"
  where
    runs_Nil: "runs ok exec s [] [] s"
  | runs_snoc: "runs ok exec s cs os s' \<Longrightarrow> ok c s' \<Longrightarrow> exec c s' = (s'', os') \<Longrightarrow>
       runs ok exec s (cs @ [c]) (os @ os') s''"

inductive_simps runs_Nil_iff [simp]: "runs ok exec s [] os s'"

lemma runs_append:
  assumes "runs ok exec t cs' os' u" and "runs ok exec s cs os t"
  shows "runs ok exec s (cs @ cs') (os @ os') u"
  using assms
proof (induction rule: runs.induct)
  case (runs_snoc t cs' os' s' c s'' os'')
  from runs_snoc.IH [OF runs_snoc.prems] runs_snoc.hyps(2,3)
  have "runs ok exec s ((cs @ cs') @ [c]) ((os @ os') @ os'') s''" by (rule runs.runs_snoc)
  then show ?case by simp
qed simp

text \<open>The same by recursion, to evaluate runs.\<close>

fun run_all ::
  "('c \<Rightarrow> 's \<Rightarrow> bool) \<Rightarrow> ('c \<Rightarrow> 's \<Rightarrow> 's \<times> 'o list) \<Rightarrow> 'c list \<Rightarrow> 's \<Rightarrow> ('s \<times> 'o list) option" where
  "run_all ok exec [] s = Some (s, [])"
| "run_all ok exec (c # cs) s =
     (if ok c s
      then let (s', os) = exec c s
           in map_option (\<lambda>(s'', os'). (s'', os @ os')) (run_all ok exec cs s')
      else None)"

lemma run_all_runs: "run_all ok exec cs s = Some (s', os) \<Longrightarrow> runs ok exec s cs os s'"
proof (induction cs arbitrary: s os)
  case (Cons c cs)
  obtain t o1 where t: "exec c s = (t, o1)" by (cases "exec c s")
  with Cons.prems obtain o2 where ok: "ok c s" and run: "run_all ok exec cs t = Some (s', o2)"
    and os: "os = o1 @ o2"
    by (auto split: if_splits)
  have "runs ok exec s ([] @ [c]) ([] @ o1) t" using runs_Nil ok t by (rule runs_snoc)
  from runs_append [OF Cons.IH [OF run] this] show ?case by (simp add: os)
qed (simp add: runs_Nil)

text \<open>What a component that keeps an invariant promises.\<close>

locale invariant_machine =
  fixes ok :: "'c \<Rightarrow> 's \<Rightarrow> bool"
    and exec :: "'c \<Rightarrow> 's \<Rightarrow> 's \<times> 'o list"
    and I :: "'s \<Rightarrow> bool"
  assumes preserved: "I s \<Longrightarrow> ok c s \<Longrightarrow> I (fst (exec c s))"
begin

lemma invariant: "runs ok exec s cs os s' \<Longrightarrow> I s \<Longrightarrow> I s'"
  by (induction rule: runs.induct) (metis fst_conv preserved)+

text \<open>A measure that a call raises by at most its cost is bounded by the cost of the run.\<close>

lemma bounded:
  fixes m :: "'s \<Rightarrow> nat"
  assumes grows: "\<And>s c. I s \<Longrightarrow> ok c s \<Longrightarrow> m (fst (exec c s)) \<le> max b (m s) + cost c"
    and run: "runs ok exec s cs os s'" and "I s" and "m s \<le> b"
  shows "m s' \<le> b + sum_list (map cost cs)"
  using run assms(3,4)
proof (induction rule: runs.induct)
  case (runs_snoc s cs os s' c s'' os')
  have "I s'" using runs_snoc.hyps(1) runs_snoc.prems(1) by (rule invariant)
  from grows [OF this runs_snoc.hyps(2)] runs_snoc show ?case by (simp add: max_def split: if_splits)
qed simp

text \<open>The same when the outputs of a call pay for what it adds.\<close>

lemma bounded_by_outputs:
  fixes m :: "'s \<Rightarrow> nat"
  assumes grows: "\<And>s c. I s \<Longrightarrow> ok c s \<Longrightarrow> m (fst (exec c s)) \<le> max b (m s) + length (snd (exec c s))"
    and run: "runs ok exec s cs os s'" and "I s" and "m s \<le> b"
  shows "m s' \<le> b + length os"
  using run assms(3,4)
proof (induction rule: runs.induct)
  case (runs_snoc s cs os s' c s'' os')
  have "I s'" using runs_snoc.hyps(1) runs_snoc.prems(1) by (rule invariant)
  from grows [OF this runs_snoc.hyps(2)] runs_snoc show ?case by (simp add: max_def split: if_splits)
qed simp

end

text \<open>A component that implements a specification on the states an abstraction function gives.\<close>

locale refinement_machine = invariant_machine ok exec I
  for ok :: "'c \<Rightarrow> 's \<Rightarrow> bool" and exec :: "'c \<Rightarrow> 's \<Rightarrow> 's \<times> 'o list" and I :: "'s \<Rightarrow> bool" +
  fixes abstract :: "'s \<Rightarrow> 'a" and spec :: "'c \<Rightarrow> 'a \<Rightarrow> 'a"
  assumes simulates: "I s \<Longrightarrow> ok c s \<Longrightarrow> abstract (fst (exec c s)) = spec c (abstract s)"
begin

lemma refines: "runs ok exec s cs os s' \<Longrightarrow> I s \<Longrightarrow> abstract s' = fold spec cs (abstract s)"
proof (induction rule: runs.induct)
  case (runs_snoc s cs os s' c s'' os')
  have "I s'" using runs_snoc.hyps(1) runs_snoc.prems by (rule invariant)
  from simulates [OF this runs_snoc.hyps(2)] runs_snoc show ?case by simp
qed simp

end

end
