(* ===== verification/Concurrency_Queue.thy ===== *)
theory Concurrency_Queue
  imports Machines
begin

text \<open>
  \<open>packages/cli/src/concurrency/concurrency-queue.ts\<close>: the queue that holds back executions above a
  concurrency limit. The promise of a queued execution is its entry in the queue: it is resolved
  when the entry's \<open>ExecutionReleased\<close> event is emitted and never otherwise. The capacity check is
  emitted behind a debounce timer, whose pending payload is part of the state.

  The theory goes on to the limiter as a system: the executions that hold a slot beside the queue,
  the calls that the rest of the program makes, and the abstract limiter that the queue implements.
\<close>

section \<open>The code\<close>

record concurrency_queue =
  queue :: "string list"
  capacity :: int
  pending_check :: "int option"

datatype queue_event =
    ConcurrencyCheck int
  | ExecutionThrottled string
  | ExecutionReleased string

definition new_queue :: "int \<Rightarrow> concurrency_queue" where
  "new_queue c = \<lparr>queue = [], capacity = c, pending_check = None\<rparr>"

text \<open>The last component tells whether the caller has to wait for its release.\<close>

definition enqueue ::
  "string \<Rightarrow> concurrency_queue \<Rightarrow> concurrency_queue \<times> queue_event list \<times> bool" where
  "enqueue executionId q =
     (let q = q\<lparr>capacity := capacity q - 1\<rparr>;
          q = q\<lparr>pending_check := Some (capacity q)\<rparr>
      in if capacity q < 0
         then (q\<lparr>queue := queue q @ [executionId]\<rparr>, [ExecutionThrottled executionId], True)
         else (q, [], False))"

definition resolveNext :: "concurrency_queue \<Rightarrow> concurrency_queue \<times> queue_event list" where
  "resolveNext q =
     (case queue q of
        [] \<Rightarrow> (q, [])
      | item # rest \<Rightarrow> (q\<lparr>queue := rest\<rparr>, [ExecutionReleased item]))"

definition dequeue :: "concurrency_queue \<Rightarrow> concurrency_queue \<times> queue_event list" where
  "dequeue q = resolveNext (q\<lparr>capacity := capacity q + 1\<rparr>)"

definition queue_remove :: "string \<Rightarrow> concurrency_queue \<Rightarrow> concurrency_queue \<times> queue_event list" where
  "queue_remove executionId q =
     (case find_index (\<lambda>item. item = executionId) (queue q) of
        Some index \<Rightarrow>
          resolveNext (q\<lparr>queue := splice1 index (queue q), capacity := capacity q + 1\<rparr>)
      | None \<Rightarrow> (q, []))"

definition getAll :: "concurrency_queue \<Rightarrow> string list" where
  "getAll q = set_from (queue q)"

definition queue_has :: "string \<Rightarrow> concurrency_queue \<Rightarrow> bool" where
  "queue_has executionId q \<longleftrightarrow> list_ex (\<lambda>item. item = executionId) (queue q)"

text \<open>\<open>debouncedEmit\<close>: the timer fires and emits the last payload.\<close>

definition fire_check :: "concurrency_queue \<Rightarrow> concurrency_queue \<times> queue_event list" where
  "fire_check q =
     (q\<lparr>pending_check := None\<rparr>, case pending_check q of Some c \<Rightarrow> [ConcurrencyCheck c] | None \<Rightarrow> [])"

lemma splice1_remove1:
  "find_index (\<lambda>y. y = x) xs = (if x \<in> set xs then Some (length (takeWhile (\<lambda>y. y \<noteq> x) xs)) else None)"
  by (induction xs) auto

lemma splice1_first: "x \<in> set xs \<Longrightarrow> splice1 (length (takeWhile (\<lambda>y. y \<noteq> x) xs)) xs = remove1 x xs"
  by (induction xs) (auto simp: splice1_def)

text \<open>The operations in closed form.\<close>

lemma queue_remove_eq:
  "queue_remove x q = (if x \<in> set (queue q)
     then resolveNext (q\<lparr>queue := remove1 x (queue q), capacity := capacity q + 1\<rparr>) else (q, []))"
  by (simp add: queue_remove_def splice1_remove1 splice1_first)

lemma resolveNext_eq:
  "resolveNext q = (q\<lparr>queue := tl (queue q)\<rparr>, map ExecutionReleased (take 1 (queue q)))"
  by (cases "queue q") (auto simp: resolveNext_def)

lemma queue_has_iff: "queue_has x q \<longleftrightarrow> x \<in> set (queue q)"
  by (auto simp: queue_has_def list_ex_iff)

section \<open>The limiter and its callers\<close>

text \<open>An execution asks for a slot, gives it back, or is cancelled while it waits. \<open>running\<close>
  collects the executions whose \<open>enqueue\<close> has returned and that have not given their slot back.\<close>

datatype call = Throttle string | Release string | Cancel string

record limiter =
  limiter_queue :: concurrency_queue
  running :: "string list"

definition released :: "queue_event list \<Rightarrow> string list" where
  "released es = concat (map (\<lambda>e. case e of ExecutionReleased x \<Rightarrow> [x] | _ \<Rightarrow> []) es)"

fun run_call :: "call \<Rightarrow> limiter \<Rightarrow> limiter \<times> queue_event list" where
  "run_call (Throttle x) s =
     (let (q, es, waits) = enqueue x (limiter_queue s)
      in (s\<lparr>limiter_queue := q, running := running s @ (if waits then [] else [x])\<rparr>, es))"
| "run_call (Release x) s =
     (let (q, es) = dequeue (limiter_queue s)
      in (s\<lparr>limiter_queue := q, running := remove1 x (running s) @ released es\<rparr>, es))"
| "run_call (Cancel x) s =
     (let (q, es) = queue_remove x (limiter_queue s)
      in (s\<lparr>limiter_queue := q, running := running s @ released es\<rparr>, es))"

text \<open>A slot is only given back by an execution that holds one.\<close>

fun call_ok :: "call \<Rightarrow> limiter \<Rightarrow> bool" where
  "call_ok (Release x) s \<longleftrightarrow> x \<in> set (running s)"
| "call_ok _ s \<longleftrightarrow> True"

definition new_limiter :: "nat \<Rightarrow> limiter" where
  "new_limiter limit = \<lparr>limiter_queue = new_queue (int limit), running = []\<rparr>"

abbreviation limiter_runs :: "limiter \<Rightarrow> call list \<Rightarrow> queue_event list \<Rightarrow> limiter \<Rightarrow> bool" where
  "limiter_runs \<equiv> runs call_ok run_call"

section \<open>Invariants\<close>

text \<open>The capacity accounts for every execution that runs or waits, and none waits while a slot
  is free.\<close>

definition limiter_inv :: "nat \<Rightarrow> limiter \<Rightarrow> bool" where
  "limiter_inv limit s \<longleftrightarrow>
     capacity (limiter_queue s) = int limit - int (length (running s)) - int (length (queue (limiter_queue s)))
     \<and> (queue (limiter_queue s) \<noteq> [] \<longrightarrow> limit \<le> length (running s))"

lemma released_map [simp]: "released (map ExecutionReleased xs) = xs"
  by (induction xs) (auto simp: released_def)

lemma released_append [simp]: "released (es @ es') = released es @ released es'"
  by (simp add: released_def)

lemma released_simps [simp]:
  "released [] = []" "released (ExecutionReleased x # es) = x # released es"
  "released (ExecutionThrottled x # es) = released es"
  by (simp_all add: released_def)

lemma inv_new: "limiter_inv limit (new_limiter limit)"
  by (simp add: limiter_inv_def new_limiter_def new_queue_def)

lemmas queue_ops = enqueue_def dequeue_def queue_remove_eq resolveNext_eq Let_def

lemma inv_run_call:
  assumes "limiter_inv limit s" and "call_ok c s"
  shows "limiter_inv limit (fst (run_call c s))"
proof (cases c)
  case (Throttle x)
  with assms show ?thesis by (auto simp: limiter_inv_def queue_ops)
next
  case (Release x)
  with assms(2) have "0 < length (running s)" by (auto intro: length_pos_if_in_set)
  then have "Suc 0 \<le> length (running s)" by (rule Suc_leI)
  with assms Release show ?thesis
    by (cases "queue (limiter_queue s)") (auto simp: limiter_inv_def queue_ops length_remove1 of_nat_diff)
next
  case (Cancel x)
  show ?thesis
  proof (cases "x \<in> set (queue (limiter_queue s))")
    case True
    let ?rest = "remove1 x (queue (limiter_queue s))"
    obtain n where n: "length (queue (limiter_queue s)) = Suc n"
      using True by (cases "queue (limiter_queue s)") auto
    with True have "length ?rest = n" by (simp add: length_remove1)
    with n True assms Cancel show ?thesis
      by (cases ?rest) (auto simp: limiter_inv_def queue_ops)
  qed (use assms Cancel in \<open>simp add: queue_ops\<close>)
qed

interpretation lim: invariant_machine call_ok run_call "limiter_inv limit" for limit
  by unfold_locales (rule inv_run_call)

text \<open>At most one execution per cancelled one runs above the limit.\<close>

definition is_cancel :: "call \<Rightarrow> bool" where
  "is_cancel c \<longleftrightarrow> (case c of Cancel _ \<Rightarrow> True | _ \<Rightarrow> False)"

lemma running_run_call:
  assumes "limiter_inv limit s" and "call_ok c s"
    and "length (running s) \<le> limit + k"
  shows "length (running (fst (run_call c s))) \<le> limit + k + (if is_cancel c then 1 else 0)"
proof (cases c)
  case (Throttle x)
  with assms show ?thesis by (auto simp: limiter_inv_def queue_ops)
next
  case (Release x)
  with assms(2) have "0 < length (running s)" by (auto intro: length_pos_if_in_set)
  moreover have "length (running (fst (run_call c s))) \<le> length (running s) - 1 + 1"
    using Release assms(2) by (simp add: queue_ops length_remove1)
  ultimately show ?thesis using assms(3) Release by (simp add: is_cancel_def)
next
  case (Cancel x)
  with assms show ?thesis by (auto simp: queue_ops is_cancel_def)
qed

lemma running_runs:
  assumes "limiter_runs s cs es s'" and "limiter_inv limit s" and "length (running s) \<le> limit"
  shows "length (running s') \<le> limit + length (filter is_cancel cs)"
proof -
  have "length (running s') \<le> limit + sum_list (map (\<lambda>c. if is_cancel c then 1 else 0) cs)"
  proof (rule lim.bounded [where m = "\<lambda>s. length (running s)", OF _ assms])
    fix s c assume "limiter_inv limit s" "call_ok c s"
    have "length (running s) \<le> limit + (length (running s) - limit)" by simp
    from running_run_call [OF \<open>limiter_inv limit s\<close> \<open>call_ok c s\<close> this]
    show "length (running (fst (run_call c s)))
        \<le> max limit (length (running s)) + (if is_cancel c then 1 else 0)"
      by (metis le_add_diff_inverse max.absorb1 max.absorb2 nat_le_linear add_0_right diff_is_0_eq)
  qed
  also have "sum_list (map (\<lambda>c. if is_cancel c then 1 else 0) cs) = length (filter is_cancel cs)"
    by (induction cs) auto
  finally show ?thesis .
qed

text \<open>The waiting executions that are taken out when the executions \<open>is\<close> are removed in turn.\<close>

fun taken_out :: "string list \<Rightarrow> concurrency_queue \<Rightarrow> string list" where
  "taken_out [] q = []"
| "taken_out (i # is) q =
     (if queue_has i q then [i] else []) @ taken_out is (fst (queue_remove i q))"

abbreviation cancel_all :: "string list \<Rightarrow> limiter \<Rightarrow> limiter" where
  "cancel_all \<equiv> fold (\<lambda>i s. fst (run_call (Cancel i) s))"

lemma inv_cancel_all: "limiter_inv limit s \<Longrightarrow> limiter_inv limit (cancel_all xs s)"
  by (induction xs arbitrary: s) (simp_all add: inv_run_call del: run_call.simps)

lemma running_cancel:
  "length (running (fst (run_call (Cancel x) s)))
     \<le> length (running s) + length (taken_out [x] (limiter_queue s))"
  by (auto simp: queue_ops queue_has_iff)

lemma running_cancel_all:
  "length (running (cancel_all xs s)) \<le> length (running s) + length (taken_out xs (limiter_queue s))"
proof (induction xs arbitrary: s)
  case (Cons x xs)
  have "limiter_queue (fst (run_call (Cancel x) s)) = fst (queue_remove x (limiter_queue s))"
    by (simp add: split_beta)
  with Cons.IH [of "fst (run_call (Cancel x) s)"] running_cancel [of x s] show ?case
    by (simp del: run_call.simps)
qed simp

section \<open>The limiter that the queue implements\<close>

text \<open>Executions run while there are fewer than \<open>limit\<close>; the others wait, first come first served,
  and one that is cancelled leaves the line.\<close>

type_synonym line = "string list \<times> string list"

definition admit :: "nat \<Rightarrow> line \<Rightarrow> line" where
  "admit limit = (\<lambda>(run, wait).
     if length run < limit then (run @ take 1 wait, drop 1 wait) else (run, wait))"

fun line_call :: "nat \<Rightarrow> call \<Rightarrow> line \<Rightarrow> line" where
  "line_call limit (Throttle x) (run, wait) = admit limit (run, wait @ [x])"
| "line_call limit (Release x) (run, wait) = admit limit (remove1 x run, wait)"
| "line_call limit (Cancel x) (run, wait) = admit limit (run, remove1 x wait)"

definition line_of :: "limiter \<Rightarrow> line" where
  "line_of s = (running s, queue (limiter_queue s))"

definition uncancelled_ok :: "call \<Rightarrow> limiter \<Rightarrow> bool" where
  "uncancelled_ok c s \<longleftrightarrow> call_ok c s \<and> \<not> is_cancel c"

definition within_limit :: "nat \<Rightarrow> limiter \<Rightarrow> bool" where
  "within_limit limit s \<longleftrightarrow> limiter_inv limit s \<and> length (running s) \<le> limit"

lemma within_run_call:
  assumes "within_limit limit s" and "uncancelled_ok c s"
  shows "within_limit limit (fst (run_call c s))"
  using assms running_run_call [of limit s c 0] inv_run_call [of limit s c]
  by (auto simp: within_limit_def uncancelled_ok_def)

lemma simulates_line:
  assumes "within_limit limit s" and "uncancelled_ok c s"
  shows "line_of (fst (run_call c s)) = line_call limit c (line_of s)"
proof (cases c)
  case (Throttle x)
  show ?thesis
  proof (cases "queue (limiter_queue s)")
    case Nil
    with Throttle assms show ?thesis
      by (auto simp: within_limit_def limiter_inv_def line_of_def admit_def queue_ops)
  next
    case (Cons y ys)
    with Throttle assms show ?thesis
      by (auto simp: within_limit_def limiter_inv_def line_of_def admit_def queue_ops)
  qed
next
  case (Release x)
  with assms(2) have x: "x \<in> set (running s)" by (simp add: uncancelled_ok_def)
  then have "length (remove1 x (running s)) < length (running s)"
    using length_pos_if_in_set [OF x] by (simp add: length_remove1)
  with assms(1) have "length (remove1 x (running s)) < limit" by (simp add: within_limit_def)
  with Release show ?thesis by (simp add: line_of_def admit_def queue_ops drop_Suc)
next
  case (Cancel x)
  with assms(2) show ?thesis by (simp add: uncancelled_ok_def is_cancel_def)
qed

interpretation line: refinement_machine uncancelled_ok run_call "within_limit limit" line_of "line_call limit"
  for limit by unfold_locales (rule within_run_call, assumption+, rule simulates_line, assumption+)

section \<open>Who is released\<close>

lemma queue_run_call:
  "queue (limiter_queue (fst (run_call (Release x) s))) = tl (queue (limiter_queue s))
   \<and> released (snd (run_call (Release x) s)) = take 1 (queue (limiter_queue s))"
  by (simp add: queue_ops)

definition is_release :: "call \<Rightarrow> bool" where
  "is_release c \<longleftrightarrow> (case c of Release _ \<Rightarrow> True | _ \<Rightarrow> False)"

text \<open>A waiting execution moves up with every release and keeps its place otherwise.\<close>

lemma moves_up:
  assumes "i < length (queue (limiter_queue s))" and "queue (limiter_queue s) ! i = x" and "\<not> is_cancel c"
  shows "let s' = fst (run_call c s) in
     if is_release c
     then (if i = 0 then x \<in> set (released (snd (run_call c s)))
           else i - 1 < length (queue (limiter_queue s')) \<and> queue (limiter_queue s') ! (i - 1) = x)
     else i < length (queue (limiter_queue s')) \<and> queue (limiter_queue s') ! i = x"
proof (cases c)
  case (Throttle y)
  with assms show ?thesis by (simp add: queue_ops is_release_def nth_append)
next
  case (Release y)
  with assms show ?thesis
    by (cases "queue (limiter_queue s)") (auto simp: queue_ops is_release_def nth_Cons')
next
  case (Cancel y)
  with assms(3) show ?thesis by (simp add: is_cancel_def)
qed

lemma released_eventually:
  assumes "limiter_runs s cs es s'" and "i < length (queue (limiter_queue s))"
    and "queue (limiter_queue s) ! i = x" and "filter is_cancel cs = []"
  shows "(let k = length (filter is_release cs) in
     if i < k then x \<in> set (released es)
     else i - k < length (queue (limiter_queue s')) \<and> queue (limiter_queue s') ! (i - k) = x)"
  using assms
proof (induction rule: runs.induct)
  case (runs_snoc s cs es s' c s'' es')
  define k where "k = length (filter is_release cs)"
  from runs_snoc.prems have c: "\<not> is_cancel c" and "filter is_cancel cs = []" by (auto split: if_splits)
  with runs_snoc.IH runs_snoc.prems
  have IH: "if i < k then x \<in> set (released es)
     else i - k < length (queue (limiter_queue s')) \<and> queue (limiter_queue s') ! (i - k) = x"
    by (simp add: Let_def k_def)
  show ?case
  proof (cases "i < k")
    case True
    with IH show ?thesis by (simp add: Let_def k_def)
  next
    case False
    with IH have "i - k < length (queue (limiter_queue s'))" "queue (limiter_queue s') ! (i - k) = x"
      by simp_all
    from moves_up [OF this c] runs_snoc.hyps(3) False show ?thesis
      by (cases "is_release c") (auto simp: Let_def k_def split: if_splits)
  qed
qed (simp add: Let_def)

section \<open>Cancelling\<close>

text \<open>What \<open>remove\<close> does beyond taking its execution out: the next one in line is released as if a
  slot had become free.\<close>

lemma queue_remove_releases:
  assumes "x \<in> set (queue q)"
  shows "queue (fst (queue_remove x q)) = tl (remove1 x (queue q))
   \<and> released (snd (queue_remove x q)) = take 1 (remove1 x (queue q))"
  using assms by (simp add: queue_remove_eq resolveNext_eq)

end
