(* ===== verification/Concurrency_Control.thy ===== *)
theory Concurrency_Control
  imports Concurrency_Queue
begin

text \<open>
  \<open>packages/cli/src/concurrency/concurrency-control.service.ts\<close>, \<open>concurrency-capacity-reservation.ts\<close>
  and \<open>evaluation.ee/evaluation-concurrency.helper.ts\<close>: the service that keeps one queue for
  production and one for evaluation executions. The configuration is fixed, what the license says is
  an argument of every operation that may ask it. An operation that throws keeps the changes it made
  before, so the state is part of the result beside the error. Debug logging is left out.
\<close>

section \<open>Configuration and limits\<close>

datatype execute_mode =
    Mode_cli | Mode_error | Mode_integrated | Mode_internal | Mode_manual | Mode_retry
  | Mode_trigger | Mode_webhook | Mode_evaluation | Mode_chat | Mode_agent

datatype queue_type = Production | Evaluation

datatype concurrency_error =
    InvalidConcurrencyLimit int
  | UnknownExecutionMode execute_mode
  | QueuesUndefined
  | CapacityAlreadyReserved

record concurrency_config =
  queue_mode :: bool
  production_limit :: int
  evaluation_limit :: int
  evaluation_env_set :: bool
  cloud_deployment :: bool

text \<open>\<open>license.getValue\<close> of the quota, \<open>None\<close> where it is not a number, and \<open>license.getPlanName()\<close>.\<close>

record license =
  license_quota :: "int option"
  plan_name :: string

definition EVALUATION_TIER_DEFAULTS :: "(string \<times> int) list" where
  "EVALUATION_TIER_DEFAULTS = [(''Community'', 1), (''Pro'', 1), (''Business'', 3), (''Enterprise'', 5)]"

definition readLicenseQuota :: "license \<Rightarrow> int option" where
  "readLicenseQuota lic =
     (case license_quota lic of
        None \<Rightarrow> None
      | Some raw \<Rightarrow> if raw = 0 then None else Some raw)"

definition resolveEvaluationConcurrencyLimit :: "concurrency_config \<Rightarrow> license \<Rightarrow> int" where
  "resolveEvaluationConcurrencyLimit cfg lic =
     (if evaluation_env_set cfg then evaluation_limit cfg
      else case readLicenseQuota lic of
             Some fromLicense \<Rightarrow> fromLicense
           | None \<Rightarrow> (case map_of EVALUATION_TIER_DEFAULTS (plan_name lic) of
                        Some d \<Rightarrow> d | None \<Rightarrow> 1))"

datatype limit_source = Source_env | Source_license | Source_tier

definition getEvaluationConcurrencyLimitSource :: "concurrency_config \<Rightarrow> license \<Rightarrow> limit_source" where
  "getEvaluationConcurrencyLimitSource cfg lic =
     (if evaluation_env_set cfg then Source_env
      else if readLicenseQuota lic \<noteq> None then Source_license
      else Source_tier)"

definition normaliseLimit :: "int \<Rightarrow> concurrency_error + int" where
  "normaliseLimit limit =
     (if limit = 0 then Inl (InvalidConcurrencyLimit 0)
      else if limit < - 1 then Inr (- 1) else Inr limit)"

section \<open>The service\<close>

text \<open>\<open>queues\<close> is \<open>None\<close> as long as the constructor leaves the field undefined.\<close>

record control =
  is_enabled :: bool
  limits :: "(queue_type \<times> int) list"
  queues :: "(queue_type \<times> concurrency_queue) list option"
  evalQueueResolved :: bool

definition constructControl :: "concurrency_config \<Rightarrow> concurrency_error + control" where
  "constructControl cfg =
     bind_result (normaliseLimit (production_limit cfg)) (\<lambda>normalisedProduction.
     bind_result (normaliseLimit (evaluation_limit cfg)) (\<lambda>normalisedEvaluation.
       let ls = [(Production, normalisedProduction), (Evaluation, normalisedEvaluation)]
       in if queue_mode cfg
          then Inr \<lparr>is_enabled = False, limits = ls, queues = None, evalQueueResolved = False\<rparr>
          else
            let qs = [];
                qs = (if 0 < normalisedProduction
                      then map_set Production (new_queue normalisedProduction) qs else qs);
                qs = (if 0 < normalisedEvaluation
                      then map_set Evaluation (new_queue normalisedEvaluation) qs else qs)
            in Inr \<lparr>is_enabled = 0 < length qs, limits = ls, queues = Some qs,
                    evalQueueResolved = 0 < normalisedEvaluation\<rparr>))"

definition ensureEvalQueueResolved ::
  "concurrency_config \<Rightarrow> license \<Rightarrow> control \<Rightarrow> control \<times> concurrency_error option" where
  "ensureEvalQueueResolved cfg lic c =
     (if evalQueueResolved c then (c, None)
      else
        let c = c\<lparr>evalQueueResolved := True\<rparr>
        in if queue_mode cfg then (c, None)
           else case normaliseLimit (resolveEvaluationConcurrencyLimit cfg lic) of
                  Inl e \<Rightarrow> (c, Some e)
                | Inr normalised \<Rightarrow>
                    let c = c\<lparr>limits := map_set Evaluation normalised (limits c)\<rparr>
                    in if 0 < normalised
                       then case queues c of
                              None \<Rightarrow> (c, Some QueuesUndefined)
                            | Some qs \<Rightarrow>
                                (c\<lparr>queues := Some (map_set Evaluation (new_queue normalised) qs),
                                   is_enabled := True\<rparr>, None)
                       else (c, None))"

definition queues_get :: "queue_type \<Rightarrow> control \<Rightarrow> concurrency_error + concurrency_queue option" where
  "queues_get type c = (case queues c of None \<Rightarrow> Inl QueuesUndefined | Some qs \<Rightarrow> Inr (map_of qs type))"

fun queue_type_of :: "execute_mode \<Rightarrow> queue_type option" where
  "queue_type_of Mode_webhook = Some Production"
| "queue_type_of Mode_trigger = Some Production"
| "queue_type_of Mode_chat = Some Production"
| "queue_type_of Mode_evaluation = Some Evaluation"
| "queue_type_of _ = None"

definition getQueue :: "execute_mode \<Rightarrow> control \<Rightarrow> concurrency_error + concurrency_queue option" where
  "getQueue mode c =
     (if mode = Mode_error \<or> mode = Mode_integrated \<or> mode = Mode_cli \<or> mode = Mode_internal
         \<or> mode = Mode_manual \<or> mode = Mode_retry
      then Inr None
      else if mode = Mode_webhook \<or> mode = Mode_trigger \<or> mode = Mode_chat
      then queues_get Production c
      else if mode = Mode_evaluation then queues_get Evaluation c
      else Inl (UnknownExecutionMode mode))"

definition isUnlimited :: "execute_mode \<Rightarrow> control \<Rightarrow> concurrency_error + bool" where
  "isUnlimited mode c = bind_result (getQueue mode c) (\<lambda>q. Inr (q = None))"

text \<open>The queue that \<open>getQueue\<close> returned has changed: it is the object in \<open>queues\<close>.\<close>

definition put_queue :: "execute_mode \<Rightarrow> concurrency_queue \<Rightarrow> control \<Rightarrow> control" where
  "put_queue mode q c =
     (case (queue_type_of mode, queues c) of
        (Some type, Some qs) \<Rightarrow> c\<lparr>queues := Some (map_set type q qs)\<rparr>
      | _ \<Rightarrow> c)"

text \<open>How \<open>throttle\<close>, \<open>release\<close> and \<open>remove\<close> reach the queue of a mode.\<close>

definition on_queue ::
  "concurrency_config \<Rightarrow> license \<Rightarrow> execute_mode
   \<Rightarrow> (concurrency_queue \<Rightarrow> concurrency_queue \<times> 'r) \<Rightarrow> 'r \<Rightarrow> control
   \<Rightarrow> control \<times> (concurrency_error + 'r)" where
  "on_queue cfg lic mode operation skip c =
     (case (if mode = Mode_evaluation then ensureEvalQueueResolved cfg lic c else (c, None)) of
        (c, Some e) \<Rightarrow> (c, Inl e)
      | (c, None) \<Rightarrow>
          if \<not> is_enabled c then (c, Inr skip)
          else case isUnlimited mode c of
                 Inl e \<Rightarrow> (c, Inl e)
               | Inr True \<Rightarrow> (c, Inr skip)
               | Inr False \<Rightarrow>
                   (case getQueue mode c of
                      Inl e \<Rightarrow> (c, Inl e)
                    | Inr None \<Rightarrow> (c, Inr skip)
                    | Inr (Some q) \<Rightarrow> (let (q, r) = operation q in (put_queue mode q c, Inr r))))"

definition throttle ::
  "concurrency_config \<Rightarrow> license \<Rightarrow> execute_mode \<Rightarrow> string \<Rightarrow> control
   \<Rightarrow> control \<times> (concurrency_error + queue_event list \<times> bool)" where
  "throttle cfg lic mode executionId c = on_queue cfg lic mode (enqueue executionId) ([], False) c"

definition release ::
  "concurrency_config \<Rightarrow> license \<Rightarrow> execute_mode \<Rightarrow> control
   \<Rightarrow> control \<times> (concurrency_error + queue_event list)" where
  "release cfg lic mode c = on_queue cfg lic mode dequeue [] c"

definition control_remove ::
  "concurrency_config \<Rightarrow> license \<Rightarrow> execute_mode \<Rightarrow> string \<Rightarrow> control
   \<Rightarrow> control \<times> (concurrency_error + queue_event list)" where
  "control_remove cfg lic mode executionId c =
     on_queue cfg lic mode (queue_remove executionId) [] c"

definition control_has :: "string \<Rightarrow> control \<Rightarrow> concurrency_error + bool" where
  "control_has executionId c =
     (if \<not> is_enabled c then Inr False
      else case queues c of
             None \<Rightarrow> Inl QueuesUndefined
           | Some qs \<Rightarrow> Inr (list_ex (\<lambda>(type, q). queue_has executionId q) qs))"

text \<open>Every id that was in the queue at the start is removed, in queue order.\<close>

definition remove_each :: "concurrency_queue \<Rightarrow> concurrency_queue \<times> queue_event list" where
  "remove_each q =
     fold (\<lambda>i (q, es). let (q, es') = queue_remove i q in (q, es @ es')) (getAll q) (q, [])"

text \<open>The last component are the executions that \<open>executionRepository.cancelMany\<close> marks as cancelled.\<close>

definition control_removeAll ::
  "string list \<Rightarrow> control \<Rightarrow> control \<times> (concurrency_error + queue_event list \<times> string list)" where
  "control_removeAll executionIdsToCancel c =
     (if \<not> is_enabled c then (c, Inr ([], []))
      else case queues c of
             None \<Rightarrow> (c, Inl QueuesUndefined)
           | Some qs \<Rightarrow>
               (c\<lparr>queues := Some (map (\<lambda>(type, q). (type, fst (remove_each q))) qs)\<rparr>,
                Inr (concat (map (\<lambda>(type, q). snd (remove_each q)) qs), executionIdsToCancel)))"

definition disable :: "control \<Rightarrow> control" where
  "disable c = c\<lparr>is_enabled := False\<rparr>"

section \<open>Reports\<close>

definition CLOUD_TEMP_PRODUCTION_LIMIT :: int where
  "CLOUD_TEMP_PRODUCTION_LIMIT = 999"

definition CLOUD_TEMP_REPORTABLE_THRESHOLDS :: "int list" where
  "CLOUD_TEMP_REPORTABLE_THRESHOLDS = [5, 10, 20, 50, 100, 200]"

definition limitsToReport :: "int list" where
  "limitsToReport = map (\<lambda>t. CLOUD_TEMP_PRODUCTION_LIMIT - t) CLOUD_TEMP_REPORTABLE_THRESHOLDS"

definition shouldReport :: "concurrency_config \<Rightarrow> int \<Rightarrow> bool" where
  "shouldReport cfg c \<longleftrightarrow> cloud_deployment cfg \<and> c \<in> set limitsToReport"

datatype service_event = HitConcurrencyLimit int queue_type | EmitThrottled string queue_type

definition wireQueue :: "concurrency_config \<Rightarrow> queue_type \<Rightarrow> queue_event \<Rightarrow> service_event list" where
  "wireQueue cfg type e =
     (case e of
        ConcurrencyCheck c \<Rightarrow>
          if shouldReport cfg c then [HitConcurrencyLimit (CLOUD_TEMP_PRODUCTION_LIMIT - c) type] else []
      | ExecutionThrottled executionId \<Rightarrow> [EmitThrottled executionId type]
      | ExecutionReleased _ \<Rightarrow> [])"

section \<open>Reservations\<close>

text \<open>\<open>reserve\<close> waits for \<open>throttle\<close>: the reservation is made when the promise is resolved.\<close>

type_synonym reservation = "(string \<times> execute_mode) option"

definition reserveStart ::
  "concurrency_config \<Rightarrow> license \<Rightarrow> string \<Rightarrow> execute_mode \<Rightarrow> reservation \<Rightarrow> control
   \<Rightarrow> control \<times> (concurrency_error + queue_event list \<times> bool)" where
  "reserveStart cfg lic executionId mode acquiredReservation c =
     (if acquiredReservation \<noteq> None then (c, Inl CapacityAlreadyReserved)
      else throttle cfg lic mode executionId c)"

definition reserveEnd :: "string \<Rightarrow> execute_mode \<Rightarrow> reservation \<Rightarrow> reservation" where
  "reserveEnd executionId mode acquiredReservation = Some (executionId, mode)"

definition releaseReservation ::
  "concurrency_config \<Rightarrow> license \<Rightarrow> reservation \<Rightarrow> control
   \<Rightarrow> reservation \<times> control \<times> (concurrency_error + queue_event list)" where
  "releaseReservation cfg lic acquiredReservation c =
     (case acquiredReservation of
        None \<Rightarrow> (None, c, Inr [])
      | Some (executionId, mode) \<Rightarrow>
          (case release cfg lic mode c of
             (c, Inl e) \<Rightarrow> (acquiredReservation, c, Inl e)
           | (c, Inr es) \<Rightarrow> (None, c, Inr es)))"

section \<open>The queue that an operation reaches\<close>

definition built :: "queue_type \<Rightarrow> control \<Rightarrow> bool" where
  "built t c \<longleftrightarrow> Option.bind (queues c) (\<lambda>qs. map_of qs t) \<noteq> None \<and> (t = Evaluation \<longrightarrow> evalQueueResolved c)"

lemma built_iff:
  "built t c \<longleftrightarrow> (\<exists>qs. queues c = Some qs \<and> map_of qs t \<noteq> None) \<and> (t = Evaluation \<longrightarrow> evalQueueResolved c)"
  by (cases "queues c") (simp_all add: built_def)

text \<open>The queue of evaluations before the first call for one, when no limit for it is configured.\<close>

definition unresolved :: "concurrency_config \<Rightarrow> control \<Rightarrow> bool" where
  "unresolved cfg c \<longleftrightarrow> \<not> evalQueueResolved c \<and> \<not> queue_mode cfg \<and> \<not> 0 < evaluation_limit cfg
     \<and> (\<exists>qs. queues c = Some qs \<and> map_of qs Evaluation = None)"

definition queue_of :: "queue_type \<Rightarrow> control \<Rightarrow> concurrency_queue" where
  "queue_of t c = (case Option.bind (queues c) (\<lambda>qs. map_of qs t) of Some q \<Rightarrow> q | None \<Rightarrow> new_queue 0)"

text \<open>The limit of a type: what is configured, or what the license gives for evaluations.\<close>

definition limit_of :: "concurrency_config \<Rightarrow> license \<Rightarrow> queue_type \<Rightarrow> int" where
  "limit_of cfg lic t =
     (if t = Production then production_limit cfg
      else if 0 < evaluation_limit cfg then evaluation_limit cfg
      else resolveEvaluationConcurrencyLimit cfg lic)"

lemma queue_type_evaluation: "queue_type_of mode = Some Evaluation \<longleftrightarrow> mode = Mode_evaluation"
  by (cases mode) simp_all

lemma getQueue_type:
  "queue_type_of mode = Some t \<Longrightarrow> built t c \<Longrightarrow> getQueue mode c = Inr (Some (queue_of t c))"
  by (cases mode) (auto simp: getQueue_def queues_get_def built_iff queue_of_def)

lemma ensure_resolved: "evalQueueResolved c \<Longrightarrow> ensureEvalQueueResolved cfg lic c = (c, None)"
  by (simp add: ensureEvalQueueResolved_def)

lemma on_queue_same:
  assumes "queue_type_of mode = Some t" and "built t c"
  shows "on_queue cfg lic mode f skip c
    = (if is_enabled c then (put_queue mode (fst (f (queue_of t c))) c, Inr (snd (f (queue_of t c))))
       else (c, Inr skip))"
proof -
  have "(if mode = Mode_evaluation then ensureEvalQueueResolved cfg lic c else (c, None)) = (c, None)"
    using assms by (auto simp: built_iff ensure_resolved)
  then show ?thesis
    using getQueue_type [OF assms] by (simp add: on_queue_def isUnlimited_def split_beta)
qed

lemma built_put_queue:
  assumes "built t c"
  shows "built t (put_queue mode q c)
    \<and> queue_of t (put_queue mode q c) = (if queue_type_of mode = Some t then q else queue_of t c)
    \<and> is_enabled (put_queue mode q c) = is_enabled c"
  using assms by (cases "queue_type_of mode") (auto simp: built_iff put_queue_def queue_of_def)

lemma built_ensure:
  assumes "built t c" and "t \<noteq> Evaluation"
  shows "built t (fst (ensureEvalQueueResolved cfg lic c))
    \<and> queue_of t (fst (ensureEvalQueueResolved cfg lic c)) = queue_of t c"
  using assms by (auto simp: ensureEvalQueueResolved_def built_iff queue_of_def Let_def split: sum.split)

lemma on_queue_other:
  assumes "queue_type_of mode \<noteq> Some t" and "built t c"
  shows "built t (fst (on_queue cfg lic mode f skip c))
    \<and> queue_of t (fst (on_queue cfg lic mode f skip c)) = queue_of t c"
proof -
  obtain c1 e where pre: "(if mode = Mode_evaluation then ensureEvalQueueResolved cfg lic c else (c, None)) = (c1, e)"
    by fastforce
  have c1: "built t c1 \<and> queue_of t c1 = queue_of t c"
  proof (cases "mode = Mode_evaluation")
    case True
    with assms(1) have "t \<noteq> Evaluation" by auto
    from built_ensure [OF assms(2) this, of cfg lic] pre True show ?thesis by simp
  qed (use pre assms(2) in simp)
  have "built t (put_queue mode q c1) \<and> queue_of t (put_queue mode q c1) = queue_of t c" for q
    using built_put_queue [of t c1 mode q] c1 assms(1) by simp
  with pre c1 show ?thesis
    by (auto simp: on_queue_def split_beta split: option.split sum.split bool.split)
qed

lemma on_queue_unresolved:
  assumes "mode \<noteq> Mode_evaluation" and "unresolved cfg c"
  shows "unresolved cfg (fst (on_queue cfg lic mode f skip c))"
proof -
  have "queue_type_of mode \<noteq> Some Evaluation" using assms(1) by (simp add: queue_type_evaluation)
  then have "unresolved cfg (put_queue mode q c)" for q
    using assms(2) by (cases "queue_type_of mode") (auto simp: unresolved_def put_queue_def)
  with assms show ?thesis
    by (auto simp: on_queue_def split_beta split: option.split sum.split bool.split)
qed

text \<open>The first call for an evaluation builds the queue and then goes on as if it had been there.\<close>

lemma ensure_builds:
  assumes "unresolved cfg c" and "limit_of cfg lic Evaluation = int limit" and "0 < limit"
  shows "\<exists>c1. ensureEvalQueueResolved cfg lic c = (c1, None) \<and> built Evaluation c1
    \<and> queue_of Evaluation c1 = new_queue (int limit) \<and> is_enabled c1 \<and> evalQueueResolved c1"
  using assms
  by (auto simp: unresolved_def limit_of_def ensureEvalQueueResolved_def normaliseLimit_def Let_def
      built_iff queue_of_def)

lemma on_queue_builds:
  assumes "ensureEvalQueueResolved cfg lic c = (c1, None)" and "evalQueueResolved c1"
  shows "on_queue cfg lic Mode_evaluation f skip c = on_queue cfg lic Mode_evaluation f skip c1"
  using assms by (simp add: on_queue_def ensure_resolved)

section \<open>The queue of a type as a limiter\<close>

text \<open>A call comes with what the license says and with the mode of its execution. The second part
  of the state are the executions of one type that hold a slot of the queue: one that is let through
  while the service is disabled holds none, and one that ends then does not give its slot back. The
  outputs are the waiting executions of the type that were removed.\<close>

datatype service_call =
    ServiceCall license execute_mode call
  | RemoveAll "string list"
  | Disable

definition exec_call ::
  "concurrency_config \<Rightarrow> queue_type \<Rightarrow> license \<Rightarrow> execute_mode \<Rightarrow> call \<Rightarrow> control \<times> string list
   \<Rightarrow> (control \<times> string list) \<times> string list" where
  "exec_call cfg t lic mode cl = (\<lambda>(c, holders).
     let mine = (queue_type_of mode = Some t) in
     case cl of
       Throttle x \<Rightarrow> (case throttle cfg lic mode x c of
         (c', result) \<Rightarrow> ((c', case result of
              Inl e \<Rightarrow> holders
            | Inr (es, waits) \<Rightarrow> if mine \<and> is_enabled c' \<and> \<not> waits then holders @ [x] else holders), []))
     | Release x \<Rightarrow> (case release cfg lic mode c of
         (c', result) \<Rightarrow> ((c', case result of
              Inl e \<Rightarrow> holders
            | Inr es \<Rightarrow> if mine \<and> is_enabled c' then remove1 x holders @ released es else holders), []))
     | Cancel x \<Rightarrow> (case control_remove cfg lic mode x c of
         (c', result) \<Rightarrow> ((c', case result of
              Inl e \<Rightarrow> holders
            | Inr es \<Rightarrow> if mine \<and> is_enabled c' then holders @ released es else holders),
            if mine \<and> is_enabled c' then taken_out [x] (queue_of t c) else [])))"

definition exec_service ::
  "concurrency_config \<Rightarrow> queue_type \<Rightarrow> service_call \<Rightarrow> control \<times> string list
   \<Rightarrow> (control \<times> string list) \<times> string list" where
  "exec_service cfg t x = (\<lambda>(c, holders).
     case x of
       ServiceCall lic mode cl \<Rightarrow> exec_call cfg t lic mode cl (c, holders)
     | RemoveAll executionIds \<Rightarrow>
         (let c' = fst (control_removeAll executionIds c); q = queue_of t c
          in if is_enabled c then ((c', holders @ released (snd (remove_each q))), taken_out (getAll q) q)
             else ((c', holders), []))
     | Disable \<Rightarrow> ((disable c, holders), []))"

definition limiter_of :: "queue_type \<Rightarrow> control \<times> string list \<Rightarrow> limiter" where
  "limiter_of t = (\<lambda>(c, holders). \<lparr>limiter_queue = queue_of t c, running = holders\<rparr>)"

text \<open>What the callers see to: a call that reaches the queue gives back a slot that its execution holds,
  and the limit that the license gives for the type does not change.\<close>

fun service_ok ::
  "concurrency_config \<Rightarrow> nat \<Rightarrow> queue_type \<Rightarrow> service_call \<Rightarrow> control \<times> string list \<Rightarrow> bool" where
  "service_ok cfg limit t (ServiceCall lic mode cl) s \<longleftrightarrow>
     (queue_type_of mode = Some t \<longrightarrow> limit_of cfg lic t = int limit
       \<and> (call_ok cl (limiter_of t s) \<or> built t (fst s) \<and> \<not> is_enabled (fst s)))"
| "service_ok cfg limit t _ s \<longleftrightarrow> True"

definition service_inv ::
  "concurrency_config \<Rightarrow> nat \<Rightarrow> queue_type \<Rightarrow> control \<times> string list \<Rightarrow> bool" where
  "service_inv cfg limit t s \<longleftrightarrow> 0 < limit \<and>
     (built t (fst s) \<and> limiter_inv limit (limiter_of t s)
      \<or> t = Evaluation \<and> unresolved cfg (fst s) \<and> snd s = [])"

lemmas service_ops = throttle_def release_def control_remove_def

text \<open>A call that reaches the queue is a call of the limiter.\<close>

lemma exec_call_same:
  assumes "queue_type_of mode = Some t" and "built t c" and "is_enabled c"
  shows "built t (fst (fst (exec_call cfg t lic mode cl (c, holders))))
    \<and> limiter_of t (fst (exec_call cfg t lic mode cl (c, holders))) = fst (run_call cl (limiter_of t (c, holders)))
    \<and> snd (exec_call cfg t lic mode cl (c, holders))
        = (case cl of Cancel x \<Rightarrow> taken_out [x] (queue_of t c) | _ \<Rightarrow> [])"
  using built_put_queue [OF assms(2), of mode] assms
  by (cases cl) (simp_all add: exec_call_def service_ops on_queue_same [OF assms(1,2)] split_beta limiter_of_def
      del: taken_out.simps)

lemma exec_call_disabled:
  assumes "queue_type_of mode = Some t" and "built t c" and "\<not> is_enabled c"
  shows "exec_call cfg t lic mode cl (c, holders) = ((c, holders), [])"
  using assms by (cases cl) (simp_all add: exec_call_def service_ops on_queue_same [OF assms(1,2)])

text \<open>What a call does to the control state, whatever executions hold a slot.\<close>

lemma exec_call_control:
  "fst (fst (exec_call cfg t lic mode cl (c, holders))) = (case cl of
      Throttle x \<Rightarrow> fst (on_queue cfg lic mode (enqueue x) ([], False) c)
    | Release x \<Rightarrow> fst (on_queue cfg lic mode dequeue [] c)
    | Cancel x \<Rightarrow> fst (on_queue cfg lic mode (queue_remove x) [] c))"
  by (cases cl) (simp_all add: exec_call_def service_ops split_beta Let_def)

lemma exec_call_other:
  assumes "queue_type_of mode \<noteq> Some t"
  shows "snd (fst (exec_call cfg t lic mode cl (c, holders))) = holders"
    and "snd (exec_call cfg t lic mode cl (c, holders)) = []"
    and "built t c \<Longrightarrow> built t (fst (fst (exec_call cfg t lic mode cl (c, holders))))
      \<and> queue_of t (fst (fst (exec_call cfg t lic mode cl (c, holders)))) = queue_of t c"
    and "t = Evaluation \<Longrightarrow> unresolved cfg c \<Longrightarrow> unresolved cfg (fst (fst (exec_call cfg t lic mode cl (c, holders))))"
proof -
  show "snd (fst (exec_call cfg t lic mode cl (c, holders))) = holders"
    and "snd (exec_call cfg t lic mode cl (c, holders)) = []"
    using assms by (auto simp: exec_call_def split: prod.split sum.split call.split)
  show "built t (fst (fst (exec_call cfg t lic mode cl (c, holders))))
      \<and> queue_of t (fst (fst (exec_call cfg t lic mode cl (c, holders)))) = queue_of t c" if "built t c"
    unfolding exec_call_control by (cases cl) (simp_all add: on_queue_other [OF assms that])
  show "unresolved cfg (fst (fst (exec_call cfg t lic mode cl (c, holders))))"
    if "t = Evaluation" "unresolved cfg c"
  proof -
    have "mode \<noteq> Mode_evaluation" using assms that(1) by auto
    show ?thesis unfolding exec_call_control
      by (cases cl) (simp_all add: on_queue_unresolved [OF \<open>mode \<noteq> Mode_evaluation\<close> that(2)])
  qed
qed

lemma remove_each_cancels:
  "\<exists>new. fold (\<lambda>i (q, es). let (q, es') = queue_remove i q in (q, es @ es')) xs (limiter_queue s, es)
       = (limiter_queue (cancel_all xs s), es @ new)
     \<and> running (cancel_all xs s) = running s @ released new"
proof (induction xs arbitrary: s es)
  case (Cons x xs)
  let ?s = "fst (run_call (Cancel x) s)"
  obtain q1 e1 where q1: "queue_remove x (limiter_queue s) = (q1, e1)" by force
  then have s: "limiter_queue ?s = q1" "running ?s = running s @ released e1" by simp_all
  obtain new where "fold (\<lambda>i (q, es). let (q, es') = queue_remove i q in (q, es @ es')) xs (q1, es @ e1)
       = (limiter_queue (cancel_all xs ?s), (es @ e1) @ new)"
     "running (cancel_all xs ?s) = running ?s @ released new"
    using Cons.IH [of ?s "es @ e1"] unfolding s by blast
  with q1 s show ?case
    by (intro exI [of _ "e1 @ new"]) (simp del: run_call.simps)
qed simp

lemma exec_removeAll:
  assumes "built t c" and "is_enabled c"
  shows "built t (fst (fst (exec_service cfg t (RemoveAll ids) (c, holders))))
    \<and> limiter_of t (fst (exec_service cfg t (RemoveAll ids) (c, holders)))
        = cancel_all (getAll (queue_of t c)) (limiter_of t (c, holders))
    \<and> snd (exec_service cfg t (RemoveAll ids) (c, holders)) = taken_out (getAll (queue_of t c)) (queue_of t c)"
proof -
  let ?q = "queue_of t c" and ?s = "limiter_of t (c, holders)"
  have "limiter_queue ?s = ?q" "running ?s = holders" by (simp_all add: limiter_of_def)
  moreover from remove_each_cancels [of "getAll ?q" ?s "[]"] obtain new where
    "fold (\<lambda>i (q, es). let (q, es') = queue_remove i q in (q, es @ es')) (getAll ?q) (limiter_queue ?s, [])
       = (limiter_queue (cancel_all (getAll ?q) ?s), new)"
    "running (cancel_all (getAll ?q) ?s) = running ?s @ released new" by auto
  ultimately have cancel: "limiter_queue (cancel_all (getAll ?q) ?s) = fst (remove_each ?q)"
    "running (cancel_all (getAll ?q) ?s) = holders @ released (snd (remove_each ?q))"
    unfolding remove_each_def by simp_all
  obtain qs where qs: "queues c = Some qs" "map_of qs t = Some ?q"
    using assms(1) by (auto simp: built_iff queue_of_def)
  have "map_of (map (\<lambda>(type, q). (type, fst (remove_each q))) qs) t = Some (fst (remove_each ?q))"
    using qs(2) by (simp add: map_of_map)
  with qs assms have "built t (fst (control_removeAll ids c)) \<and> queue_of t (fst (control_removeAll ids c)) = fst (remove_each ?q)"
    by (simp add: control_removeAll_def built_iff queue_of_def)
  with assms(2) cancel show ?thesis
    by (intro conjI limiter.equality) (simp_all add: exec_service_def Let_def limiter_of_def)
qed

text \<open>One step: the invariant stays, and the holders exceed the limit by no more than what was removed.\<close>

definition kept_by :: "concurrency_config \<Rightarrow> nat \<Rightarrow> queue_type \<Rightarrow> nat \<Rightarrow> (control \<times> string list) \<times> string list \<Rightarrow> bool" where
  "kept_by cfg limit t n r \<longleftrightarrow> service_inv cfg limit t (fst r)
     \<and> length (snd (fst r)) \<le> max limit n + length (snd r)"

lemma running_limiter_of: "running (limiter_of t s) = snd s" "limiter_queue (limiter_of t s) = queue_of t (fst s)"
  by (simp_all add: limiter_of_def split_beta)

lemma kept_same:
  assumes "service_inv cfg limit t (c, holders)" and "queue_type_of mode = Some t" and "built t c"
    and "call_ok cl (limiter_of t (c, holders)) \<or> \<not> is_enabled c"
  shows "kept_by cfg limit t (length holders) (exec_call cfg t lic mode cl (c, holders))"
proof (cases "is_enabled c")
  case False
  with exec_call_disabled [OF assms(2,3)] assms(1) show ?thesis by (simp add: kept_by_def)
next
  case True
  let ?s = "limiter_of t (c, holders)"
  note same = exec_call_same [OF assms(2,3) True, of cfg lic cl holders]
  from assms have inv: "limiter_inv limit ?s" and pos: "0 < limit"
    by (auto simp: service_inv_def built_iff unresolved_def)
  have ok: "call_ok cl ?s" using assms(4) True by simp
  have most: "length (running ?s) \<le> limit + (length holders - limit)" by (simp add: running_limiter_of)
  have eq: "limit + (length holders - limit) = max limit (length holders)" by simp
  have "length (running (fst (run_call cl ?s)))
      \<le> max limit (length holders) + length (case cl of Cancel x \<Rightarrow> taken_out [x] (queue_of t c) | _ \<Rightarrow> [])"
  proof (cases cl)
    case (Cancel x)
    with running_cancel [of x ?s] show ?thesis by (simp add: running_limiter_of del: run_call.simps taken_out.simps)
  next
    case (Throttle x)
    with running_run_call [OF inv ok most] show ?thesis unfolding eq by (simp add: is_cancel_def del: run_call.simps)
  next
    case (Release x)
    with running_run_call [OF inv ok most] show ?thesis unfolding eq by (simp add: is_cancel_def del: run_call.simps)
  qed
  moreover have "limiter_inv limit (fst (run_call cl ?s))" using inv ok by (rule inv_run_call)
  ultimately show ?thesis
    using same pos running_limiter_of(1) [of t "fst (exec_call cfg t lic mode cl (c, holders))"]
    unfolding kept_by_def service_inv_def by (metis)
qed

lemma kept_call:
  assumes inv: "service_inv cfg limit t (c, holders)" and ok: "service_ok cfg limit t (ServiceCall lic mode cl) (c, holders)"
  shows "kept_by cfg limit t (length holders) (exec_call cfg t lic mode cl (c, holders))"
proof (cases "queue_type_of mode = Some t")
  case False
  note other = exec_call_other [OF False, where cfg = cfg and lic = lic and cl = cl and c = c and holders = holders]
  from inv consider "built t c" "limiter_inv limit (limiter_of t (c, holders))"
    | "t = Evaluation" "unresolved cfg c" "holders = []"
    by (auto simp: service_inv_def)
  then show ?thesis
    by cases (use inv other in \<open>auto simp: kept_by_def service_inv_def limiter_of_def split_beta\<close>)
next
  case True
  show ?thesis
  proof (cases "built t c")
    case True
    with kept_same [OF inv \<open>queue_type_of mode = Some t\<close> True] ok \<open>queue_type_of mode = Some t\<close> show ?thesis by auto
  next
    case False
    with inv have un: "t = Evaluation" "unresolved cfg c" "holders = []" "0 < limit" by (auto simp: service_inv_def)
    with True have mode: "mode = Mode_evaluation" by (simp add: queue_type_evaluation)
    have cl: "call_ok cl (limiter_of t (c, []))" and lim: "limit_of cfg lic Evaluation = int limit"
      using ok True False un by auto
    obtain c1 where c1: "ensureEvalQueueResolved cfg lic c = (c1, None)" "built Evaluation c1"
      "queue_of Evaluation c1 = new_queue (int limit)" "is_enabled c1" "evalQueueResolved c1"
      using ensure_builds [OF un(2) lim un(4)] by blast
    have "queue_of Evaluation c = new_queue 0" using un(2) by (auto simp: unresolved_def queue_of_def)
    then have "taken_out [x] (queue_of Evaluation c) = taken_out [x] (queue_of Evaluation c1)" for x
      by (simp add: c1(3) queue_has_iff new_queue_def)
    then have same: "exec_call cfg t lic mode cl (c, holders) = exec_call cfg t lic mode cl (c1, [])"
      using un by (cases cl)
        (simp_all add: mode exec_call_def service_ops on_queue_builds [OF c1(1,5)] del: taken_out.simps split: prod.split)
    have "service_inv cfg limit t (c1, [])"
      using inv_new [of limit] c1 un by (simp add: service_inv_def limiter_of_def new_limiter_def)
    moreover have "call_ok cl (limiter_of t (c1, []))"
      using cl by (cases cl) (simp_all add: limiter_of_def)
    ultimately have "kept_by cfg limit t (length ([] :: string list)) (exec_call cfg t lic mode cl (c1, []))"
      using kept_same True c1(2) un(1) by blast
    with same un(3) show ?thesis by simp
  qed
qed

lemma kept_service:
  assumes inv: "service_inv cfg limit t s" and ok: "service_ok cfg limit t x s"
  shows "kept_by cfg limit t (length (snd s)) (exec_service cfg t x s)"
proof -
  obtain c holders where s: "s = (c, holders)" by (cases s)
  show ?thesis
  proof (cases x)
    case (ServiceCall lic mode cl)
    with kept_call inv ok s show ?thesis by (simp add: exec_service_def)
  next
    case (RemoveAll ids)
    show ?thesis
    proof (cases "is_enabled c")
      case False
      with inv show ?thesis by (simp add: s RemoveAll exec_service_def control_removeAll_def kept_by_def)
    next
      case True
      from inv s consider (Built) "built t c" "limiter_inv limit (limiter_of t (c, holders))" "0 < limit"
        | (Un) "t = Evaluation" "unresolved cfg c" "holders = []" "0 < limit"
        by (auto simp: service_inv_def)
      then show ?thesis
      proof cases
        case Built
        let ?l = "limiter_of t (c, holders)" and ?xs = "getAll (queue_of t c)"
        note all = exec_removeAll [OF Built(1) True, of cfg ids holders]
        have "limiter_inv limit (cancel_all ?xs ?l)" using Built(2) by (rule inv_cancel_all)
        moreover have "length (running (cancel_all ?xs ?l)) \<le> max limit (length holders) + length (taken_out ?xs (queue_of t c))"
          using running_cancel_all [of ?xs ?l] by (simp add: running_limiter_of)
        ultimately show ?thesis
          using all Built(3) running_limiter_of(1) [of t "fst (exec_service cfg t (RemoveAll ids) (c, holders))"]
          unfolding kept_by_def service_inv_def s RemoveAll snd_conv by metis
      next
        case Un
        have "queue_of Evaluation c = new_queue 0" using Un(2) by (auto simp: unresolved_def queue_of_def)
        then have "remove_each (queue_of Evaluation c) = (new_queue 0, [])" "getAll (queue_of Evaluation c) = []"
          by (simp_all add: remove_each_def getAll_def new_queue_def set_from_def)
        moreover have "unresolved cfg (fst (control_removeAll ids c))"
          using Un(2) True by (auto simp: unresolved_def control_removeAll_def map_of_map)
        ultimately show ?thesis
          using Un True by (simp add: s RemoveAll exec_service_def Let_def kept_by_def service_inv_def)
      qed
    qed
  next
    case Disable
    with inv show ?thesis
      by (auto simp: s exec_service_def disable_def kept_by_def service_inv_def built_iff unresolved_def
          limiter_of_def queue_of_def)
  qed
qed

interpretation service: invariant_machine "service_ok cfg limit t" "exec_service cfg t" "service_inv cfg limit t"
  for cfg limit t
  by unfold_locales (use kept_service in \<open>auto simp: kept_by_def\<close>)

lemma holders_bounded:
  assumes "runs (service_ok cfg limit t) (exec_service cfg t) s cs removed s'" and "service_inv cfg limit t s"
    and "length (snd s) \<le> limit"
  shows "length (snd s') \<le> limit + length removed"
  using kept_service [of cfg limit t]
  by (intro service.bounded_by_outputs [where m = "\<lambda>s. length (snd s)", OF _ assms]) (simp add: kept_by_def)

text \<open>What the constructor leaves.\<close>

lemma resolve_not_zero: "evaluation_limit cfg \<noteq> 0 \<Longrightarrow> resolveEvaluationConcurrencyLimit cfg lic \<noteq> 0"
  by (auto simp: resolveEvaluationConcurrencyLimit_def readLicenseQuota_def EVALUATION_TIER_DEFAULTS_def
      split: option.split)

lemma constructControl_service:
  assumes "constructControl cfg = Inr c" and "\<not> queue_mode cfg" and "limit_of cfg lic t = int limit"
  shows "service_inv cfg limit t (c, [])"
proof -
  from assms(1) have "production_limit cfg \<noteq> 0" "evaluation_limit cfg \<noteq> 0"
    by (auto simp: constructControl_def normaliseLimit_def split: if_splits)
  moreover from this(2) have "resolveEvaluationConcurrencyLimit cfg lic \<noteq> 0" by (rule resolve_not_zero)
  ultimately have "0 < limit" using assms(3) by (auto simp: limit_of_def split: if_splits)
  moreover have "limiter_inv limit (limiter_of t (c, []))" if "queue_of t c = new_queue (int limit)"
    using inv_new [of limit] that by (simp add: limiter_of_def new_limiter_def)
  moreover have "(built t c \<and> queue_of t c = new_queue (int limit)) \<or> t = Evaluation \<and> unresolved cfg c"
    using assms \<open>0 < limit\<close>
    by (cases t) (auto simp: constructControl_def normaliseLimit_def Let_def built_iff unresolved_def queue_of_def
        limit_of_def split: if_splits)
  ultimately show ?thesis by (auto simp: service_inv_def)
qed

section \<open>Errors\<close>

text \<open>All operations of the service; an output is an error that one of them raised.\<close>

datatype control_call =
    C_throttle license execute_mode string
  | C_release license execute_mode
  | C_remove license execute_mode string
  | C_has string
  | C_removeAll "string list"
  | C_disable

definition error_of :: "concurrency_error + 'a \<Rightarrow> concurrency_error list" where
  "error_of r = (case r of Inl e \<Rightarrow> [e] | Inr _ \<Rightarrow> [])"

fun exec_control ::
  "concurrency_config \<Rightarrow> control_call \<Rightarrow> control \<Rightarrow> control \<times> concurrency_error list" where
  "exec_control cfg (C_throttle lic mode x) c = map_prod id error_of (throttle cfg lic mode x c)"
| "exec_control cfg (C_release lic mode) c = map_prod id error_of (release cfg lic mode c)"
| "exec_control cfg (C_remove lic mode x) c = map_prod id error_of (control_remove cfg lic mode x c)"
| "exec_control cfg (C_has x) c = (c, error_of (control_has x c))"
| "exec_control cfg (C_removeAll xs) c = map_prod id error_of (control_removeAll xs c)"
| "exec_control cfg C_disable c = (disable c, [])"

definition control_inv :: "concurrency_config \<Rightarrow> control \<Rightarrow> bool" where
  "control_inv cfg c \<longleftrightarrow> (queues c = None \<longleftrightarrow> queue_mode cfg) \<and> (is_enabled c \<longrightarrow> queues c \<noteq> None)
     \<and> evaluation_limit cfg \<noteq> 0"

lemma ensure_inv:
  assumes "control_inv cfg c"
  shows "control_inv cfg (fst (ensureEvalQueueResolved cfg lic c)) \<and> snd (ensureEvalQueueResolved cfg lic c) = None"
proof -
  have "resolveEvaluationConcurrencyLimit cfg lic \<noteq> 0"
    using assms resolve_not_zero by (simp add: control_inv_def)
  then have "\<exists>n. normaliseLimit (resolveEvaluationConcurrencyLimit cfg lic) = Inr n"
    by (simp add: normaliseLimit_def)
  then obtain n where "normaliseLimit (resolveEvaluationConcurrencyLimit cfg lic) = Inr n" by blast
  with assms show ?thesis
    by (auto simp: control_inv_def ensureEvalQueueResolved_def Let_def split: option.split)
qed

lemma put_queue_inv: "control_inv cfg c \<Longrightarrow> control_inv cfg (put_queue mode q c)"
  by (auto simp: control_inv_def put_queue_def split: option.split)

lemma on_queue_inv:
  assumes "control_inv cfg c"
  shows "control_inv cfg (fst (on_queue cfg lic mode f skip c))
    \<and> set (error_of (snd (on_queue cfg lic mode f skip c))) \<subseteq> {UnknownExecutionMode Mode_agent}"
proof -
  obtain c1 e where pre: "(if mode = Mode_evaluation then ensureEvalQueueResolved cfg lic c else (c, None)) = (c1, e)"
    by fastforce
  have c1: "control_inv cfg c1 \<and> e = None"
    using pre assms ensure_inv [OF assms, of lic] by (auto split: if_splits)
  have get: "getQueue mode c1 = Inr q \<or> getQueue mode c1 = Inl (UnknownExecutionMode Mode_agent)
      \<or> (\<exists>q. getQueue mode c1 = Inr q)" if "is_enabled c1" for q
    using that c1 by (cases mode) (auto simp: getQueue_def queues_get_def control_inv_def)
  show ?thesis
    using pre c1 get put_queue_inv [of cfg c1 mode]
    by (auto simp: on_queue_def isUnlimited_def error_of_def split_beta split: option.split sum.split bool.split)
qed

lemma exec_control_inv:
  assumes "control_inv cfg c"
  shows "control_inv cfg (fst (exec_control cfg x c))
    \<and> set (snd (exec_control cfg x c)) \<subseteq> {UnknownExecutionMode Mode_agent}"
proof (cases x)
  case (C_has y)
  with assms show ?thesis by (auto simp: control_has_def control_inv_def error_of_def)
next
  case (C_removeAll ys)
  with assms show ?thesis by (auto simp: control_removeAll_def control_inv_def error_of_def)
next
  case C_disable
  with assms show ?thesis by (simp add: disable_def control_inv_def)
qed (use on_queue_inv [OF assms] in \<open>simp_all add: throttle_def release_def control_remove_def\<close>)

interpretation control: invariant_machine "\<lambda>_ _. True" "exec_control cfg" "control_inv cfg" for cfg
  by unfold_locales (simp add: exec_control_inv)

lemma control_runs_errors:
  "runs (\<lambda>_ _. True) (exec_control cfg) c cs es c' \<Longrightarrow> control_inv cfg c \<Longrightarrow>
   set es \<subseteq> {UnknownExecutionMode Mode_agent}"
proof (induction rule: runs.induct)
  case (runs_snoc c cs es c' x c'' es')
  have "control_inv cfg c'" using runs_snoc.hyps(1) runs_snoc.prems by (rule control.invariant)
  from exec_control_inv [OF this, of x] runs_snoc show ?case by auto
qed simp

lemma constructControl_inv: "constructControl cfg = Inr c \<Longrightarrow> control_inv cfg c"
  by (auto simp: constructControl_def normaliseLimit_def control_inv_def Let_def split: if_splits)

end
