(* ===== verification/Concurrency_Properties.thy ===== *)
theory Concurrency_Properties
  imports Concurrency_Control
begin

text \<open>The properties of the concurrency control, each with a witness where it has a hypothesis, and
  the behaviours that depart from the code's own descriptions.\<close>

section \<open>Fixtures\<close>

definition sample_config :: concurrency_config where
  "sample_config = \<lparr>queue_mode = False, production_limit = 1, evaluation_limit = - 1,
     evaluation_env_set = False, cloud_deployment = False\<rparr>"

definition sample_license :: license where
  "sample_license = \<lparr>license_quota = None, plan_name = ''Business''\<rparr>"

definition sample_control :: control where
  "sample_control = \<lparr>is_enabled = True, limits = [(Production, 1), (Evaluation, - 1)],
     queues = Some [(Production, new_queue 1)], evalQueueResolved = False\<rparr>"

lemma sample_control: "constructControl sample_config = Inr sample_control"
  by code_simp

definition sample_calls :: "call list" where
  "sample_calls = [Throttle ''a'', Throttle ''b'', Throttle ''c'', Release ''a'']"

definition sample_limiter :: limiter where
  "sample_limiter = \<lparr>limiter_queue = \<lparr>queue = [''c''], capacity = - 1, pending_check = Some (- 2)\<rparr>,
     running = [''b'']\<rparr>"

lemma sample_runs:
  "limiter_runs (new_limiter 1) sample_calls
     [ExecutionThrottled ''b'', ExecutionThrottled ''c'', ExecutionReleased ''b''] sample_limiter"
  by (rule run_all_runs) code_simp

section \<open>The queue\<close>

text \<open>C29: as long as no waiting execution is cancelled, the queue implements a first-come-first-served
  limiter: after any sequence of requests for a slot and of slots given back, the running and the
  waiting executions are those of the specification, which lets an execution run exactly while
  fewer than the limit run.\<close>

theorem queue_refines_line:
  assumes "runs uncancelled_ok run_call (new_limiter limit) cs es s"
  shows "line_of s = fold (line_call limit) cs ([], []) \<and> length (running s) \<le> limit"
proof -
  have "within_limit limit (new_limiter limit)"
    using inv_new by (simp add: within_limit_def new_limiter_def)
  with line.refines [OF assms, of limit] line.invariant [OF assms, of limit] show ?thesis
    by (simp add: within_limit_def line_of_def new_limiter_def new_queue_def)
qed

theorem queue_refines_line_witness:
  "line_of sample_limiter = fold (line_call 1) sample_calls ([], [])
   \<and> fold (line_call 1) sample_calls ([], []) = ([''b''], [''c''])"
proof -
  have "runs uncancelled_ok run_call (new_limiter 1) sample_calls
     [ExecutionThrottled ''b'', ExecutionThrottled ''c'', ExecutionReleased ''b''] sample_limiter"
    by (rule run_all_runs) code_simp
  from queue_refines_line [OF this]
  have "line_of sample_limiter = fold (line_call 1) sample_calls ([], [])" ..
  moreover have "fold (line_call 1) sample_calls ([], []) = ([''b''], [''c''])" by code_simp
  ultimately show ?thesis by simp
qed

text \<open>C32: no waiting execution is passed over: as long as no execution is cancelled (removed from the
  queue), neither this one nor another, the execution at position \<open>i\<close> of the queue is released after at
  most \<open>i + 1\<close> slots have been given back, however many new executions ask for a slot in between.\<close>

theorem waiting_released:
  assumes "limiter_runs s cs es s'" and "queue (limiter_queue s) = before @ x # after"
    and "filter is_cancel cs = []" and "length before < length (filter is_release cs)"
  shows "x \<in> set (released es)"
  using released_eventually [OF assms(1), of "length before" x] assms(2-4) by (simp add: Let_def)

theorem waiting_released_witness:
  "''c'' \<in> set (released [ExecutionThrottled ''d'', ExecutionReleased ''c''])"
proof -
  have "limiter_runs sample_limiter [Throttle ''d'', Release ''b'']
     [ExecutionThrottled ''d'', ExecutionReleased ''c'']
     \<lparr>limiter_queue = \<lparr>queue = [''d''], capacity = - 1, pending_check = Some (- 2)\<rparr>, running = [''c'']\<rparr>"
    by (rule run_all_runs) code_simp
  from waiting_released [OF this, of "[]" "''c''" "[]"] show ?thesis
    by (simp add: sample_limiter_def is_cancel_def is_release_def)
qed

section \<open>The service\<close>

text \<open>C30: of the queue of a type for which a limit is set, by the configuration or, for evaluations, by
  the license. After any calls of \<open>throttle\<close>, \<open>release\<close>, \<open>remove\<close>, \<open>removeAll\<close> and \<open>disable\<close> for
  executions of any type, in any order, its capacity accounts for every execution that holds a slot of
  it or waits in it, none waits while a slot is free, and the holders exceed the limit by no more than
  the number of waiting executions that were removed. (Until the first call for an evaluation there may
  be no queue; then none holds a slot.) The callers see to it that a slot is given back by an execution
  that holds one, unless the service is disabled, and that the license keeps its limit. An execution that
  is let through while the service is disabled holds no slot, and one that ends then keeps its own.\<close>

theorem service_limits:
  assumes "constructControl cfg = Inr c" and "\<not> queue_mode cfg" and "limit_of cfg lic t = int limit"
    and "runs (service_ok cfg limit t) (exec_service cfg t) (c, []) cs removed (c', holders)"
  shows "(case Option.bind (queues c') (\<lambda>qs. map_of qs t) of
      None \<Rightarrow> t = Evaluation \<and> \<not> evalQueueResolved c' \<and> holders = []
    | Some q \<Rightarrow> capacity q = int limit - int (length holders) - int (length (queue q))
        \<and> (queue q = [] \<or> limit \<le> length holders))
   \<and> length holders \<le> limit + length removed"
proof -
  have start: "service_inv cfg limit t (c, [])" using assms(1-3) by (rule constructControl_service)
  have "service_inv cfg limit t (c', holders)" using service.invariant [OF assms(4) start] .
  then have "(built t c' \<and> limiter_inv limit (limiter_of t (c', holders)))
      \<or> t = Evaluation \<and> unresolved cfg c' \<and> holders = []" by (simp add: service_inv_def)
  moreover have "length holders \<le> limit + length removed" using holders_bounded [OF assms(4) start] by simp
  ultimately show ?thesis
    by (auto simp: built_iff unresolved_def limiter_inv_def limiter_of_def queue_of_def)
qed

definition webhook_call :: "call \<Rightarrow> service_call" where
  "webhook_call cl = ServiceCall sample_license Mode_webhook cl"

definition evaluation_call :: "call \<Rightarrow> service_call" where
  "evaluation_call cl = ServiceCall sample_license Mode_evaluation cl"

text \<open>The license allows three evaluations at a time. Four ask, and two more that are removed.\<close>

definition sample_service_calls :: "service_call list" where
  "sample_service_calls = webhook_call (Throttle ''w'')
     # map (\<lambda>x. evaluation_call (Throttle [x])) ''abcdef''
     @ [evaluation_call (Cancel ''e''), ServiceCall sample_license Mode_manual (Throttle ''m''), Disable,
        evaluation_call (Release ''a'')]"

theorem service_limits_witness:
  "\<exists>(c' :: control) q holders. map_of (the (queues c')) Evaluation = Some q \<and> holders = [''a'', ''b'', ''c'', ''d'']
     \<and> queue q = [''f''] \<and> capacity q = 3 - int (length holders) - 1 \<and> length holders \<le> 3 + length [''e'']"
proof -
  obtain c' q where run: "run_all (service_ok sample_config 3 Evaluation) (exec_service sample_config Evaluation)
      sample_service_calls (sample_control, []) = Some ((c', [''a'', ''b'', ''c'', ''d'']), [''e''])"
    and q: "Option.bind (queues c') (\<lambda>qs. map_of qs Evaluation) = Some q" "queue q = [''f'']"
  proof -
    have "case run_all (service_ok sample_config 3 Evaluation) (exec_service sample_config Evaluation)
        sample_service_calls (sample_control, []) of
          None \<Rightarrow> False
        | Some ((c', holders), removed) \<Rightarrow> holders = [''a'', ''b'', ''c'', ''d''] \<and> removed = [''e'']
            \<and> map_option queue (Option.bind (queues c') (\<lambda>qs. map_of qs Evaluation)) = Some [''f'']"
      by code_simp
    with that show thesis by (auto split: option.splits)
  qed
  have "\<not> queue_mode sample_config" "limit_of sample_config sample_license Evaluation = int 3"
    by code_simp+
  from service_limits [OF sample_control this run_all_runs [OF run]] q have "capacity q = - 2"
    by simp
  moreover from q(1) have "map_of (the (queues c')) Evaluation = Some q" by (cases "queues c'") simp_all
  ultimately show ?thesis using q(2)
    by (intro exI [of _ c']) simp
qed

text \<open>C31: whatever operations are called on a constructed service, in any order, none of them fails
  with anything but an unknown execution mode, and only for the mode \<open>agent\<close>: an invalid limit is
  reported by the constructor only, and the queues are never used before they exist.\<close>

theorem service_errors:
  assumes "constructControl cfg = Inr c" and "runs (\<lambda>_ _. True) (exec_control cfg) c cs es c'"
  shows "set es \<subseteq> {UnknownExecutionMode Mode_agent}"
  using control_runs_errors [OF assms(2) constructControl_inv [OF assms(1)]] .

theorem service_errors_witness:
  "set [UnknownExecutionMode Mode_agent] \<subseteq> {UnknownExecutionMode Mode_agent}"
proof -
  have "case run_all (\<lambda>_ _. True) (exec_control sample_config)
      [C_disable, C_throttle sample_license Mode_evaluation ''e'', C_throttle sample_license Mode_agent ''a'']
      sample_control of None \<Rightarrow> False | Some (c', es) \<Rightarrow> es = [UnknownExecutionMode Mode_agent]"
    by code_simp
  then obtain c' where "run_all (\<lambda>_ _. True) (exec_control sample_config)
      [C_disable, C_throttle sample_license Mode_evaluation ''e'', C_throttle sample_license Mode_agent ''a'']
      sample_control = Some (c', [UnknownExecutionMode Mode_agent])"
    by (auto split: option.splits)
  from service_errors [OF sample_control run_all_runs [OF this]] show ?thesis .
qed

section \<open>Departures from the descriptions\<close>

text \<open>Cancelling a waiting execution lets the next one run although no slot is free.\<close>

lemma cancel_exceeds_limit:
  "run_all call_ok run_call [Throttle ''a'', Throttle ''b'', Throttle ''c'', Cancel ''b''] (new_limiter 1)
     = Some (\<lparr>limiter_queue = \<lparr>queue = [], capacity = - 1, pending_check = Some (- 2)\<rparr>,
              running = [''a'', ''c'']\<rparr>,
             [ExecutionThrottled ''b'', ExecutionThrottled ''c'', ExecutionReleased ''c''])"
  by code_simp

text \<open>Emptying the queue starts every second of the executions that were waiting.\<close>

lemma removeAll_releases:
  "remove_each \<lparr>queue = [''a'', ''b'', ''c'', ''d''], capacity = - 4, pending_check = None\<rparr>
     = (\<lparr>queue = [], capacity = - 2, pending_check = None\<rparr>,
        [ExecutionReleased ''b'', ExecutionReleased ''d''])"
  by code_simp

text \<open>After \<open>disable\<close>, which \<open>ActiveExecutions.shutdown\<close> calls first in regular mode, \<open>removeAll\<close>
  neither empties the queues nor cancels an execution.\<close>

lemma removeAll_after_disable: "control_removeAll ids (disable c) = (disable c, Inr ([], []))"
  by (simp add: control_removeAll_def disable_def)

text \<open>An evaluation execution that is throttled after \<open>disable\<close> enables the service again.\<close>

lemma throttle_enables:
  "is_enabled (fst (throttle sample_config sample_license Mode_evaluation ''e'' (disable sample_control)))"
  by code_simp

end
