(* ===== verification/Broker_Messages.thy ===== *)
theory Broker_Messages
  imports Workflow_Types
begin

text \<open>
  \<open>packages/@n8n/task-runner/src/message-types.ts\<close>: what the task broker, the runners and the
  requesters send each other. A datatype stands for the union \<open>All\<close> of a namespace, a constructor
  for the interface of its name, its arguments for the fields other than \<open>type\<close>. Values that the
  broker only passes on (\<open>unknown\<close>, task data, node type descriptions) are JSON values.
\<close>

datatype rpc_status = Rpc_success | Rpc_error

datatype expiry_reason = Expired_timeout | Expired_draining

datatype runner_mode = Internal | External

text \<open>What goes into an error message of the broker: an error that the runner sent, the message of
  the error a runner was deregistered with, the arguments of \<open>TaskRunnerExecutionTimeoutError\<close> and of
  \<open>TaskRunnerUnreachableError\<close>, and the two unexpected errors of \<open>getRunnerOrFailTask\<close>.\<close>

datatype task_failure =
    RunnerError json
  | Disconnected string
  | ExecutionTimeout int bool runner_mode
  | CannotFindTask string
  | CannotFindRunner string
  | RunnerUnreachable string string

text \<open>\<open>BrokerMessage.ToRunner\<close>\<close>

datatype to_runner =
    InfoRequest
  | RunnerRegistered
  | TaskOfferAccept string string
  | TaskCancel string string
  | TaskSettings string json
  | RPCResponse string string rpc_status json
  | TaskDataResponse string string json
  | NodeTypes string string json
  | Drain

text \<open>\<open>BrokerMessage.ToRequester\<close>\<close>

datatype to_requester =
    TaskReady string string
  | TaskDone string json
  | TaskError string task_failure
  | RequestExpired string expiry_reason
  | TaskDataRequest string string json
  | NodeTypesRequest string string json
  | RPC string string string json

text \<open>\<open>RequesterMessage.ToBroker\<close>\<close>

datatype requester_message =
    RequesterTaskSettings string json
  | RequesterTaskCancel string string
  | RequesterDataResponse string string json
  | RequesterNodeTypesResponse string string json
  | RequesterRPCResponse string string rpc_status json
  | RequesterTaskRequest string string

text \<open>\<open>RunnerMessage.ToBroker\<close>\<close>

datatype runner_message =
    RunnerInfo string "string list"
  | RunnerTaskAccepted string
  | RunnerTaskRejected string string
  | RunnerTaskDeferred string
  | RunnerTaskDone string json
  | RunnerTaskError string json
  | RunnerTaskOffer string string int
  | RunnerTaskDataRequest string string json
  | RunnerNodeTypesRequest string string json
  | RunnerRPC string string string json

end
