(* ===== verification/Task_Broker.thy ===== *)
theory Task_Broker
  imports Broker_Messages Machines
begin

text \<open>
  \<open>packages/cli/src/task-runners/task-broker/task-broker.service.ts\<close>: the broker that matches task
  requests with the offers of task runners and passes messages between the two.

  A \<open>TaskRequest\<close> is an object that the pending list and a running \<open>acceptOffer\<close> share; it lives in
  the list \<open>request_objects\<close> and is referred to by its index. A timer is an element of \<open>timers\<close> from
  \<open>setTimeout\<close> until it fires or \<open>clearTimeout\<close> removes it. A call of the asynchronous \<open>acceptOffer\<close>
  that is suspended is an entry of \<open>accepting\<close>, which holds at which \<open>await\<close> it stands and what became
  of the promise it waits for; \<open>timing_out\<close> are the tasks whose \<open>handleTaskTimeout\<close> stands at its \<open>await\<close>.
  An \<open>await\<close> behind which a handler does nothing to the state is not a cut. The clock and the reachability checks of the runners' transports are
  arguments; a message that is sent, a lifecycle event and an error that leaves a handler are
  outputs. A callback that answers at once does so in a later step. Log messages are left out.
\<close>

section \<open>State\<close>

record task_runner =
  runner_id :: string
  runner_task_types :: "string list"

record task =
  task_id :: string
  task_runner_id :: string
  task_requester :: string
  task_type :: string

record task_offer =
  offer_id :: string
  offer_runner :: string
  offer_type :: string
  valid_for :: int
  valid_until :: int

record task_request =
  request_id :: string
  requester_id :: string
  request_type :: string
  accept_in_progress :: bool
  timeout_refreshes :: nat

definition MAX_REQUEST_TIMEOUT_REFRESHES :: nat where
  "MAX_REQUEST_TIMEOUT_REFRESHES = 3"

definition MAX_CONSECUTIVE_ACCEPT_TIMEOUTS :: nat where
  "MAX_CONSECUTIVE_ACCEPT_TIMEOUTS = 3"

datatype timer =
    RequestTimer nat
  | RunnerAcceptTimer string
  | RequesterAcceptTimer string
  | TaskTimer string

text \<open>\<open>TaskRejectError\<close>, \<open>TaskDeferredError\<close> and the two timeouts of an acceptance.\<close>

datatype accept_error = Rejected string | Deferred | RunnerTimeout | RequesterTimeout

datatype 'a promise = Waiting | Resolved 'a | Failed accept_error

text \<open>Where a call of \<open>acceptOffer\<close> stands: at the runner's answer or the requester's, with whether the
  message that asks for it has gone out; behind the cancellation of a runner that did not answer; or
  behind the settings that go to the runner.\<close>

datatype acceptance =
    AwaitRunner task_offer nat bool "unit promise"
  | AwaitCancelSent task_offer
  | AwaitRequester nat bool "json promise"
  | AwaitSettingsSent

record broker =
  knownRunners :: "(string \<times> task_runner) list"
  requesters :: "string list"
  tasks :: "(string \<times> task) list"
  isDraining :: bool
  runnerAcceptRejects :: "(string \<times> string) list"
  requesterAcceptRejects :: "string list"
  consecutiveAcceptTimeouts :: "(string \<times> nat) list"
  pendingTaskOffers :: "task_offer list"
  pendingTaskRequests :: "nat list"
  mismatchWarned :: "string list"
  request_objects :: "task_request list"
  timers :: "timer list"
  accepting :: "(string \<times> acceptance) list"
  timing_out :: "string list"
  next_task :: nat

text \<open>\<open>draw_id\<close> gives the ids that \<open>nanoid\<close> draws, one after the other.\<close>

record broker_config =
  task_timeout :: int
  task_request_timeout :: int
  task_accept_timeout :: int
  mode_of_runners :: runner_mode
  cloud_broker :: bool
  draw_id :: "nat \<Rightarrow> string"

record environment =
  now :: int
  reachable :: "string \<Rightarrow> bool"

datatype broker_output =
    ToRunner string to_runner
  | ToRequester string to_requester
  | TimedOutDuringTask string "string list"
  | Unresponsive string "string list"
  | Thrown task_failure
  | Rethrown accept_error
  | SendFailed

text \<open>A step changes the broker and emits outputs.\<close>

type_synonym broker_step = "broker \<Rightarrow> broker \<times> broker_output list"

definition no_step :: broker_step where
  "no_step b = (b, [])"

definition change :: "(broker \<Rightarrow> broker) \<Rightarrow> broker_step" where
  "change f b = (f b, [])"

definition emit :: "broker_output list \<Rightarrow> broker_step" where
  "emit os b = (b, os)"

definition then_do :: "broker_step \<Rightarrow> broker_step \<Rightarrow> broker_step" where
  "then_do f g b = (let (b1, o1) = f b; (b2, o2) = g b1 in (b2, o1 @ o2))"

fun do_all :: "broker_step list \<Rightarrow> broker_step" where
  "do_all [] = no_step"
| "do_all (f # fs) = then_do f (do_all fs)"

definition request_at :: "broker \<Rightarrow> nat \<Rightarrow> task_request" where
  "request_at b r = request_objects b ! r"

definition update_request :: "nat \<Rightarrow> (task_request \<Rightarrow> task_request) \<Rightarrow> broker \<Rightarrow> broker" where
  "update_request r f b = b\<lparr>request_objects := (request_objects b)[r := f (request_at b r)]\<rparr>"

definition setTimer :: "timer \<Rightarrow> broker \<Rightarrow> broker" where
  "setTimer t b = b\<lparr>timers := timers b @ [t]\<rparr>"

definition clearTimer :: "timer \<Rightarrow> broker \<Rightarrow> broker" where
  "clearTimer t b = b\<lparr>timers := removeAll t (timers b)\<rparr>"

section \<open>Construction\<close>

datatype user_error = TaskTimeoutInvalid | TaskRequestTimeoutInvalid | TaskAcceptTimeoutInvalid

definition new_broker :: "broker_config \<Rightarrow> user_error + broker" where
  "new_broker cfg =
     (if task_timeout cfg \<le> 0 then Inl TaskTimeoutInvalid
      else if task_request_timeout cfg \<le> 0 then Inl TaskRequestTimeoutInvalid
      else if task_accept_timeout cfg \<le> 0 then Inl TaskAcceptTimeoutInvalid
      else Inr \<lparr>knownRunners = [], requesters = [], tasks = [], isDraining = False,
        runnerAcceptRejects = [], requesterAcceptRejects = [], consecutiveAcceptTimeouts = [],
        pendingTaskOffers = [], pendingTaskRequests = [], mismatchWarned = [],
        request_objects = [], timers = [], accepting = [], timing_out = [], next_task = 0\<rparr>)"

section \<open>Messages\<close>

definition messageRunner :: "string \<Rightarrow> to_runner \<Rightarrow> broker_step" where
  "messageRunner runnerId message b =
     (b, if map_has (knownRunners b) runnerId then [ToRunner runnerId message] else [])"

definition messageRequester :: "string \<Rightarrow> to_requester \<Rightarrow> broker_step" where
  "messageRequester requesterId message b =
     (b, if requesterId \<in> set (requesters b) then [ToRequester requesterId message] else [])"

definition getInFlightTaskIds :: "string \<Rightarrow> broker \<Rightarrow> string list" where
  "getInFlightTaskIds runnerId b =
     map task_id (filter (\<lambda>t. task_runner_id t = runnerId) (map_values (tasks b)))"

section \<open>Tasks\<close>

definition untrackTask :: "string \<Rightarrow> broker \<Rightarrow> broker \<times> task option" where
  "untrackTask taskId b =
     (case map_of (tasks b) taskId of
        Some t \<Rightarrow> ((clearTimer (TaskTimer taskId) b)\<lparr>tasks := map_delete taskId (tasks b)\<rparr>, Some t)
      | None \<Rightarrow> (b, None))"

definition cancelTask :: "string \<Rightarrow> string \<Rightarrow> broker_step" where
  "cancelTask taskId reason b =
     (case untrackTask taskId b of
        (b, Some t) \<Rightarrow> messageRunner (task_runner_id t) (TaskCancel taskId reason) b
      | (b, None) \<Rightarrow> (b, []))"

definition failTask :: "string \<Rightarrow> task_failure \<Rightarrow> broker_step" where
  "failTask taskId error b =
     (case untrackTask taskId b of
        (b, Some t) \<Rightarrow> messageRequester (task_requester t) (TaskError taskId error) b
      | (b, None) \<Rightarrow> (b, []))"

definition failTasks :: "string list \<Rightarrow> task_failure \<Rightarrow> broker_step" where
  "failTasks taskIds error = do_all (map (\<lambda>taskId. failTask taskId error) taskIds)"

definition taskDoneHandler :: "string \<Rightarrow> json \<Rightarrow> broker_step" where
  "taskDoneHandler taskId data b =
     (case untrackTask taskId b of
        (b, Some t) \<Rightarrow> messageRequester (task_requester t) (TaskDone (task_id t) data) b
      | (b, None) \<Rightarrow> (b, []))"

definition taskErrorHandler :: "string \<Rightarrow> task_failure \<Rightarrow> broker_step" where
  "taskErrorHandler taskId error b =
     (case untrackTask taskId b of
        (b, Some t) \<Rightarrow> messageRequester (task_requester t) (TaskError (task_id t) error) b
      | (b, None) \<Rightarrow> (b, []))"

definition hasActiveTasks :: "broker \<Rightarrow> bool" where
  "hasActiveTasks b \<longleftrightarrow> 0 < length (tasks b)"

text \<open>\<open>getRunnerOrFailTask\<close> returns the runner or the error it throws.\<close>

definition getRunnerOrFailTask ::
  "environment \<Rightarrow> string \<Rightarrow> broker \<Rightarrow> broker \<times> broker_output list \<times> (task_failure + task_runner)" where
  "getRunnerOrFailTask env taskId b =
     (case map_of (tasks b) taskId of
        None \<Rightarrow> (b, [], Inl (CannotFindTask taskId))
      | Some t \<Rightarrow>
          (case map_of (knownRunners b) (task_runner_id t) of
             None \<Rightarrow>
               (let error = CannotFindRunner (task_runner_id t); (b, os) = failTask taskId error b
                in (b, os, Inl error))
           | Some runner \<Rightarrow>
               if \<not> reachable env (task_runner_id t)
               then (let error = RunnerUnreachable taskId (task_runner_id t);
                         (b, os) = failTask taskId error b
                     in (b, os, Inl error))
               else (b, [], Inr runner)))"

text \<open>The three answers of a requester that go on to the task's runner.\<close>

definition forwardToRunner :: "environment \<Rightarrow> string \<Rightarrow> to_runner \<Rightarrow> broker_step" where
  "forwardToRunner env taskId message b =
     (if \<not> map_has (tasks b) taskId then (b, [])
      else case getRunnerOrFailTask env taskId b of
             (b, os, Inl error) \<Rightarrow> (b, os @ [Thrown error])
           | (b, os, Inr runner) \<Rightarrow>
               (let (b, os') = messageRunner (runner_id runner) message b in (b, os @ os')))"

definition handleRequesterRpcResponse ::
  "environment \<Rightarrow> string \<Rightarrow> string \<Rightarrow> rpc_status \<Rightarrow> json \<Rightarrow> broker_step" where
  "handleRequesterRpcResponse env taskId callId status data =
     forwardToRunner env taskId (RPCResponse taskId callId status data)"

definition handleRequesterDataResponse ::
  "environment \<Rightarrow> string \<Rightarrow> string \<Rightarrow> json \<Rightarrow> broker_step" where
  "handleRequesterDataResponse env taskId requestId data =
     forwardToRunner env taskId (TaskDataResponse taskId requestId data)"

definition handleRequesterNodeTypesResponse ::
  "environment \<Rightarrow> string \<Rightarrow> string \<Rightarrow> json \<Rightarrow> broker_step" where
  "handleRequesterNodeTypesResponse env taskId requestId nodeTypes =
     forwardToRunner env taskId (NodeTypes taskId requestId nodeTypes)"

text \<open>The three questions of a runner that go on to the task's requester.\<close>

definition forwardToRequester :: "string \<Rightarrow> to_requester \<Rightarrow> broker_step" where
  "forwardToRequester taskId message b =
     (case map_of (tasks b) taskId of
        None \<Rightarrow> (b, [])
      | Some t \<Rightarrow> messageRequester (task_requester t) message b)"

definition handleRpcRequest :: "string \<Rightarrow> string \<Rightarrow> string \<Rightarrow> json \<Rightarrow> broker_step" where
  "handleRpcRequest taskId callId name params = forwardToRequester taskId (RPC taskId callId name params)"

definition handleDataRequest :: "string \<Rightarrow> string \<Rightarrow> json \<Rightarrow> broker_step" where
  "handleDataRequest taskId requestId requestParams =
     forwardToRequester taskId (TaskDataRequest taskId requestId requestParams)"

definition handleNodeTypesRequest :: "string \<Rightarrow> string \<Rightarrow> json \<Rightarrow> broker_step" where
  "handleNodeTypesRequest taskId requestId requestParams =
     forwardToRequester taskId (NodeTypesRequest taskId requestId requestParams)"

definition handleResponse :: "string \<Rightarrow> string \<Rightarrow> json \<Rightarrow> broker_step" where
  "handleResponse taskId requestId data b =
     (case map_of (tasks b) taskId of
        None \<Rightarrow> (b, [])
      | Some t \<Rightarrow> messageRunner (task_requester t) (TaskDataResponse taskId requestId data) b)"

end
