(* ===== verification/Broker_Handlers.thy ===== *)
theory Broker_Handlers
  imports Task_Broker
begin

text \<open>
  The second half of \<open>task-broker.service.ts\<close>: offers and requests, the matching, the asynchronous
  \<open>acceptOffer\<close> cut at its \<open>await\<close>s, the timers' callbacks and the handlers of incoming messages.
\<close>

section \<open>Offers\<close>

definition discardOffers :: "(task_offer \<Rightarrow> bool) \<Rightarrow> broker \<Rightarrow> broker" where
  "discardOffers shouldDiscard b =
     b\<lparr>pendingTaskOffers := filter (\<lambda>offer. \<not> shouldDiscard offer) (pendingTaskOffers b)\<rparr>"

definition expireTasks :: "environment \<Rightarrow> broker \<Rightarrow> broker" where
  "expireTasks env = discardOffers (\<lambda>offer. valid_for offer \<noteq> - 1 \<and> valid_until offer < now env)"

definition discardOffersFrom :: "string \<Rightarrow> broker \<Rightarrow> broker" where
  "discardOffersFrom runnerId = discardOffers (\<lambda>offer. offer_runner offer = runnerId)"

definition discardOffersFromUnreachableRunners :: "environment \<Rightarrow> broker \<Rightarrow> broker" where
  "discardOffersFromUnreachableRunners env b =
     discardOffers (\<lambda>offer. map_has (knownRunners b) (offer_runner offer)
                      \<and> \<not> reachable env (offer_runner offer)) b"

section \<open>Runners without a sign of life\<close>

definition reportUnresponsive :: "string \<Rightarrow> broker_step" where
  "reportUnresponsive runnerId b =
     (b, case map_of (knownRunners b) runnerId of
           Some runner \<Rightarrow> [Unresponsive runnerId (runner_task_types runner)]
         | None \<Rightarrow> [])"

definition isSilent :: "string \<Rightarrow> broker \<Rightarrow> bool" where
  "isSilent runnerId b =
     (let hasPendingOffer = list_ex (\<lambda>offer. offer_runner offer = runnerId) (pendingTaskOffers b);
          hasInFlightTask = 0 < length (getInFlightTaskIds runnerId b);
          hasAcceptanceInProgress = list_ex (\<lambda>r. r = runnerId) (map_values (runnerAcceptRejects b))
      in \<not> hasPendingOffer \<and> \<not> hasInFlightTask \<and> \<not> hasAcceptanceInProgress)"

definition flagSilentRunners :: "environment \<Rightarrow> string \<Rightarrow> broker_step" where
  "flagSilentRunners env taskType b =
     (let b = expireTasks env b
      in do_all (map (\<lambda>runner. reportUnresponsive (runner_id runner))
           (filter (\<lambda>runner. isSilent (runner_id runner) b)
             (filter (\<lambda>runner. reachable env (runner_id runner))
               (filter (\<lambda>runner. taskType \<in> set (runner_task_types runner))
                 (map_values (knownRunners b)))))) b)"

definition flagRunnerIfUnresponsive :: "string \<Rightarrow> broker_step" where
  "flagRunnerIfUnresponsive runnerId b =
     (let failures = (case map_of (consecutiveAcceptTimeouts b) runnerId of Some n \<Rightarrow> n | None \<Rightarrow> 0) + 1
      in if failures < MAX_CONSECUTIVE_ACCEPT_TIMEOUTS
         then (b\<lparr>consecutiveAcceptTimeouts := map_set runnerId failures (consecutiveAcceptTimeouts b)\<rparr>, [])
         else reportUnresponsive runnerId
                (b\<lparr>consecutiveAcceptTimeouts := map_delete runnerId (consecutiveAcceptTimeouts b)\<rparr>))"

section \<open>Requests\<close>

definition pending_index :: "string \<Rightarrow> broker \<Rightarrow> nat option" where
  "pending_index requestId b =
     find_index (\<lambda>r. request_id (request_at b r) = requestId) (pendingTaskRequests b)"

definition refreshRequestTimeout :: "nat \<Rightarrow> broker \<Rightarrow> broker" where
  "refreshRequestTimeout r b =
     (let isPending = pending_index (request_id (request_at b r)) b \<noteq> None;
          refreshes = timeout_refreshes (request_at b r)
      in if isPending \<and> refreshes < MAX_REQUEST_TIMEOUT_REFRESHES
         then setTimer (RequestTimer r)
                (clearTimer (RequestTimer r)
                  (update_request r (timeout_refreshes_update (\<lambda>_. refreshes + 1)) b))
         else b)"

definition handleRequestTimeout :: "environment \<Rightarrow> string \<Rightarrow> broker_step" where
  "handleRequestTimeout env requestId b =
     (case pending_index requestId b of
        None \<Rightarrow> (b, [])
      | Some requestIndex \<Rightarrow>
          (let r = pendingTaskRequests b ! requestIndex;
               request = request_at b r
           in do_all
             [flagSilentRunners env (request_type request),
              change (\<lambda>b. b\<lparr>pendingTaskRequests := splice1 requestIndex (pendingTaskRequests b),
                            mismatchWarned := set_delete requestId (mismatchWarned b)\<rparr>),
              change (clearTimer (RequestTimer r)),
              messageRequester (requester_id request) (RequestExpired (request_id request) Expired_timeout)] b))"

definition warnOnTaskTypeMismatch :: "nat \<Rightarrow> broker \<Rightarrow> broker" where
  "warnOnTaskTypeMismatch r b =
     (let requestId = request_id (request_at b r)
      in if length (pendingTaskOffers b) = 0 then b
         else if requestId \<in> set (mismatchWarned b) then b
         else b\<lparr>mismatchWarned := set_add requestId (mismatchWarned b)\<rparr>)"

section \<open>Matching\<close>

text \<open>\<open>acceptOffer\<close> up to its first \<open>await\<close>: the promise is created, its timer set and the runner asked.\<close>

definition startAccepting :: "broker_config \<Rightarrow> task_offer \<Rightarrow> nat \<Rightarrow> broker_step" where
  "startAccepting cfg offer r b =
     (let taskId = draw_id cfg (next_task b)
      in do_all
        [change (\<lambda>b. b\<lparr>next_task := next_task b + 1,
                       runnerAcceptRejects := map_set taskId (offer_runner offer) (runnerAcceptRejects b),
                       accepting := map_set taskId (AwaitRunner offer r False Waiting) (accepting b)\<rparr>),
         change (setTimer (RunnerAcceptTimer taskId)),
         messageRunner (offer_runner offer) (TaskOfferAccept (offer_id offer) taskId)] b)"

definition settleRequest :: "broker_config \<Rightarrow> nat \<Rightarrow> broker_step" where
  "settleRequest cfg r b =
     (if accept_in_progress (request_at b r) then (b, [])
      else case find_index (\<lambda>offer. offer_type offer = request_type (request_at b r)) (pendingTaskOffers b) of
             None \<Rightarrow> (warnOnTaskTypeMismatch r b, [])
           | Some offerIndex \<Rightarrow>
               (let offer = pendingTaskOffers b ! offerIndex
                in do_all
                  [change (update_request r (accept_in_progress_update (\<lambda>_. True))),
                   change (\<lambda>b. b\<lparr>pendingTaskOffers := splice1 offerIndex (pendingTaskOffers b),
                                 mismatchWarned := set_delete (request_id (request_at b r)) (mismatchWarned b)\<rparr>),
                   startAccepting cfg offer r] b))"

definition settleTasks :: "broker_config \<Rightarrow> environment \<Rightarrow> broker_step" where
  "settleTasks cfg env b =
     (let b = discardOffersFromUnreachableRunners env (expireTasks env b)
      in do_all (map (settleRequest cfg) (pendingTaskRequests b)) b)"

definition taskRequested :: "broker_config \<Rightarrow> environment \<Rightarrow> nat \<Rightarrow> broker_step" where
  "taskRequested cfg env r b =
     (if isDraining b
      then do_all
        [change (clearTimer (RequestTimer r)),
         messageRequester (requester_id (request_at b r))
           (RequestExpired (request_id (request_at b r)) Expired_draining)] b
      else settleTasks cfg env (b\<lparr>pendingTaskRequests := pendingTaskRequests b @ [r]\<rparr>))"

definition taskOffered :: "broker_config \<Rightarrow> environment \<Rightarrow> task_offer \<Rightarrow> broker_step" where
  "taskOffered cfg env offer b = settleTasks cfg env (b\<lparr>pendingTaskOffers := pendingTaskOffers b @ [offer]\<rparr>)"

definition startDraining :: "broker \<Rightarrow> broker" where
  "startDraining b = b\<lparr>isDraining := True\<rparr>"

definition stopDraining :: "broker \<Rightarrow> broker" where
  "stopDraining b = b\<lparr>isDraining := False\<rparr>"

section \<open>The rest of \<open>acceptOffer\<close>\<close>

definition set_acceptance :: "string \<Rightarrow> acceptance \<Rightarrow> broker \<Rightarrow> broker" where
  "set_acceptance taskId a b = b\<lparr>accepting := map_set taskId a (accepting b)\<rparr>"

text \<open>A call that goes on is not suspended; it is put back where it comes to another \<open>await\<close>.\<close>

definition take_acceptance :: "string \<Rightarrow> broker \<Rightarrow> broker" where
  "take_acceptance taskId b = b\<lparr>accepting := map_delete taskId (accepting b)\<rparr>"

text \<open>The runner has accepted.\<close>

definition runnerAccepted :: "string \<Rightarrow> task_offer \<Rightarrow> nat \<Rightarrow> broker_step" where
  "runnerAccepted taskId offer r b =
     (let request = request_at b r;
          newTask = \<lparr>task_id = taskId, task_runner_id = offer_runner offer,
                     task_requester = requester_id request, task_type = offer_type offer\<rparr>;
          b = clearTimer (RequestTimer r) (clearTimer (RunnerAcceptTimer taskId) b);
          b = b\<lparr>tasks := map_set taskId newTask (tasks b)\<rparr>
      in case pending_index (request_id request) b of
           None \<Rightarrow>
             cancelTask taskId ''Task request expired'' b
         | Some requestIndex \<Rightarrow>
             do_all
               [change (\<lambda>b. b\<lparr>pendingTaskRequests := splice1 requestIndex (pendingTaskRequests b),
                              requesterAcceptRejects := set_add taskId (requesterAcceptRejects b)\<rparr>),
                change (setTimer (RequesterAcceptTimer taskId)),
                change (set_acceptance taskId (AwaitRequester r False Waiting)),
                messageRequester (requester_id request) (TaskReady (request_id request) taskId)] b)"

text \<open>The runner has refused, put off the task, or not answered in time.\<close>

definition runnerFailed ::
  "broker_config \<Rightarrow> environment \<Rightarrow> string \<Rightarrow> task_offer \<Rightarrow> nat \<Rightarrow> accept_error \<Rightarrow> broker_step" where
  "runnerFailed cfg env taskId offer r e b =
     (let b = update_request r (accept_in_progress_update (\<lambda>_. False)) b
      in case e of
           Rejected reason \<Rightarrow>
             do_all [settleTasks cfg env, change (clearTimer (RunnerAcceptTimer taskId))] b
         | Deferred \<Rightarrow>
             do_all [change (refreshRequestTimeout r), change (clearTimer (RunnerAcceptTimer taskId))] b
         | RunnerTimeout \<Rightarrow>
             do_all
               [change (\<lambda>b. b\<lparr>runnerAcceptRejects := map_delete taskId (runnerAcceptRejects b)\<rparr>),
                change (refreshRequestTimeout r),
                change (set_acceptance taskId (AwaitCancelSent offer)),
                messageRunner (offer_runner offer) (TaskCancel taskId ''Acknowledgement window elapsed'')] b
         | RequesterTimeout \<Rightarrow> (clearTimer (RunnerAcceptTimer taskId) b, [Rethrown e]))"

text \<open>The cancellation has gone out to the runner that did not answer.\<close>

definition afterCancelSent ::
  "broker_config \<Rightarrow> environment \<Rightarrow> string \<Rightarrow> task_offer \<Rightarrow> broker_step" where
  "afterCancelSent cfg env taskId offer =
     do_all
       [change (discardOffersFrom (offer_runner offer)),
        flagRunnerIfUnresponsive (offer_runner offer),
        settleTasks cfg env,
        change (clearTimer (RunnerAcceptTimer taskId))]"

text \<open>\<open>sendTaskSettings\<close> up to its \<open>await\<close>, with the error it throws.\<close>

definition sendTaskSettings ::
  "environment \<Rightarrow> string \<Rightarrow> json \<Rightarrow> broker \<Rightarrow> broker \<times> broker_output list \<times> task_failure option" where
  "sendTaskSettings env taskId settings b =
     (if \<not> map_has (tasks b) taskId then (b, [], None)
      else case getRunnerOrFailTask env taskId b of
             (b, os, Inl error) \<Rightarrow> (b, os, Some error)
           | (b, os, Inr runner) \<Rightarrow>
               (let b = setTimer (TaskTimer taskId) b;
                    (b, os') = messageRunner (runner_id runner) (TaskSettings taskId settings) b
                in (b, os @ os', None)))"

text \<open>The requester has sent the settings.\<close>

definition requesterAccepted :: "environment \<Rightarrow> string \<Rightarrow> json \<Rightarrow> broker_step" where
  "requesterAccepted env taskId settings b =
     (case sendTaskSettings env taskId settings b of
        (b, os, None) \<Rightarrow> (set_acceptance taskId AwaitSettingsSent b, os)
      | (b, os, Some (RunnerUnreachable _ _)) \<Rightarrow> (clearTimer (RequesterAcceptTimer taskId) b, os)
      | (b, os, Some error) \<Rightarrow>
          (let (b, os') = cancelTask taskId ''Unknown reason'' b
           in (clearTimer (RequesterAcceptTimer taskId) b, os @ os' @ [Thrown error])))"

text \<open>The requester has refused or not answered in time.\<close>

definition requesterFailed :: "string \<Rightarrow> accept_error \<Rightarrow> broker_step" where
  "requesterFailed taskId e =
     (case e of
        Rejected reason \<Rightarrow>
          do_all [cancelTask taskId reason, change (clearTimer (RequesterAcceptTimer taskId))]
      | RequesterTimeout \<Rightarrow>
          do_all
            [change (\<lambda>b. b\<lparr>requesterAcceptRejects := set_delete taskId (requesterAcceptRejects b)\<rparr>),
             cancelTask taskId ''Requester took too long to acknowledge the task'',
             change (clearTimer (RequesterAcceptTimer taskId))]
      | _ \<Rightarrow>
          do_all [cancelTask taskId ''Unknown reason'', change (clearTimer (RequesterAcceptTimer taskId)),
                  emit [Rethrown e]])"

text \<open>The message to the requester or the settings could not be sent.\<close>

definition requesterSendFailed :: "string \<Rightarrow> broker_step" where
  "requesterSendFailed taskId =
     do_all [cancelTask taskId ''Unknown reason'',
             change (clearTimer (RequesterAcceptTimer taskId)), emit [SendFailed]]"

text \<open>The promise that a call awaits is settled: the call goes on.\<close>

definition resume :: "broker_config \<Rightarrow> environment \<Rightarrow> string \<Rightarrow> broker_step" where
  "resume cfg env taskId b =
     (case map_of (accepting b) taskId of
        Some (AwaitRunner offer r True (Resolved _)) \<Rightarrow>
          runnerAccepted taskId offer r (take_acceptance taskId b)
      | Some (AwaitRunner offer r True (Failed e)) \<Rightarrow>
          runnerFailed cfg env taskId offer r e (take_acceptance taskId b)
      | Some (AwaitRequester r True (Resolved settings)) \<Rightarrow>
          requesterAccepted env taskId settings (take_acceptance taskId b)
      | Some (AwaitRequester r True (Failed e)) \<Rightarrow>
          requesterFailed taskId e (take_acceptance taskId b)
      | _ \<Rightarrow> (b, []))"

text \<open>The transport has taken the message that a call sent.\<close>

definition messageSent :: "broker_config \<Rightarrow> environment \<Rightarrow> string \<Rightarrow> broker_step" where
  "messageSent cfg env taskId b =
     (case map_of (accepting b) taskId of
        Some (AwaitRunner offer r False p) \<Rightarrow> (set_acceptance taskId (AwaitRunner offer r True p) b, [])
      | Some (AwaitCancelSent offer) \<Rightarrow> afterCancelSent cfg env taskId offer (take_acceptance taskId b)
      | Some (AwaitRequester r False p) \<Rightarrow> (set_acceptance taskId (AwaitRequester r True p) b, [])
      | Some AwaitSettingsSent \<Rightarrow>
          (clearTimer (RequesterAcceptTimer taskId) (take_acceptance taskId b), [])
      | _ \<Rightarrow> (b, []))"

text \<open>The transport has thrown instead.\<close>

definition sendFailed :: "string \<Rightarrow> broker_step" where
  "sendFailed taskId b =
     (case map_of (accepting b) taskId of
        Some (AwaitRunner offer r False p) \<Rightarrow>
          (clearTimer (RunnerAcceptTimer taskId)
             (update_request r (accept_in_progress_update (\<lambda>_. False)) (take_acceptance taskId b)), [SendFailed])
      | Some (AwaitCancelSent offer) \<Rightarrow>
          (clearTimer (RunnerAcceptTimer taskId) (take_acceptance taskId b), [SendFailed])
      | Some (AwaitRequester r False p) \<Rightarrow> requesterSendFailed taskId (take_acceptance taskId b)
      | Some AwaitSettingsSent \<Rightarrow> requesterSendFailed taskId (take_acceptance taskId b)
      | _ \<Rightarrow> (b, []))"

section \<open>Settling the promises\<close>

fun settle_promise :: "'a promise \<Rightarrow> 'a promise \<Rightarrow> 'a promise" where
  "settle_promise outcome Waiting = outcome"
| "settle_promise outcome p = p"

text \<open>\<open>resolve\<close> and \<open>reject\<close> of the promise a call made; they do nothing on a promise that is settled
  or that nothing awaits any more.\<close>

definition settleRunnerPromise :: "string \<Rightarrow> unit promise \<Rightarrow> broker \<Rightarrow> broker" where
  "settleRunnerPromise taskId outcome b =
     (case map_of (accepting b) taskId of
        Some (AwaitRunner offer r sent p) \<Rightarrow>
          set_acceptance taskId (AwaitRunner offer r sent (settle_promise outcome p)) b
      | _ \<Rightarrow> b)"

definition settleRequesterPromise :: "string \<Rightarrow> json promise \<Rightarrow> broker \<Rightarrow> broker" where
  "settleRequesterPromise taskId outcome b =
     (case map_of (accepting b) taskId of
        Some (AwaitRequester r sent p) \<Rightarrow>
          set_acceptance taskId (AwaitRequester r sent (settle_promise outcome p)) b
      | _ \<Rightarrow> b)"

definition answerRunnerPromise :: "string \<Rightarrow> unit promise \<Rightarrow> broker \<Rightarrow> broker" where
  "answerRunnerPromise taskId outcome b =
     (case map_of (runnerAcceptRejects b) taskId of
        None \<Rightarrow> b
      | Some runnerId \<Rightarrow>
          (let b = b\<lparr>consecutiveAcceptTimeouts := map_delete runnerId (consecutiveAcceptTimeouts b)\<rparr>;
               b = settleRunnerPromise taskId outcome b
           in b\<lparr>runnerAcceptRejects := map_delete taskId (runnerAcceptRejects b)\<rparr>))"

definition handleRunnerAccept :: "string \<Rightarrow> broker \<Rightarrow> broker" where
  "handleRunnerAccept taskId = answerRunnerPromise taskId (Resolved ())"

definition handleRunnerReject :: "string \<Rightarrow> string \<Rightarrow> broker \<Rightarrow> broker" where
  "handleRunnerReject taskId reason = answerRunnerPromise taskId (Failed (Rejected reason))"

definition handleRunnerDeferred :: "string \<Rightarrow> broker \<Rightarrow> broker" where
  "handleRunnerDeferred taskId = answerRunnerPromise taskId (Failed Deferred)"

definition answerRequesterPromise :: "string \<Rightarrow> json promise \<Rightarrow> broker \<Rightarrow> broker" where
  "answerRequesterPromise taskId outcome b =
     (if taskId \<in> set (requesterAcceptRejects b)
      then (settleRequesterPromise taskId outcome b)
             \<lparr>requesterAcceptRejects := set_delete taskId (requesterAcceptRejects b)\<rparr>
      else b)"

definition handleRequesterAccept :: "string \<Rightarrow> json \<Rightarrow> broker \<Rightarrow> broker" where
  "handleRequesterAccept taskId settings = answerRequesterPromise taskId (Resolved settings)"

definition handleRequesterReject :: "string \<Rightarrow> string \<Rightarrow> broker \<Rightarrow> broker" where
  "handleRequesterReject taskId reason = answerRequesterPromise taskId (Failed (Rejected reason))"

section \<open>Runners and requesters come and go\<close>

definition registerRunner :: "task_runner \<Rightarrow> broker_step" where
  "registerRunner runner =
     do_all [change (\<lambda>b. b\<lparr>knownRunners := map_set (runner_id runner) runner (knownRunners b)\<rparr>),
             messageRunner (runner_id runner) RunnerRegistered]"

definition deregisterRunner :: "string \<Rightarrow> string \<Rightarrow> broker_step" where
  "deregisterRunner runnerId message b =
     (let b = b\<lparr>knownRunners := map_delete runnerId (knownRunners b),
                consecutiveAcceptTimeouts := map_delete runnerId (consecutiveAcceptTimeouts b)\<rparr>;
          b = discardOffersFrom runnerId b;
          reason = ''The Task Runner ('' @ runnerId @ '') has disconnected: '' @ message;
          b = fold (\<lambda>(taskId, r) b. if r = runnerId then handleRunnerReject taskId reason b else b)
                (runnerAcceptRejects b) b
      in failTasks (getInFlightTaskIds runnerId b) (Disconnected message) b)"

definition registerRequester :: "string \<Rightarrow> broker \<Rightarrow> broker" where
  "registerRequester requesterId b = b\<lparr>requesters := set_add requesterId (requesters b)\<rparr>"

definition deregisterRequester :: "string \<Rightarrow> broker \<Rightarrow> broker" where
  "deregisterRequester requesterId b = b\<lparr>requesters := set_delete requesterId (requesters b)\<rparr>"

section \<open>Incoming messages\<close>

definition onRunnerMessage :: "broker_config \<Rightarrow> environment \<Rightarrow> string \<Rightarrow> runner_message \<Rightarrow> broker_step" where
  "onRunnerMessage cfg env runnerId message b =
     (if \<not> map_has (knownRunners b) runnerId then (b, [])
      else (case message of
          RunnerTaskAccepted taskId \<Rightarrow> change (handleRunnerAccept taskId)
        | RunnerTaskRejected taskId reason \<Rightarrow> change (handleRunnerReject taskId reason)
        | RunnerTaskDeferred taskId \<Rightarrow> change (handleRunnerDeferred taskId)
        | RunnerTaskOffer offerId taskType validFor \<Rightarrow>
            taskOffered cfg env \<lparr>offer_id = offerId, offer_runner = runnerId, offer_type = taskType,
              valid_for = validFor,
              valid_until = (if validFor = - 1 then 0 else now env + validFor * 1000000)\<rparr>
        | RunnerTaskDone taskId data \<Rightarrow> taskDoneHandler taskId data
        | RunnerTaskError taskId error \<Rightarrow> taskErrorHandler taskId (RunnerError error)
        | RunnerTaskDataRequest taskId requestId requestParams \<Rightarrow>
            handleDataRequest taskId requestId requestParams
        | RunnerNodeTypesRequest taskId requestId requestParams \<Rightarrow>
            handleNodeTypesRequest taskId requestId requestParams
        | RunnerRPC taskId callId name params \<Rightarrow> handleRpcRequest taskId callId name params
        | RunnerInfo name types \<Rightarrow> no_step) b)"

text \<open>The object of a new request, whose timer runs before the broker sees it.\<close>

definition newRequest :: "string \<Rightarrow> string \<Rightarrow> string \<Rightarrow> broker \<Rightarrow> broker" where
  "newRequest taskType requestId requesterId b =
     setTimer (RequestTimer (length (request_objects b)))
       (b\<lparr>request_objects := request_objects b @
            [\<lparr>request_id = requestId, requester_id = requesterId, request_type = taskType,
              accept_in_progress = False, timeout_refreshes = 0\<rparr>]\<rparr>)"

definition onRequesterMessage ::
  "broker_config \<Rightarrow> environment \<Rightarrow> string \<Rightarrow> requester_message \<Rightarrow> broker_step" where
  "onRequesterMessage cfg env requesterId message =
     (case message of
        RequesterTaskSettings taskId settings \<Rightarrow> change (handleRequesterAccept taskId settings)
      | RequesterTaskCancel taskId reason \<Rightarrow> cancelTask taskId reason
      | RequesterTaskRequest requestId taskType \<Rightarrow>
          (\<lambda>b. taskRequested cfg env (length (request_objects b)) (newRequest taskType requestId requesterId b))
      | RequesterDataResponse taskId requestId data \<Rightarrow>
          handleRequesterDataResponse env taskId requestId data
      | RequesterNodeTypesResponse taskId requestId nodeTypes \<Rightarrow>
          handleRequesterNodeTypesResponse env taskId requestId nodeTypes
      | RequesterRPCResponse taskId callId status data \<Rightarrow>
          handleRequesterRpcResponse env taskId callId status data)"

section \<open>Timers\<close>

definition taskTimedOut :: "broker_config \<Rightarrow> string \<Rightarrow> broker_step" where
  "taskTimedOut cfg taskId =
     taskErrorHandler taskId
       (ExecutionTimeout (task_timeout cfg) (\<not> cloud_broker cfg) (mode_of_runners cfg))"

definition handleTaskTimeout :: "broker_config \<Rightarrow> string \<Rightarrow> broker_step" where
  "handleTaskTimeout cfg taskId b =
     (case map_of (tasks b) taskId of
        None \<Rightarrow> (b, [])
      | Some t \<Rightarrow>
          (case mode_of_runners cfg of
             Internal \<Rightarrow>
               do_all
                 [emit [TimedOutDuringTask (task_runner_id t)
                    (case map_of (knownRunners b) (task_runner_id t) of
                       Some runner \<Rightarrow> runner_task_types runner | None \<Rightarrow> [])],
                  taskTimedOut cfg taskId] b
           | External \<Rightarrow>
               do_all
                 [change (\<lambda>b. b\<lparr>timing_out := set_add taskId (timing_out b)\<rparr>),
                  messageRunner (task_runner_id t) (TaskCancel taskId ''Task execution timed out'')] b))"

text \<open>The cancellation of a task that timed out has gone out, or the transport has thrown.\<close>

definition timeoutCancelSent :: "broker_config \<Rightarrow> string \<Rightarrow> broker_step" where
  "timeoutCancelSent cfg taskId b =
     (if taskId \<in> set (timing_out b)
      then taskTimedOut cfg taskId (b\<lparr>timing_out := set_delete taskId (timing_out b)\<rparr>)
      else (b, []))"

definition timeoutCancelFailed :: "string \<Rightarrow> broker_step" where
  "timeoutCancelFailed taskId b =
     (if taskId \<in> set (timing_out b)
      then (b\<lparr>timing_out := set_delete taskId (timing_out b)\<rparr>, [SendFailed])
      else (b, []))"

text \<open>A timer fires: it is gone, and its callback runs.\<close>

definition fireTimer :: "broker_config \<Rightarrow> environment \<Rightarrow> timer \<Rightarrow> broker_step" where
  "fireTimer cfg env t b =
     (let b = b\<lparr>timers := remove1 t (timers b)\<rparr>
      in (case t of
            RequestTimer r \<Rightarrow> handleRequestTimeout env (request_id (request_at b r)) b
          | RunnerAcceptTimer taskId \<Rightarrow> (settleRunnerPromise taskId (Failed RunnerTimeout) b, [])
          | RequesterAcceptTimer taskId \<Rightarrow> (settleRequesterPromise taskId (Failed RequesterTimeout) b, [])
          | TaskTimer taskId \<Rightarrow> handleTaskTimeout cfg taskId b))"

section \<open>The broker as a machine\<close>

datatype broker_call =
    RegisterRunner task_runner
  | DeregisterRunner string string
  | RegisterRequester string
  | DeregisterRequester string
  | FromRunner string runner_message
  | FromRequester string requester_message
  | TimerFires timer
  | Resume string
  | MessageSent string
  | MessageFailed string
  | TimeoutCancelSent string
  | TimeoutCancelFailed string
  | StartDraining
  | StopDraining

fun exec_broker :: "broker_config \<Rightarrow> environment \<times> broker_call \<Rightarrow> broker_step" where
  "exec_broker cfg (env, RegisterRunner runner) = registerRunner runner"
| "exec_broker cfg (env, DeregisterRunner runnerId message) = deregisterRunner runnerId message"
| "exec_broker cfg (env, RegisterRequester requesterId) = change (registerRequester requesterId)"
| "exec_broker cfg (env, DeregisterRequester requesterId) = change (deregisterRequester requesterId)"
| "exec_broker cfg (env, FromRunner runnerId message) = onRunnerMessage cfg env runnerId message"
| "exec_broker cfg (env, FromRequester requesterId message) = onRequesterMessage cfg env requesterId message"
| "exec_broker cfg (env, TimerFires t) = fireTimer cfg env t"
| "exec_broker cfg (env, Resume taskId) = resume cfg env taskId"
| "exec_broker cfg (env, MessageSent taskId) = messageSent cfg env taskId"
| "exec_broker cfg (env, MessageFailed taskId) = sendFailed taskId"
| "exec_broker cfg (env, TimeoutCancelSent taskId) = timeoutCancelSent cfg taskId"
| "exec_broker cfg (env, TimeoutCancelFailed taskId) = timeoutCancelFailed taskId"
| "exec_broker cfg (env, StartDraining) = change startDraining"
| "exec_broker cfg (env, StopDraining) = change stopDraining"

text \<open>Only a timer that is set can fire, and a requester draws a new id for every request.\<close>

fun broker_ok :: "environment \<times> broker_call \<Rightarrow> broker \<Rightarrow> bool" where
  "broker_ok (env, TimerFires t) b \<longleftrightarrow> t \<in> set (timers b)"
| "broker_ok (env, FromRequester requesterId (RequesterTaskRequest requestId taskType)) b \<longleftrightarrow>
     requestId \<notin> set (map request_id (request_objects b))"
| "broker_ok _ b \<longleftrightarrow> True"

end
