(* ===== verification/Broker_Invariants.thy ===== *)
theory Broker_Invariants
  imports Broker_Handlers
begin

text \<open>
  What every state of the task broker satisfies, and that every step keeps it: a pending request is
  being accepted exactly while one suspended \<open>acceptOffer\<close> waits for a runner on its behalf, whatever
  waits has a timer that ends the wait, the counters stay below their limits, and a task yields at
  most one result.
\<close>

section \<open>What the steps do to the state\<close>

named_theorems broker_steps

lemma fst_then_do [broker_steps]: "fst (then_do f g b) = fst (g (fst (f b)))"
  by (simp add: then_do_def split_beta Let_def)

lemma snd_then_do [broker_steps]: "snd (then_do f g b) = snd (f b) @ snd (g (fst (f b)))"
  by (simp add: then_do_def split_beta Let_def)

lemma primitive_steps [broker_steps]:
  "no_step b = (b, [])" "change f b = (f b, [])" "emit os b = (b, os)"
  by (simp_all add: no_step_def change_def emit_def)

lemma message_steps [broker_steps]:
  "fst (messageRunner runnerId m b) = b" "fst (messageRequester requesterId m' b) = b"
  by (simp_all add: messageRunner_def messageRequester_def)

lemma report_steps [broker_steps]: "fst (reportUnresponsive runnerId b) = b"
  by (simp add: reportUnresponsive_def)

lemma do_all_const: "(\<And>f b. f \<in> set fs \<Longrightarrow> fst (f b) = b) \<Longrightarrow> fst (do_all fs b) = b"
  by (induction fs arbitrary: b) (auto simp: broker_steps)

definition untracked :: "string \<Rightarrow> broker \<Rightarrow> broker" where
  "untracked taskId b = b\<lparr>tasks := map_delete taskId (tasks b),
     timers := if map_has (tasks b) taskId then removeAll (TaskTimer taskId) (timers b) else timers b\<rparr>"

lemma untrackTask_eq: "untrackTask taskId b = (untracked taskId b, map_of (tasks b) taskId)"
proof (cases "map_of (tasks b) taskId")
  case None
  then have "map_delete taskId (tasks b) = tasks b"
    by (simp add: AList.delete_eq filter_id_conv map_of_eq_None_iff) force
  with None show ?thesis by (simp add: untrackTask_def untracked_def map_has_def)
next
  case (Some t)
  then show ?thesis by (simp add: untrackTask_def untracked_def map_has_def clearTimer_def)
qed

lemma untrack_steps [broker_steps]:
  "fst (cancelTask taskId reason b) = untracked taskId b"
  "fst (failTask taskId error b) = untracked taskId b"
  "fst (taskDoneHandler taskId data b) = untracked taskId b"
  "fst (taskErrorHandler taskId error b) = untracked taskId b"
  by (simp_all add: cancelTask_def failTask_def taskDoneHandler_def taskErrorHandler_def
      untrackTask_eq broker_steps split: option.split)

lemma forward_steps [broker_steps]: "fst (forwardToRequester taskId m b) = b"
  by (simp add: forwardToRequester_def broker_steps split: option.split)

definition runner_fails :: "environment \<Rightarrow> string \<Rightarrow> broker \<Rightarrow> bool" where
  "runner_fails env taskId b \<longleftrightarrow> (case map_of (tasks b) taskId of None \<Rightarrow> False
     | Some t \<Rightarrow> \<not> map_has (knownRunners b) (task_runner_id t) \<or> \<not> reachable env (task_runner_id t))"

lemma getRunner_step [broker_steps]:
  "fst (getRunnerOrFailTask env taskId b) = (if runner_fails env taskId b then untracked taskId b else b)"
  by (auto simp: getRunnerOrFailTask_def runner_fails_def map_has_def broker_steps Let_def split_beta
      split: option.split)

lemma forwardToRunner_step [broker_steps]:
  "fst (forwardToRunner env taskId m b)
     = (if map_has (tasks b) taskId \<and> runner_fails env taskId b then untracked taskId b else b)"
proof -
  obtain b' os r where get: "getRunnerOrFailTask env taskId b = (b', os, r)" by (metis prod_cases3)
  with getRunner_step [of env taskId b] show ?thesis
    by (auto simp: forwardToRunner_def message_steps split_beta Let_def split: sum.split)
qed

section \<open>The invariant\<close>

definition awaits :: "broker \<Rightarrow> string \<Rightarrow> nat \<Rightarrow> bool" where
  "awaits b t r \<longleftrightarrow> (\<exists>offer sent p. map_of (accepting b) t = Some (AwaitRunner offer r sent p))"

definition requests_inv :: "broker \<Rightarrow> bool" where
  "requests_inv b \<longleftrightarrow> distinct (pendingTaskRequests b)
     \<and> (\<forall>r \<in> set (pendingTaskRequests b). r < length (request_objects b))
     \<and> distinct (map request_id (request_objects b))"

definition acceptance_inv :: "broker \<Rightarrow> bool" where
  "acceptance_inv b \<longleftrightarrow>
     (\<forall>t r. awaits b t r \<longrightarrow> r < length (request_objects b))
     \<and> (\<forall>t t' r. awaits b t r \<longrightarrow> awaits b t' r \<longrightarrow> t = t')
     \<and> (\<forall>r \<in> set (pendingTaskRequests b). accept_in_progress (request_at b r) \<longleftrightarrow> (\<exists>t. awaits b t r))"

definition drawn :: "broker_config \<Rightarrow> broker \<Rightarrow> string set" where
  "drawn cfg b = draw_id cfg ` {..<next_task b}"

definition ids_inv :: "broker_config \<Rightarrow> broker \<Rightarrow> bool" where
  "ids_inv cfg b \<longleftrightarrow>
     (\<forall>t. map_of (accepting b) t \<noteq> None \<or> map_of (tasks b) t \<noteq> None \<longrightarrow> t \<in> drawn cfg b)
     \<and> (\<forall>t r. awaits b t r \<longrightarrow> map_of (tasks b) t = None)
     \<and> (\<forall>t k. map_of (tasks b) t = Some k \<longrightarrow> task_id k = t)"

definition timers_inv :: "broker \<Rightarrow> bool" where
  "timers_inv b \<longleftrightarrow>
     (\<forall>r \<in> set (pendingTaskRequests b). RequestTimer r \<in> set (timers b))
     \<and> (\<forall>r. RequestTimer r \<in> set (timers b) \<longrightarrow> r < length (request_objects b))
     \<and> (\<forall>t offer r sent. map_of (accepting b) t = Some (AwaitRunner offer r sent Waiting)
          \<longrightarrow> RunnerAcceptTimer t \<in> set (timers b))
     \<and> (\<forall>t r sent. map_of (accepting b) t = Some (AwaitRequester r sent Waiting)
          \<longrightarrow> RequesterAcceptTimer t \<in> set (timers b))"

definition bounds_inv :: "broker \<Rightarrow> bool" where
  "bounds_inv b \<longleftrightarrow>
     (\<forall>request \<in> set (request_objects b). timeout_refreshes request \<le> MAX_REQUEST_TIMEOUT_REFRESHES)
     \<and> (\<forall>r n. map_of (consecutiveAcceptTimeouts b) r = Some n \<longrightarrow> n < MAX_CONSECUTIVE_ACCEPT_TIMEOUTS)"

definition broker_inv :: "broker_config \<Rightarrow> broker \<Rightarrow> bool" where
  "broker_inv cfg b \<longleftrightarrow> requests_inv b \<and> acceptance_inv b \<and> ids_inv cfg b \<and> timers_inv b \<and> bounds_inv b"

lemmas broker_inv_defs =
  broker_inv_def requests_inv_def acceptance_inv_def ids_inv_def timers_inv_def bounds_inv_def

lemma new_broker_inv: "new_broker cfg = Inr b \<Longrightarrow> broker_inv cfg b"
  by (auto simp: new_broker_def broker_inv_defs awaits_def split: if_splits)

text \<open>Fields that the invariant does not read.\<close>

lemma inv_frame [simp]:
  "broker_inv cfg (b\<lparr>knownRunners := x1\<rparr>) = broker_inv cfg b"
  "broker_inv cfg (b\<lparr>requesters := x2\<rparr>) = broker_inv cfg b"
  "broker_inv cfg (b\<lparr>isDraining := x3\<rparr>) = broker_inv cfg b"
  "broker_inv cfg (b\<lparr>runnerAcceptRejects := x4\<rparr>) = broker_inv cfg b"
  "broker_inv cfg (b\<lparr>requesterAcceptRejects := x5\<rparr>) = broker_inv cfg b"
  "broker_inv cfg (b\<lparr>pendingTaskOffers := x6\<rparr>) = broker_inv cfg b"
  "broker_inv cfg (b\<lparr>mismatchWarned := x7\<rparr>) = broker_inv cfg b"
  "broker_inv cfg (b\<lparr>timing_out := x8\<rparr>) = broker_inv cfg b"
  by (simp_all add: broker_inv_defs awaits_def drawn_def request_at_def)

lemma discard_frame [simp]:
  "broker_inv cfg (discardOffers p b) = broker_inv cfg b"
  "broker_inv cfg (expireTasks env b) = broker_inv cfg b"
  "broker_inv cfg (discardOffersFrom r b) = broker_inv cfg b"
  "broker_inv cfg (discardOffersFromUnreachableRunners env b) = broker_inv cfg b"
  by (simp_all add: discardOffers_def expireTasks_def discardOffersFrom_def discardOffersFromUnreachableRunners_def)

text \<open>Forgetting a counter, untracking a task, setting a timer.\<close>

lemma inv_forget_count:
  "broker_inv cfg b \<Longrightarrow>
   broker_inv cfg (b\<lparr>consecutiveAcceptTimeouts := map_delete r (consecutiveAcceptTimeouts b)\<rparr>)"
  by (auto simp: broker_inv_defs awaits_def drawn_def request_at_def split: if_splits)

lemma inv_untracked: "broker_inv cfg b \<Longrightarrow> broker_inv cfg (untracked t b)"
  by (simp add: broker_inv_defs awaits_def drawn_def request_at_def untracked_def)

lemma inv_setTimer:
  "broker_inv cfg b \<Longrightarrow> (\<And>r. t = RequestTimer r \<Longrightarrow> r < length (request_objects b)) \<Longrightarrow>
   broker_inv cfg (setTimer t b)"
  by (auto simp add: broker_inv_defs awaits_def drawn_def request_at_def setTimer_def)

text \<open>A new acceptance for a pending request that none stands for.\<close>

definition started :: "string \<Rightarrow> task_offer \<Rightarrow> nat \<Rightarrow> broker \<Rightarrow> broker" where
  "started t offer r b = b\<lparr>request_objects := (request_objects b)[r := (request_at b r)\<lparr>accept_in_progress := True\<rparr>],
     next_task := next_task b + 1,
     accepting := map_set t (AwaitRunner offer r False Waiting) (accepting b),
     timers := timers b @ [RunnerAcceptTimer t]\<rparr>"

text \<open>An acceptance that is over, its request free again.\<close>

definition freed :: "string \<Rightarrow> nat \<Rightarrow> broker \<Rightarrow> broker" where
  "freed t r b = b\<lparr>request_objects := (request_objects b)[r := (request_at b r)\<lparr>accept_in_progress := False\<rparr>],
     accepting := map_delete t (accepting b)\<rparr>"

lemma drawn_fresh:
  assumes "inj (draw_id cfg)"
  shows "draw_id cfg (next_task b) \<notin> drawn cfg b"
  using assms by (auto simp: drawn_def inj_eq)

lemma request_ids_update:
  "request_id q = request_id (xs ! r) \<Longrightarrow> map request_id (xs[r := q]) = map request_id xs"
  by (simp add: map_update) (metis list_update_id list_update_beyond map_update not_less)

lemma refreshes_update:
  assumes "\<forall>q \<in> set xs. timeout_refreshes q \<le> k" and "r < length xs \<Longrightarrow> timeout_refreshes q' \<le> k"
  shows "\<forall>q \<in> set (xs[r := q']). timeout_refreshes q \<le> k"
proof (cases "r < length xs")
  case True
  with assms show ?thesis using set_update_subset_insert [of xs r q'] by auto
qed (use assms in \<open>simp add: list_update_beyond\<close>)

lemma inv_started:
  assumes inv: "broker_inv cfg b" and inj: "inj (draw_id cfg)" and r: "r \<in> set (pendingTaskRequests b)"
    and free: "\<not> accept_in_progress (request_at b r)"
  shows "broker_inv cfg (started (draw_id cfg (next_task b)) offer r b)"
proof -
  let ?t = "draw_id cfg (next_task b)" and ?b = "started (draw_id cfg (next_task b)) offer r b"
  have fresh: "map_of (accepting b) ?t = None" "map_of (tasks b) ?t = None"
    using inv drawn_fresh [OF inj, of b] by (auto simp: broker_inv_def ids_inv_def)
  have len: "r < length (request_objects b)" using inv r by (auto simp: broker_inv_def requests_inv_def)
  have awaits: "awaits ?b t r' \<longleftrightarrow> (if t = ?t then r' = r else awaits b t r')" for t r'
    by (auto simp: awaits_def started_def)
  have none: "\<not> awaits b t r" for t
    using inv r free by (auto simp: broker_inv_def acceptance_inv_def)
  have new: "\<not> awaits b ?t r'" for r' using fresh by (simp add: awaits_def)
  have drawn: "drawn cfg ?b = insert ?t (drawn cfg b)"
    by (auto simp: drawn_def started_def less_Suc_eq)
  have at: "request_at ?b r' = (if r' = r then (request_at b r)\<lparr>accept_in_progress := True\<rparr> else request_at b r')" for r'
    using len by (simp add: request_at_def started_def)
  have "requests_inv ?b"
    using inv by (simp add: broker_inv_def requests_inv_def started_def request_ids_update request_at_def)
  moreover have "acceptance_inv ?b"
  proof -
    have "accept_in_progress (request_at ?b r') \<longleftrightarrow> (\<exists>t. awaits ?b t r')"
      if "r' \<in> set (pendingTaskRequests b)" for r'
    proof (cases "r' = r")
      case True
      then show ?thesis by (auto simp: at awaits)
    next
      case False
      have "(\<exists>t. awaits ?b t r') \<longleftrightarrow> (\<exists>t. awaits b t r')"
        using False new by (auto simp: awaits) metis
      with that inv False show ?thesis by (simp add: at broker_inv_def acceptance_inv_def)
    qed
    with inv none len show ?thesis unfolding acceptance_inv_def awaits
      by (auto simp: broker_inv_def acceptance_inv_def started_def split: if_splits)
  qed
  moreover have "ids_inv cfg ?b"
    using inv fresh unfolding ids_inv_def drawn awaits
    by (auto simp: broker_inv_def ids_inv_def started_def split: if_splits)
  moreover have "timers_inv ?b"
    using inv by (auto simp: broker_inv_def timers_inv_def started_def split: if_splits)
  moreover have "bounds_inv ?b"
  proof -
    have "\<forall>q \<in> set ((request_objects b)[r := (request_at b r)\<lparr>accept_in_progress := True\<rparr>]).
        timeout_refreshes q \<le> MAX_REQUEST_TIMEOUT_REFRESHES"
      using inv len
      by (intro refreshes_update) (auto simp: broker_inv_def bounds_inv_def request_at_def)
    with inv show ?thesis by (simp add: broker_inv_def bounds_inv_def started_def)
  qed
  ultimately show ?thesis by (simp add: broker_inv_def)
qed

lemma inv_freed:
  assumes inv: "broker_inv cfg b" and t: "awaits b t r"
  shows "broker_inv cfg (freed t r b)"
proof -
  let ?b = "freed t r b"
  have len: "r < length (request_objects b)" using inv t by (auto simp: broker_inv_def acceptance_inv_def)
  have only: "awaits b t' r \<Longrightarrow> t' = t" for t'
    using inv t by (auto simp: broker_inv_def acceptance_inv_def)
  have r': "awaits b t r' \<Longrightarrow> r' = r" for r' using t by (auto simp: awaits_def)
  have awaits: "awaits ?b t' r' \<longleftrightarrow> t' \<noteq> t \<and> awaits b t' r'" for t' r'
    by (simp add: awaits_def freed_def)
  have at: "request_at ?b r' = (if r' = r then (request_at b r)\<lparr>accept_in_progress := False\<rparr> else request_at b r')" for r'
    using len by (simp add: request_at_def freed_def)
  have "requests_inv ?b"
    using inv by (simp add: broker_inv_def requests_inv_def freed_def request_ids_update request_at_def)
  moreover have "acceptance_inv ?b"
  proof -
    have "accept_in_progress (request_at ?b r1) \<longleftrightarrow> (\<exists>t'. awaits ?b t' r1)"
      if "r1 \<in> set (pendingTaskRequests b)" for r1
    proof (cases "r1 = r")
      case True
      then show ?thesis using only by (auto simp: at awaits)
    next
      case False
      have "(\<exists>t'. awaits ?b t' r1) \<longleftrightarrow> (\<exists>t'. awaits b t' r1)"
        using False r' by (metis awaits)
      with that inv False show ?thesis by (simp add: at broker_inv_def acceptance_inv_def)
    qed
    with inv show ?thesis unfolding acceptance_inv_def awaits
      by (auto simp: broker_inv_def acceptance_inv_def freed_def)
  qed
  moreover have "ids_inv cfg ?b"
    using inv unfolding ids_inv_def awaits
    by (auto simp: broker_inv_def ids_inv_def freed_def drawn_def)
  moreover have "timers_inv ?b"
    using inv by (auto simp: broker_inv_def timers_inv_def freed_def)
  moreover have "bounds_inv ?b"
  proof -
    have "\<forall>q \<in> set ((request_objects b)[r := (request_at b r)\<lparr>accept_in_progress := False\<rparr>]).
        timeout_refreshes q \<le> MAX_REQUEST_TIMEOUT_REFRESHES"
      using inv len
      by (intro refreshes_update) (auto simp: broker_inv_def bounds_inv_def request_at_def)
    with inv show ?thesis by (simp add: broker_inv_def bounds_inv_def freed_def)
  qed
  ultimately show ?thesis by (simp add: broker_inv_def)
qed

text \<open>A task that its runner has accepted, the request no longer pending.\<close>

definition tracked :: "string \<Rightarrow> task \<Rightarrow> nat \<Rightarrow> broker \<Rightarrow> broker" where
  "tracked t k r b = b\<lparr>accepting := map_delete t (accepting b),
     timers := removeAll (RequestTimer r) (removeAll (RunnerAcceptTimer t) (timers b)),
     tasks := map_set t k (tasks b), pendingTaskRequests := filter (\<lambda>x. x \<noteq> r) (pendingTaskRequests b)\<rparr>"

lemma inv_tracked:
  assumes inv: "broker_inv cfg b" and t: "awaits b t r" and k: "task_id k = t"
  shows "broker_inv cfg (tracked t k r b)"
proof -
  let ?b = "tracked t k r b"
  have r': "awaits b t r' \<Longrightarrow> r' = r" for r' using t by (auto simp: awaits_def)
  have awaits: "awaits ?b t' r' \<longleftrightarrow> t' \<noteq> t \<and> awaits b t' r'" for t' r'
    by (simp add: awaits_def tracked_def)
  have at: "request_at ?b x = request_at b x" for x by (simp add: request_at_def tracked_def)
  have drawn: "drawn cfg ?b = drawn cfg b" by (simp add: drawn_def tracked_def)
  have "requests_inv ?b"
    using inv by (simp add: broker_inv_def requests_inv_def tracked_def)
  moreover have "acceptance_inv ?b"
  proof -
    have "accept_in_progress (request_at ?b r1) \<longleftrightarrow> (\<exists>t'. awaits ?b t' r1)"
      if "r1 \<in> set (pendingTaskRequests ?b)" for r1
    proof -
      from that have "r1 \<noteq> r" "r1 \<in> set (pendingTaskRequests b)" by (auto simp: tracked_def)
      moreover from this have "(\<exists>t'. awaits ?b t' r1) \<longleftrightarrow> (\<exists>t'. awaits b t' r1)"
        using r' by (metis awaits)
      ultimately show ?thesis using inv by (simp add: at broker_inv_def acceptance_inv_def)
    qed
    with inv show ?thesis unfolding acceptance_inv_def awaits
      by (auto simp: broker_inv_def acceptance_inv_def tracked_def)
  qed
  moreover have "ids_inv cfg ?b"
  proof -
    have "t \<in> drawn cfg b" using inv t by (auto simp: broker_inv_def ids_inv_def awaits_def)
    with inv k show ?thesis unfolding ids_inv_def awaits drawn
      by (auto simp: broker_inv_def ids_inv_def tracked_def)
  qed
  moreover have "timers_inv ?b"
    using inv by (auto simp: broker_inv_def timers_inv_def tracked_def split: if_splits)
  moreover have "bounds_inv ?b" using inv by (simp add: broker_inv_def bounds_inv_def tracked_def)
  ultimately show ?thesis by (simp add: broker_inv_def)
qed

text \<open>A call that waits for the requester, or for the settings to go out.\<close>

lemma inv_suspended:
  assumes "broker_inv cfg b" and "t \<in> drawn cfg b" and "\<And>r. \<not> awaits b t r"
    and "\<And>o' r s p. a \<noteq> AwaitRunner o' r s p"
    and "\<And>r s. a = AwaitRequester r s Waiting \<Longrightarrow> RequesterAcceptTimer t \<in> set (timers b)"
  shows "broker_inv cfg (set_acceptance t a b)"
proof -
  have awaits: "awaits (set_acceptance t a b) t' r \<longleftrightarrow> awaits b t' r" for t' r
    using assms(3,4) by (auto simp: awaits_def set_acceptance_def)
  have drawn: "drawn cfg (set_acceptance t a b) = drawn cfg b" by (simp add: drawn_def set_acceptance_def)
  have at: "request_at (set_acceptance t a b) x = request_at b x" for x
    by (simp add: request_at_def set_acceptance_def)
  have "requests_inv (set_acceptance t a b)" "acceptance_inv (set_acceptance t a b)"
    "bounds_inv (set_acceptance t a b)"
    using assms(1) unfolding requests_inv_def acceptance_inv_def awaits at bounds_inv_def
    by (simp_all add: broker_inv_defs set_acceptance_def)
  moreover have "ids_inv cfg (set_acceptance t a b)"
    using assms(1,2) unfolding ids_inv_def awaits drawn by (auto simp: broker_inv_def ids_inv_def set_acceptance_def)
  moreover have "timers_inv (set_acceptance t a b)"
    using assms(1,4,5) by (auto simp: broker_inv_def timers_inv_def set_acceptance_def)
  ultimately show ?thesis by (simp add: broker_inv_def)
qed

text \<open>A suspended call that does not wait for a runner is taken up again; timers of calls that are
  not suspended, and of requests that are not pending, are cleared.\<close>

lemma inv_take: "broker_inv cfg b \<Longrightarrow> (\<And>r. \<not> awaits b t r) \<Longrightarrow> broker_inv cfg (take_acceptance t b)"
proof -
  assume inv: "broker_inv cfg b" and none: "\<And>r. \<not> awaits b t r"
  have awaits: "awaits (take_acceptance t b) t' r \<longleftrightarrow> awaits b t' r" for t' r
    using none [of r] by (auto simp: awaits_def take_acceptance_def)
  have drawn: "drawn cfg (take_acceptance t b) = drawn cfg b" by (simp add: drawn_def take_acceptance_def)
  have at: "request_at (take_acceptance t b) x = request_at b x" for x
    by (simp add: request_at_def take_acceptance_def)
  show ?thesis
    using inv unfolding broker_inv_def requests_inv_def acceptance_inv_def awaits at bounds_inv_def ids_inv_def drawn
    by (simp add: timers_inv_def take_acceptance_def)
qed

lemma inv_clearTimer:
  "broker_inv cfg b \<Longrightarrow> map_of (accepting b) t = None \<Longrightarrow>
   broker_inv cfg (clearTimer (RunnerAcceptTimer t) b) \<and> broker_inv cfg (clearTimer (RequesterAcceptTimer t) b)"
  unfolding broker_inv_def requests_inv_def acceptance_inv_def bounds_inv_def ids_inv_def
  by (auto simp: timers_inv_def clearTimer_def awaits_def request_at_def drawn_def)

text \<open>A request that is no longer pending.\<close>

definition expired :: "nat \<Rightarrow> broker \<Rightarrow> broker" where
  "expired r b = b\<lparr>timers := removeAll (RequestTimer r) (timers b),
     pendingTaskRequests := filter (\<lambda>x. x \<noteq> r) (pendingTaskRequests b)\<rparr>"

lemma inv_expired: "broker_inv cfg b \<Longrightarrow> broker_inv cfg (expired r b)"
  by (simp add: broker_inv_defs awaits_def drawn_def request_at_def expired_def)

text \<open>Which request an id finds.\<close>

lemma pending_index_self:
  assumes "requests_inv b" and "r < length (request_objects b)"
  shows "case pending_index (request_id (request_at b r)) b of
       None \<Rightarrow> r \<notin> set (pendingTaskRequests b)
     | Some i \<Rightarrow> i < length (pendingTaskRequests b) \<and> pendingTaskRequests b ! i = r
         \<and> splice1 i (pendingTaskRequests b) = filter (\<lambda>x. x \<noteq> r) (pendingTaskRequests b)"
proof -
  have same: "request_id (request_at b x) = request_id (request_at b r) \<longleftrightarrow> x = r"
    if "x \<in> set (pendingTaskRequests b)" for x
    using that assms by (auto simp: requests_inv_def request_at_def distinct_conv_nth)
  show ?thesis
  proof (cases "pending_index (request_id (request_at b r)) b")
    case None
    then have "r \<notin> set (pendingTaskRequests b)" by (auto simp: pending_index_def find_index_None)
    with None show ?thesis by simp
  next
    case (Some i)
    then obtain ys x zs where split: "pendingTaskRequests b = ys @ x # zs" "length ys = i"
      "request_id (request_at b x) = request_id (request_at b r)" "pendingTaskRequests b ! i = x"
      "splice1 i (pendingTaskRequests b) = ys @ zs"
      unfolding pending_index_def by (rule find_index_split)
    then have x: "x = r" using same [of x] by simp
    have "distinct (ys @ r # zs)" using assms(1) split(1) x by (simp add: requests_inv_def)
    then have "filter (\<lambda>x. x \<noteq> r) ys = ys" "filter (\<lambda>x. x \<noteq> r) zs = zs"
      by (auto simp: filter_id_conv)
    then have "filter (\<lambda>x. x \<noteq> r) (pendingTaskRequests b) = ys @ zs"
      unfolding split(1) x by simp
    with Some split x show ?thesis by auto
  qed
qed

section \<open>Results\<close>

text \<open>The messages that tell a requester how a task ended.\<close>

fun is_result :: "string \<Rightarrow> broker_output \<Rightarrow> bool" where
  "is_result t (ToRequester q (TaskDone t' d)) \<longleftrightarrow> t' = t"
| "is_result t (ToRequester q (TaskError t' e)) \<longleftrightarrow> t' = t"
| "is_result t _ \<longleftrightarrow> False"

definition results :: "string \<Rightarrow> broker_output list \<Rightarrow> nat" where
  "results t os = length (filter (is_result t) os)"

lemma results_simps [simp]:
  "results t [] = 0" "results t (x # os) = (if is_result t x then 1 else 0) + results t os"
  "results t (os @ os') = results t os + results t os'"
  by (simp_all add: results_def)

text \<open>How many results a task may still yield.\<close>

definition credit :: "broker_config \<Rightarrow> broker \<Rightarrow> string \<Rightarrow> nat" where
  "credit cfg b t =
     (if map_of (tasks b) t \<noteq> None \<or> (\<exists>r. awaits b t r) \<or> t \<notin> drawn cfg b then 1 else 0)"

lemma credit_frame:
  assumes "\<And>t. map_of (tasks b') t = map_of (tasks b) t" and "\<And>t r. awaits b' t r \<longleftrightarrow> awaits b t r"
    and "next_task b' = next_task b"
  shows "credit cfg b' t = credit cfg b t"
  using assms by (simp add: credit_def drawn_def)

definition keeps :: "broker_config \<Rightarrow> broker_step \<Rightarrow> broker \<Rightarrow> bool" where
  "keeps cfg f b \<longleftrightarrow> (broker_inv cfg b \<longrightarrow> broker_inv cfg (fst (f b))
     \<and> (\<forall>t. results t (snd (f b)) + credit cfg (fst (f b)) t \<le> credit cfg b t))"

lemma keeps_then:
  assumes "keeps cfg f b" and "keeps cfg g (fst (f b))"
  shows "keeps cfg (then_do f g) b"
proof -
  have "results t (snd (f b)) + results t (snd (g (fst (f b)))) + credit cfg (fst (g (fst (f b)))) t \<le> credit cfg b t"
    if "broker_inv cfg b" for t
  proof -
    from assms that have "results t (snd (f b)) + credit cfg (fst (f b)) t \<le> credit cfg b t"
      "results t (snd (g (fst (f b)))) + credit cfg (fst (g (fst (f b)))) t \<le> credit cfg (fst (f b)) t"
      by (auto simp: keeps_def)
    then show ?thesis by linarith
  qed
  with assms show ?thesis by (auto simp: keeps_def broker_steps)
qed

lemma keeps_do_all:
  assumes "P b" and "\<And>f b. f \<in> set fs \<Longrightarrow> P b \<Longrightarrow> keeps cfg f b \<and> P (fst (f b))"
  shows "keeps cfg (do_all fs) b"
  using assms
proof (induction fs arbitrary: b)
  case Nil
  show ?case by (simp add: keeps_def broker_steps)
next
  case (Cons f fs)
  from Cons.prems(2) [of f b] Cons.prems(1) have f: "keeps cfg f b" and P: "P (fst (f b))" by auto
  have "keeps cfg (do_all fs) (fst (f b))" using P Cons.prems(2) by (intro Cons.IH) auto
  with f show ?case by (simp add: keeps_then)
qed

text \<open>A step that keeps the tasks and the suspended calls, and tells no result.\<close>

lemma keeps_quiet:
  assumes "broker_inv cfg b \<Longrightarrow> broker_inv cfg (fst (f b))" and "tasks (fst (f b)) = tasks b"
    and "accepting (fst (f b)) = accepting b" and "next_task (fst (f b)) = next_task b"
    and "\<And>t. results t (snd (f b)) = 0"
  shows "keeps cfg f b"
  using assms credit_frame [of "fst (f b)" b cfg] by (simp add: keeps_def awaits_def)

lemma keeps_change:
  assumes "broker_inv cfg b \<Longrightarrow> broker_inv cfg (h b)" and "tasks (h b) = tasks b"
    and "accepting (h b) = accepting b" and "next_task (h b) = next_task b"
  shows "keeps cfg (change h) b"
  using assms by (intro keeps_quiet) (simp_all add: broker_steps)

lemma results_messageRunner [simp]: "results t (snd (messageRunner r m b)) = 0"
  by (simp add: messageRunner_def)

lemma keeps_messageRunner: "keeps cfg (messageRunner r m) b"
  by (intro keeps_quiet) (simp_all add: broker_steps)

lemma keeps_messageRequester:
  assumes "\<And>t. \<not> is_result t (ToRequester q m)"
  shows "keeps cfg (messageRequester q m) b"
  using assms by (intro keeps_quiet) (simp_all add: broker_steps messageRequester_def)

lemma keeps_report: "keeps cfg (reportUnresponsive r) b"
  by (intro keeps_quiet) (simp_all add: broker_steps reportUnresponsive_def split: option.split)

text \<open>Ending a task.\<close>

lemma credit_untracked: "broker_inv cfg b \<Longrightarrow> credit cfg (untracked t b) t' =
  (if t' = t \<and> map_of (tasks b) t \<noteq> None then 0 else credit cfg b t')"
  by (auto simp: credit_def untracked_def awaits_def drawn_def broker_inv_def ids_inv_def)

lemma keeps_untracking:
  assumes "fst (f b) = untracked t b"
    and "\<And>t'. results t' (snd (f b)) \<le> (if t' = t \<and> map_of (tasks b) t \<noteq> None then 1 else 0)"
  shows "keeps cfg f b"
  unfolding keeps_def assms(1)
proof (intro impI conjI allI)
  assume inv: "broker_inv cfg b"
  then show "broker_inv cfg (untracked t b)" by (rule inv_untracked)
  fix t'
  have "map_of (tasks b) t \<noteq> None \<Longrightarrow> credit cfg b t = 1" by (simp add: credit_def)
  with inv assms(2) [of t'] show "results t' (snd (f b)) + credit cfg (untracked t b) t' \<le> credit cfg b t'"
    by (auto simp: credit_untracked split: if_splits)
qed

lemma keeps_cancelTask: "keeps cfg (cancelTask t reason) b"
  by (rule keeps_untracking [where t = t])
    (auto simp: broker_steps cancelTask_def untrackTask_eq split: option.split)

lemma keeps_failTask: "keeps cfg (failTask t e) b"
  by (rule keeps_untracking [where t = t])
    (auto simp: broker_steps failTask_def untrackTask_eq messageRequester_def split: option.split)

lemma keeps_taskDoneHandler: "broker_inv cfg b \<Longrightarrow> keeps cfg (taskDoneHandler t d) b"
  by (rule keeps_untracking [where t = t])
    (auto simp: broker_steps taskDoneHandler_def untrackTask_eq messageRequester_def broker_inv_def ids_inv_def
      split: option.split)

lemma keeps_taskErrorHandler: "broker_inv cfg b \<Longrightarrow> keeps cfg (taskErrorHandler t e) b"
  by (rule keeps_untracking [where t = t])
    (auto simp: broker_steps taskErrorHandler_def untrackTask_eq messageRequester_def broker_inv_def ids_inv_def
      split: option.split)

end
