(* ===== verification/Broker_Steps.thy ===== *)
theory Broker_Steps
  imports Broker_Invariants
begin

text \<open>Every call of the broker machine keeps the invariant and the account of results.\<close>

section \<open>Matching\<close>

lemma settleRequest_matched:
  assumes "\<not> accept_in_progress (request_at b r)"
    and "find_index (\<lambda>offer. offer_type offer = request_type (request_at b r)) (pendingTaskOffers b) = Some i"
  shows "fst (settleRequest cfg r b) =
     (started (draw_id cfg (next_task b)) (pendingTaskOffers b ! i) r b)
       \<lparr>pendingTaskOffers := splice1 i (pendingTaskOffers b),
        mismatchWarned := mismatchWarned (fst (settleRequest cfg r b)),
        runnerAcceptRejects := map_set (draw_id cfg (next_task b)) (offer_runner (pendingTaskOffers b ! i)) (runnerAcceptRejects b)\<rparr>"
  using assms
  by (simp add: settleRequest_def startAccepting_def broker_steps Let_def update_request_def started_def
      setTimer_def)

lemma settleRequest_unmatched:
  assumes "accept_in_progress (request_at b r)
      \<or> find_index (\<lambda>offer. offer_type offer = request_type (request_at b r)) (pendingTaskOffers b) = None"
  shows "fst (settleRequest cfg r b) = b\<lparr>mismatchWarned := mismatchWarned (fst (settleRequest cfg r b))\<rparr>
     \<and> snd (settleRequest cfg r b) = []"
  using assms by (auto simp: settleRequest_def warnOnTaskTypeMismatch_def Let_def)

lemma results_settleRequest: "results t (snd (settleRequest cfg r b)) = 0"
  by (simp add: settleRequest_def startAccepting_def broker_steps Let_def split: option.split)

lemma keeps_settleRequest:
  assumes inj: "inj (draw_id cfg)" and r: "r \<in> set (pendingTaskRequests b)"
  shows "keeps cfg (settleRequest cfg r) b \<and> pendingTaskRequests (fst (settleRequest cfg r b)) = pendingTaskRequests b"
proof (cases "accept_in_progress (request_at b r)
      \<or> find_index (\<lambda>offer. offer_type offer = request_type (request_at b r)) (pendingTaskOffers b) = None")
  case True
  note un = settleRequest_unmatched [OF True, of cfg]
  have "keeps cfg (settleRequest cfg r) b"
  proof (rule keeps_quiet)
    show "broker_inv cfg b \<Longrightarrow> broker_inv cfg (fst (settleRequest cfg r b))"
      by (metis un inv_frame(7))
  qed (use un results_settleRequest in \<open>metis (no_types, lifting) broker.select_convs broker.update_convs broker.surjective\<close>)+
  moreover have "pendingTaskRequests (fst (settleRequest cfg r b)) = pendingTaskRequests b"
    by (subst conjunct1 [OF un]) simp
  ultimately show ?thesis ..
next
  case False
  then obtain i where free: "\<not> accept_in_progress (request_at b r)"
    and i: "find_index (\<lambda>offer. offer_type offer = request_type (request_at b r)) (pendingTaskOffers b) = Some i"
    by auto
  let ?t = "draw_id cfg (next_task b)" and ?b = "fst (settleRequest cfg r b)"
  note step = settleRequest_matched [OF free i, of cfg]
  have inv': "broker_inv cfg ?b" if "broker_inv cfg b"
    by (subst step) (simp add: inv_started [OF that inj r free])
  have tasks: "tasks ?b = tasks b" and nxt: "next_task ?b = Suc (next_task b)"
    and pend: "pendingTaskRequests ?b = pendingTaskRequests b"
    and acc: "accepting ?b = map_set ?t (AwaitRunner (pendingTaskOffers b ! i) r False Waiting) (accepting b)"
    by (subst step, simp add: started_def)+
  have credit: "credit cfg ?b t \<le> credit cfg b t" for t
  proof (cases "t = ?t")
    case True
    then show ?thesis using drawn_fresh [OF inj, of b] by (simp add: credit_def)
  next
    case False
    then have "awaits ?b t r' \<longleftrightarrow> awaits b t r'" for r' by (simp add: awaits_def acc)
    moreover have "t \<in> drawn cfg ?b \<longleftrightarrow> t \<in> drawn cfg b"
      using False by (auto simp: drawn_def nxt less_Suc_eq)
    ultimately show ?thesis by (simp add: credit_def tasks)
  qed
  with inv' pend show ?thesis by (simp add: keeps_def results_settleRequest)
qed

lemma keeps_frame_fst:
  assumes "keeps cfg g (h b)" and "f b = g (h b)" and "broker_inv cfg b \<Longrightarrow> broker_inv cfg (h b)"
    and "tasks (h b) = tasks b" "accepting (h b) = accepting b" "next_task (h b) = next_task b"
  shows "keeps cfg f b"
proof -
  have "credit cfg (h b) t = credit cfg b t" for t
    using assms(4-6) by (intro credit_frame) (simp_all add: awaits_def)
  with assms(1-3) show ?thesis by (simp add: keeps_def)
qed

lemma keeps_settleTasks:
  assumes "inj (draw_id cfg)"
  shows "keeps cfg (settleTasks cfg env) b"
proof -
  let ?h = "\<lambda>b. discardOffersFromUnreachableRunners env (expireTasks env b)"
  let ?ps = "pendingTaskRequests (?h b)"
  have "keeps cfg (do_all (map (settleRequest cfg) ?ps)) (?h b)"
  proof (rule keeps_do_all [where P = "\<lambda>b. pendingTaskRequests b = ?ps"])
    fix f and b' :: broker assume f: "f \<in> set (map (settleRequest cfg) ?ps)" and ps: "pendingTaskRequests b' = ?ps"
    then obtain r where "f = settleRequest cfg r" "r \<in> set (pendingTaskRequests b')" by auto
    with keeps_settleRequest [OF assms, of r b'] ps
    show "keeps cfg f b' \<and> pendingTaskRequests (fst (f b')) = ?ps" by simp
  qed simp
  then show ?thesis
    by (rule keeps_frame_fst [where h = ?h and g = "do_all (map (settleRequest cfg) ?ps)"])
      (simp_all add: settleTasks_def discardOffers_def expireTasks_def discardOffersFromUnreachableRunners_def)
qed

text \<open>Matching leaves the suspended calls of known ids alone.\<close>

lemma settleRequest_other:
  assumes "inj (draw_id cfg)" and "t \<in> drawn cfg b"
  shows "map_of (accepting (fst (settleRequest cfg r b))) t = map_of (accepting b) t
     \<and> t \<in> drawn cfg (fst (settleRequest cfg r b))"
proof -
  have "t \<noteq> draw_id cfg (next_task b)" using assms drawn_fresh [OF assms(1)] by auto
  with assms(2) show ?thesis
    by (auto simp: settleRequest_def startAccepting_def broker_steps Let_def update_request_def setTimer_def
        drawn_def warnOnTaskTypeMismatch_def split: option.split)
qed

lemma do_all_const_on:
  assumes "P b" and "\<And>f b. f \<in> set fs \<Longrightarrow> P b \<Longrightarrow> P (fst (f b))"
  shows "P (fst (do_all fs b))"
  using assms by (induction fs arbitrary: b) (auto simp: broker_steps)

lemma settleTasks_other:
  assumes inj: "inj (draw_id cfg)" and t: "t \<in> drawn cfg b"
  shows "map_of (accepting (fst (settleTasks cfg env b))) t = map_of (accepting b) t"
proof -
  let ?b = "discardOffersFromUnreachableRunners env (expireTasks env b)"
  have "map_of (accepting (fst (do_all (map (settleRequest cfg) (pendingTaskRequests ?b)) ?b))) t = map_of (accepting b) t
      \<and> t \<in> drawn cfg (fst (do_all (map (settleRequest cfg) (pendingTaskRequests ?b)) ?b))"
  proof (rule do_all_const_on)
    show "map_of (accepting ?b) t = map_of (accepting b) t \<and> t \<in> drawn cfg ?b"
      using t by (simp add: discardOffers_def expireTasks_def discardOffersFromUnreachableRunners_def drawn_def)
  qed (use settleRequest_other [OF inj] in auto)
  then show ?thesis by (simp add: settleTasks_def Let_def)
qed

section \<open>Counters and timers\<close>

lemma keeps_flagRunner: "keeps cfg (flagRunnerIfUnresponsive r) b"
proof (rule keeps_quiet)
  show "broker_inv cfg (fst (flagRunnerIfUnresponsive r b))" if "broker_inv cfg b"
    using that inv_forget_count [OF that, of r]
    by (auto simp: flagRunnerIfUnresponsive_def Let_def broker_steps broker_inv_defs awaits_def drawn_def
        request_at_def split: if_splits)
qed (auto simp: flagRunnerIfUnresponsive_def Let_def broker_steps reportUnresponsive_def split: option.split)

lemma inv_refresh:
  assumes inv: "broker_inv cfg b" and r: "r < length (request_objects b)"
  shows "broker_inv cfg (refreshRequestTimeout r b)"
proof -
  let ?q = "(request_at b r)\<lparr>timeout_refreshes := timeout_refreshes (request_at b r) + 1\<rparr>"
  let ?b = "b\<lparr>request_objects := (request_objects b)[r := ?q],
     timers := removeAll (RequestTimer r) (timers b) @ [RequestTimer r]\<rparr>"
  have at: "request_at ?b x = (if x = r then ?q else request_at b x)" for x
    using r by (simp add: request_at_def)
  have awaits: "awaits ?b t x \<longleftrightarrow> awaits b t x" for t x by (simp add: awaits_def)
  have "broker_inv cfg ?b" if few: "timeout_refreshes (request_at b r) < MAX_REQUEST_TIMEOUT_REFRESHES"
  proof -
    have "\<forall>q \<in> set ((request_objects b)[r := ?q]). timeout_refreshes q \<le> MAX_REQUEST_TIMEOUT_REFRESHES"
      using inv few by (intro refreshes_update) (auto simp: broker_inv_def bounds_inv_def)
    then have "bounds_inv ?b" using inv by (simp add: broker_inv_def bounds_inv_def)
    moreover have "requests_inv ?b"
      using inv by (simp add: broker_inv_def requests_inv_def request_ids_update request_at_def)
    moreover have "acceptance_inv ?b"
      using inv unfolding acceptance_inv_def awaits at by (simp add: broker_inv_def acceptance_inv_def)
    moreover have "ids_inv cfg ?b"
      using inv unfolding ids_inv_def awaits by (simp add: broker_inv_def ids_inv_def drawn_def)
    moreover have "timers_inv ?b"
      using inv r by (auto simp: broker_inv_def timers_inv_def)
    ultimately show ?thesis by (simp add: broker_inv_def)
  qed
  then show ?thesis
    using inv by (simp add: refreshRequestTimeout_def Let_def setTimer_def clearTimer_def update_request_def)
qed

lemma refresh_frame [simp]:
  "accepting (refreshRequestTimeout r b) = accepting b" "tasks (refreshRequestTimeout r b) = tasks b"
  "next_task (refreshRequestTimeout r b) = next_task b"
  by (simp_all add: refreshRequestTimeout_def Let_def setTimer_def clearTimer_def update_request_def)

section \<open>The rest of an acceptance\<close>

lemma keeps_no_step: "keeps cfg no_step b"
  by (rule keeps_quiet) (simp_all add: broker_steps)

lemma freed_fields [simp]:
  "tasks (freed t r b) = tasks b" "next_task (freed t r b) = next_task b"
  "accepting (freed t r b) = map_delete t (accepting b)"
  "length (request_objects (freed t r b)) = length (request_objects b)"
  by (simp_all add: freed_def)

lemma awaits_freed: "awaits (freed t r b) t' r' \<longleftrightarrow> t' \<noteq> t \<and> awaits b t' r'"
  by (simp add: awaits_def freed_def)

lemma credit_freed: "credit cfg (freed t r b) t' \<le> credit cfg b t'"
  by (auto simp: credit_def awaits_freed drawn_def)

text \<open>A step that first frees a request.\<close>

lemma keeps_freed:
  assumes "keeps cfg g (freed t r b)" and "f b = g (freed t r b)" and "broker_inv cfg b \<Longrightarrow> awaits b t r"
  shows "keeps cfg f b"
proof -
  have "results t' (snd (g (freed t r b))) + credit cfg (fst (g (freed t r b))) t' \<le> credit cfg b t'"
    if "broker_inv cfg b" for t'
  proof -
    from assms(1) inv_freed [OF that assms(3) [OF that]]
    have "results t' (snd (g (freed t r b))) + credit cfg (fst (g (freed t r b))) t' \<le> credit cfg (freed t r b) t'"
      by (simp add: keeps_def)
    with credit_freed [of cfg t r b t'] show ?thesis by linarith
  qed
  with assms inv_freed show ?thesis by (auto simp: keeps_def)
qed

lemma freed_eq:
  "update_request r (accept_in_progress_update (\<lambda>_. False)) (take_acceptance t b) = freed t r b"
  by (simp add: update_request_def take_acceptance_def freed_def request_at_def)

lemma awaits_drawn: "broker_inv cfg b \<Longrightarrow> awaits b t r \<Longrightarrow> t \<in> drawn cfg b"
  by (auto simp: broker_inv_def ids_inv_def awaits_def)

lemma keeps_clearTimer:
  assumes "map_of (accepting b) t = None"
  shows "keeps cfg (change (clearTimer (RunnerAcceptTimer t))) b"
    and "keeps cfg (change (clearTimer (RequesterAcceptTimer t))) b"
  using inv_clearTimer [OF _ assms] by (auto intro!: keeps_change simp: clearTimer_def)

lemma keeps_settle_clear:
  assumes "inj (draw_id cfg)" and "map_of (accepting b) t = None" and "t \<in> drawn cfg b"
  shows "keeps cfg (do_all [settleTasks cfg env, change (clearTimer (RunnerAcceptTimer t))]) b"
proof -
  have "map_of (accepting (fst (settleTasks cfg env b))) t = None"
    using settleTasks_other [OF assms(1,3)] assms(2) by simp
  then show ?thesis
    unfolding do_all.simps
    by (intro keeps_then keeps_settleTasks assms(1)) (simp_all add: keeps_clearTimer keeps_no_step broker_steps)
qed

definition new_task :: "string \<Rightarrow> task_offer \<Rightarrow> task_request \<Rightarrow> task" where
  "new_task t offer request = \<lparr>task_id = t, task_runner_id = offer_runner offer,
     task_requester = requester_id request, task_type = offer_type offer\<rparr>"

lemma runnerAccepted_step:
  assumes "requests_inv b" and "r < length (request_objects b)"
  shows "fst (runnerAccepted t offer r (take_acceptance t b)) =
    (let c = tracked t (new_task t offer (request_at b r)) r b
     in if r \<in> set (pendingTaskRequests b)
        then set_acceptance t (AwaitRequester r False Waiting)
               (setTimer (RequesterAcceptTimer t) (c\<lparr>requesterAcceptRejects := set_add t (requesterAcceptRejects b)\<rparr>))
        else untracked t c)"
proof (cases "pending_index (request_id (request_at b r)) b")
  case None
  with pending_index_self [OF assms] have r: "r \<notin> set (pendingTaskRequests b)" by simp
  then have "filter (\<lambda>x. x \<noteq> r) (pendingTaskRequests b) = pendingTaskRequests b"
    by (auto simp: filter_id_conv)
  with None r show ?thesis
    by (simp add: runnerAccepted_def Let_def broker_steps tracked_def new_task_def take_acceptance_def
        clearTimer_def pending_index_def request_at_def)
next
  case (Some i)
  with pending_index_self [OF assms] have r: "r \<in> set (pendingTaskRequests b)"
    and split: "splice1 i (pendingTaskRequests b) = filter (\<lambda>x. x \<noteq> r) (pendingTaskRequests b)"
    by (auto simp: in_set_conv_nth)
  with Some show ?thesis
    by (simp add: runnerAccepted_def Let_def broker_steps tracked_def new_task_def set_acceptance_def setTimer_def
        take_acceptance_def clearTimer_def pending_index_def request_at_def)
qed

lemma results_cancelTask [simp]: "results t (snd (cancelTask t' reason b)) = 0"
  by (simp add: cancelTask_def untrackTask_eq split: option.split)

lemma results_runnerAccepted: "results t' (snd (runnerAccepted t offer r b)) = 0"
  by (simp add: runnerAccepted_def Let_def broker_steps messageRequester_def split: option.split)

lemma awaits_tracked: "awaits (tracked t k r b) t' r' \<longleftrightarrow> t' \<noteq> t \<and> awaits b t' r'"
  by (simp add: awaits_def tracked_def)

lemma credit_tracked: "awaits b t r \<Longrightarrow> credit cfg (tracked t k r b) t' \<le> credit cfg b t'"
  by (auto simp: credit_def awaits_tracked drawn_def) (auto simp: tracked_def split: if_splits)

lemma inv_suspend_requester:
  assumes "broker_inv cfg b" and "t \<in> drawn cfg b" and "map_of (accepting b) t = None"
  shows "broker_inv cfg (set_acceptance t (AwaitRequester r False Waiting) (setTimer (RequesterAcceptTimer t) b))"
  using assms by (intro inv_suspended inv_setTimer) (auto simp: awaits_def setTimer_def drawn_def)

lemma credit_suspended:
  assumes "map_of (accepting b) t = None" and "\<And>o' r s p. a \<noteq> AwaitRunner o' r s p"
  shows "credit cfg (set_acceptance t a b) t' = credit cfg b t'"
  using assms by (intro credit_frame) (auto simp: set_acceptance_def awaits_def)

lemma keeps_runnerAccepted:
  assumes inv: "broker_inv cfg b" and t: "awaits b t r" and f: "f b = runnerAccepted t offer r (take_acceptance t b)"
  shows "keeps cfg f b"
proof -
  have req: "requests_inv b" "r < length (request_objects b)"
    using inv t by (auto simp: broker_inv_def acceptance_inv_def)
  let ?c = "tracked t (new_task t offer (request_at b r)) r b"
  let ?d = "?c\<lparr>requesterAcceptRejects := set_add t (requesterAcceptRejects b)\<rparr>"
  have c: "broker_inv cfg ?c" using inv t by (rule inv_tracked) (simp add: new_task_def)
  have none: "map_of (accepting ?d) t = None" by (simp add: tracked_def)
  have drawn: "t \<in> drawn cfg ?d" using awaits_drawn [OF inv t] by (simp add: drawn_def tracked_def)
  have cd: "credit cfg ?d t' = credit cfg ?c t'" for t' by (intro credit_frame) (simp_all add: awaits_def)
  show ?thesis
  proof (cases "r \<in> set (pendingTaskRequests b)")
    case True
    have fst: "fst (f b) = set_acceptance t (AwaitRequester r False Waiting) (setTimer (RequesterAcceptTimer t) ?d)"
      using True by (simp add: f runnerAccepted_step [OF req] Let_def)
    have "broker_inv cfg (fst (f b))"
      unfolding fst using c drawn none by (intro inv_suspend_requester) simp_all
    moreover have "credit cfg (fst (f b)) t' \<le> credit cfg b t'" for t'
    proof -
      have "credit cfg (fst (f b)) t' = credit cfg (setTimer (RequesterAcceptTimer t) ?d) t'"
        unfolding fst using none by (intro credit_suspended) (simp_all add: setTimer_def)
      also have "\<dots> = credit cfg ?d t'" by (intro credit_frame) (simp_all add: setTimer_def awaits_def)
      finally show ?thesis using credit_tracked [OF t, of cfg "new_task t offer (request_at b r)" t'] cd by simp
    qed
    ultimately show ?thesis by (simp add: keeps_def f results_runnerAccepted)
  next
    case False
    have fst: "fst (f b) = untracked t ?c"
      using False by (simp add: f runnerAccepted_step [OF req] Let_def)
    have "credit cfg (untracked t ?c) t' \<le> credit cfg b t'" for t'
      using credit_untracked [OF c, of t t'] credit_tracked [OF t, of cfg "new_task t offer (request_at b r)" t']
      by (auto split: if_splits)
    with inv_untracked [OF c] show ?thesis by (simp add: keeps_def fst) (simp add: f results_runnerAccepted)
  qed
qed

lemma keeps_runnerFailed:
  assumes inj: "inj (draw_id cfg)" and inv: "broker_inv cfg b" and t: "awaits b t r"
    and f: "f b = runnerFailed cfg env t offer r e (take_acceptance t b)"
  shows "keeps cfg f b"
proof -
  have drawn: "t \<in> drawn cfg (freed t r b)" using awaits_drawn [OF inv t] by (simp add: drawn_def)
  have len: "r < length (request_objects b)" using inv t by (auto simp: broker_inv_def acceptance_inv_def)
  have none: "map_of (accepting (freed t r b)) t = None" by simp
  have refresh: "keeps cfg (change (refreshRequestTimeout r)) c" if "r < length (request_objects c)" for c
    using that by (intro keeps_change inv_refresh) simp_all
  define g where "g = (\<lambda>b. case e of
       Rejected reason \<Rightarrow> do_all [settleTasks cfg env, change (clearTimer (RunnerAcceptTimer t))] b
     | Deferred \<Rightarrow> do_all [change (refreshRequestTimeout r), change (clearTimer (RunnerAcceptTimer t))] b
     | RunnerTimeout \<Rightarrow> do_all
         [change (\<lambda>b. b\<lparr>runnerAcceptRejects := map_delete t (runnerAcceptRejects b)\<rparr>),
          change (refreshRequestTimeout r), change (set_acceptance t (AwaitCancelSent offer)),
          messageRunner (offer_runner offer) (TaskCancel t ''Acknowledgement window elapsed'')] b
     | RequesterTimeout \<Rightarrow> (clearTimer (RunnerAcceptTimer t) b, [Rethrown e]))"
  have fg: "f b = g (freed t r b)" by (simp add: f runnerFailed_def freed_eq g_def Let_def)
  have "keeps cfg g (freed t r b)"
  proof (cases e)
    case (Rejected reason)
    then have "g (freed t r b) = do_all [settleTasks cfg env, change (clearTimer (RunnerAcceptTimer t))] (freed t r b)"
      by (simp add: g_def)
    with keeps_settle_clear [OF inj none drawn, of env] show ?thesis by (simp add: keeps_def)
  next
    case Deferred
    have "keeps cfg (do_all [change (refreshRequestTimeout r), change (clearTimer (RunnerAcceptTimer t))]) (freed t r b)"
      unfolding do_all.simps using len
      by (intro keeps_then refresh keeps_clearTimer keeps_no_step) (simp_all add: broker_steps)
    with Deferred show ?thesis by (simp add: g_def keeps_def)
  next
    case RunnerTimeout
    let ?h = "\<lambda>b. b\<lparr>runnerAcceptRejects := map_delete t (runnerAcceptRejects b)\<rparr>"
    let ?c = "refreshRequestTimeout r (?h (freed t r b))"
    have c: "map_of (accepting ?c) t = None" by simp
    have suspend: "keeps cfg (change (set_acceptance t (AwaitCancelSent offer))) ?c"
      unfolding keeps_def broker_steps fst_conv snd_conv
    proof (intro impI conjI allI)
      assume "broker_inv cfg ?c"
      then show "broker_inv cfg (set_acceptance t (AwaitCancelSent offer) ?c)"
        using drawn by (intro inv_suspended) (auto simp: awaits_def drawn_def)
      show "results t' [] + credit cfg (set_acceptance t (AwaitCancelSent offer) ?c) t' \<le> credit cfg ?c t'" for t'
        using c by (simp add: credit_suspended)
    qed
    have "keeps cfg (do_all [change ?h, change (refreshRequestTimeout r), change (set_acceptance t (AwaitCancelSent offer)),
        messageRunner (offer_runner offer) (TaskCancel t ''Acknowledgement window elapsed'')]) (freed t r b)"
      unfolding do_all.simps using len suspend
      by (intro keeps_then refresh keeps_messageRunner keeps_no_step keeps_change [of cfg _ ?h]) (simp_all add: broker_steps)
    with RunnerTimeout show ?thesis by (simp add: g_def keeps_def)
  next
    case RequesterTimeout
    show ?thesis using keeps_clearTimer(1) [OF none, of cfg] RequesterTimeout
      by (simp add: g_def keeps_def broker_steps)
  qed
  then show ?thesis by (rule keeps_freed) (use fg t in auto)
qed

end
