(* ===== verification/Broker_Calls.thy ===== *)
theory Broker_Calls
  imports Broker_Steps
begin

text \<open>The remaining handlers of the broker keep the invariant and the account of results; so does
  every call of the machine.\<close>

section \<open>Suspended calls\<close>

lemma keeps_taken:
  assumes "keeps cfg g (take_acceptance t b)" and "f b = g (take_acceptance t b)"
    and none: "\<And>r. \<not> awaits b t r"
  shows "keeps cfg f b"
proof -
  have "credit cfg (take_acceptance t b) t' = credit cfg b t'" for t'
    using none by (intro credit_frame) (auto simp: take_acceptance_def awaits_def)
  with assms inv_take [OF _ none] show ?thesis by (simp add: keeps_def)
qed

lemma taken_none [simp]: "map_of (accepting (take_acceptance t b)) t = None"
  by (simp add: take_acceptance_def)

lemma accepting_drawn: "broker_inv cfg b \<Longrightarrow> map_of (accepting b) t = Some a \<Longrightarrow> t \<in> drawn cfg b"
  by (auto simp: broker_inv_def ids_inv_def)

lemma keeps_afterCancelSent:
  assumes inj: "inj (draw_id cfg)" and t: "map_of (accepting b) t = None" "t \<in> drawn cfg b"
  shows "keeps cfg (afterCancelSent cfg env t offer) b"
proof -
  let ?h = "discardOffersFrom (offer_runner offer)"
  let ?c = "fst (flagRunnerIfUnresponsive (offer_runner offer) (?h b))"
  have same: "accepting ?c = accepting b" "next_task ?c = next_task b"
    by (simp_all add: flagRunnerIfUnresponsive_def Let_def broker_steps discardOffersFrom_def discardOffers_def)
  have settle: "keeps cfg (do_all [settleTasks cfg env, change (clearTimer (RunnerAcceptTimer t))]) ?c"
    using t by (intro keeps_settle_clear inj) (simp_all add: same drawn_def)
  have "keeps cfg (change ?h) b"
    by (rule keeps_change) (simp_all add: discardOffersFrom_def discardOffers_def)
  moreover have "keeps cfg (then_do (flagRunnerIfUnresponsive (offer_runner offer))
      (do_all [settleTasks cfg env, change (clearTimer (RunnerAcceptTimer t))])) (?h b)"
    using keeps_flagRunner settle by (rule keeps_then)
  ultimately have "keeps cfg (then_do (change ?h) (then_do (flagRunnerIfUnresponsive (offer_runner offer))
      (do_all [settleTasks cfg env, change (clearTimer (RunnerAcceptTimer t))]))) b"
    by (subst keeps_then) (simp_all only: primitive_steps(2) fst_conv)
  then show ?thesis by (simp add: afterCancelSent_def)
qed

text \<open>A settled promise, or a message that has gone out.\<close>

lemma inv_resettled_runner:
  assumes inv: "broker_inv cfg b" and t: "map_of (accepting b) t = Some (AwaitRunner offer r s p)"
    and p': "p' = Waiting \<Longrightarrow> p = Waiting"
  shows "broker_inv cfg (set_acceptance t (AwaitRunner offer r s' p') b)
    \<and> credit cfg (set_acceptance t (AwaitRunner offer r s' p') b) t' = credit cfg b t'"
proof -
  let ?b = "set_acceptance t (AwaitRunner offer r s' p') b"
  have awaits: "awaits ?b t' r' \<longleftrightarrow> awaits b t' r'" for t' r'
    using t by (auto simp: awaits_def set_acceptance_def)
  have at: "request_at ?b x = request_at b x" for x by (simp add: request_at_def set_acceptance_def)
  have drawn: "drawn cfg ?b = drawn cfg b" by (simp add: drawn_def set_acceptance_def)
  have "requests_inv ?b" "acceptance_inv ?b" "bounds_inv ?b"
    using inv unfolding requests_inv_def acceptance_inv_def awaits at bounds_inv_def
    by (simp_all add: broker_inv_defs set_acceptance_def)
  moreover have "ids_inv cfg ?b"
    using inv accepting_drawn [OF inv t] unfolding ids_inv_def awaits drawn
    by (auto simp: broker_inv_def ids_inv_def set_acceptance_def)
  moreover have "timers_inv ?b"
    using inv t p' by (auto simp: broker_inv_def timers_inv_def set_acceptance_def)
  moreover have "credit cfg ?b t' = credit cfg b t'"
    using awaits by (intro credit_frame) (simp_all add: set_acceptance_def)
  ultimately show ?thesis by (simp add: broker_inv_def)
qed

lemma inv_resettled_requester:
  assumes inv: "broker_inv cfg b" and t: "map_of (accepting b) t = Some (AwaitRequester r s p)"
    and p': "p' = Waiting \<Longrightarrow> p = Waiting"
  shows "broker_inv cfg (set_acceptance t (AwaitRequester r s' p') b)
    \<and> credit cfg (set_acceptance t (AwaitRequester r s' p') b) t' = credit cfg b t'"
proof
  show "broker_inv cfg (set_acceptance t (AwaitRequester r s' p') b)"
    using assms accepting_drawn [OF inv t]
    by (intro inv_suspended) (auto simp: awaits_def broker_inv_def timers_inv_def)
  show "credit cfg (set_acceptance t (AwaitRequester r s' p') b) t' = credit cfg b t'"
    using t by (intro credit_frame) (auto simp: set_acceptance_def awaits_def)
qed

lemma settled_not_waiting: "settle_promise (Resolved x) p \<noteq> Waiting" "settle_promise (Failed e) p \<noteq> Waiting"
  by (cases p; simp)+

text \<open>Pure updates that keep the account.\<close>

definition keeps_pure :: "broker_config \<Rightarrow> (broker \<Rightarrow> broker) \<Rightarrow> bool" where
  "keeps_pure cfg h \<longleftrightarrow>
     (\<forall>b. broker_inv cfg b \<longrightarrow> broker_inv cfg (h b) \<and> (\<forall>t. credit cfg (h b) t = credit cfg b t))"

lemma keeps_pure_change: "keeps_pure cfg h \<Longrightarrow> keeps cfg (change h) b"
  by (simp add: keeps_pure_def keeps_def broker_steps)

lemma keeps_pure_comp: "keeps_pure cfg h \<Longrightarrow> keeps_pure cfg g \<Longrightarrow> keeps_pure cfg (\<lambda>b. g (h b))"
  by (simp add: keeps_pure_def)

lemma settle_promise_waiting: "outcome \<noteq> Waiting \<Longrightarrow> settle_promise outcome p \<noteq> Waiting"
  by (cases p) simp_all

lemma keeps_pure_settleRunner:
  assumes "outcome \<noteq> Waiting"
  shows "keeps_pure cfg (settleRunnerPromise t outcome)"
  unfolding keeps_pure_def
proof (intro allI impI)
  fix b assume inv: "broker_inv cfg b"
  show "broker_inv cfg (settleRunnerPromise t outcome b)
      \<and> (\<forall>t'. credit cfg (settleRunnerPromise t outcome b) t' = credit cfg b t')"
  proof (cases "\<exists>offer r s p. map_of (accepting b) t = Some (AwaitRunner offer r s p)")
    case True
    then obtain offer r s p where "map_of (accepting b) t = Some (AwaitRunner offer r s p)" by blast
    with inv_resettled_runner [OF inv this, of "settle_promise outcome p" s] settle_promise_waiting [OF assms]
    show ?thesis by (simp add: settleRunnerPromise_def)
  qed (use inv in \<open>auto simp: settleRunnerPromise_def split: option.split acceptance.split\<close>)
qed

lemma keeps_pure_settleRequester:
  assumes "outcome \<noteq> Waiting"
  shows "keeps_pure cfg (settleRequesterPromise t outcome)"
  unfolding keeps_pure_def
proof (intro allI impI)
  fix b assume inv: "broker_inv cfg b"
  show "broker_inv cfg (settleRequesterPromise t outcome b)
      \<and> (\<forall>t'. credit cfg (settleRequesterPromise t outcome b) t' = credit cfg b t')"
  proof (cases "\<exists>r s p. map_of (accepting b) t = Some (AwaitRequester r s p)")
    case True
    then obtain r s p where "map_of (accepting b) t = Some (AwaitRequester r s p)" by blast
    with inv_resettled_requester [OF inv this, of "settle_promise outcome p" s] settle_promise_waiting [OF assms]
    show ?thesis by (simp add: settleRequesterPromise_def)
  qed (use inv in \<open>auto simp: settleRequesterPromise_def split: option.split acceptance.split\<close>)
qed

lemma credit_frames [simp]:
  "credit cfg (b\<lparr>requesterAcceptRejects := x1\<rparr>) t = credit cfg b t"
  "credit cfg (b\<lparr>runnerAcceptRejects := x2\<rparr>) t = credit cfg b t"
  "credit cfg (b\<lparr>consecutiveAcceptTimeouts := x3\<rparr>) t = credit cfg b t"
  "credit cfg (b\<lparr>timers := x4\<rparr>) t = credit cfg b t"
  by (simp_all add: credit_def awaits_def drawn_def)

lemma keeps_pure_answerRunner:
  assumes "outcome \<noteq> Waiting"
  shows "keeps_pure cfg (answerRunnerPromise t outcome)"
  unfolding keeps_pure_def
proof (intro allI impI)
  fix b assume inv: "broker_inv cfg b"
  show "broker_inv cfg (answerRunnerPromise t outcome b)
      \<and> (\<forall>t'. credit cfg (answerRunnerPromise t outcome b) t' = credit cfg b t')"
  proof (cases "map_of (runnerAcceptRejects b) t")
    case (Some r)
    let ?c = "b\<lparr>consecutiveAcceptTimeouts := map_delete r (consecutiveAcceptTimeouts b)\<rparr>"
    have "broker_inv cfg (settleRunnerPromise t outcome ?c)
        \<and> (\<forall>t'. credit cfg (settleRunnerPromise t outcome ?c) t' = credit cfg ?c t')"
      using keeps_pure_settleRunner [OF assms, of cfg t] inv_forget_count [OF inv, of r]
      unfolding keeps_pure_def by blast
    with Some show ?thesis by (simp add: answerRunnerPromise_def Let_def)
  qed (use inv in \<open>simp add: answerRunnerPromise_def\<close>)
qed

lemma keeps_pure_answerRequester:
  assumes "outcome \<noteq> Waiting"
  shows "keeps_pure cfg (answerRequesterPromise t outcome)"
  using keeps_pure_settleRequester [OF assms, of cfg t]
  by (simp add: keeps_pure_def answerRequesterPromise_def)

section \<open>Requests\<close>

definition silent_reports :: "environment \<Rightarrow> string \<Rightarrow> broker \<Rightarrow> broker_step list" where
  "silent_reports env taskType b = map (\<lambda>runner. reportUnresponsive (runner_id runner))
           (filter (\<lambda>runner. isSilent (runner_id runner) b)
             (filter (\<lambda>runner. reachable env (runner_id runner))
               (filter (\<lambda>runner. taskType \<in> set (runner_task_types runner))
                 (map_values (knownRunners b)))))"

lemma flagSilentRunners_eq:
  "flagSilentRunners env ty b = do_all (silent_reports env ty (expireTasks env b)) (expireTasks env b)"
  by (simp add: flagSilentRunners_def silent_reports_def Let_def)

lemma flagSilentRunners_step [broker_steps]: "fst (flagSilentRunners env ty b) = expireTasks env b"
  unfolding flagSilentRunners_eq by (rule do_all_const) (auto simp: silent_reports_def broker_steps)

lemma results_flagSilentRunners [simp]: "results t (snd (flagSilentRunners env ty b)) = 0"
proof -
  have "results t (snd (do_all (map (\<lambda>runner. reportUnresponsive (runner_id runner)) rs) c)) = 0" for rs c
    by (induction rs arbitrary: c) (simp_all add: broker_steps reportUnresponsive_def split: option.split)
  then show ?thesis unfolding flagSilentRunners_eq silent_reports_def .
qed

text \<open>A timer that nothing waits for may go.\<close>

fun timer_needed :: "broker \<Rightarrow> timer \<Rightarrow> bool" where
  "timer_needed b (RequestTimer r) \<longleftrightarrow> r \<in> set (pendingTaskRequests b)"
| "timer_needed b (RunnerAcceptTimer t) \<longleftrightarrow>
     (\<exists>offer r sent. map_of (accepting b) t = Some (AwaitRunner offer r sent Waiting))"
| "timer_needed b (RequesterAcceptTimer t) \<longleftrightarrow>
     (\<exists>r sent. map_of (accepting b) t = Some (AwaitRequester r sent Waiting))"
| "timer_needed b (TaskTimer t) \<longleftrightarrow> False"

lemma inv_timers:
  assumes inv: "broker_inv cfg b" and "set ts \<subseteq> set (timers b)" and need: "\<And>x. timer_needed b x \<Longrightarrow> x \<in> set ts"
  shows "broker_inv cfg (b\<lparr>timers := ts\<rparr>)"
proof -
  have "timers_inv (b\<lparr>timers := ts\<rparr>)"
    using inv assms(2) need by (auto simp: broker_inv_def timers_inv_def)
  with inv show ?thesis
    by (simp add: broker_inv_def requests_inv_def acceptance_inv_def ids_inv_def bounds_inv_def awaits_def
        request_at_def drawn_def)
qed

lemma inv_fired:
  assumes "broker_inv cfg b" and "\<not> timer_needed b t"
  shows "broker_inv cfg (b\<lparr>timers := remove1 t (timers b)\<rparr>)"
proof (rule inv_timers [OF assms(1)])
  fix x assume x: "timer_needed b x"
  with assms(1) have "x \<in> set (timers b)"
    by (cases x) (auto simp: broker_inv_def timers_inv_def)
  moreover have "x \<noteq> t" using x assms(2) by auto
  ultimately show "x \<in> set (remove1 t (timers b))" by simp
qed (rule set_remove1_subset)

text \<open>A request whose timer has fired is no longer pending.\<close>

lemma handleRequestTimeout_step:
  assumes "requests_inv b" and "r < length (request_objects b)"
  shows "fst (handleRequestTimeout env (request_id (request_at b r)) (b\<lparr>timers := ts\<rparr>)) =
     (if r \<in> set (pendingTaskRequests b)
      then (expireTasks env b)\<lparr>timers := removeAll (RequestTimer r) ts,
          pendingTaskRequests := filter (\<lambda>x. x \<noteq> r) (pendingTaskRequests b),
          mismatchWarned := set_delete (request_id (request_at b r)) (mismatchWarned b)\<rparr>
      else b\<lparr>timers := ts\<rparr>)"
proof (cases "pending_index (request_id (request_at b r)) b")
  case None
  with pending_index_self [OF assms] have "r \<notin> set (pendingTaskRequests b)" by simp
  with None show ?thesis
    by (simp add: handleRequestTimeout_def pending_index_def request_at_def)
next
  case (Some i)
  with pending_index_self [OF assms] have i: "i < length (pendingTaskRequests b)" "pendingTaskRequests b ! i = r"
    and r: "r \<in> set (pendingTaskRequests b)"
    and split: "splice1 i (pendingTaskRequests b) = filter (\<lambda>x. x \<noteq> r) (pendingTaskRequests b)"
    by (auto simp: in_set_conv_nth)
  from Some have "pending_index (request_id (request_at b r)) (b\<lparr>timers := ts\<rparr>) = Some i"
    by (simp add: pending_index_def request_at_def)
  with i r split show ?thesis
    by (simp add: handleRequestTimeout_def Let_def broker_steps expireTasks_def discardOffers_def clearTimer_def)
qed

lemma keeps_handleRequestTimeout:
  assumes inv: "broker_inv cfg b" and t: "RequestTimer r \<in> set (timers b)"
    and f: "f b = handleRequestTimeout env (request_id (request_at b r)) (b\<lparr>timers := remove1 (RequestTimer r) (timers b)\<rparr>)"
  shows "keeps cfg f b"
proof -
  have req: "requests_inv b" "r < length (request_objects b)"
    using inv t by (auto simp: broker_inv_def timers_inv_def)
  note step = handleRequestTimeout_step [OF req, of env "remove1 (RequestTimer r) (timers b)"]
  have "removeAll x (remove1 x xs) = removeAll x xs" for x :: timer and xs
    by (induction xs) auto
  then have pend: "(expireTasks env b)\<lparr>timers := removeAll (RequestTimer r) (remove1 (RequestTimer r) (timers b)),
      pendingTaskRequests := filter (\<lambda>x. x \<noteq> r) (pendingTaskRequests b), mismatchWarned := m\<rparr>
    = (expired r b)\<lparr>pendingTaskOffers := pendingTaskOffers (expireTasks env b), mismatchWarned := m\<rparr>" for m
    by (simp add: expired_def expireTasks_def discardOffers_def)
  have gone: "broker_inv cfg (b\<lparr>timers := remove1 (RequestTimer r) (timers b)\<rparr>)" if "r \<notin> set (pendingTaskRequests b)"
    using inv_fired [OF inv, of "RequestTimer r"] that by simp
  show ?thesis
  proof (rule keeps_quiet)
    show "broker_inv cfg (fst (f b))"
      unfolding f step pend using inv_expired [OF inv] gone by simp
    show "results t (snd (f b)) = 0" for t
      by (simp add: f handleRequestTimeout_def Let_def broker_steps messageRequester_def split: option.split)
  qed (unfold f step pend, simp_all add: expired_def)
qed

text \<open>A new request.\<close>

lemma inv_newRequest:
  assumes inv: "broker_inv cfg b" and new: "requestId \<notin> set (map request_id (request_objects b))"
  shows "broker_inv cfg ((newRequest ty requestId q b)\<lparr>pendingTaskRequests := pendingTaskRequests b @ [length (request_objects b)]\<rparr>)"
    (is "broker_inv cfg ?b")
    and "broker_inv cfg (clearTimer (RequestTimer (length (request_objects b))) (newRequest ty requestId q b))"
      (is "broker_inv cfg ?c")
proof -
  have none: "\<not> awaits b t (length (request_objects b))" for t
    using inv by (auto simp: broker_inv_def acceptance_inv_def)
  have notp: "length (request_objects b) \<notin> set (pendingTaskRequests b)"
    using inv by (auto simp: broker_inv_def requests_inv_def)
  have at: "request_at x r = (if r = length (request_objects b)
        then \<lparr>request_id = requestId, requester_id = q, request_type = ty, accept_in_progress = False, timeout_refreshes = 0\<rparr>
        else request_at b r)"
    if "r \<le> length (request_objects b)" "x = ?b \<or> x = ?c" for r x
    using that by (auto simp: request_at_def newRequest_def setTimer_def clearTimer_def nth_append)
  have awaits: "awaits ?b t r \<longleftrightarrow> awaits b t r" "awaits ?c t r \<longleftrightarrow> awaits b t r" for t r
    by (simp_all add: awaits_def newRequest_def setTimer_def clearTimer_def)
  have pend: "r \<in> set (pendingTaskRequests b) \<Longrightarrow> r < length (request_objects b)" for r
    using inv by (auto simp: broker_inv_def requests_inv_def)
  have "requests_inv ?b" "requests_inv ?c"
    using inv new notp by (auto simp: broker_inv_def requests_inv_def newRequest_def setTimer_def clearTimer_def less_Suc_eq)
  moreover have "acceptance_inv ?b" "acceptance_inv ?c"
    using inv none pend unfolding acceptance_inv_def awaits
    by (auto simp: at broker_inv_def acceptance_inv_def less_imp_le newRequest_def setTimer_def clearTimer_def less_SucI)
  moreover have "ids_inv cfg ?b" "ids_inv cfg ?c"
    using inv unfolding ids_inv_def awaits
    by (auto simp: broker_inv_def ids_inv_def drawn_def newRequest_def setTimer_def clearTimer_def)
  moreover have "timers_inv ?b" "timers_inv ?c"
    using inv notp by (auto simp: broker_inv_def timers_inv_def newRequest_def setTimer_def clearTimer_def less_Suc_eq)
  moreover have "bounds_inv ?b" "bounds_inv ?c"
    using inv by (auto simp: broker_inv_def bounds_inv_def newRequest_def setTimer_def clearTimer_def)
  ultimately show "broker_inv cfg ?b" "broker_inv cfg ?c" by (simp_all add: broker_inv_def)
qed

lemma keeps_taskRequested:
  assumes inj: "inj (draw_id cfg)" and inv: "broker_inv cfg b" and new: "requestId \<notin> set (map request_id (request_objects b))"
    and f: "f b = taskRequested cfg env (length (request_objects b)) (newRequest ty requestId q b)"
  shows "keeps cfg f b"
proof (cases "isDraining b")
  case True
  let ?c = "clearTimer (RequestTimer (length (request_objects b))) (newRequest ty requestId q b)"
  have "fst (f b) = ?c" "results t (snd (f b)) = 0" for t
    using True by (simp_all add: f taskRequested_def broker_steps newRequest_def setTimer_def messageRequester_def)
  then show ?thesis
    using inv_newRequest(2) [OF inv new, of ty q]
    by (intro keeps_quiet) (simp_all add: newRequest_def setTimer_def clearTimer_def)
next
  case False
  let ?h = "\<lambda>b. (newRequest ty requestId q b)\<lparr>pendingTaskRequests := pendingTaskRequests b @ [length (request_objects b)]\<rparr>"
  show ?thesis
  proof (rule keeps_frame_fst [where h = ?h and g = "settleTasks cfg env"])
    show "keeps cfg (settleTasks cfg env) (?h b)" by (rule keeps_settleTasks [OF inj])
    show "f b = settleTasks cfg env (?h b)"
      using False by (simp add: f taskRequested_def newRequest_def setTimer_def)
    show "broker_inv cfg (?h b)" using inv new by (rule inv_newRequest(1))
  qed (simp_all add: newRequest_def setTimer_def)
qed

lemma keeps_taskOffered:
  assumes "inj (draw_id cfg)"
  shows "keeps cfg (taskOffered cfg env offer) b"
  by (rule keeps_frame_fst [where h = "\<lambda>b. b\<lparr>pendingTaskOffers := pendingTaskOffers b @ [offer]\<rparr>", OF keeps_settleTasks [OF assms]])
    (simp_all add: taskOffered_def)

section \<open>Messages about tasks\<close>

lemma keeps_getRunner:
  assumes "fst (f b) = fst (getRunnerOrFailTask env t b)"
    and "\<And>t'. results t' (snd (f b)) \<le> results t' (fst (snd (getRunnerOrFailTask env t b)))"
  shows "keeps cfg f b"
proof (cases "runner_fails env t b")
  case True
  then have tr: "map_of (tasks b) t \<noteq> None" by (auto simp: runner_fails_def split: option.splits)
  have "results t' (fst (snd (getRunnerOrFailTask env t b))) \<le> (if t' = t then 1 else 0)" for t'
    by (auto simp: getRunnerOrFailTask_def Let_def split_beta failTask_def untrackTask_eq messageRequester_def
        split: option.split)
  with assms(2) tr have "results t' (snd (f b)) \<le> (if t' = t \<and> map_of (tasks b) t \<noteq> None then 1 else 0)" for t'
    using le_trans [OF assms(2)] by (auto split: if_splits)
  moreover have "fst (f b) = untracked t b" using assms(1) True by (simp add: broker_steps)
  ultimately show ?thesis by (intro keeps_untracking)
next
  case False
  have "results t' (fst (snd (getRunnerOrFailTask env t b))) = 0" for t'
    using False by (auto simp: runner_fails_def getRunnerOrFailTask_def map_has_def split: option.split)
  with assms False show ?thesis by (intro keeps_quiet) (simp_all add: broker_steps)
qed

lemma keeps_forwardToRunner: "keeps cfg (forwardToRunner env t m) b"
proof (cases "map_has (tasks b) t")
  case True
  obtain b' os r where get: "getRunnerOrFailTask env t b = (b', os, r)" by (metis prod_cases3)
  show ?thesis
    by (rule keeps_getRunner [where env = env and t = t])
      (use True get in \<open>auto simp: forwardToRunner_def broker_steps Let_def split_beta split: sum.split\<close>)
next
  case False
  then show ?thesis by (intro keeps_quiet) (simp_all add: forwardToRunner_def)
qed

lemma keeps_forwardToRequester:
  assumes "\<And>q t. \<not> is_result t (ToRequester q m)"
  shows "keeps cfg (forwardToRequester t m) b"
  using assms by (intro keeps_quiet)
    (simp_all add: broker_steps forwardToRequester_def messageRequester_def split: option.split)

section \<open>The requester's part of an acceptance\<close>

lemma keeps_sendSettings:
  assumes t: "map_of (accepting b) t = None" "t \<in> drawn cfg b"
  shows "keeps cfg (requesterAccepted env t settings) b"
proof (cases "map_has (tasks b) t")
  case False
  then have "requesterAccepted env t settings b = (set_acceptance t AwaitSettingsSent b, [])"
    by (simp add: requesterAccepted_def sendTaskSettings_def)
  moreover have "broker_inv cfg b \<Longrightarrow> broker_inv cfg (set_acceptance t AwaitSettingsSent b)"
    using t by (intro inv_suspended) (auto simp: awaits_def)
  ultimately show ?thesis using t by (simp add: keeps_def credit_suspended)
next
  case True
  obtain b' os res where get: "getRunnerOrFailTask env t b = (b', os, res)" by (metis prod_cases3)
  have base: "keeps cfg (\<lambda>b. (fst (getRunnerOrFailTask env t b), fst (snd (getRunnerOrFailTask env t b)))) b"
    by (rule keeps_getRunner [where env = env and t = t]) simp_all
  have b': "b' = (if runner_fails env t b then untracked t b else b)"
    using getRunner_step [of env t b] get by simp
  have none: "map_of (accepting b') t = None" and drawn: "t \<in> drawn cfg b'"
    using t by (auto simp: b' untracked_def drawn_def)
  show ?thesis
  proof (cases res)
    case (Inr runner)
    let ?c = "setTimer (TaskTimer t) b'"
    have f: "fst (requesterAccepted env t settings b) = set_acceptance t AwaitSettingsSent ?c"
      "results t' (snd (requesterAccepted env t settings b)) = results t' os" for t'
      using True get Inr by (simp_all add: requesterAccepted_def sendTaskSettings_def broker_steps Let_def split_beta)
    have "broker_inv cfg b' \<Longrightarrow> broker_inv cfg (set_acceptance t AwaitSettingsSent ?c)"
      using none drawn by (intro inv_suspended inv_setTimer) (auto simp: awaits_def setTimer_def drawn_def)
    moreover have "credit cfg (set_acceptance t AwaitSettingsSent ?c) t' = credit cfg b' t'" for t'
      using none by (simp add: credit_suspended setTimer_def)
    ultimately show ?thesis using base get by (simp add: keeps_def f)
  next
    case (Inl e)
    let ?c = "clearTimer (RequesterAcceptTimer t)"
    show ?thesis
    proof (cases "\<exists>x y. e = RunnerUnreachable x y")
      case True
      then have f: "requesterAccepted env t settings b = (?c b', os)"
        using \<open>map_has (tasks b) t\<close> get Inl by (auto simp: requesterAccepted_def sendTaskSettings_def)
      show ?thesis using base get inv_clearTimer [of cfg b' t] none
        by (simp add: keeps_def f clearTimer_def)
    next
      case False
      then have f: "requesterAccepted env t settings b = (?c (fst (cancelTask t ''Unknown reason'' b')),
          os @ snd (cancelTask t ''Unknown reason'' b') @ [Thrown e])"
        using \<open>map_has (tasks b) t\<close> get Inl
        by (cases e) (auto simp: requesterAccepted_def sendTaskSettings_def split_beta Let_def)
      have "keeps cfg (cancelTask t ''Unknown reason'') b'" by (rule keeps_cancelTask)
      moreover have "map_of (accepting (untracked t b')) t = None" using none by (simp add: untracked_def)
      ultimately have "broker_inv cfg b' \<Longrightarrow> broker_inv cfg (?c (untracked t b'))
          \<and> (\<forall>t'. credit cfg (?c (untracked t b')) t' \<le> credit cfg b' t')"
        using inv_clearTimer [of cfg "untracked t b'" t] by (simp add: keeps_def broker_steps clearTimer_def)
      with base get show ?thesis unfolding keeps_def f
        by (simp add: broker_steps) (meson add_le_mono1 le_trans nat_add_left_cancel_le)
    qed
  qed
qed

lemma keeps_requesterFailed:
  assumes "map_of (accepting b) t = None"
  shows "keeps cfg (requesterFailed t e) b" and "keeps cfg (requesterSendFailed t) b"
proof -
  have clear: "keeps cfg (change (clearTimer (RequesterAcceptTimer t))) (untracked t b')"
    if "accepting b' = accepting b" for b' :: broker
    using assms that by (intro keeps_clearTimer) (simp add: untracked_def)
  have drop: "keeps cfg (change (\<lambda>b. b\<lparr>requesterAcceptRejects := set_delete t (requesterAcceptRejects b)\<rparr>)) b"
    by (rule keeps_change) simp_all
  have emit: "keeps cfg (emit os) b'" if "\<And>t. results t os = 0" for os b'
    using that by (intro keeps_quiet) (simp_all add: broker_steps)
  show "keeps cfg (requesterFailed t e) b"
    unfolding requesterFailed_def
    by (cases e; simp only: accept_error.case do_all.simps;
        intro keeps_then keeps_cancelTask keeps_no_step drop; simp add: broker_steps clear emit keeps_cancelTask keeps_no_step)
  show "keeps cfg (requesterSendFailed t) b"
    unfolding requesterSendFailed_def do_all.simps
    by (intro keeps_then keeps_cancelTask keeps_no_step; simp add: broker_steps clear emit)
qed

section \<open>Every call\<close>

lemma keeps_skip: "f b = (b, []) \<Longrightarrow> keeps cfg f b"
  by (intro keeps_quiet) simp_all

lemma not_awaits: "map_of (accepting b) t = Some a \<Longrightarrow> (\<And>o' r s p. a \<noteq> AwaitRunner o' r s p) \<Longrightarrow> \<not> awaits b t r"
  by (simp add: awaits_def)

lemma drawn_taken [simp]: "drawn cfg (take_acceptance t b) = drawn cfg b"
  by (simp add: drawn_def take_acceptance_def)

lemma keeps_resume:
  assumes inj: "inj (draw_id cfg)" and inv: "broker_inv cfg b"
  shows "keeps cfg (resume cfg env t) b"
proof (cases "map_of (accepting b) t")
  case None
  then show ?thesis by (intro keeps_skip) (simp add: resume_def)
next
  case (Some a)
  note drawn = accepting_drawn [OF inv Some]
  show ?thesis
  proof (cases a)
    case (AwaitRunner offer r s p)
    with Some have aw: "awaits b t r" by (simp add: awaits_def)
    show ?thesis
    proof (cases "s = False \<or> p = Waiting")
      case True
      with Some AwaitRunner show ?thesis by (intro keeps_skip) (auto simp: resume_def split: bool.split)
    next
      case False
      then consider x where "s" "p = Resolved x" | e where "s" "p = Failed e" by (cases p) auto
      then show ?thesis
      proof cases
        case 1
        with Some AwaitRunner show ?thesis
          by (intro keeps_runnerAccepted [OF inv aw, where offer = offer]) (simp add: resume_def)
      next
        case 2
        with Some AwaitRunner show ?thesis
          by (intro keeps_runnerFailed [OF inj inv aw, where offer = offer and e = e and env = env]) (simp add: resume_def)
      qed
    qed
  next
    case (AwaitRequester r s p)
    note none = not_awaits [OF Some, unfolded AwaitRequester, simplified]
    show ?thesis
    proof (cases "s = False \<or> p = Waiting")
      case True
      with Some AwaitRequester show ?thesis by (intro keeps_skip) (auto simp: resume_def split: bool.split)
    next
      case False
      then consider x where "s" "p = Resolved x" | e where "s" "p = Failed e" by (cases p) auto
      then show ?thesis
      proof cases
        case 1
        with Some AwaitRequester drawn show ?thesis
          by (intro keeps_taken [OF keeps_sendSettings [where settings = x and env = env] _ none]) (simp_all add: resume_def)
      next
        case 2
        with Some AwaitRequester show ?thesis
          by (intro keeps_taken [OF keeps_requesterFailed(1) [where e = e] _ none]) (simp_all add: resume_def)
      qed
    qed
  qed (use Some in \<open>auto intro!: keeps_skip simp: resume_def\<close>)
qed

lemma keeps_messageSent:
  assumes inj: "inj (draw_id cfg)" and inv: "broker_inv cfg b"
  shows "keeps cfg (messageSent cfg env t) b"
proof (cases "map_of (accepting b) t")
  case None
  then show ?thesis by (intro keeps_skip) (simp add: messageSent_def)
next
  case (Some a)
  note drawn = accepting_drawn [OF inv Some]
  show ?thesis
  proof (cases a)
    case (AwaitRunner offer r s p)
    with Some inv_resettled_runner [OF inv, of t offer r s p p True] show ?thesis
      by (cases s) (auto simp: messageSent_def keeps_def)
  next
    case (AwaitCancelSent offer)
    note none = not_awaits [OF Some, unfolded AwaitCancelSent, simplified]
    show ?thesis using Some AwaitCancelSent drawn
      by (intro keeps_taken [OF keeps_afterCancelSent [OF inj, where offer = offer and env = env] _ none])
        (simp_all add: messageSent_def)
  next
    case (AwaitRequester r s p)
    with Some inv_resettled_requester [OF inv, of t r s p p True] show ?thesis
      by (cases s) (auto simp: messageSent_def keeps_def)
  next
    case AwaitSettingsSent
    note none = not_awaits [OF Some, unfolded AwaitSettingsSent, simplified]
    show ?thesis using Some AwaitSettingsSent
      by (intro keeps_taken [OF keeps_clearTimer(2) _ none]) (simp_all add: messageSent_def broker_steps)
  qed
qed

lemma keeps_sendFailed:
  assumes inv: "broker_inv cfg b"
  shows "keeps cfg (sendFailed t) b"
proof (cases "map_of (accepting b) t")
  case None
  then show ?thesis by (intro keeps_skip) (simp add: sendFailed_def)
next
  case (Some a)
  have failed: "keeps cfg (\<lambda>b. (clearTimer (RunnerAcceptTimer t) b, [SendFailed])) c"
    if "map_of (accepting c) t = None" for c
    using keeps_clearTimer(1) [OF that, of cfg] by (simp add: keeps_def broker_steps)
  show ?thesis
  proof (cases a)
    case (AwaitRunner offer r s p)
    show ?thesis
    proof (cases s)
      case True
      with Some AwaitRunner show ?thesis by (intro keeps_skip) (simp add: sendFailed_def)
    next
      case False
      with Some AwaitRunner show ?thesis
        by (intro keeps_freed [OF failed]) (auto simp: sendFailed_def freed_eq awaits_def)
    qed
  next
    case (AwaitCancelSent offer)
    note none = not_awaits [OF Some, unfolded AwaitCancelSent, simplified]
    show ?thesis using Some AwaitCancelSent
      by (intro keeps_taken [OF failed _ none]) (simp_all add: sendFailed_def)
  next
    case (AwaitRequester r s p)
    note none = not_awaits [OF Some, unfolded AwaitRequester, simplified]
    show ?thesis
    proof (cases s)
      case True
      with Some AwaitRequester show ?thesis by (intro keeps_skip) (simp add: sendFailed_def)
    next
      case False
      with Some AwaitRequester show ?thesis
        by (intro keeps_taken [OF keeps_requesterFailed(2) _ none]) (simp_all add: sendFailed_def)
    qed
  next
    case AwaitSettingsSent
    note none = not_awaits [OF Some, unfolded AwaitSettingsSent, simplified]
    show ?thesis using Some AwaitSettingsSent
      by (intro keeps_taken [OF keeps_requesterFailed(2) _ none]) (simp_all add: sendFailed_def)
  qed
qed

lemma keeps_deregisterRunner: "keeps cfg (deregisterRunner r message) b"
proof -
  define step where "step = (\<lambda>(taskId, r') b. if r' = r
     then handleRunnerReject taskId (''The Task Runner ('' @ r @ '') has disconnected: '' @ message) b else b)"
  define b1 where "b1 = discardOffersFrom r (b\<lparr>knownRunners := map_delete r (knownRunners b),
                consecutiveAcceptTimeouts := map_delete r (consecutiveAcceptTimeouts b)\<rparr>)"
  define b2 where "b2 = fold step (runnerAcceptRejects b1) b1"
  have eq: "deregisterRunner r message b = failTasks (getInFlightTaskIds r b2) (Disconnected message) b2"
    by (simp only: deregisterRunner_def Let_def b2_def b1_def step_def)
  have fold: "broker_inv cfg c \<Longrightarrow> broker_inv cfg (fold step xs c)
      \<and> (\<forall>t. credit cfg (fold step xs c) t = credit cfg c t)" for xs c
  proof (induction xs arbitrary: c)
    case (Cons x xs)
    have "keeps_pure cfg (step x)"
      using keeps_pure_answerRunner [of "Failed (Rejected _)" cfg "fst x"]
      by (auto simp: keeps_pure_def handleRunnerReject_def split_beta step_def)
    with Cons.prems have "broker_inv cfg (step x c) \<and> (\<forall>t. credit cfg (step x c) t = credit cfg c t)"
      by (simp add: keeps_pure_def)
    with Cons.IH [of "step x c"] show ?case by simp
  qed simp
  have b1: "broker_inv cfg b \<Longrightarrow> broker_inv cfg b1"
    using inv_forget_count [of cfg "b\<lparr>knownRunners := map_delete r (knownRunners b)\<rparr>" r] by (simp add: b1_def)
  have credit1: "credit cfg b1 t = credit cfg b t" for t
    by (intro credit_frame) (simp_all add: b1_def discardOffersFrom_def discardOffers_def awaits_def)
  have "keeps cfg (failTasks (getInFlightTaskIds r b2) (Disconnected message)) b2"
    unfolding failTasks_def
    by (rule keeps_do_all [where P = "\<lambda>_. True"]) (auto simp: keeps_failTask)
  with fold [OF b1, of "runnerAcceptRejects b1"] credit1 show ?thesis
    unfolding keeps_def eq b2_def [symmetric] by auto
qed

lemma keeps_taskTimedOut: "broker_inv cfg b \<Longrightarrow> keeps cfg (taskTimedOut cfg t) b"
  unfolding taskTimedOut_def by (rule keeps_taskErrorHandler)

lemma keeps_handleTaskTimeout:
  assumes "broker_inv cfg b"
  shows "keeps cfg (handleTaskTimeout cfg t) b"
proof (cases "map_of (tasks b) t")
  case None
  then show ?thesis by (intro keeps_skip) (simp add: handleTaskTimeout_def)
next
  case (Some k)
  show ?thesis
  proof (cases "mode_of_runners cfg")
    case Internal
    then have "results t' (snd (handleTaskTimeout cfg t b)) = results t' (snd (taskTimedOut cfg t b))"
      "fst (handleTaskTimeout cfg t b) = fst (taskTimedOut cfg t b)" for t'
      using Some by (simp_all add: handleTaskTimeout_def broker_steps)
    with keeps_taskTimedOut [OF assms, of t] show ?thesis by (simp add: keeps_def)
  next
    case External
    with Some show ?thesis
      by (intro keeps_quiet) (simp_all add: handleTaskTimeout_def broker_steps)
  qed
qed

lemma keeps_pure_fired:
  assumes "keeps_pure cfg h" and "\<And>ts. h (b\<lparr>timers := ts\<rparr>) = (h b)\<lparr>timers := ts\<rparr>" and "timers (h b) = timers b"
    and "\<not> timer_needed (h b) t" and "f b = (h (b\<lparr>timers := remove1 t (timers b)\<rparr>), [])"
  shows "keeps cfg f b"
  using assms(1) inv_fired [OF _ assms(4)] unfolding keeps_def keeps_pure_def assms(5) assms(2)
  by (simp add: assms(3))

lemma settle_fields:
  "settleRunnerPromise t p (b\<lparr>timers := ts\<rparr>) = (settleRunnerPromise t p b)\<lparr>timers := ts\<rparr>"
  "settleRequesterPromise t q (b\<lparr>timers := ts\<rparr>) = (settleRequesterPromise t q b)\<lparr>timers := ts\<rparr>"
  "timers (settleRunnerPromise t p b) = timers b" "timers (settleRequesterPromise t q b) = timers b"
  by (simp_all add: settleRunnerPromise_def settleRequesterPromise_def set_acceptance_def
      split: option.split acceptance.split)

lemma keeps_fireTimer:
  assumes inv: "broker_inv cfg b" and t: "x \<in> set (timers b)"
  shows "keeps cfg (fireTimer cfg env x) b"
proof (cases x)
  case (RequestTimer r)
  show ?thesis
    by (rule keeps_handleRequestTimeout [OF inv t [unfolded RequestTimer]])
      (simp add: fireTimer_def RequestTimer Let_def request_at_def)
next
  case (RunnerAcceptTimer t)
  show ?thesis
  proof (rule keeps_pure_fired [where h = "settleRunnerPromise t (Failed RunnerTimeout)"])
    show "\<not> timer_needed (settleRunnerPromise t (Failed RunnerTimeout) b) x"
      using settled_not_waiting
      by (auto simp: RunnerAcceptTimer settleRunnerPromise_def set_acceptance_def split: option.splits acceptance.splits)
  qed (simp_all add: keeps_pure_settleRunner settle_fields fireTimer_def RunnerAcceptTimer Let_def)
next
  case (RequesterAcceptTimer t)
  show ?thesis
  proof (rule keeps_pure_fired [where h = "settleRequesterPromise t (Failed RequesterTimeout)"])
    show "\<not> timer_needed (settleRequesterPromise t (Failed RequesterTimeout) b) x"
      using settled_not_waiting
      by (auto simp: RequesterAcceptTimer settleRequesterPromise_def set_acceptance_def split: option.splits acceptance.splits)
  qed (simp_all add: keeps_pure_settleRequester settle_fields fireTimer_def RequesterAcceptTimer Let_def)
next
  case (TaskTimer t)
  let ?c = "b\<lparr>timers := remove1 x (timers b)\<rparr>"
  have c: "broker_inv cfg ?c" using inv by (rule inv_fired) (simp add: TaskTimer)
  show ?thesis
  proof (rule keeps_frame_fst [where h = "\<lambda>b. b\<lparr>timers := remove1 x (timers b)\<rparr>" and g = "handleTaskTimeout cfg t"])
    show "keeps cfg (handleTaskTimeout cfg t) ?c" using c by (rule keeps_handleTaskTimeout)
  qed (use c in \<open>simp_all add: fireTimer_def TaskTimer\<close>)
qed

lemma keeps_onRunnerMessage:
  assumes inj: "inj (draw_id cfg)" and inv: "broker_inv cfg b"
  shows "keeps cfg (onRunnerMessage cfg env r m) b"
proof (cases "map_has (knownRunners b) r")
  case False
  then show ?thesis by (intro keeps_skip) (simp add: onRunnerMessage_def)
next
  case True
  have pure: "keeps cfg (change (handleRunnerAccept t)) b" "keeps cfg (change (handleRunnerReject t reason)) b"
    "keeps cfg (change (handleRunnerDeferred t)) b" for t reason
    by (simp_all add: handleRunnerAccept_def handleRunnerReject_def handleRunnerDeferred_def
        keeps_pure_change keeps_pure_answerRunner)
  define f where "f = (case m of
          RunnerTaskAccepted taskId \<Rightarrow> change (handleRunnerAccept taskId)
        | RunnerTaskRejected taskId reason \<Rightarrow> change (handleRunnerReject taskId reason)
        | RunnerTaskDeferred taskId \<Rightarrow> change (handleRunnerDeferred taskId)
        | RunnerTaskOffer offerId taskType validFor \<Rightarrow>
            taskOffered cfg env \<lparr>offer_id = offerId, offer_runner = r, offer_type = taskType,
              valid_for = validFor,
              valid_until = (if validFor = - 1 then 0 else now env + validFor * 1000000)\<rparr>
        | RunnerTaskDone taskId data \<Rightarrow> taskDoneHandler taskId data
        | RunnerTaskError taskId error \<Rightarrow> taskErrorHandler taskId (RunnerError error)
        | RunnerTaskDataRequest taskId requestId requestParams \<Rightarrow>
            handleDataRequest taskId requestId requestParams
        | RunnerNodeTypesRequest taskId requestId requestParams \<Rightarrow>
            handleNodeTypesRequest taskId requestId requestParams
        | RunnerRPC taskId callId name params \<Rightarrow> handleRpcRequest taskId callId name params
        | RunnerInfo name types \<Rightarrow> no_step)"
  have "keeps cfg f b"
    by (cases m) (simp_all add: f_def pure keeps_no_step keeps_taskOffered [OF inj] keeps_taskDoneHandler [OF inv]
        keeps_taskErrorHandler [OF inv] handleDataRequest_def handleNodeTypesRequest_def handleRpcRequest_def
        keeps_forwardToRequester)
  moreover have "onRunnerMessage cfg env r m b = f b" using True by (simp add: onRunnerMessage_def f_def)
  ultimately show ?thesis by (simp add: keeps_def)
qed

lemma keeps_onRequesterMessage:
  assumes inj: "inj (draw_id cfg)" and inv: "broker_inv cfg b" and ok: "broker_ok (env, FromRequester q m) b"
  shows "keeps cfg (onRequesterMessage cfg env q m) b"
proof (cases m)
  case (RequesterTaskRequest requestId ty)
  with ok keeps_taskRequested [OF inj inv, of requestId _ env ty q] show ?thesis
    by (simp add: onRequesterMessage_def)
qed (simp_all add: onRequesterMessage_def handleRequesterAccept_def keeps_pure_change keeps_pure_answerRequester
    keeps_cancelTask keeps_forwardToRunner handleRequesterDataResponse_def handleRequesterNodeTypesResponse_def
    handleRequesterRpcResponse_def)

lemma keeps_timeoutCancel:
  assumes inv: "broker_inv cfg b"
  shows "keeps cfg (timeoutCancelSent cfg t) b" and "keeps cfg (timeoutCancelFailed t) b"
proof -
  let ?h = "\<lambda>b. b\<lparr>timing_out := set_delete t (timing_out b)\<rparr>"
  have "keeps cfg (\<lambda>b. taskTimedOut cfg t (?h b)) b"
  proof (rule keeps_frame_fst [where h = ?h and g = "taskTimedOut cfg t"])
    show "keeps cfg (taskTimedOut cfg t) (?h b)" using inv by (intro keeps_taskTimedOut) simp
  qed simp_all
  then show "keeps cfg (timeoutCancelSent cfg t) b" by (simp add: keeps_def timeoutCancelSent_def)
  show "keeps cfg (timeoutCancelFailed t) b"
    by (rule keeps_quiet) (simp_all add: timeoutCancelFailed_def)
qed

lemma keeps_exec:
  assumes inj: "inj (draw_id cfg)" and inv: "broker_inv cfg b" and ok: "broker_ok c b"
  shows "keeps cfg (exec_broker cfg c) b"
proof -
  obtain env call where c: "c = (env, call)" by (cases c)
  have reg: "keeps cfg (registerRunner runner) b" for runner
    unfolding registerRunner_def do_all.simps
    by (intro keeps_then keeps_messageRunner keeps_no_step keeps_change) simp_all
  have req: "keeps cfg (change (registerRequester q)) b" "keeps cfg (change (deregisterRequester q)) b"
    "keeps cfg (change startDraining) b" "keeps cfg (change stopDraining) b" for q
    by (rule keeps_change; simp add: registerRequester_def deregisterRequester_def startDraining_def stopDraining_def)+
  show ?thesis
    using ok
    by (cases call) (simp_all add: c reg req keeps_deregisterRunner keeps_onRunnerMessage [OF inj inv]
        keeps_onRequesterMessage [OF inj inv] keeps_fireTimer [OF inv] keeps_resume [OF inj inv]
        keeps_messageSent [OF inj inv] keeps_sendFailed [OF inv] keeps_timeoutCancel [OF inv])
qed

section \<open>Every run\<close>

definition broker_inv_drawn :: "broker_config \<Rightarrow> broker \<Rightarrow> bool" where
  "broker_inv_drawn cfg b \<longleftrightarrow> inj (draw_id cfg) \<and> broker_inv cfg b"

interpretation task_broker: invariant_machine broker_ok "exec_broker cfg" "broker_inv_drawn cfg" for cfg
  by unfold_locales (use keeps_exec in \<open>auto simp: broker_inv_drawn_def keeps_def\<close>)

lemma results_of_runs:
  assumes "runs broker_ok (exec_broker cfg) b cs os b'" and "broker_inv_drawn cfg b"
  shows "results t os + credit cfg b' t \<le> credit cfg b t"
  using assms
proof (induction rule: runs.induct)
  case (runs_snoc b cs os b' c b'' os')
  have "broker_inv_drawn cfg b'" using runs_snoc.hyps(1) runs_snoc.prems by (rule task_broker.invariant)
  with keeps_exec [of cfg b' c] runs_snoc.hyps(2,3)
  have "results t os' + credit cfg b'' t \<le> credit cfg b' t" by (simp add: broker_inv_drawn_def keeps_def)
  with runs_snoc.IH [OF runs_snoc.prems] show ?case by simp
qed simp

end
