(* ===== verification/Broker_Matching.thy ===== *)
theory Broker_Matching
  imports Broker_Calls
begin

text \<open>\<open>settleTasks\<close> against a reference matching: the requests that wait are served in their order,
  each with the first usable offer of its type that is left.\<close>

fun match_offers ::
  "(nat \<times> string) list \<Rightarrow> task_offer list \<Rightarrow> (nat \<times> task_offer) list \<times> task_offer list" where
  "match_offers [] offers = ([], offers)"
| "match_offers ((r, ty) # requests) offers =
     (case find_index (\<lambda>offer. offer_type offer = ty) offers of
        None \<Rightarrow> match_offers requests offers
      | Some i \<Rightarrow>
          (let (matched, rest) = match_offers requests (splice1 i offers)
           in ((r, offers ! i) # matched, rest)))"

lemma match_offers_rest: "set (snd (match_offers rs offers)) \<subseteq> set offers"
proof (induction rs offers rule: match_offers.induct)
  case (2 r ty rs offers)
  show ?case
  proof (cases "find_index (\<lambda>offer. offer_type offer = ty) offers")
    case None
    with 2(1) show ?thesis by simp
  next
    case (Some i)
    with 2(2) [OF Some] set_splice1_subset [of i offers] show ?thesis by (auto simp: split_beta)
  qed
qed simp

text \<open>No offer is lost or used twice, what is matched fits, and what is left fits no request.\<close>

lemma match_offers_spec:
  "mset offers = mset (snd (match_offers rs offers)) + mset (map snd (fst (match_offers rs offers)))
   \<and> (\<forall>(r, offer) \<in> set (fst (match_offers rs offers)). (r, offer_type offer) \<in> set rs)
   \<and> (\<forall>(r, ty) \<in> set rs. r \<in> fst ` set (fst (match_offers rs offers))
        \<or> (\<forall>offer \<in> set (snd (match_offers rs offers)). offer_type offer \<noteq> ty))"
proof (induction rs offers rule: match_offers.induct)
  case (2 r ty rs offers)
  show ?case
  proof (cases "find_index (\<lambda>offer. offer_type offer = ty) offers")
    case None
    then have "\<forall>offer \<in> set (snd (match_offers rs offers)). offer_type offer \<noteq> ty"
      using match_offers_rest [of rs offers] unfolding find_index_None by blast
    with 2(1) [OF None] None show ?thesis by auto
  next
    case (Some i)
    from find_index_Some [OF Some] have i: "i < length offers" "offer_type (offers ! i) = ty" by auto
    with 2(2) [OF Some] Some mset_splice1 [OF i(1)] show ?thesis by (auto simp: split_beta)
  qed
qed simp

section \<open>The code\<close>

definition waiting_requests :: "broker \<Rightarrow> nat list \<Rightarrow> (nat \<times> string) list" where
  "waiting_requests b rs =
     map (\<lambda>r. (r, request_type (request_at b r))) (filter (\<lambda>r. \<not> accept_in_progress (request_at b r)) rs)"

text \<open>The offers that have not expired and whose runner is not known to be unreachable.\<close>

definition usable_offers :: "environment \<Rightarrow> broker \<Rightarrow> task_offer list" where
  "usable_offers env b = filter (\<lambda>offer. (valid_for offer = - 1 \<or> now env \<le> valid_until offer)
     \<and> (map_has (knownRunners b) (offer_runner offer) \<longrightarrow> reachable env (offer_runner offer))) (pendingTaskOffers b)"

text \<open>The acceptances and the messages of the matched pairs, with ids from the \<open>n\<close>-th on.\<close>

fun accept_all :: "broker_config \<Rightarrow> nat \<Rightarrow> (nat \<times> task_offer) list \<Rightarrow> (string \<times> acceptance) list \<Rightarrow> (string \<times> acceptance) list" where
  "accept_all cfg n [] acc = acc"
| "accept_all cfg n ((r, offer) # ms) acc =
     accept_all cfg (Suc n) ms (map_set (draw_id cfg n) (AwaitRunner offer r False Waiting) acc)"

fun accept_messages :: "broker_config \<Rightarrow> broker \<Rightarrow> nat \<Rightarrow> (nat \<times> task_offer) list \<Rightarrow> broker_output list" where
  "accept_messages cfg b n [] = []"
| "accept_messages cfg b n ((r, offer) # ms) =
     (if map_has (knownRunners b) (offer_runner offer)
      then [ToRunner (offer_runner offer) (TaskOfferAccept (offer_id offer) (draw_id cfg n))] else [])
     @ accept_messages cfg b (Suc n) ms"

lemma accept_messages_cong:
  "knownRunners b' = knownRunners b \<Longrightarrow> accept_messages cfg b' n ms = accept_messages cfg b n ms"
  by (induction cfg b n ms rule: accept_messages.induct) simp_all

lemma settleRequest_messages:
  assumes "\<not> accept_in_progress (request_at b r)"
    and "find_index (\<lambda>offer. offer_type offer = request_type (request_at b r)) (pendingTaskOffers b) = Some i"
  shows "snd (settleRequest cfg r b) = accept_messages cfg b (next_task b) [(r, pendingTaskOffers b ! i)]"
  using assms by (simp add: settleRequest_def startAccepting_def broker_steps Let_def update_request_def
      setTimer_def messageRunner_def)

lemma settle_all:
  assumes "distinct rs" and "\<forall>r \<in> set rs. r < length (request_objects b)"
  shows "let (ms, rest) = match_offers (waiting_requests b rs) (pendingTaskOffers b);
             (b', os) = do_all (map (settleRequest cfg) rs) b
         in pendingTaskOffers b' = rest \<and> accepting b' = accept_all cfg (next_task b) ms (accepting b)
            \<and> os = accept_messages cfg b (next_task b) ms \<and> pendingTaskRequests b' = pendingTaskRequests b"
  using assms
proof (induction rs arbitrary: b)
  case Nil
  show ?case by (simp add: waiting_requests_def broker_steps)
next
  case (Cons r rs)
  let ?b = "fst (settleRequest cfg r b)" and ?tail = "do_all (map (settleRequest cfg) rs)"
  have tail: "do_all (map (settleRequest cfg) (r # rs)) b
      = (fst (?tail ?b), snd (settleRequest cfg r b) @ snd (?tail ?b))"
    by (simp add: then_do_def split_beta Let_def)
  show ?case
  proof (cases "accept_in_progress (request_at b r)
      \<or> find_index (\<lambda>offer. offer_type offer = request_type (request_at b r)) (pendingTaskOffers b) = None")
    case True
    note un = settleRequest_unmatched [OF True, of cfg]
    obtain m where b: "?b = b\<lparr>mismatchWarned := m\<rparr>" using un by blast
    have "waiting_requests ?b rs = waiting_requests b rs"
      by (simp add: b waiting_requests_def request_at_def)
    moreover have "match_offers (waiting_requests b (r # rs)) (pendingTaskOffers b)
        = match_offers (waiting_requests b rs) (pendingTaskOffers b)"
      using True by (auto simp: waiting_requests_def)
    ultimately show ?thesis
      using Cons.IH [of ?b] Cons.prems conjunct2 [OF un] unfolding tail
      by (simp add: b split_beta Let_def accept_messages_cong [of "b\<lparr>mismatchWarned := m\<rparr>" b])
  next
    case False
    then obtain i where free: "\<not> accept_in_progress (request_at b r)"
      and i: "find_index (\<lambda>offer. offer_type offer = request_type (request_at b r)) (pendingTaskOffers b) = Some i"
      by auto
    note step = settleRequest_matched [OF free i, of cfg]
    let ?offer = "pendingTaskOffers b ! i"
    have fields: "pendingTaskOffers ?b = splice1 i (pendingTaskOffers b)" "next_task ?b = Suc (next_task b)"
      "accepting ?b = map_set (draw_id cfg (next_task b)) (AwaitRunner ?offer r False Waiting) (accepting b)"
      "knownRunners ?b = knownRunners b" "pendingTaskRequests ?b = pendingTaskRequests b"
      "request_objects ?b = (request_objects b)[r := (request_at b r)\<lparr>accept_in_progress := True\<rparr>]"
      by (subst step, simp add: started_def)+
    have "request_at ?b x = request_at b x" if "x \<in> set rs" for x
    proof -
      have "x \<noteq> r" using that Cons.prems(1) by auto
      then show ?thesis by (simp add: request_at_def fields(6))
    qed
    then have wait: "waiting_requests ?b rs = waiting_requests b rs"
      by (auto simp: waiting_requests_def cong: filter_cong)
    have "match_offers (waiting_requests b (r # rs)) (pendingTaskOffers b)
        = (let (ms, rest) = match_offers (waiting_requests b rs) (splice1 i (pendingTaskOffers b)) in ((r, ?offer) # ms, rest))"
      using free i by (simp add: waiting_requests_def)
    moreover have "\<forall>x \<in> set rs. x < length (request_objects ?b)" "distinct rs"
      using Cons.prems by (auto simp: fields(6))
    ultimately show ?thesis
      using Cons.IH [of ?b] settleRequest_messages [OF free i, of cfg] unfolding tail wait fields
      by (simp add: split_beta Let_def accept_messages_cong [OF fields(4)])
  qed
qed

lemma settleTasks_spec:
  assumes "broker_inv cfg b"
  shows "let (ms, rest) = match_offers (waiting_requests b (pendingTaskRequests b)) (usable_offers env b);
             (b', os) = settleTasks cfg env b
         in pendingTaskOffers b' = rest \<and> accepting b' = accept_all cfg (next_task b) ms (accepting b)
            \<and> os = accept_messages cfg b (next_task b) ms \<and> pendingTaskRequests b' = pendingTaskRequests b"
proof -
  let ?b = "discardOffersFromUnreachableRunners env (expireTasks env b)"
  have frame: "pendingTaskRequests ?b = pendingTaskRequests b" "request_objects ?b = request_objects b"
    "next_task ?b = next_task b" "accepting ?b = accepting b" "knownRunners ?b = knownRunners b"
    by (simp_all add: discardOffersFromUnreachableRunners_def expireTasks_def discardOffers_def)
  have offers: "pendingTaskOffers ?b = usable_offers env b"
    by (auto simp: discardOffersFromUnreachableRunners_def expireTasks_def discardOffers_def usable_offers_def
        not_less intro!: filter_cong)
  have "waiting_requests ?b rs = waiting_requests b rs" for rs
    by (simp add: waiting_requests_def request_at_def frame)
  with settle_all [of "pendingTaskRequests b" ?b cfg] assms show ?thesis
    by (simp add: settleTasks_def Let_def frame offers broker_inv_def requests_inv_def split_beta
        accept_messages_cong [OF frame(5)])
qed

end
