(* ===== verification/Broker_Properties.thy ===== *)
theory Broker_Properties
  imports Broker_Matching
begin

text \<open>The properties of the task broker, each with a witness. The ids that \<open>nanoid\<close> draws are taken to
  be different from each other.\<close>

section \<open>Fixtures\<close>

definition sample_broker_config :: broker_config where
  "sample_broker_config = \<lparr>task_timeout = 60, task_request_timeout = 20, task_accept_timeout = 10,
     mode_of_runners = Internal, cloud_broker = False, draw_id = show_nat\<rparr>"

lemma inj_sample: "inj (draw_id sample_broker_config)"
  by (simp add: sample_broker_config_def inj_def show_nat_inj)

definition sample_env :: environment where
  "sample_env = \<lparr>now = 0, reachable = \<lambda>_. True\<rparr>"

definition empty_broker :: broker where
  "empty_broker = \<lparr>knownRunners = [], requesters = [], tasks = [], isDraining = False,
     runnerAcceptRejects = [], requesterAcceptRejects = [], consecutiveAcceptTimeouts = [],
     pendingTaskOffers = [], pendingTaskRequests = [], mismatchWarned = [],
     request_objects = [], timers = [], accepting = [], timing_out = [], next_task = 0\<rparr>"

lemma new_sample: "new_broker sample_broker_config = Inr empty_broker"
  by code_simp

text \<open>A runner offers, a requester asks, and the task runs to its end.\<close>

definition first_calls :: "broker_call list" where
  "first_calls =
     [RegisterRequester ''q'',
      RegisterRunner \<lparr>runner_id = ''r'', runner_task_types = [''js'']\<rparr>,
      FromRequester ''q'' (RequesterTaskRequest ''1'' ''js''),
      FromRunner ''r'' (RunnerTaskOffer ''o'' ''js'' (- 1)),
      FromRunner ''r'' (RunnerTaskAccepted ''0''),
      MessageSent ''0'', Resume ''0'', MessageSent ''0'']"

definition later_calls :: "broker_call list" where
  "later_calls =
     [FromRequester ''q'' (RequesterTaskSettings ''0'' JNull), Resume ''0'', MessageSent ''0'',
      FromRunner ''r'' (RunnerTaskDone ''0'' (JBool True)),
      FromRunner ''r'' (RunnerTaskDone ''0'' (JBool False))]"

definition with_env :: "broker_call list \<Rightarrow> (environment \<times> broker_call) list" where
  "with_env = map (\<lambda>c. (sample_env, c))"

definition asked_broker :: broker where
  "asked_broker = empty_broker\<lparr>requesters := [''q''],
     pendingTaskRequests := [0],
     request_objects := [\<lparr>request_id = ''1'', requester_id = ''q'', request_type = ''js'',
       accept_in_progress = False, timeout_refreshes = 0\<rparr>],
     timers := [RequestTimer 0]\<rparr>"

lemma runs_asked:
  "runs broker_ok (exec_broker sample_broker_config) empty_broker
     (with_env [RegisterRequester ''q'', FromRequester ''q'' (RequesterTaskRequest ''1'' ''js'')]) [] asked_broker"
  by (rule run_all_runs) code_simp

lemma reachable_inv:
  assumes "new_broker cfg = Inr b" and "inj (draw_id cfg)" and "runs broker_ok (exec_broker cfg) b cs os b'"
  shows "broker_inv cfg b'"
proof -
  have "broker_inv_drawn cfg b" using new_broker_inv [OF assms(1)] assms(2) by (simp add: broker_inv_drawn_def)
  with assms(3) have "broker_inv_drawn cfg b'" by (rule task_broker.invariant)
  then show ?thesis by (simp add: broker_inv_drawn_def)
qed

section \<open>Properties\<close>

text \<open>C35: in every state that the broker reaches, the pending requests are different, and a pending
  request is marked as being accepted exactly while one call of \<open>acceptOffer\<close>, and only one, waits
  for a runner on its behalf: no request is given to two runners at a time and none is left marked
  with nobody to accept it.\<close>

theorem broker_acceptance:
  assumes "new_broker cfg = Inr b" and "inj (draw_id cfg)" and "runs broker_ok (exec_broker cfg) b cs os b'"
  shows "distinct (pendingTaskRequests b')
    \<and> (\<forall>r \<in> set (pendingTaskRequests b').
        accept_in_progress (request_at b' r) = (\<exists>t. awaits b' t r)
        \<and> (\<forall>t t'. awaits b' t r \<and> awaits b' t' r \<longrightarrow> t = t'))"
  using reachable_inv [OF assms]
  by (auto simp: broker_inv_def requests_inv_def acceptance_inv_def)

theorem broker_acceptance_witness:
  "distinct (pendingTaskRequests asked_broker) \<and> (\<exists>t. awaits asked_broker t 0) = False"
  using broker_acceptance [OF new_sample inj_sample runs_asked]
  by (auto simp: asked_broker_def request_at_def)

text \<open>C36: nothing waits for ever: in every reachable state a pending request has its expiry timer set,
  and a call of \<open>acceptOffer\<close> that waits for the answer of a runner or of a requester has the timer
  set that rejects it.\<close>

theorem broker_waits_end:
  assumes "new_broker cfg = Inr b" and "inj (draw_id cfg)" and "runs broker_ok (exec_broker cfg) b cs os b'"
  shows "RequestTimer ` set (pendingTaskRequests b') \<subseteq> set (timers b')
    \<and> {RunnerAcceptTimer t | t. \<exists>offer r sent. map_of (accepting b') t = Some (AwaitRunner offer r sent Waiting)}
        \<subseteq> set (timers b')
    \<and> {RequesterAcceptTimer t | t. \<exists>r sent. map_of (accepting b') t = Some (AwaitRequester r sent Waiting)}
        \<subseteq> set (timers b')"
  using reachable_inv [OF assms] by (auto simp: broker_inv_def timers_inv_def)

theorem broker_waits_end_witness: "RequestTimer ` {0} \<subseteq> set (timers asked_broker)"
  using broker_waits_end [OF new_sample inj_sample runs_asked] by (simp add: asked_broker_def)

text \<open>C33: a requester is told at most one result of a task, however often the runner reports it,
  whoever cancels it, whatever disconnects and whichever timers fire.\<close>

theorem broker_one_result:
  assumes "new_broker cfg = Inr b" and "inj (draw_id cfg)" and "runs broker_ok (exec_broker cfg) b cs os b'"
  shows "results t os \<le> 1"
proof -
  have "broker_inv_drawn cfg b" using new_broker_inv [OF assms(1)] assms(2) by (simp add: broker_inv_drawn_def)
  from results_of_runs [OF assms(3) this, of t] show ?thesis by (simp add: credit_def split: if_splits)
qed

definition whole_run :: "(broker \<times> broker_output list) option" where
  "whole_run = run_all broker_ok (exec_broker sample_broker_config) (with_env (first_calls @ later_calls)) empty_broker"

lemma whole_run_messages:
  "case whole_run of None \<Rightarrow> False
   | Some (b, os) \<Rightarrow> os = [ToRunner ''r'' RunnerRegistered, ToRunner ''r'' (TaskOfferAccept ''o'' ''0''),
       ToRequester ''q'' (TaskReady ''1'' ''0''), ToRunner ''r'' (TaskSettings ''0'' JNull),
       ToRequester ''q'' (TaskDone ''0'' (JBool True))]"
  by code_simp

theorem broker_one_result_witness:
  "results ''0'' [ToRunner ''r'' RunnerRegistered, ToRunner ''r'' (TaskOfferAccept ''o'' ''0''),
     ToRequester ''q'' (TaskReady ''1'' ''0''), ToRunner ''r'' (TaskSettings ''0'' JNull),
     ToRequester ''q'' (TaskDone ''0'' (JBool True))] \<le> 1"
proof -
  obtain b where "whole_run = Some (b, [ToRunner ''r'' RunnerRegistered, ToRunner ''r'' (TaskOfferAccept ''o'' ''0''),
       ToRequester ''q'' (TaskReady ''1'' ''0''), ToRunner ''r'' (TaskSettings ''0'' JNull),
       ToRequester ''q'' (TaskDone ''0'' (JBool True))])"
    using whole_run_messages by (auto split: option.splits)
  from broker_one_result [OF new_sample inj_sample run_all_runs [OF this [unfolded whole_run_def]]]
  show ?thesis .
qed

text \<open>C34: \<open>settleTasks\<close> serves the waiting requests in their order, each with the first offer of its
  type that is left, valid and not from an unreachable runner, exactly as the reference matching
  does: it starts one acceptance and sends one message for each pair, uses no offer twice, loses
  none that is usable, and leaves no request waiting beside a usable offer of its type.\<close>

theorem settleTasks_matching:
  assumes "new_broker cfg = Inr b0" and "inj (draw_id cfg)" and "runs broker_ok (exec_broker cfg) b0 cs os0 b"
    and "settleTasks cfg env b = (b', os)"
    and "match_offers (waiting_requests b (pendingTaskRequests b)) (usable_offers env b) = (ms, rest)"
  shows "accepting b' = accept_all cfg (next_task b) ms (accepting b)
    \<and> os = accept_messages cfg b (next_task b) ms \<and> pendingTaskOffers b' = rest
    \<and> mset (usable_offers env b) = mset rest + mset (map snd ms)
    \<and> (\<forall>(r, ty) \<in> set (waiting_requests b (pendingTaskRequests b)).
         r \<in> fst ` set ms \<or> ty \<notin> offer_type ` set rest)"
  using settleTasks_spec [OF reachable_inv [OF assms(1-3)], of env] assms(4,5)
    match_offers_spec [of "usable_offers env b" "waiting_requests b (pendingTaskRequests b)"]
  by (auto simp: Let_def)

text \<open>A request that was put off beside a second offer.\<close>

definition deferred_calls :: "broker_call list" where
  "deferred_calls =
     [RegisterRequester ''q'', RegisterRunner \<lparr>runner_id = ''r'', runner_task_types = [''js'']\<rparr>,
      FromRunner ''r'' (RunnerTaskOffer ''o1'' ''js'' (- 1)), FromRunner ''r'' (RunnerTaskOffer ''o2'' ''js'' (- 1)),
      FromRequester ''q'' (RequesterTaskRequest ''1'' ''js''),
      FromRunner ''r'' (RunnerTaskDeferred ''0''), MessageSent ''0'', Resume ''0'']"

definition second_offer :: task_offer where
  "second_offer = \<lparr>offer_id = ''o2'', offer_runner = ''r'', offer_type = ''js'', valid_for = - 1, valid_until = 0\<rparr>"

theorem settleTasks_matching_witness:
  "\<exists>b. pendingTaskOffers b = [second_offer] \<and> pendingTaskOffers (fst (settleTasks sample_broker_config sample_env b)) = []
     \<and> snd (settleTasks sample_broker_config sample_env b) = [ToRunner ''r'' (TaskOfferAccept ''o2'' ''1'')]"
proof -
  have "case run_all broker_ok (exec_broker sample_broker_config) (with_env deferred_calls) empty_broker of
      None \<Rightarrow> False
    | Some (b, os) \<Rightarrow> pendingTaskOffers b = [second_offer] \<and>
        match_offers (waiting_requests b (pendingTaskRequests b)) (usable_offers sample_env b) = ([(0, second_offer)], [])
        \<and> accept_messages sample_broker_config b (next_task b) [(0, second_offer)]
            = [ToRunner ''r'' (TaskOfferAccept ''o2'' ''1'')]"
    by code_simp
  then obtain b os where run: "run_all broker_ok (exec_broker sample_broker_config) (with_env deferred_calls) empty_broker
        = Some (b, os)" and offers: "pendingTaskOffers b = [second_offer]"
    and match: "match_offers (waiting_requests b (pendingTaskRequests b)) (usable_offers sample_env b)
        = ([(0, second_offer)], [])"
    and sent: "accept_messages sample_broker_config b (next_task b) [(0, second_offer)]
            = [ToRunner ''r'' (TaskOfferAccept ''o2'' ''1'')]"
    by (auto split: option.splits)
  from settleTasks_matching [OF new_sample inj_sample run_all_runs [OF run] prod.collapse [symmetric] match]
  show ?thesis using offers sent by auto
qed

text \<open>A request has its expiry postponed three times at most, and a runner that misses three
  acknowledgements in a row is reported, so its count stays below three.\<close>

lemma broker_counts:
  assumes "new_broker cfg = Inr b" and "inj (draw_id cfg)" and "runs broker_ok (exec_broker cfg) b cs os b'"
  shows "list_all (\<lambda>request. timeout_refreshes request \<le> 3) (request_objects b')
    \<and> (case map_of (consecutiveAcceptTimeouts b') r of Some n \<Rightarrow> n < 3 | None \<Rightarrow> True)"
  using reachable_inv [OF assms]
  by (auto simp: broker_inv_def bounds_inv_def list_all_iff
      MAX_REQUEST_TIMEOUT_REFRESHES_def MAX_CONSECUTIVE_ACCEPT_TIMEOUTS_def split: option.split)

lemma broker_counts_example:
  "list_all (\<lambda>request. timeout_refreshes request \<le> 3) (request_objects asked_broker)"
  using broker_counts [OF new_sample inj_sample runs_asked] by simp

section \<open>A departure from the description\<close>

text \<open>\<open>handleResponse\<close> looks up a runner under the requester's id.\<close>

lemma handleResponse_reaches_nobody:
  assumes "map_of (tasks b) taskId = Some t" and "\<not> map_has (knownRunners b) (task_requester t)"
  shows "handleResponse taskId requestId data b = (b, [])"
  using assms by (simp add: handleResponse_def messageRunner_def)

end
