(* ===== verification/Spec2Isabelle.thy ===== *)
theory Spec2Isabelle
  imports Graph_Properties Partial_Execution_Properties Workflow_Properties Workflow_Class_Properties
    Execution_Findings Partial_Run_Properties Grouping_Properties Version_Properties
    Parameter_Order
    Concurrency_Properties Broker_Properties
begin

text \<open>
  A verification of the execution core of n8n: the graph and the connections of a workflow, the partial
  execution that reruns a part of it, the limits on how many executions run at a time, and the broker
  that hands tasks to runner processes.

  \<^bold>\<open>The parts and how they interact.\<close> A workflow is a set of nodes and nested connections
  (\<open>packages/workflow/src\<close>). To run a part of it, \<open>packages/core/src/execution-engine\<close> turns it into a
  \<open>DirectedGraph\<close>, filters disabled nodes, cuts the subgraph between trigger and destination, finds the
  nodes to start from, moves start nodes out of cycles, drops stale run data and rebuilds the execution
  stack. Whether an execution may start at all is decided by \<open>packages/cli/src/concurrency\<close>; code nodes
  hand their work to runners through the broker in \<open>packages/cli/src/task-runners/task-broker\<close>.

  \<^bold>\<open>Foundations.\<close> \<open>Prelude\<close> holds results of calls that may throw, \<open>Map\<close>, \<open>Set\<close> and plain objects
  in enumeration order, array accesses and stable sorting. \<open>Workflow_Types\<close> is the data of
  \<open>interfaces.ts\<close>. \<open>Machines\<close> holds runs of a component that its callers drive by calls, and the
  interfaces \<open>invariant_machine\<close> and \<open>refinement_machine\<close>. \<open>Fixtures\<close> holds concrete graphs.

  \<^bold>\<open>Partial execution.\<close> \<open>Directed_Graph\<close>, \<open>Graph_Search\<close>, \<open>Graph_Components\<close> are
  \<open>directed-graph.ts\<close> (editing, traversals, strongly connected components); \<open>Disabled_Nodes\<close> is
  \<open>filter-disabled-nodes.ts\<close>; \<open>Start_Nodes\<close> is \<open>find-start-nodes.ts\<close>, \<open>handle-cycles.ts\<close> and
  \<open>get-incoming-data.ts\<close>; \<open>Subgraph\<close> is \<open>find-subgraph.ts\<close>; \<open>Run_Data\<close> is \<open>clean-run-data.ts\<close> and
  \<open>run-data-utils.ts\<close>; \<open>Source_Groups\<close> is \<open>get-source-data-groups.ts\<close>; \<open>Execution_Stack\<close> is
  \<open>recreate-node-execution-stack.ts\<close>. The lemmas characterise the traversals by reachability, show that
  every operation keeps a graph well-formed, and say what each step computes, assertions included.
  \<open>Graph_Properties\<close> and \<open>Partial_Execution_Properties\<close> state the results.

  \<^bold>\<open>Connections of a workflow.\<close> \<open>Connected_Nodes\<close> is \<open>common/get-connected-nodes.ts\<close>, a memoised
  depth-bounded search; \<open>Connection_Maps\<close> is \<open>common/map-connections-by-destination.ts\<close> and
  \<open>connections-diff.ts\<close>; \<open>Extractable\<close> is \<open>graph/graph-utils.ts\<close>, which selections of nodes can become
  a workflow of their own. \<open>Workflow_Properties\<close> states the results.

  \<^bold>\<open>The class Workflow.\<close> \<open>Workflow_Class\<close> is the state of \<open>workflow.ts\<close>, its queries and
  \<open>renameNode\<close>; \<open>Workflow_Rename\<close> shows what a renaming does to nodes and connections;
  \<open>Workflow_Search\<close> is the breadth-first search, described by distances; \<open>Connection_Index\<close> is
  \<open>getNodeConnectionIndexes\<close>, a partial function that is shown to return; \<open>Workflow_Start\<close> finds the
  highest parents and the start node. \<open>Workflow_Class_Properties\<close> states the results.

  \<^bold>\<open>The execution loop.\<close> \<open>Execution_State\<close> is the state of the class \<open>WorkflowExecute\<close>
  (\<open>workflow-execute.ts\<close>): the stack, the executions that wait, the run data. \<open>Node_Queueing\<close> is
  \<open>addNodeToBeExecuted\<close>; \<open>Engine_Requests\<close> is \<open>requests-response.ts\<close>, by which an agent runs its
  tools; \<open>Node_Run\<close> and \<open>Node_Attempts\<close> run one node, with its retries, its error output and the
  pairing of items (\<open>resolve-source-overwrite.ts\<close> included); \<open>Loop_Steps\<close> records a run, queues the nodes
  behind a node and releases one that waits; \<open>Execution_Loop\<close> is the loop of
  \<open>processRunExecutionData\<close>, the start of a run and its final status. \<open>Node_Frames\<close> says what each step
  leaves alone. \<open>Packet_Delivery\<close> accounts for every packet of items by a measure, interpreted as a
  multiset and as a weight; \<open>Execution_Termination\<close> derives from the weights, which fall along the
  connections, a potential that every iteration lowers; \<open>Execution_Invariants\<close> is the invariant of the
  loop; \<open>Execution_Order\<close> is the order by position. \<open>Execution_Properties\<close> states the results, and
  \<open>Execution_Findings\<close> holds small runs that end in an unexpected way.

  \<^bold>\<open>Partial runs.\<close> \<open>Partial_Run\<close> is \<open>find-trigger-for-partial-execution.ts\<close>, \<open>rewire-graph.ts\<close>
  and \<open>runPartialWorkflow2\<close>, which goes through the steps of the partial execution and enters the loop.
  \<open>Graph_Import\<close> says what graph \<open>fromWorkflow\<close> makes of a workflow, \<open>Partial_Composition\<close> that each
  step finds what it asserts, \<open>Partial_Start\<close> that the state it ends in fits the loop.
  \<open>Partial_Run_Properties\<close> states the results: which errors can occur before the loop, and that a
  partial run returns.

  \<^bold>\<open>Saving a workflow.\<close> \<open>Structure_Validation\<close> is \<open>workflow-structure-validation.ts\<close>: the checks
  of a payload's graph, whose issues are shown to be exactly the violations, and what an accepted payload
  loads as. \<open>Node_Grouping\<close> and \<open>Group_Validation\<close> are \<open>node-grouping-validation.ts\<close>: which selections can
  be extracted or grouped, and which groups can be saved with a workflow. The search for connected
  selections is shown to decide connectivity, an accepted group to obey what the code enforces, which is
  less than the rules that are stated to users (see the findings), and each reason of a refusal to name a
  violation. \<open>Grouping_Properties\<close> states the results.

  \<^bold>\<open>The history of a workflow.\<close> \<open>Workflow_Diff\<close> and \<open>Version_History\<close> are \<open>workflow-diff.ts\<close> with
  \<open>pruneHistory\<close> of \<open>workflow-history.repository.ts\<close> and the rules of
  \<open>workflow-history-compaction.service.ts\<close>: the difference of two versions, when the older of them can be
  dropped, and which versions the compaction deletes. \<open>Version_Properties\<close> shows what stays of a deleted
  version, and that it is not deleted where it must not be.

  \<^bold>\<open>Parameters of a node.\<close> \<open>Parameter_Order\<close> is the part of \<open>node-helpers.ts\<close> that orders the parameters
  of a node by the parameters on which their display depends; the loop is shown to end, and each parameter
  to stand behind all it depends on.

  \<^bold>\<open>Concurrency.\<close> \<open>Concurrency_Queue\<close> is \<open>concurrency-queue.ts\<close> with the abstract limiter it
  refines; \<open>Concurrency_Control\<close> is \<open>concurrency-control.service.ts\<close>, the reservations and
  \<open>evaluation-concurrency.helper.ts\<close>. Each queue of the service is a limiter, from the first call for an
  evaluation on where the license sets the limit; \<open>removeAll\<close> and \<open>disable\<close> are calls like the others.
  \<open>Concurrency_Properties\<close> states the invariants, the refinement, who is released when, and which
  errors can occur.

  \<^bold>\<open>Task broker.\<close> \<open>Broker_Messages\<close> is \<open>message-types.ts\<close>; \<open>Task_Broker\<close> and \<open>Broker_Handlers\<close> are
  \<open>task-broker.service.ts\<close>, the asynchronous \<open>acceptOffer\<close> cut at its \<open>await\<close>s and the timers part of
  the state. \<open>Broker_Invariants\<close>, \<open>Broker_Steps\<close> and \<open>Broker_Calls\<close> show the invariant and the account
  of results step by step, \<open>Broker_Matching\<close> compares \<open>settleTasks\<close> with a reference matching, and
  \<open>Broker_Properties\<close> states the results for every run.

  \<^bold>\<open>Parameters and bounds.\<close> \<open>localeCompare\<close> is a parameter with the laws of a total preorder; the
  clock, the registry of node types, the schema check of a payload (the library \<open>zod\<close>),
  the comparison of objects (the library \<open>lodash\<close>), the rewriting of expression texts, the reachability of a runner and the ids that \<open>nanoid\<close> draws are parameters, the ids taken to
  be different; the license is a parameter of the concurrency service. The execution loop takes
  what a call of a node returns, whether the run was canceled, the issues of a node's parameters and the
  items that the data proxy pairs as parameters. The loop is given fuel for its iterations: on a workflow
  without cycles whose nodes make no requests the potential of the state is enough, and more fuel gives the
  same result; a workflow with a cycle may run forever. Every other loop
  over a cyclic graph comes with the measure that ends it, or is a partial function with a proof that it
  returns. Object identity is
  the field \<open>node_ref\<close> of a node and the index of a task request.

  \<^bold>\<open>Not modelled.\<close> Of \<open>workflow-execute.ts\<close>: the lifecycle hooks, times, binary data, telemetry,
  dynamic credentials, close functions of triggers, \<open>moveNodeMetadata\<close>. The static data and settings of a workflow; keys of plain
  objects that name properties of \<open>Object.prototype\<close>; inputs of a node that are set to \<open>undefined\<close>, on which
  the pairing of items throws (a slot \<open>Undef\<close> is a hole of the array); log messages; the transports of messages, the
  database and the user interface; the integrations under \<open>packages/nodes-base\<close>, which call external
  services.
\<close>

end
